(* ===== verification/Rfs_Prelude.thy ===== *)
theory Rfs_Prelude
  imports
    Main
    "HOL-Library.Word"
    "HOL-Library.List_Lexorder"
    "HOL-Library.Monad_Syntax"
begin

text \<open>
  Shared vocabulary of the development: byte strings and their endian encodings, the slice
  operations of Rust (\<open>&buf[a..b]\<close>, \<open>copy_from_slice\<close>), the order of byte strings
  (Rust compares slices lexicographically, which is the order of \<open>HOL-Library.List_Lexorder\<close>),
  \<open>slice::binary_search_by\<close>, and the state-and-error monad in which every operation that
  touches the block store is written.

  Conventions used everywhere below: \<open>u8\<close>, \<open>u16\<close>, \<open>u32\<close>, \<open>u64\<close> are machine words and keep
  their wrap-around; \<open>usize\<close> indices and lengths are \<open>nat\<close>.  A fallible Rust function returns
  \<open>Inl (Err e)\<close> for \<open>Err(e)\<close>, \<open>Inl Panic\<close> for a failed \<open>assert!\<close>/\<open>expect\<close>/\<open>unwrap\<close> and
  \<open>Inl Diverge\<close> when the recursion budget of a pointer walk is exhausted (which the correctness
  theorems exclude).  Pure node operations that can only panic return an \<open>option\<close>.
\<close>

named_theorems mon_simps \<open>unfolding rules of the state-and-error monad\<close>
named_theorems len_simps \<open>lengths of encodings\<close>
named_theorems roundtrip_simps \<open>decode after encode\<close>

type_synonym byte = "8 word"
type_synonym u8 = "8 word"
type_synonym u16 = "16 word"
type_synonym u32 = "32 word"
type_synonym u64 = "64 word"
type_synonym bytes = "byte list"

section \<open>Slices\<close>

text \<open>\<open>&xs[off..off + len]\<close> and \<open>xs[off..off + ys.len()].copy_from_slice(ys)\<close>.\<close>

definition bslice :: "nat \<Rightarrow> nat \<Rightarrow> 'a list \<Rightarrow> 'a list" where
  "bslice off len xs = take len (drop off xs)"

definition bsplice :: "nat \<Rightarrow> 'a list \<Rightarrow> 'a list \<Rightarrow> 'a list" where
  "bsplice off ys xs = take off xs @ ys @ drop (off + length ys) xs"

lemma length_bslice [simp, len_simps]: "length (bslice off len xs) = min len (length xs - off)"
  by (simp add: bslice_def min.commute)

lemma length_bsplice [simp, len_simps]:
  "off + length ys \<le> length xs \<Longrightarrow> length (bsplice off ys xs) = length xs"
  by (simp add: bsplice_def)

lemma bslice_bsplice_same [simp]:
  "off \<le> length xs \<Longrightarrow> bslice off (length ys) (bsplice off ys xs) = ys"
  by (simp add: bslice_def bsplice_def)

lemma bslice_append_left: "off + len \<le> length xs \<Longrightarrow> bslice off len (xs @ ys) = bslice off len xs"
  by (simp add: bslice_def)

lemma bslice_append_right: "length xs \<le> off \<Longrightarrow> bslice off len (xs @ ys) = bslice (off - length xs) len ys"
  by (simp add: bslice_def)

lemma bslice_full: "length xs = len \<Longrightarrow> bslice 0 len xs = xs"
  by (simp add: bslice_def)

lemma bslice_bslice: "i + len \<le> n \<Longrightarrow> bslice i len (bslice off n xs) = bslice (off + i) len xs"
  by (simp add: bslice_def drop_take add.commute min_def)

lemma bslice_bsplice_before:
  "off + len \<le> i \<Longrightarrow> i \<le> length xs \<Longrightarrow> bslice off len (bsplice i ys xs) = bslice off len xs"
  by (auto simp: bslice_def bsplice_def drop_take min_def)

lemma bslice_bsplice_after:
  assumes "i + length ys \<le> off" "i + length ys \<le> length xs"
  shows "bslice off len (bsplice i ys xs) = bslice off len xs"
proof -
  have "drop off (bsplice i ys xs) = drop (off - i - length ys) (drop (i + length ys) xs)"
    using assms by (simp add: bsplice_def)
  also have "\<dots> = drop off xs" using assms by simp
  finally show ?thesis by (simp add: bslice_def)
qed

lemma bsplice_middle: "length a = off \<Longrightarrow> length b = length b' \<Longrightarrow> bsplice off b' (a @ b @ c) = a @ b' @ c"
  by (simp add: bsplice_def)

section \<open>Endian encodings\<close>

fun le_bytes :: "nat \<Rightarrow> nat \<Rightarrow> bytes" where
  "le_bytes 0 x = []"
| "le_bytes (Suc n) x = of_nat (x mod 256) # le_bytes n (x div 256)"

fun le_nat :: "bytes \<Rightarrow> nat" where
  "le_nat [] = 0"
| "le_nat (b # bs) = unat b + 256 * le_nat bs"

definition be_bytes :: "nat \<Rightarrow> nat \<Rightarrow> bytes" where
  "be_bytes n x = rev (le_bytes n x)"

definition be_nat :: "bytes \<Rightarrow> nat" where
  "be_nat bs = le_nat (rev bs)"

lemma length_le_bytes [simp, len_simps]: "length (le_bytes n x) = n"
  by (induction n arbitrary: x) auto

lemma length_be_bytes [simp, len_simps]: "length (be_bytes n x) = n"
  by (simp add: be_bytes_def)

lemma le_nat_zeros: "le_nat (replicate n 0) = 0"
  by (induction n) auto

lemma le_nat_le_bytes: "le_nat (le_bytes n x) = x mod 256 ^ n"
proof (induction n arbitrary: x)
  case (Suc n)
  have "unat (of_nat (x mod 256) :: byte) = x mod 256"
    by (simp add: unat_of_nat)
  with Suc show ?case
    by (simp add: mod_mult2_eq)
qed simp

lemma le_nat_bound: "le_nat bs < 256 ^ length bs"
proof (induction bs)
  case (Cons b bs)
  have "unat b < 256" using unsigned_less [of b] by simp
  moreover have "le_nat bs + 1 \<le> 256 ^ length bs" using Cons.IH by simp
  then have "256 * (le_nat bs + 1) \<le> 256 * 256 ^ length bs" by (rule mult_le_mono2)
  ultimately show ?case by (simp add: algebra_simps)
qed simp

lemma le_bytes_le_nat: "le_bytes (length bs) (le_nat bs) = bs"
proof (induction bs)
  case (Cons b bs)
  have b: "unat b < 256" using unsigned_less [of b] by simp
  then have "(unat b + 256 * le_nat bs) mod 256 = unat b"
    and "(unat b + 256 * le_nat bs) div 256 = le_nat bs" by simp_all
  with Cons.IH show ?case by simp
qed simp

lemma be_nat_be_bytes: "be_nat (be_bytes n x) = x mod 256 ^ n"
  by (simp add: be_nat_def be_bytes_def le_nat_le_bytes)

lemma be_bytes_be_nat: "be_bytes (length bs) (be_nat bs) = bs"
  using le_bytes_le_nat [of "rev bs"] by (simp add: be_nat_def be_bytes_def)

lemma le_bytes_inj:
  "x < 256 ^ n \<Longrightarrow> y < 256 ^ n \<Longrightarrow> le_bytes n x = le_bytes n y \<longleftrightarrow> x = y"
  by (metis le_nat_le_bytes mod_less)

lemma be_bytes_inj:
  "x < 256 ^ n \<Longrightarrow> y < 256 ^ n \<Longrightarrow> be_bytes n x = be_bytes n y \<longleftrightarrow> x = y"
  by (simp add: be_bytes_def le_bytes_inj)

text \<open>\<open>to_le_bytes\<close>/\<open>to_be_bytes\<close> and their inverses at the widths the code uses.\<close>

definition u16_le :: "u16 \<Rightarrow> bytes" where "u16_le w = le_bytes 2 (unat w)"
definition u32_le :: "u32 \<Rightarrow> bytes" where "u32_le w = le_bytes 4 (unat w)"
definition u64_le :: "u64 \<Rightarrow> bytes" where "u64_le w = le_bytes 8 (unat w)"
definition u32_be :: "u32 \<Rightarrow> bytes" where "u32_be w = be_bytes 4 (unat w)"
definition u64_be :: "u64 \<Rightarrow> bytes" where "u64_be w = be_bytes 8 (unat w)"

definition u16_of_le :: "bytes \<Rightarrow> u16" where "u16_of_le bs = of_nat (le_nat bs)"
definition u32_of_le :: "bytes \<Rightarrow> u32" where "u32_of_le bs = of_nat (le_nat bs)"
definition u64_of_le :: "bytes \<Rightarrow> u64" where "u64_of_le bs = of_nat (le_nat bs)"
definition u32_of_be :: "bytes \<Rightarrow> u32" where "u32_of_be bs = of_nat (be_nat bs)"
definition u64_of_be :: "bytes \<Rightarrow> u64" where "u64_of_be bs = of_nat (be_nat bs)"

lemma length_word_bytes [simp, len_simps]:
  "length (u16_le a) = 2" "length (u32_le b) = 4" "length (u64_le c) = 8"
  "length (u32_be b) = 4" "length (u64_be c) = 8"
  by (simp_all add: u16_le_def u32_le_def u64_le_def u32_be_def u64_be_def)

lemma unat_bounds:
  "unat (a :: u8) < 256" "unat (b :: u16) < 65536" "unat (c :: u32) < 4294967296"
  "unat (d :: u64) < 18446744073709551616"
  using unsigned_less [of a, where 'a = nat] unsigned_less [of b, where 'a = nat]
    unsigned_less [of c, where 'a = nat] unsigned_less [of d, where 'a = nat] by simp_all

lemma unat_of_nat_small:
  "n < 256 \<Longrightarrow> unat (of_nat n :: u8) = n" "n < 65536 \<Longrightarrow> unat (of_nat n :: u16) = n"
  "Suc n < 256 \<Longrightarrow> unat (1 + of_nat n :: u8) = Suc n" "Suc n < 65536 \<Longrightarrow> unat (1 + of_nat n :: u16) = Suc n"
  using unat_of_nat [where 'a = 8, of n] unat_of_nat [where 'a = 16, of n]
    unat_of_nat [where 'a = 8, of "Suc n"] unat_of_nat [where 'a = 16, of "Suc n"] by simp_all

lemma unat_Suc_small: "unat (n :: u64) < 2 ^ 52 \<Longrightarrow> unat (n + 1) = unat n + 1"
  using unat_bounds(4) [of n] by (simp add: unat_word_ariths(1))

lemma word_bytes_roundtrip [simp, roundtrip_simps]:
  "u16_of_le (u16_le a) = a" "u32_of_le (u32_le b) = b" "u64_of_le (u64_le c) = c"
  "u32_of_be (u32_be b) = b" "u64_of_be (u64_be c) = c"
  using unat_bounds(2) [of a] unat_bounds(3) [of b] unat_bounds(4) [of c]
  by (simp_all add: u16_le_def u32_le_def u64_le_def u32_be_def u64_be_def u16_of_le_def
      u32_of_le_def u64_of_le_def u32_of_be_def u64_of_be_def le_nat_le_bytes be_nat_be_bytes)

lemma u32_be_of_be: "length bs = 4 \<Longrightarrow> u32_be (u32_of_be bs) = bs"
  using le_nat_bound [of "rev bs"] be_bytes_be_nat [of bs]
  by (simp add: u32_be_def u32_of_be_def unat_of_nat be_nat_def)

lemma u64_be_of_be: "length bs = 8 \<Longrightarrow> u64_be (u64_of_be bs) = bs"
  using le_nat_bound [of "rev bs"] be_bytes_be_nat [of bs]
  by (simp add: u64_be_def u64_of_be_def unat_of_nat be_nat_def)

lemma u64_le_of_le: "length bs = 8 \<Longrightarrow> u64_le (u64_of_le bs) = bs"
  using le_nat_bound [of bs] le_bytes_le_nat [of bs]
  by (simp add: u64_le_def u64_of_le_def unat_of_nat)

lemma u32_le_of_le: "length bs = 4 \<Longrightarrow> u32_le (u32_of_le bs) = bs"
  using le_nat_bound [of bs] le_bytes_le_nat [of bs]
  by (simp add: u32_le_def u32_of_le_def unat_of_nat)

lemma u16_le_of_le: "length bs = 2 \<Longrightarrow> u16_le (u16_of_le bs) = bs"
  using le_nat_bound [of bs] le_bytes_le_nat [of bs]
  by (simp add: u16_le_def u16_of_le_def unat_of_nat)

lemma word_bytes_inj [simp]:
  "u32_be b = u32_be b' \<longleftrightarrow> b = b'" "u64_be c = u64_be c' \<longleftrightarrow> c = c'"
  "u64_le c = u64_le c' \<longleftrightarrow> c = c'"
  by (metis word_bytes_roundtrip(4), metis word_bytes_roundtrip(5), metis word_bytes_roundtrip(3))

section \<open>Order of byte strings\<close>

lemma append_less_same [simp]: "(p @ xs < p @ ys) \<longleftrightarrow> (xs :: 'a :: linorder list) < ys"
  by (induction p) auto

lemma less_append_same_length:
  fixes xs ys :: "'a :: linorder list"
  shows "length xs = length ys \<Longrightarrow> (xs @ us < ys @ vs) \<longleftrightarrow> xs < ys \<or> xs = ys \<and> us < vs"
  by (induction xs ys rule: list_induct2) auto

lemma be_bytes_Suc: "be_bytes (Suc n) x = be_bytes n (x div 256) @ [of_nat (x mod 256)]"
  by (simp add: be_bytes_def)

text \<open>Big-endian encodings compare like the numbers they encode; this is why the key layout of
  the file system sorts naturally.\<close>

lemma be_bytes_less:
  "x < 256 ^ n \<Longrightarrow> y < 256 ^ n \<Longrightarrow> be_bytes n x < be_bytes n y \<longleftrightarrow> x < y"
proof (induction n arbitrary: x y)
  case 0
  then show ?case by (simp add: be_bytes_def)
next
  case (Suc n)
  let ?bx = "of_nat (x mod 256) :: byte" and ?by = "of_nat (y mod 256) :: byte"
  have dx: "x div 256 < 256 ^ n" and dy: "y div 256 < 256 ^ n"
    using Suc.prems by (simp_all add: less_mult_imp_div_less mult.commute)
  have low: "?bx < ?by \<longleftrightarrow> x mod 256 < y mod 256"
    by (simp add: word_less_nat_alt unat_of_nat)
  have "be_bytes (Suc n) x < be_bytes (Suc n) y \<longleftrightarrow>
      x div 256 < y div 256 \<or> x div 256 = y div 256 \<and> x mod 256 < y mod 256"
    using Suc.IH [OF dx dy] be_bytes_inj [OF dx dy] low
    by (simp add: be_bytes_Suc less_append_same_length)
  also have "\<dots> \<longleftrightarrow> x < y"
    using div_mult_mod_eq [of x 256] div_mult_mod_eq [of y 256]
      mod_less_divisor [of 256 x] mod_less_divisor [of 256 y] by linarith
  finally show ?case .
qed

lemma u32_be_less [simp]: "u32_be a < u32_be b \<longleftrightarrow> a < b"
  using unat_bounds(3) [of a] unat_bounds(3) [of b]
  by (simp add: u32_be_def be_bytes_less word_less_nat_alt)

lemma u64_be_less [simp]: "u64_be a < u64_be b \<longleftrightarrow> a < b"
  using unat_bounds(4) [of a] unat_bounds(4) [of b]
  by (simp add: u64_be_def be_bytes_less word_less_nat_alt)


section \<open>\<open>slice::binary_search_by\<close>\<close>

datatype cmp_result = Less | Equal | Greater

definition cmp :: "'a :: linorder \<Rightarrow> 'a \<Rightarrow> cmp_result" where
  "cmp a b = (if a < b then Less else if a = b then Equal else Greater)"

text \<open>The halving loop of the standard library: \<open>base\<close> moves right unless the probe is greater.\<close>

function bs_loop :: "(nat \<Rightarrow> cmp_result) \<Rightarrow> nat \<Rightarrow> nat \<Rightarrow> nat" where
  "bs_loop f sz base =
     (if sz \<le> 1 then base
      else (let half = sz div 2; mid = base + half
            in bs_loop f (sz - half) (if f mid = Greater then base else mid)))"
  by pat_completeness auto
termination by (relation "measure (\<lambda>(f, sz, base). sz)") auto

declare bs_loop.simps [simp del]

text \<open>\<open>Inr i\<close> is Rust's \<open>Ok(i)\<close> (found), \<open>Inl i\<close> is \<open>Err(i)\<close> (insertion point).\<close>

definition binary_search_by :: "(nat \<Rightarrow> cmp_result) \<Rightarrow> nat \<Rightarrow> nat + nat" where
  "binary_search_by f n =
     (if n = 0 then Inl 0
      else (let base = bs_loop f n 0
            in case f base of Equal \<Rightarrow> Inr base | Less \<Rightarrow> Inl (base + 1) | Greater \<Rightarrow> Inl base))"

definition search_keys :: "'a :: linorder list \<Rightarrow> 'a \<Rightarrow> nat + nat" where
  "search_keys ks k = binary_search_by (\<lambda>i. cmp (ks ! i) k) (length ks)"

abbreviation sorted_keys :: "'a :: linorder list \<Rightarrow> bool" where
  "sorted_keys ks \<equiv> sorted_wrt (<) ks"

text \<open>Reference positions: number of keys below \<open>k\<close>, and number of keys not above \<open>k\<close>.\<close>

definition lower_bound :: "'a :: linorder list \<Rightarrow> 'a \<Rightarrow> nat" where
  "lower_bound ks k = length (takeWhile (\<lambda>x. x < k) ks)"

definition upper_bound :: "'a :: linorder list \<Rightarrow> 'a \<Rightarrow> nat" where
  "upper_bound ks k = length (takeWhile (\<lambda>x. x \<le> k) ks)"

lemma bs_loop_sorted:
  assumes "sorted_keys ks" "1 \<le> sz" "base + sz \<le> length ks"
    and "base = 0 \<or> ks ! base \<le> k" "\<And>j. base + sz \<le> j \<Longrightarrow> j < length ks \<Longrightarrow> k < ks ! j"
  shows "(let b = bs_loop (\<lambda>i. cmp (ks ! i) k) sz base
     in b < length ks \<and> (b = 0 \<or> ks ! b \<le> k) \<and> (\<forall>j. b < j \<longrightarrow> j < length ks \<longrightarrow> k < ks ! j))"
  using assms(2-)
proof (induction "\<lambda>i. cmp (ks ! i) k" sz base rule: bs_loop.induct)
  case (1 sz base)
  let ?half = "sz div 2" and ?f = "\<lambda>i. cmp (ks ! i) k"
  show ?case
  proof (cases "sz \<le> 1")
    case True
    then have "bs_loop ?f sz base = base" by (simp add: bs_loop.simps)
    with True "1.prems" show ?thesis by (auto simp: Let_def)
  next
    case False
    let ?mid = "base + ?half"
    let ?nb = "if ?f ?mid = Greater then base else ?mid"
    have mid: "?mid < length ks" using False "1.prems" by auto
    have big: "k < ks ! j" if "?f ?mid = Greater" "?mid \<le> j" "j < length ks" for j
    proof -
      have "k < ks ! ?mid" using that(1) by (auto simp: cmp_def split: if_splits)
      moreover have "ks ! ?mid \<le> ks ! j"
        using assms(1) that(2,3) by (cases "?mid = j") (auto simp: sorted_wrt_iff_nth_less less_imp_le)
      ultimately show ?thesis by simp
    qed
    have rec: "bs_loop ?f sz base = bs_loop ?f (sz - ?half) ?nb"
      using False by (subst bs_loop.simps) (simp add: Let_def)
    have "?nb = 0 \<or> ks ! ?nb \<le> k"
      using "1.prems"(3) by (auto simp: cmp_def split: if_splits)
    moreover have "\<And>j. ?nb + (sz - ?half) \<le> j \<Longrightarrow> j < length ks \<Longrightarrow> k < ks ! j"
      using False big "1.prems"(4) by (auto split: if_splits)
    moreover have "1 \<le> sz - ?half" "?nb + (sz - ?half) \<le> length ks"
      using False "1.prems"(2) by auto
    ultimately show ?thesis
      unfolding rec using "1.hyps" [OF False refl refl] by blast
  qed
qed

lemma takeWhile_length_eq:
  assumes "i \<le> length xs" "\<And>j. j < i \<Longrightarrow> P (xs ! j)" "i < length xs \<Longrightarrow> \<not> P (xs ! i)"
  shows "length (takeWhile P xs) = i"
proof -
  have "takeWhile P xs = take i xs"
    using assms by (intro takeWhile_eq_take_P_nth) auto
  with assms(1) show ?thesis by simp
qed

text \<open>On strictly sorted keys the search finds the position of the key, or its insertion point.\<close>

lemma search_keys_sorted:
  assumes "sorted_keys ks"
  shows "search_keys ks k =
     (if k \<in> set ks then Inr (lower_bound ks k) else Inl (lower_bound ks k))"
proof (cases "ks = []")
  case True
  then show ?thesis by (simp add: search_keys_def binary_search_by_def lower_bound_def)
next
  case False
  define b where "b = bs_loop (\<lambda>i. cmp (ks ! i) k) (length ks) 0"
  have b: "b < length ks" "b = 0 \<or> ks ! b \<le> k" "\<And>j. b < j \<Longrightarrow> j < length ks \<Longrightarrow> k < ks ! j"
    using bs_loop_sorted [OF assms, of "length ks" 0 k] False
    by (auto simp: b_def Let_def Suc_le_eq)
  have sk: "search_keys ks k =
      (case cmp (ks ! b) k of Equal \<Rightarrow> Inr b | Less \<Rightarrow> Inl (b + 1) | Greater \<Rightarrow> Inl b)"
    using False by (simp add: search_keys_def binary_search_by_def Let_def flip: b_def)
  have lt: "\<And>i j. i < j \<Longrightarrow> j < length ks \<Longrightarrow> ks ! i < ks ! j"
    using assms by (simp add: sorted_wrt_iff_nth_less)
  have below: "ks ! j < k" if "j < b" for j
    using lt [OF that b(1)] b(2) that by auto
  have neq: "ks ! j \<noteq> k" if "j < length ks" "ks ! b \<noteq> k" for j
    using below [of j] b(3) [of j] that by (cases j b rule: linorder_cases) auto
  consider "ks ! b < k" | "ks ! b = k" | "k < ks ! b" by fastforce
  then show ?thesis
  proof cases
    case 1
    have "lower_bound ks k = Suc b" unfolding lower_bound_def
      using b 1 below by (intro takeWhile_length_eq) (auto simp: less_Suc_eq not_less less_imp_le)
    moreover have "k \<notin> set ks"
      using neq 1 by (auto simp: in_set_conv_nth)
    ultimately show ?thesis
      using 1 by (simp add: sk cmp_def)
  next
    case 2
    have "lower_bound ks k = b" unfolding lower_bound_def
      using b 2 below by (intro takeWhile_length_eq) auto
    with 2 b(1) show ?thesis by (auto simp: sk cmp_def)
  next
    case 3
    have "lower_bound ks k = b" unfolding lower_bound_def
      using b 3 below by (intro takeWhile_length_eq) (auto simp: not_less less_imp_le)
    moreover have "k \<notin> set ks"
      using neq 3 by (auto simp: in_set_conv_nth)
    ultimately show ?thesis
      using 3 by (auto simp: sk cmp_def)
  qed
qed

lemma lower_bound_le [simp]: "lower_bound ks k \<le> length ks"
  by (simp add: lower_bound_def length_takeWhile_le)

lemma upper_bound_le [simp]: "upper_bound ks k \<le> length ks"
  by (simp add: upper_bound_def length_takeWhile_le)

lemma lower_bound_nth:
  assumes "sorted_keys ks"
  shows "j < lower_bound ks k \<Longrightarrow> ks ! j < k"
    and "lower_bound ks k \<le> j \<Longrightarrow> j < length ks \<Longrightarrow> k \<le> ks ! j"
proof -
  show "j < lower_bound ks k \<Longrightarrow> ks ! j < k"
    unfolding lower_bound_def using nth_mem [of j "takeWhile (\<lambda>x. x < k) ks"]
    by (auto dest: set_takeWhileD simp: takeWhile_nth)
  assume j: "lower_bound ks k \<le> j" "j < length ks"
  then have "\<not> ks ! lower_bound ks k < k"
    unfolding lower_bound_def using nth_length_takeWhile [of "\<lambda>x. x < k" ks] by simp
  moreover have "ks ! lower_bound ks k \<le> ks ! j"
    using assms j by (cases "lower_bound ks k = j") (auto simp: sorted_wrt_iff_nth_less less_imp_le)
  ultimately show "k \<le> ks ! j" by simp
qed

lemma upper_bound_nth:
  assumes "sorted_keys ks"
  shows "j < upper_bound ks k \<Longrightarrow> ks ! j \<le> k"
    and "upper_bound ks k \<le> j \<Longrightarrow> j < length ks \<Longrightarrow> k < ks ! j"
proof -
  show "j < upper_bound ks k \<Longrightarrow> ks ! j \<le> k"
    unfolding upper_bound_def using nth_mem [of j "takeWhile (\<lambda>x. x \<le> k) ks"]
    by (auto dest: set_takeWhileD simp: takeWhile_nth)
  assume j: "upper_bound ks k \<le> j" "j < length ks"
  then have "\<not> ks ! upper_bound ks k \<le> k"
    unfolding upper_bound_def using nth_length_takeWhile [of "\<lambda>x. x \<le> k" ks] by simp
  moreover have "ks ! upper_bound ks k \<le> ks ! j"
    using assms j by (cases "upper_bound ks k = j") (auto simp: sorted_wrt_iff_nth_less less_imp_le)
  ultimately show "k < ks ! j" by simp
qed

lemma upper_bound_unique:
  assumes "i \<le> length ks" "\<And>j. j < i \<Longrightarrow> ks ! j \<le> k" "i < length ks \<Longrightarrow> k < ks ! i"
  shows "upper_bound ks k = i"
  unfolding upper_bound_def using assms by (intro takeWhile_length_eq) (auto simp: not_le)

lemma lower_bound_found:
  assumes "sorted_keys ks" "k \<in> set ks"
  shows "lower_bound ks k < length ks \<and> ks ! lower_bound ks k = k"
proof -
  obtain i where i: "i < length ks" "ks ! i = k" using assms(2) by (auto simp: in_set_conv_nth)
  have "\<not> i < lower_bound ks k" using lower_bound_nth(1) [OF assms(1), of i k] i by auto
  moreover have "\<not> lower_bound ks k < i"
  proof
    assume less: "lower_bound ks k < i"
    then have "ks ! lower_bound ks k < k"
      using assms(1) i by (auto simp: sorted_wrt_iff_nth_less)
    with lower_bound_nth(2) [OF assms(1) order_refl, of k] less i show False by auto
  qed
  ultimately have "lower_bound ks k = i" by simp
  with i show ?thesis by simp
qed

text \<open>The child index an internal node descends into (\<open>Ok(i) => i + 1, Err(i) => i\<close>) is the number
  of separators that are not above the key.\<close>

definition child_index :: "nat + nat \<Rightarrow> nat" where
  "child_index r = (case r of Inr i \<Rightarrow> i + 1 | Inl i \<Rightarrow> i)"

lemma child_index_search:
  assumes "sorted_keys ks"
  shows "child_index (search_keys ks k) = upper_bound ks k"
proof (cases "k \<in> set ks")
  case True
  have l: "lower_bound ks k < length ks" "ks ! lower_bound ks k = k"
    using lower_bound_found [OF assms True] by auto
  have "upper_bound ks k = Suc (lower_bound ks k)"
  proof (rule upper_bound_unique)
    fix j assume "j < Suc (lower_bound ks k)"
    then consider "j = lower_bound ks k" | "j < lower_bound ks k" by linarith
    then show "ks ! j \<le> k"
      by cases (use l lower_bound_nth(1) [OF assms, of j k] in auto)
  next
    assume "Suc (lower_bound ks k) < length ks"
    with sorted_wrt_nth_less [OF assms lessI this] l show "k < ks ! Suc (lower_bound ks k)"
      by simp
  qed (use l in simp)
  with True show ?thesis by (simp add: search_keys_sorted [OF assms] child_index_def)
next
  case False
  have "k < ks ! lower_bound ks k" if "lower_bound ks k < length ks"
  proof -
    have "ks ! lower_bound ks k \<in> set ks" using that by simp
    with False have "ks ! lower_bound ks k \<noteq> k" by metis
    with lower_bound_nth(2) [OF assms order_refl that] show ?thesis by simp
  qed
  then have "upper_bound ks k = lower_bound ks k"
    using lower_bound_nth(1) [OF assms, of _ k]
    by (intro upper_bound_unique) (simp_all add: less_imp_le)
  with False show ?thesis by (simp add: search_keys_sorted [OF assms] child_index_def)
qed

section \<open>The state-and-error monad\<close>

datatype 'e fault = Err 'e | Panic | Diverge

type_synonym ('s, 'e, 'a) st = "'s \<Rightarrow> ('e fault + 'a) \<times> 's"

definition ret :: "'a \<Rightarrow> ('s, 'e, 'a) st" where
  "ret x = (\<lambda>s. (Inr x, s))"

definition raise :: "'e fault \<Rightarrow> ('s, 'e, 'a) st" where
  "raise e = (\<lambda>s. (Inl e, s))"

definition bindM :: "('s, 'e, 'a) st \<Rightarrow> ('a \<Rightarrow> ('s, 'e, 'b) st) \<Rightarrow> ('s, 'e, 'b) st" where
  "bindM m f = (\<lambda>s. case m s of (Inl e, s') \<Rightarrow> (Inl e, s') | (Inr x, s') \<Rightarrow> f x s')"

definition gets :: "('s \<Rightarrow> 'a) \<Rightarrow> ('s, 'e, 'a) st" where
  "gets f = (\<lambda>s. (Inr (f s), s))"

definition modify :: "('s \<Rightarrow> 's) \<Rightarrow> ('s, 'e, unit) st" where
  "modify f = (\<lambda>s. (Inr (), f s))"

text \<open>A pure computation that may panic.\<close>

definition expect :: "'a option \<Rightarrow> ('s, 'e, 'a) st" where
  "expect v = (case v of None \<Rightarrow> raise Panic | Some x \<Rightarrow> ret x)"

definition whenM :: "bool \<Rightarrow> ('s, 'e, unit) st \<Rightarrow> ('s, 'e, unit) st" where
  "whenM b m = (if b then m else ret ())"

text \<open>The \<open>?\<close> operator across error types.\<close>

fun map_fault :: "('e \<Rightarrow> 'f) \<Rightarrow> 'e fault \<Rightarrow> 'f fault" where
  "map_fault f (Err e) = Err (f e)"
| "map_fault f Panic = Panic"
| "map_fault f Diverge = Diverge"

definition map_err :: "('e \<Rightarrow> 'f) \<Rightarrow> ('s, 'e, 'a) st \<Rightarrow> ('s, 'f, 'a) st" where
  "map_err f m = (\<lambda>s. case m s of (Inl e, s') \<Rightarrow> (Inl (map_fault f e), s') | (Inr x, s') \<Rightarrow> (Inr x, s'))"

text \<open>Running an operation on a component of a larger state.\<close>

definition on_part :: "('t \<Rightarrow> 's) \<Rightarrow> ('s \<Rightarrow> 't \<Rightarrow> 't) \<Rightarrow> ('s, 'e, 'a) st \<Rightarrow> ('t, 'e, 'a) st" where
  "on_part get put m = (\<lambda>t. case m (get t) of (r, s') \<Rightarrow> (r, put s' t))"

primrec forM :: "'a list \<Rightarrow> ('a \<Rightarrow> ('s, 'e, unit) st) \<Rightarrow> ('s, 'e, unit) st" where
  "forM [] f = ret ()"
| "forM (x # xs) f = bindM (f x) (\<lambda>_. forM xs f)"

primrec mapM :: "('a \<Rightarrow> ('s, 'e, 'b) st) \<Rightarrow> 'a list \<Rightarrow> ('s, 'e, 'b list) st" where
  "mapM f [] = ret []"
| "mapM f (x # xs) = bindM (f x) (\<lambda>y. bindM (mapM f xs) (\<lambda>ys. ret (y # ys)))"

text \<open>A loop over a list in the option monad.\<close>

primrec fold_opt :: "('a \<Rightarrow> 'n \<Rightarrow> 'n option) \<Rightarrow> 'a list \<Rightarrow> 'n \<Rightarrow> 'n option" where
  "fold_opt f [] n = Some n"
| "fold_opt f (x # xs) n = (case f x n of None \<Rightarrow> None | Some n' \<Rightarrow> fold_opt f xs n')"

lemma bindM_Inr [mon_simps]: "m s = (Inr x, s') \<Longrightarrow> bindM m f s = f x s'"
  by (simp add: bindM_def)

lemma bindM_Inl [mon_simps]: "m s = (Inl e, s') \<Longrightarrow> bindM m f s = (Inl e, s')"
  by (simp add: bindM_def)

lemma bindM_ret [simp, mon_simps]: "bindM (ret x) f = f x"
  by (simp add: bindM_def ret_def)

lemma bindM_gets [simp, mon_simps]: "bindM (gets g) f s = f (g s) s"
  by (simp add: bindM_def gets_def)

lemma bindM_modify [simp, mon_simps]: "bindM (modify g) f s = f () (g s)"
  by (simp add: bindM_def modify_def)

lemma bindM_raise [simp, mon_simps]: "bindM (raise e) f = raise e"
  by (simp add: bindM_def raise_def)

lemma expect_Some [simp, mon_simps]: "expect (Some x) = ret x"
  by (simp add: expect_def)

lemma ret_apply [simp, mon_simps]: "ret x s = (Inr x, s)"
  by (simp add: ret_def)

lemma raise_apply [simp, mon_simps]: "raise e s = (Inl e, s)"
  by (simp add: raise_def)

lemma gets_apply [simp, mon_simps]: "gets f s = (Inr (f s), s)"
  by (simp add: gets_def)

lemma modify_apply [simp, mon_simps]: "modify f s = (Inr (), f s)"
  by (simp add: modify_def)

lemma bindM_eq_Inr:
  "bindM m f s = (Inr y, s'') \<longleftrightarrow> (\<exists>x s'. m s = (Inr x, s') \<and> f x s' = (Inr y, s''))"
  by (auto simp: bindM_def split: prod.splits sum.splits)

section \<open>Total correctness of state computations\<close>

text \<open>\<open>runs m s P\<close>: the computation returns normally from \<open>s\<close>, with a result and a state that satisfy
  \<open>P\<close>.  Faults of any kind are excluded.\<close>

definition runs :: "('s, 'e, 'a) st \<Rightarrow> 's \<Rightarrow> ('a \<Rightarrow> 's \<Rightarrow> bool) \<Rightarrow> bool" where
  "runs m s P = (case m s of (Inr r, s') \<Rightarrow> P r s' | (Inl _, _) \<Rightarrow> False)"

lemma runs_bind [simp]: "runs (bindM m f) s P = runs m s (\<lambda>r s'. runs (f r) s' P)"
  by (simp add: runs_def bindM_def split: prod.splits sum.splits)

lemma runs_ret [simp]: "runs (ret x) s P = P x s"
  by (simp add: runs_def)

lemma runs_gets [simp]: "runs (gets g) s P = P (g s) s"
  by (simp add: runs_def)

lemma runs_modify [simp]: "runs (modify h) s P = P () (h s)"
  by (simp add: runs_def)

lemma runs_raise [simp]: "runs (raise e) s P = False"
  by (simp add: runs_def)

text \<open>The simplifier reads \<open>ret x s = (Inr x, s)\<close> up to eta, so both forms of a returned value occur.\<close>

lemma runs_Pair [simp]: "runs (Pair (Inr x)) s P = P x s" "runs (Pair (Inl e)) s Q = False"
  by (simp_all add: runs_def)

lemma bindM_Pair [simp]: "bindM (Pair (Inr x)) f = f x" "bindM (Pair (Inl e)) g = Pair (Inl e)"
  by (simp_all add: bindM_def fun_eq_iff)

lemma runs_mono: "runs m s P \<Longrightarrow> (\<And>r s'. P r s' \<Longrightarrow> Q r s') \<Longrightarrow> runs m s Q"
  by (auto simp: runs_def split: prod.splits sum.splits)

lemma runsI: "m s = (Inr r, s') \<Longrightarrow> P r s' \<Longrightarrow> runs m s P"
  by (simp add: runs_def)

lemma runsE: "runs m s P \<Longrightarrow> (\<And>r s'. m s = (Inr r, s') \<Longrightarrow> P r s' \<Longrightarrow> thesis) \<Longrightarrow> thesis"
  by (auto simp: runs_def split: prod.splits sum.splits)

lemma runs_on_part: "runs (on_part get put m) t P = runs m (get t) (\<lambda>r s. P r (put s t))"
  by (simp add: runs_def on_part_def split: prod.splits sum.splits)

end
