(* ===== verification/Device.thy ===== *)
theory Device
  imports Rfs_Prelude
begin

text \<open>
  \<open>src/device.rs\<close>: the byte-addressed block device under the store and the journal, and the
  error type of \<open>src/btree.rs\<close> that every lower layer reports.

  A device is a growable byte vector.  \<open>MemDevice\<close> reads zeros past its end; \<open>FileDevice\<close> is a
  file accessed with \<open>pread\<close>/\<open>pwrite\<close>, whose \<open>read_exact_at\<close> fails with \<open>UnexpectedEof\<close> past the
  end and whose \<open>write_all_at\<close> extends the file with a zero hole.  Failures of the operating
  system itself (a disk that returns \<open>EIO\<close>) are outside the model.
\<close>

datatype io_error = UnexpectedEof | OtherIo string

datatype error =
    BlockNotFound u64
  | Io io_error
  | BadMagic u64 u32 u32
  | ChecksumMismatch u64

datatype dev_kind = MemDevice | FileDevice

record device =
  dev_kind :: dev_kind
  dev_data :: bytes

definition resize :: "nat \<Rightarrow> bytes \<Rightarrow> bytes" where
  "resize n xs = take n xs @ replicate (n - length xs) 0"

text \<open>\<open>MemDevice::read_at\<close>: zeros, overlaid with whatever has been written in the range.\<close>

definition mem_read :: "nat \<Rightarrow> nat \<Rightarrow> bytes \<Rightarrow> bytes" where
  "mem_read off len xs =
     (if off < length xs
      then (let en = min (off + len) (length xs) in bsplice 0 (bslice off (en - off) xs) (replicate len 0))
      else replicate len 0)"

definition read_at :: "nat \<Rightarrow> nat \<Rightarrow> device \<Rightarrow> io_error + bytes" where
  "read_at len off d =
     (case dev_kind d of
        MemDevice \<Rightarrow> Inr (mem_read off len (dev_data d))
      | FileDevice \<Rightarrow>
          if off + len \<le> length (dev_data d) then Inr (bslice off len (dev_data d))
          else Inl UnexpectedEof)"

text \<open>\<open>write_at\<close> never fails in the model; both devices grow to the end of the range first.\<close>

definition write_at :: "bytes \<Rightarrow> nat \<Rightarrow> device \<Rightarrow> device" where
  "write_at buf off d =
     (let en = off + length buf;
          xs = (if length (dev_data d) < en then resize en (dev_data d) else dev_data d)
      in d\<lparr>dev_data := bsplice off buf xs\<rparr>)"

definition dev_sync :: "device \<Rightarrow> device" where
  "dev_sync d = d"

definition set_len :: "nat \<Rightarrow> device \<Rightarrow> device" where
  "set_len len d = d\<lparr>dev_data := resize len (dev_data d)\<rparr>"

definition mem_device_new :: device where
  "mem_device_new = \<lparr>dev_kind = MemDevice, dev_data = []\<rparr>"

definition file_device_new :: "bytes \<Rightarrow> device" where
  "file_device_new content = \<lparr>dev_kind = FileDevice, dev_data = content\<rparr>"

section \<open>Reading back what was written\<close>

lemma length_resize [simp, len_simps]: "length (resize n xs) = n"
  by (simp add: resize_def)

lemma length_mem_read [simp, len_simps]: "length (mem_read off len xs) = len"
  by (auto simp: mem_read_def Let_def bsplice_def)

lemma mem_read_eq: "mem_read off len xs = bslice off len xs @ replicate (len - (length xs - off)) 0"
  by (auto simp: mem_read_def Let_def bsplice_def bslice_def min_def)

lemma bslice_resize:
  "off + len \<le> length xs \<Longrightarrow> length xs \<le> n \<Longrightarrow> bslice off len (resize n xs) = bslice off len xs"
  by (simp add: resize_def bslice_def)

lemma nth_mem_read:
  "i < len \<Longrightarrow> mem_read off len xs ! i = (if off + i < length xs then xs ! (off + i) else 0)"
  by (auto simp: mem_read_eq nth_append bslice_def)

lemma nth_resize: "i < n \<Longrightarrow> resize n xs ! i = (if i < length xs then xs ! i else 0)"
  by (simp add: resize_def nth_append)

lemma mem_read_resize: "length xs \<le> n \<Longrightarrow> mem_read off len (resize n xs) = mem_read off len xs"
  by (rule nth_equalityI) (simp_all add: nth_mem_read nth_resize)

lemma dev_kind_write_at [simp]: "dev_kind (write_at buf off d) = dev_kind d"
  by (simp add: write_at_def Let_def)

lemma dev_sync_id [simp]: "dev_sync d = d"
  by (simp add: dev_sync_def)

lemma length_write_at: "length (dev_data (write_at buf off d)) = max (length (dev_data d)) (off + length buf)"
  by (simp add: write_at_def Let_def)

lemma read_write_same:
  assumes "length buf = len"
  shows "read_at len off (write_at buf off d) = Inr buf"
proof -
  let ?xs = "dev_data (write_at buf off d)"
  have len: "off + len \<le> length ?xs" by (simp add: length_write_at assms)
  have "bslice off len ?xs = buf"
    using assms by (auto simp: write_at_def Let_def)
  with len show ?thesis
    by (cases "dev_kind d") (simp_all add: read_at_def mem_read_eq)
qed

lemma bslice_write_disjoint:
  assumes "off + len \<le> i \<or> i + length buf \<le> off" "off + len \<le> length (dev_data d)"
  shows "bslice off len (dev_data (write_at buf i d)) = bslice off len (dev_data d)"
proof -
  let ?en = "i + length buf" and ?xs = "dev_data d"
  let ?ys = "if length ?xs < ?en then resize ?en ?xs else ?xs"
  have "bslice off len (bsplice i buf ?ys) = bslice off len ?ys"
    using assms(1)
    by (cases "off + len \<le> i") (simp_all add: bslice_bsplice_before bslice_bsplice_after)
  also have "\<dots> = bslice off len ?xs" using assms(2) by (simp add: bslice_resize)
  finally show ?thesis by (simp add: write_at_def Let_def)
qed

lemma mem_read_bsplice_disjoint:
  assumes "off + len \<le> i \<or> i + length buf \<le> off" "i + length buf \<le> length xs"
  shows "mem_read off len (bsplice i buf xs) = mem_read off len xs"
proof -
  have "bslice off len (bsplice i buf xs) = bslice off len xs"
    using assms by (cases "off + len \<le> i") (simp_all add: bslice_bsplice_before bslice_bsplice_after)
  with assms(2) show ?thesis by (simp add: mem_read_eq)
qed

text \<open>A write leaves every successful read of a disjoint range unchanged.\<close>

lemma read_write_disjoint:
  assumes "off + len \<le> i \<or> i + length buf \<le> off" "read_at len off d = Inr v"
  shows "read_at len off (write_at buf i d) = Inr v"
proof (cases "dev_kind d")
  case MemDevice
  let ?xs = "dev_data d" and ?en = "i + length buf"
  have "mem_read off len (dev_data (write_at buf i d)) = mem_read off len ?xs"
    using assms(1) by (simp add: write_at_def Let_def mem_read_bsplice_disjoint mem_read_resize)
  with MemDevice assms(2) show ?thesis by (simp add: read_at_def)
next
  case FileDevice
  then have "off + len \<le> length (dev_data d)" and v: "v = bslice off len (dev_data d)"
    using assms(2) by (auto simp: read_at_def split: if_splits)
  with FileDevice bslice_write_disjoint [OF assms(1)] show ?thesis
    by (simp add: read_at_def length_write_at)
qed

end
