(* ===== verification/Block_Btree.thy ===== *)
theory Block_Btree
  imports Rfs_Prelude
begin

text \<open>
  \<open>src/block_btree.rs\<close>: the 4096-byte on-disk btree node.  A node is a 64-byte header and a
  4032-byte body; the body holds up to four \<^emph>\<open>bsets\<close> (sorted runs) packed back to back, each a
  16-byte header followed by 136-byte entries.  The model keeps the body as the byte vector it is:
  every accessor reads its bytes at the offset the code computes by walking the preceding bset
  headers, and every mutation splices bytes back.  \<open>repr(C)\<close> structs are written field by field in
  little-endian order (the native order of the supported targets).

  Asserting operations return \<open>None\<close> where the code panics.  Indices that the code takes from its
  own searches and loops are read with \<open>!\<close>; the layout theorems show them in range.
\<close>

section \<open>Constants and entry kinds\<close>

definition BLOCK_SIZE :: nat where "BLOCK_SIZE = 4096"
definition MAGIC_NUMBER :: u32 where "MAGIC_NUMBER = 0x39C5BB39"
definition MAX_KEY_SIZE :: nat where "MAX_KEY_SIZE = 32"
definition SNAP_ID_BYTES :: nat where "SNAP_ID_BYTES = 4"
definition MAX_LOGICAL_KEY_SIZE :: nat where "MAX_LOGICAL_KEY_SIZE = MAX_KEY_SIZE - 4"
definition MAX_VALUE_SIZE :: nat where "MAX_VALUE_SIZE = 96"
definition BSET_TREE_NR_MAX :: nat where "BSET_TREE_NR_MAX = 4"
definition BSET_SOFT_LIMIT :: nat where "BSET_SOFT_LIMIT = 7"
definition BSET_FLAG_NEEDS_WHITEOUT :: u16 where "BSET_FLAG_NEEDS_WHITEOUT = push_bit 0 1"
definition ENTRY_SIZE :: nat where "ENTRY_SIZE = MAX_KEY_SIZE + 1 + 1 + 1 + 5 + MAX_VALUE_SIZE"
definition HEADER_SIZE :: nat where "HEADER_SIZE = 64"
definition BSET_HEADER_SIZE :: nat where "BSET_HEADER_SIZE = 16"
definition BODY_SIZE :: nat where "BODY_SIZE = BLOCK_SIZE - HEADER_SIZE"
definition MAX_ENTRIES :: nat where
  "MAX_ENTRIES = (BODY_SIZE - BSET_TREE_NR_MAX * BSET_HEADER_SIZE) div ENTRY_SIZE"
definition MAX_INTERNAL_KEYS :: nat where "MAX_INTERNAL_KEYS = MAX_ENTRIES - 2"

type_synonym snap_id = u32

definition ROOT_SNAP :: snap_id where "ROOT_SNAP = 0xFFFFFFFF"

lemmas layout_consts =
  BLOCK_SIZE_def MAX_KEY_SIZE_def SNAP_ID_BYTES_def MAX_LOGICAL_KEY_SIZE_def MAX_VALUE_SIZE_def
  BSET_TREE_NR_MAX_def BSET_SOFT_LIMIT_def ENTRY_SIZE_def HEADER_SIZE_def BSET_HEADER_SIZE_def
  BODY_SIZE_def MAX_ENTRIES_def MAX_INTERNAL_KEYS_def

text \<open>The layout constants as numerals, and the compile-time assertion that four bsets at the soft
  limit stay below the split threshold.\<close>

lemma layout_values [simp]:
  "BLOCK_SIZE = 4096" "MAX_KEY_SIZE = 32" "SNAP_ID_BYTES = 4" "MAX_LOGICAL_KEY_SIZE = 28"
  "MAX_VALUE_SIZE = 96" "BSET_TREE_NR_MAX = 4" "BSET_SOFT_LIMIT = 7" "ENTRY_SIZE = 136"
  "HEADER_SIZE = 64" "BSET_HEADER_SIZE = 16" "BODY_SIZE = 4032" "MAX_ENTRIES = 29"
  "MAX_INTERNAL_KEYS = 27"
  by (simp_all add: layout_consts)

lemma soft_limit_below_split: "BSET_SOFT_LIMIT * BSET_TREE_NR_MAX < MAX_ENTRIES"
  by simp

datatype entry_kind = Live | Deleted | Whiteout

fun kind_to_u8 :: "entry_kind \<Rightarrow> u8" where
  "kind_to_u8 Live = 0"
| "kind_to_u8 Deleted = 1"
| "kind_to_u8 Whiteout = 2"

definition kind_from_u8 :: "u8 \<Rightarrow> entry_kind" where
  "kind_from_u8 b = (if b = 0 then Live else if b = 1 then Deleted else if b = 2 then Whiteout else Live)"

definition is_tombstone :: "entry_kind \<Rightarrow> bool" where
  "is_tombstone k = (k = Deleted \<or> k = Whiteout)"

lemma kind_roundtrip [simp, roundtrip_simps]: "kind_from_u8 (kind_to_u8 k) = k"
  by (cases k) (simp_all add: kind_from_u8_def)

section \<open>Headers, payloads and entries\<close>

record node_header =
  nh_magic :: u32
  nh_level :: u8
  nh_bset_count :: u8
  nh_flags :: u8
  nh_pad0 :: u8
  nh_generation :: u64
  nh_pad1 :: bytes
  nh_checksum :: u64
  nh_reserved :: bytes

record bset_header =
  bh_seq :: u64
  bh_nkeys :: u16
  bh_flags :: u16
  bh_pad :: u32

type_synonym payload = bytes

definition child :: "payload \<Rightarrow> u64" where
  "child p = u64_of_le (take 8 p)"

definition set_child :: "u64 \<Rightarrow> payload \<Rightarrow> payload" where
  "set_child nr p = bsplice 0 (u64_le nr) p"

record disk_entry =
  de_key :: bytes
  de_key_len :: u8
  de_value_len :: u8
  de_kind :: u8
  de_pad :: bytes
  de_payload :: payload

definition logical_key_bytes :: "disk_entry \<Rightarrow> bytes" where
  "logical_key_bytes e = take (unat (de_key_len e)) (de_key e)"

definition key_bytes :: "disk_entry \<Rightarrow> bytes" where
  "key_bytes e = take (unat (de_key_len e) + SNAP_ID_BYTES) (de_key e)"

definition entry_snap_id :: "disk_entry \<Rightarrow> snap_id" where
  "entry_snap_id e = u32_of_be (bslice (unat (de_key_len e)) SNAP_ID_BYTES (de_key e))"

definition set_snap_id :: "snap_id \<Rightarrow> disk_entry \<Rightarrow> disk_entry" where
  "set_snap_id snap e = e\<lparr>de_key := bsplice (unat (de_key_len e)) (u32_be snap) (de_key e)\<rparr>"

definition kind_enum :: "disk_entry \<Rightarrow> entry_kind" where
  "kind_enum e = kind_from_u8 (de_kind e)"

definition set_kind :: "entry_kind \<Rightarrow> disk_entry \<Rightarrow> disk_entry" where
  "set_kind k e = e\<lparr>de_kind := kind_to_u8 k\<rparr>"

definition set_key :: "bytes \<Rightarrow> disk_entry \<Rightarrow> disk_entry option" where
  "set_key sortable e =
     (if SNAP_ID_BYTES \<le> length sortable
      then (let total = min (length sortable) MAX_KEY_SIZE
            in Some (e\<lparr>de_key := take total sortable @ replicate (MAX_KEY_SIZE - total) 0,
                       de_key_len := of_nat (total - SNAP_ID_BYTES)\<rparr>))
      else None)"

definition set_key_with_snap :: "bytes \<Rightarrow> snap_id \<Rightarrow> disk_entry \<Rightarrow> disk_entry" where
  "set_key_with_snap logical snap e =
     (let n = min (length logical) MAX_LOGICAL_KEY_SIZE
      in e\<lparr>de_key := take n logical @ u32_be snap @ replicate (MAX_KEY_SIZE - (n + SNAP_ID_BYTES)) 0,
           de_key_len := of_nat n\<rparr>)"

definition empty_entry :: disk_entry where
  "empty_entry = \<lparr>de_key = replicate MAX_KEY_SIZE 0, de_key_len = 0, de_value_len = 0,
     de_kind = kind_to_u8 Live, de_pad = replicate 5 0, de_payload = replicate MAX_VALUE_SIZE 0\<rparr>"

text \<open>The value bytes of a leaf entry (\<open>value_bytes_at\<close>) and their update (\<open>set_value_at\<close>).\<close>

definition entry_value :: "disk_entry \<Rightarrow> bytes" where
  "entry_value e = take (unat (de_value_len e)) (de_payload e)"

definition entry_set_value :: "bytes \<Rightarrow> disk_entry \<Rightarrow> disk_entry" where
  "entry_set_value val e =
     (let len = min (length val) MAX_VALUE_SIZE
      in e\<lparr>de_payload := take len val @ replicate (MAX_VALUE_SIZE - len) 0,
           de_value_len := of_nat len\<rparr>)"

section \<open>Bytes of the \<open>repr(C)\<close> structs\<close>

definition header_bytes :: "node_header \<Rightarrow> bytes" where
  "header_bytes h = u32_le (nh_magic h) @ [nh_level h, nh_bset_count h, nh_flags h, nh_pad0 h]
     @ u64_le (nh_generation h) @ nh_pad1 h @ u64_le (nh_checksum h) @ nh_reserved h"

definition header_of_bytes :: "bytes \<Rightarrow> node_header" where
  "header_of_bytes bs = \<lparr>nh_magic = u32_of_le (bslice 0 4 bs), nh_level = bs ! 4,
     nh_bset_count = bs ! 5, nh_flags = bs ! 6, nh_pad0 = bs ! 7,
     nh_generation = u64_of_le (bslice 8 8 bs), nh_pad1 = bslice 16 8 bs,
     nh_checksum = u64_of_le (bslice 24 8 bs), nh_reserved = bslice 32 32 bs\<rparr>"

definition bset_header_bytes :: "bset_header \<Rightarrow> bytes" where
  "bset_header_bytes h = u64_le (bh_seq h) @ u16_le (bh_nkeys h) @ u16_le (bh_flags h) @ u32_le (bh_pad h)"

definition bset_header_of_bytes :: "bytes \<Rightarrow> bset_header" where
  "bset_header_of_bytes bs = \<lparr>bh_seq = u64_of_le (bslice 0 8 bs), bh_nkeys = u16_of_le (bslice 8 2 bs),
     bh_flags = u16_of_le (bslice 10 2 bs), bh_pad = u32_of_le (bslice 12 4 bs)\<rparr>"

definition entry_bytes :: "disk_entry \<Rightarrow> bytes" where
  "entry_bytes e = de_key e @ [de_key_len e, de_value_len e, de_kind e] @ de_pad e @ de_payload e"

definition entry_of_bytes :: "bytes \<Rightarrow> disk_entry" where
  "entry_of_bytes bs = \<lparr>de_key = bslice 0 32 bs, de_key_len = bs ! 32, de_value_len = bs ! 33,
     de_kind = bs ! 34, de_pad = bslice 35 5 bs, de_payload = bslice 40 96 bs\<rparr>"

section \<open>The node and its body navigation\<close>

record node =
  header :: node_header
  body :: bytes

definition read_bset_header :: "node \<Rightarrow> nat \<Rightarrow> bset_header" where
  "read_bset_header n off = bset_header_of_bytes (bslice off BSET_HEADER_SIZE (body n))"

definition write_bset_header :: "node \<Rightarrow> nat \<Rightarrow> bset_header \<Rightarrow> node" where
  "write_bset_header n off h = n\<lparr>body := bsplice off (bset_header_bytes h) (body n)\<rparr>"

text \<open>The walk over preceding bset headers shared by \<open>bset_offset\<close> and \<open>start_new_bset\<close>.\<close>

fun walk_bsets :: "node \<Rightarrow> nat \<Rightarrow> nat \<Rightarrow> nat" where
  "walk_bsets n 0 off = off"
| "walk_bsets n (Suc k) off =
     walk_bsets n k (off + (BSET_HEADER_SIZE + unat (bh_nkeys (read_bset_header n off)) * ENTRY_SIZE))"

definition bset_offset :: "node \<Rightarrow> nat \<Rightarrow> nat" where
  "bset_offset n target = walk_bsets n target 0"

definition entries_at :: "node \<Rightarrow> nat \<Rightarrow> nat \<Rightarrow> disk_entry list" where
  "entries_at n off nkeys =
     map (\<lambda>i. entry_of_bytes (bslice (off + BSET_HEADER_SIZE + i * ENTRY_SIZE) ENTRY_SIZE (body n))) [0..<nkeys]"

text \<open>Writing through the slice \<open>entries_at_mut\<close> hands out.\<close>

definition write_entries_at :: "node \<Rightarrow> nat \<Rightarrow> disk_entry list \<Rightarrow> node" where
  "write_entries_at n off es =
     n\<lparr>body := bsplice (off + BSET_HEADER_SIZE) (concat (map entry_bytes es)) (body n)\<rparr>"

section \<open>\<open>BtreeNodeRaw\<close>: accessors\<close>

definition node_new :: "u8 \<Rightarrow> node" where
  "node_new level = \<lparr>header = \<lparr>nh_magic = MAGIC_NUMBER, nh_level = level, nh_bset_count = 0,
     nh_flags = 0, nh_pad0 = 0, nh_generation = 0, nh_pad1 = replicate 8 0, nh_checksum = 0,
     nh_reserved = replicate 32 0\<rparr>, body = replicate BODY_SIZE 0\<rparr>"

definition level :: "node \<Rightarrow> u8" where
  "level n = nh_level (header n)"

definition generation :: "node \<Rightarrow> u64" where
  "generation n = nh_generation (header n)"

definition set_generation :: "u64 \<Rightarrow> node \<Rightarrow> node" where
  "set_generation g n = n\<lparr>header := (header n)\<lparr>nh_generation := g\<rparr>\<rparr>"

definition bset_count :: "node \<Rightarrow> nat" where
  "bset_count n = unat (nh_bset_count (header n))"

definition bset_header_at :: "node \<Rightarrow> nat \<Rightarrow> bset_header" where
  "bset_header_at n i = read_bset_header n (bset_offset n i)"

definition total_stored :: "node \<Rightarrow> nat" where
  "total_stored n = sum_list (map (\<lambda>b. unat (bh_nkeys (bset_header_at n b))) [0..<bset_count n])"

definition nkeys :: "node \<Rightarrow> nat" where
  "nkeys n = (let total = total_stored n in if level n > 0 \<and> total > 0 then total - 1 else total)"

definition bset_needs_whiteout :: "node \<Rightarrow> nat \<Rightarrow> bool" where
  "bset_needs_whiteout n i = (and (bh_flags (bset_header_at n i)) BSET_FLAG_NEEDS_WHITEOUT \<noteq> 0)"

definition set_bset_needs_whiteout :: "nat \<Rightarrow> bool \<Rightarrow> node \<Rightarrow> node" where
  "set_bset_needs_whiteout i needs n =
     (let off = bset_offset n i; h = read_bset_header n off
      in write_bset_header n off
           (h\<lparr>bh_flags := (if needs then or (bh_flags h) BSET_FLAG_NEEDS_WHITEOUT
                            else and (bh_flags h) (not BSET_FLAG_NEEDS_WHITEOUT))\<rparr>))"

definition any_bset_needs_whiteout :: "node \<Rightarrow> bool" where
  "any_bset_needs_whiteout n = list_ex (bset_needs_whiteout n) [0..<bset_count n]"

definition bset_entries :: "node \<Rightarrow> nat \<Rightarrow> disk_entry list" where
  "bset_entries n i =
     (let off = bset_offset n i; h = read_bset_header n off in entries_at n off (unat (bh_nkeys h)))"

definition set_bset_entries :: "nat \<Rightarrow> disk_entry list \<Rightarrow> node \<Rightarrow> node" where
  "set_bset_entries i es n = write_entries_at n (bset_offset n i) es"

definition bset_search :: "node \<Rightarrow> nat \<Rightarrow> bytes \<Rightarrow> nat + nat" where
  "bset_search n i key = search_keys (map key_bytes (bset_entries n i)) key"

definition iter_all_entries :: "node \<Rightarrow> (nat \<times> nat) list" where
  "iter_all_entries n =
     concat (map (\<lambda>b. map (\<lambda>i. (b, i)) [0..<length (bset_entries n b)]) [0..<bset_count n])"

definition entry_at :: "node \<Rightarrow> nat \<Rightarrow> nat \<Rightarrow> disk_entry" where
  "entry_at n b i = bset_entries n b ! i"

text \<open>\<open>*entry_at_mut(b, i) = f(...)\<close>.\<close>

definition update_entry_at :: "nat \<Rightarrow> nat \<Rightarrow> (disk_entry \<Rightarrow> disk_entry) \<Rightarrow> node \<Rightarrow> node" where
  "update_entry_at b i f n =
     (let es = bset_entries n b in set_bset_entries b (es[i := f (es ! i)]) n)"

definition set_value_at :: "nat \<Rightarrow> nat \<Rightarrow> bytes \<Rightarrow> node \<Rightarrow> node" where
  "set_value_at b i val n = update_entry_at b i (entry_set_value val) n"

definition value_bytes_at :: "node \<Rightarrow> nat \<Rightarrow> nat \<Rightarrow> bytes" where
  "value_bytes_at n b i = entry_value (entry_at n b i)"

definition child_block_at :: "node \<Rightarrow> nat \<Rightarrow> nat \<Rightarrow> u64" where
  "child_block_at n b i = child (de_payload (entry_at n b i))"

definition set_child_block_at :: "nat \<Rightarrow> nat \<Rightarrow> u64 \<Rightarrow> node \<Rightarrow> node" where
  "set_child_block_at b i nr n =
     update_entry_at b i (\<lambda>e. e\<lparr>de_payload := set_child nr (de_payload e)\<rparr>) n"

section \<open>\<open>BtreeNodeRaw\<close>: layout-mutating helpers\<close>

definition start_new_bset :: "u64 \<Rightarrow> node \<Rightarrow> node option" where
  "start_new_bset seq n =
     (let c = bset_count n
      in if c < BSET_TREE_NR_MAX
         then (let off = walk_bsets n c 0;
                   n' = write_bset_header n off \<lparr>bh_seq = seq, bh_nkeys = 0, bh_flags = 0, bh_pad = 0\<rparr>
               in Some (n'\<lparr>header := (header n')\<lparr>nh_bset_count := of_nat (c + 1)\<rparr>\<rparr>))
         else None)"

definition append_to_last_bset :: "disk_entry \<Rightarrow> node \<Rightarrow> node option" where
  "append_to_last_bset e n =
     (if total_stored n < MAX_ENTRIES \<and> bset_count n > 0
      then (let off = bset_offset n (bset_count n - 1);
                h = read_bset_header n off;
                entry_off = off + BSET_HEADER_SIZE + unat (bh_nkeys h) * ENTRY_SIZE;
                n' = n\<lparr>body := bsplice entry_off (entry_bytes e) (body n)\<rparr>
            in Some (write_bset_header n' off
                 \<lparr>bh_seq = bh_seq h, bh_nkeys = of_nat (unat (bh_nkeys h) + 1),
                  bh_flags = bh_flags h, bh_pad = 0\<rparr>))
      else None)"

text \<open>The returned sum is the code's \<open>Result<usize, usize>\<close>: \<open>Inr\<close> overwrote, \<open>Inl\<close> opened a slot.\<close>

definition sort_insert_into_last_bset :: "disk_entry \<Rightarrow> node \<Rightarrow> ((nat + nat) \<times> node) option" where
  "sort_insert_into_last_bset e n =
     (if bset_count n > 0
      then (let b = bset_count n - 1; off = bset_offset n b; h = read_bset_header n off
            in case bset_search n b (key_bytes e) of
                 Inr found \<Rightarrow>
                   Some (Inr found,
                     write_entries_at n off ((entries_at n off (unat (bh_nkeys h)))[found := e]))
               | Inl insert_at \<Rightarrow>
                   if total_stored n < MAX_ENTRIES
                   then (let new_nkeys = unat (bh_nkeys h) + 1;
                             es = entries_at n off new_nkeys;
                             shifted = bsplice (insert_at + 1) (bslice insert_at (new_nkeys - 1 - insert_at) es) es;
                             n' = write_entries_at n off (shifted[insert_at := e])
                         in Some (Inl insert_at, write_bset_header n' off
                              \<lparr>bh_seq = bh_seq h, bh_nkeys = of_nat new_nkeys,
                               bh_flags = bh_flags h, bh_pad = 0\<rparr>))
                   else None)
      else None)"

definition search_internal :: "node \<Rightarrow> bytes \<Rightarrow> nat + nat" where
  "search_internal n key =
     (let es = bset_entries n 0; m = length es - 1
      in search_keys (map key_bytes (take m es)) key)"

section \<open>Single-bset convenience accessors\<close>

definition entry :: "node \<Rightarrow> nat \<Rightarrow> disk_entry" where
  "entry n i = entry_at n 0 i"

definition search :: "node \<Rightarrow> bytes \<Rightarrow> nat + nat" where
  "search n key = (if level n > 0 then search_internal n key else bset_search n 0 key)"

definition child_block :: "node \<Rightarrow> nat \<Rightarrow> u64" where
  "child_block n i = child_block_at n 0 i"

definition set_child_block :: "nat \<Rightarrow> u64 \<Rightarrow> node \<Rightarrow> node" where
  "set_child_block i nr n = set_child_block_at 0 i nr n"

text \<open>\<open>entry_mut(i).set_key(k)\<close>, which panics on a key shorter than its snapshot suffix.\<close>

definition set_entry_key :: "nat \<Rightarrow> bytes \<Rightarrow> node \<Rightarrow> node option" where
  "set_entry_key i k n =
     (case set_key k (entry n i) of None \<Rightarrow> None | Some e \<Rightarrow> Some (update_entry_at 0 i (\<lambda>_. e) n))"

definition set_nkeys :: "nat \<Rightarrow> node \<Rightarrow> node" where
  "set_nkeys m n =
     (let stored = (if level n > 0 then m + 1 else m); h = read_bset_header n 0
      in write_bset_header n 0
           \<lparr>bh_seq = bh_seq h, bh_nkeys = of_nat stored, bh_flags = bh_flags h, bh_pad = 0\<rparr>)"

section \<open>Merged search and iteration\<close>

record merged_hit =
  mh_bset_idx :: nat
  mh_entry_idx :: nat
  mh_seq :: u64

definition merged_find_step :: "node \<Rightarrow> bytes \<Rightarrow> nat \<Rightarrow> merged_hit option \<Rightarrow> merged_hit option" where
  "merged_find_step n key b best =
     (case bset_search n b key of
        Inl _ \<Rightarrow> best
      | Inr idx \<Rightarrow>
          (let seq = bh_seq (bset_header_at n b);
               hit = Some \<lparr>mh_bset_idx = b, mh_entry_idx = idx, mh_seq = seq\<rparr>
           in case best of
                Some h \<Rightarrow> if mh_seq h \<ge> seq then best else hit
              | None \<Rightarrow> hit))"

definition merged_find :: "node \<Rightarrow> bytes \<Rightarrow> merged_hit option" where
  "merged_find n key = fold (merged_find_step n key) [0..<bset_count n] None"

text \<open>The fixed-size arrays of the iterator are functions of the bset index.\<close>

record merged_iter =
  mi_node :: node
  mi_cursors :: "nat \<Rightarrow> nat"
  mi_lens :: "nat \<Rightarrow> nat"
  mi_seqs :: "nat \<Rightarrow> u64"
  mi_bset_count :: nat

definition merged_lower_bound_cursors :: "node \<Rightarrow> bytes \<Rightarrow> nat \<Rightarrow> nat" where
  "merged_lower_bound_cursors n key b =
     (if b < bset_count n then (case bset_search n b key of Inr i \<Rightarrow> i | Inl i \<Rightarrow> i) else 0)"

definition merged_iter_new :: "node \<Rightarrow> merged_iter" where
  "merged_iter_new n = \<lparr>mi_node = n, mi_cursors = (\<lambda>_. 0),
     mi_lens = (\<lambda>b. if b < bset_count n then unat (bh_nkeys (bset_header_at n b)) else 0),
     mi_seqs = (\<lambda>b. if b < bset_count n then bh_seq (bset_header_at n b) else 0),
     mi_bset_count = bset_count n\<rparr>"

definition with_lower_bound :: "node \<Rightarrow> bytes \<Rightarrow> merged_iter" where
  "with_lower_bound n key = (merged_iter_new n)\<lparr>mi_cursors := merged_lower_bound_cursors n key\<rparr>"

definition cursor_key :: "merged_iter \<Rightarrow> nat \<Rightarrow> bytes" where
  "cursor_key it b = key_bytes (bset_entries (mi_node it) b ! mi_cursors it b)"

definition cursor_done :: "merged_iter \<Rightarrow> nat \<Rightarrow> bool" where
  "cursor_done it b = (mi_cursors it b \<ge> mi_lens it b)"

text \<open>One round of the selection loop: smallest key wins, ties go to the higher sequence number.\<close>

definition select_step ::
  "merged_iter \<Rightarrow> nat \<Rightarrow> (nat \<times> u64 \<times> bytes) option \<Rightarrow> (nat \<times> u64 \<times> bytes) option" where
  "select_step it b best =
     (if cursor_done it b then best
      else (let key = cursor_key it b; cand = Some (b, mi_seqs it b, key)
            in case best of
                 None \<Rightarrow> cand
               | Some (bb, bs, bk) \<Rightarrow>
                   if key < bk then cand
                   else if key = bk \<and> mi_seqs it b > bs then cand
                   else best))"

definition select_best :: "merged_iter \<Rightarrow> (nat \<times> u64 \<times> bytes) option" where
  "select_best it = fold (select_step it) [0..<mi_bset_count it] None"

definition advance :: "merged_iter \<Rightarrow> bytes \<Rightarrow> nat \<Rightarrow> nat" where
  "advance it bkey b =
     (if b < mi_bset_count it \<and> \<not> cursor_done it b \<and> cursor_key it b = bkey
      then mi_cursors it b + 1 else mi_cursors it b)"

definition merged_next :: "merged_iter \<Rightarrow> ((nat \<times> nat) \<times> merged_iter) option" where
  "merged_next it =
     (case select_best it of
        None \<Rightarrow> None
      | Some (best_b, _, bkey) \<Rightarrow>
          Some ((best_b, mi_cursors it best_b), it\<lparr>mi_cursors := advance it bkey\<rparr>))"

lemma fold_select_Some:
  "fold (select_step it) bs best = Some (b, s, k) \<Longrightarrow>
     best = Some (b, s, k) \<or> (b \<in> set bs \<and> \<not> cursor_done it b \<and> s = mi_seqs it b \<and> k = cursor_key it b)"
proof (induction bs arbitrary: best)
  case (Cons c bs)
  from Cons.IH [of "select_step it c best"] Cons.prems show ?case
    by (auto simp: select_step_def Let_def split: if_splits option.splits)
qed simp

definition remaining :: "merged_iter \<Rightarrow> nat" where
  "remaining it = (\<Sum>b < mi_bset_count it. mi_lens it b - mi_cursors it b)"

lemma merged_next_remaining:
  assumes "merged_next it = Some (x, it')"
  shows "remaining it' < remaining it"
proof -
  obtain b s k where sel: "select_best it = Some (b, s, k)"
    and it': "it' = it\<lparr>mi_cursors := advance it k\<rparr>"
    using assms by (auto simp: merged_next_def split: option.splits)
  have b: "b < mi_bset_count it" "\<not> cursor_done it b" "k = cursor_key it b"
    using fold_select_Some [OF sel [unfolded select_best_def]] by auto
  have "(\<Sum>c < mi_bset_count it. mi_lens it c - advance it k c)
      < (\<Sum>c < mi_bset_count it. mi_lens it c - mi_cursors it c)"
  proof (rule sum_strict_mono_ex1)
    show "\<exists>c\<in>{..<mi_bset_count it}. mi_lens it c - advance it k c < mi_lens it c - mi_cursors it c"
      using b by (intro bexI [of _ b]) (auto simp: advance_def cursor_done_def)
  qed (auto simp: advance_def)
  then show ?thesis by (simp add: remaining_def it')
qed

text \<open>Running the iterator to its end (\<open>for (b, i) in MergedIter::new(node)\<close>).\<close>

function merged_collect :: "merged_iter \<Rightarrow> (nat \<times> nat) list" where
  "merged_collect it = (case merged_next it of None \<Rightarrow> [] | Some (x, it') \<Rightarrow> x # merged_collect it')"
  by pat_completeness auto
termination
  by (relation "measure remaining") (auto simp: merged_next_remaining)

declare merged_collect.simps [simp del]

end
