(* ===== verification/Node_Layout.thy ===== *)
theory Node_Layout
  imports Block_Btree
begin

text \<open>
  What the byte-level node operations of \<open>Block_Btree\<close> do to the list of bsets a node holds.
  \<open>layout n bs\<close> says that the body of \<open>n\<close> is the packed encoding of the bsets \<open>bs\<close>, followed by
  slack.  Every accessor is shown to read the corresponding component of \<open>bs\<close>, and every mutation
  to be an update of \<open>bs\<close>; the layers above reason about bset lists only.
\<close>

type_synonym bset = "bset_header \<times> disk_entry list"

definition sized_entry :: "disk_entry \<Rightarrow> bool" where
  "sized_entry e = (length (de_key e) = 32 \<and> unat (de_key_len e) \<le> 28 \<and> unat (de_value_len e) \<le> 96
     \<and> length (de_pad e) = 5 \<and> length (de_payload e) = 96)"

definition enc_entries :: "disk_entry list \<Rightarrow> bytes" where
  "enc_entries es = concat (map entry_bytes es)"

definition enc_bset :: "bset \<Rightarrow> bytes" where
  "enc_bset b = bset_header_bytes (fst b) @ enc_entries (snd b)"

definition enc_bsets :: "bset list \<Rightarrow> bytes" where
  "enc_bsets bs = concat (map enc_bset bs)"

definition ok_bset :: "bset \<Rightarrow> bool" where
  "ok_bset b = (unat (bh_nkeys (fst b)) = length (snd b) \<and> (\<forall>e \<in> set (snd b). sized_entry e))"

definition bsets_total :: "bset list \<Rightarrow> nat" where
  "bsets_total bs = sum_list (map (\<lambda>b. length (snd b)) bs)"

definition header_ok :: "node_header \<Rightarrow> bool" where
  "header_ok h = (nh_magic h = MAGIC_NUMBER \<and> length (nh_pad1 h) = 8 \<and> length (nh_reserved h) = 32)"

lemma header_ok_update [simp]:
  "header_ok (h\<lparr>nh_generation := g\<rparr>) = header_ok h" "header_ok (h\<lparr>nh_bset_count := c\<rparr>) = header_ok h"
  "header_ok (h\<lparr>nh_checksum := s\<rparr>) = header_ok h"
  by (simp_all add: header_ok_def)

definition layout :: "node \<Rightarrow> bset list \<Rightarrow> bool" where
  "layout n bs = (header_ok (header n) \<and> length (body n) = 4032 \<and> bset_count n = length bs \<and> length bs \<le> 4
     \<and> bsets_total bs \<le> 29 \<and> (\<forall>b \<in> set bs. ok_bset b) \<and> (\<exists>rest. body n = enc_bsets bs @ rest))"

section \<open>Codec round trips\<close>

lemma length_header_bytes [simp, len_simps]:
  "length (nh_pad1 h) = 8 \<Longrightarrow> length (nh_reserved h) = 32 \<Longrightarrow> length (header_bytes h) = 64"
  by (simp add: header_bytes_def)

lemma length_bset_header_bytes [simp, len_simps]: "length (bset_header_bytes h) = 16"
  by (simp add: bset_header_bytes_def)

lemma length_entry_bytes [simp, len_simps]: "sized_entry e \<Longrightarrow> length (entry_bytes e) = 136"
  by (simp add: entry_bytes_def sized_entry_def)

lemma bset_header_roundtrip [simp, roundtrip_simps]: "bset_header_of_bytes (bset_header_bytes h) = h"
  by (simp add: bset_header_of_bytes_def bset_header_bytes_def bslice_def)

lemma header_roundtrip:
  assumes "length (nh_pad1 h) = 8" "length (nh_reserved h) = 32"
  shows "header_of_bytes (header_bytes h) = h"
  using assms by (simp add: header_of_bytes_def header_bytes_def bslice_def nth_append)

lemma entry_roundtrip:
  "sized_entry e \<Longrightarrow> entry_of_bytes (entry_bytes e) = e"
  by (simp add: entry_of_bytes_def entry_bytes_def sized_entry_def bslice_def nth_append)

lemma entry_bytes_of_bytes:
  assumes "length bs = 136"
  shows "entry_bytes (entry_of_bytes bs) = bs"
proof -
  have "bs = bslice 0 32 bs @ [bs ! 32, bs ! 33, bs ! 34] @ bslice 35 5 bs @ bslice 40 96 bs"
  proof (rule nth_equalityI)
    fix i assume i: "i < length bs"
    consider "i < 32" | "i = 32" | "i = 33" | "i = 34" | "35 \<le> i" by linarith
    then show "bs ! i = (bslice 0 32 bs @ [bs ! 32, bs ! 33, bs ! 34] @ bslice 35 5 bs @ bslice 40 96 bs) ! i"
      using assms i by cases (auto simp: nth_append bslice_def nth_Cons')
  qed (simp add: assms)
  then show ?thesis by (simp add: entry_bytes_def entry_of_bytes_def)
qed

lemma length_enc_entries [simp, len_simps]:
  "\<forall>e \<in> set es. sized_entry e \<Longrightarrow> length (enc_entries es) = 136 * length es"
  by (induction es) (auto simp: enc_entries_def)

lemma length_enc_bset: "ok_bset b \<Longrightarrow> length (enc_bset b) = 16 + 136 * length (snd b)"
  by (simp add: enc_bset_def ok_bset_def)

lemma length_enc_bsets:
  "\<forall>b \<in> set bs. ok_bset b \<Longrightarrow> length (enc_bsets bs) = 16 * length bs + 136 * bsets_total bs"
  by (induction bs) (auto simp: enc_bsets_def bsets_total_def length_enc_bset algebra_simps)

lemma enc_bsets_append [simp]: "enc_bsets (xs @ ys) = enc_bsets xs @ enc_bsets ys"
  by (simp add: enc_bsets_def)

lemma enc_bsets_Cons [simp]: "enc_bsets (b # bs) = enc_bset b @ enc_bsets bs"
  by (simp add: enc_bsets_def)

lemma enc_bsets_Nil [simp]: "enc_bsets [] = []"
  by (simp add: enc_bsets_def)

lemma enc_entries_simps [simp]:
  "enc_entries [] = []" "enc_entries (e # es) = entry_bytes e @ enc_entries es"
  "enc_entries (es @ es') = enc_entries es @ enc_entries es'"
  by (simp_all add: enc_entries_def)

lemma bsets_total_simps [simp]:
  "bsets_total [] = 0" "bsets_total (b # bs) = length (snd b) + bsets_total bs"
  "bsets_total (bs @ bs') = bsets_total bs + bsets_total bs'"
  by (simp_all add: bsets_total_def)

section \<open>Reading at an offset\<close>

lemma bslice_prefix: "length pre = off \<Longrightarrow> length mid = len \<Longrightarrow> bslice off len (pre @ mid @ post) = mid"
  by (simp add: bslice_def)

lemma read_bset_header_at:
  "body n = pre @ bset_header_bytes h @ post \<Longrightarrow> length pre = off \<Longrightarrow> read_bset_header n off = h"
  by (simp add: read_bset_header_def bslice_prefix)

lemma bslice_enc_entries:
  "\<forall>e \<in> set es. sized_entry e \<Longrightarrow> i < length es \<Longrightarrow>
     bslice (i * 136) 136 (enc_entries es @ post) = entry_bytes (es ! i)"
proof (induction es arbitrary: i)
  case (Cons e es)
  show ?case
  proof (cases i)
    case 0
    with Cons.prems show ?thesis by (simp add: bslice_def)
  next
    case (Suc j)
    then have "bslice (i * 136) 136 (enc_entries (e # es) @ post) = bslice (j * 136) 136 (enc_entries es @ post)"
      using Cons.prems by (simp add: bslice_def)
    with Cons Suc show ?thesis by simp
  qed
qed simp

lemma entries_at_eq:
  assumes "body n = pre @ hdr @ enc_entries es @ post" "length pre = off" "length hdr = 16"
    and "\<forall>e \<in> set es. sized_entry e"
  shows "entries_at n off (length es) = es"
proof (rule nth_equalityI)
  fix i assume "i < length (entries_at n off (length es))"
  then have i: "i < length es" by (simp add: entries_at_def)
  have "bslice (off + 16 + i * 136) 136 (body n) = bslice (i * 136) 136 (enc_entries es @ post)"
    using assms(1-3) by (simp add: bslice_def)
  also have "\<dots> = entry_bytes (es ! i)" using assms(4) i by (rule bslice_enc_entries)
  finally show "entries_at n off (length es) ! i = es ! i"
    using i assms(4) by (simp add: entries_at_def entry_roundtrip)
qed (simp add: entries_at_def)

lemma walk_bsets_eq:
  assumes "\<forall>b \<in> set bs. ok_bset b" "body n = pre @ enc_bsets bs @ rest" "length pre = off"
    and "k \<le> length bs"
  shows "walk_bsets n k off = off + length (enc_bsets (take k bs))"
  using assms
proof (induction k arbitrary: bs pre off)
  case (Suc k)
  then obtain b bs' where bs: "bs = b # bs'" by (cases bs) auto
  have h: "read_bset_header n off = fst b"
    using Suc.prems bs by (intro read_bset_header_at [of n pre]) (auto simp: enc_bset_def)
  have "walk_bsets n k (off + length (enc_bset b)) = off + length (enc_bset b) + length (enc_bsets (take k bs'))"
    using Suc.prems bs by (intro Suc.IH [of bs' "pre @ enc_bset b"]) auto
  moreover have "length (enc_bset b) = 16 + unat (bh_nkeys (fst b)) * 136"
    using Suc.prems(1) bs length_enc_bset [of b] by (simp add: ok_bset_def)
  ultimately show ?case by (simp add: h bs)
qed simp

section \<open>Accessors of a laid-out node\<close>

lemma lay_ok: "layout n bs \<Longrightarrow> \<forall>b \<in> set bs. ok_bset b"
  by (simp add: layout_def)

lemma lay_offset:
  assumes lay: "layout n bs" and i: "i \<le> length bs"
  shows "walk_bsets n i 0 = length (enc_bsets (take i bs))"
proof -
  obtain rest where "body n = [] @ enc_bsets bs @ rest" using lay by (auto simp: layout_def)
  from walk_bsets_eq [OF lay_ok [OF lay] this refl i] show ?thesis by simp
qed

lemma lay_split:
  assumes lay: "layout n bs" and "i < length bs"
  obtains rest where
    "body n = enc_bsets (take i bs) @ bset_header_bytes (fst (bs ! i)) @ enc_entries (snd (bs ! i))
       @ enc_bsets (drop (Suc i) bs) @ rest"
    "bset_offset n i = length (enc_bsets (take i bs))"
proof -
  obtain rest where body: "body n = enc_bsets bs @ rest" using lay by (auto simp: layout_def)
  have "bs = take i bs @ bs ! i # drop (Suc i) bs" using assms(2) by (rule id_take_nth_drop)
  then have "enc_bsets bs = enc_bsets (take i bs @ bs ! i # drop (Suc i) bs)" by simp
  also have "\<dots> = enc_bsets (take i bs) @ enc_bset (bs ! i) @ enc_bsets (drop (Suc i) bs)" by simp
  finally show ?thesis
    using that [of rest] body assms lay_offset [OF lay, of i] by (simp add: bset_offset_def enc_bset_def)
qed

lemma lay_nth_ok: "layout n bs \<Longrightarrow> i < length bs \<Longrightarrow> ok_bset (bs ! i)"
  using lay_ok by simp

lemma lay_header: "layout n bs \<Longrightarrow> i < length bs \<Longrightarrow> read_bset_header n (bset_offset n i) = fst (bs ! i)"
  by (erule (1) lay_split) (auto intro: read_bset_header_at)

lemma lay_header_at: "layout n bs \<Longrightarrow> i < length bs \<Longrightarrow> bset_header_at n i = fst (bs ! i)"
  by (simp add: bset_header_at_def lay_header)

lemma lay_entries:
  assumes lay: "layout n bs" and i: "i < length bs"
  shows "bset_entries n i = snd (bs ! i)"
proof -
  obtain rest where body: "body n = enc_bsets (take i bs) @ bset_header_bytes (fst (bs ! i)) @
      enc_entries (snd (bs ! i)) @ enc_bsets (drop (Suc i) bs) @ rest"
    and off: "bset_offset n i = length (enc_bsets (take i bs))"
    using lay_split [OF lay i] by metis
  have "entries_at n (bset_offset n i) (length (snd (bs ! i))) = snd (bs ! i)"
    using lay_nth_ok [OF lay i] entries_at_eq [OF body] off by (simp add: ok_bset_def)
  with lay_nth_ok [OF lay i] show ?thesis by (simp add: bset_entries_def lay_header [OF lay i] ok_bset_def Let_def)
qed

lemma lay_count: "layout n bs \<Longrightarrow> bset_count n = length bs"
  by (simp add: layout_def)

lemma lay_total:
  assumes lay: "layout n bs"
  shows "total_stored n = bsets_total bs"
proof -
  have "map (\<lambda>b. unat (bh_nkeys (bset_header_at n b))) [0..<length bs] = map (\<lambda>b. length (snd b)) bs"
    using lay_nth_ok [OF lay] by (intro nth_equalityI) (auto simp: lay_header_at [OF lay] ok_bset_def)
  then show ?thesis by (simp add: total_stored_def lay_count [OF lay] bsets_total_def)
qed

lemmas lay_simps = lay_header lay_header_at lay_entries lay_count lay_total

lemma layout_unique: "layout n bs \<Longrightarrow> layout n bs' \<Longrightarrow> bs = bs'"
proof (rule nth_equalityI)
  assume l: "layout n bs" "layout n bs'"
  show len: "length bs = length bs'" using lay_count [OF l(1)] lay_count [OF l(2)] by simp
  fix i assume "i < length bs"
  with len show "bs ! i = bs' ! i"
    using lay_header [OF l(1), of i] lay_header [OF l(2), of i] lay_entries [OF l(1), of i]
      lay_entries [OF l(2), of i] by (simp add: prod_eq_iff)
qed

text \<open>The packed bsets always fit: four headers and 29 entries leave slack in the body.\<close>

lemma layout_fits:
  assumes "\<forall>b \<in> set bs. ok_bset b" "length bs \<le> 4" "bsets_total bs \<le> 29"
  shows "length (enc_bsets bs) \<le> 4032"
  using assms by (simp add: length_enc_bsets)

section \<open>Mutations of a laid-out node\<close>

lemma level_body_update [simp]: "level (n\<lparr>body := b\<rparr>) = level n"
  by (simp add: level_def)

lemma bset_count_body_update [simp]: "bset_count (n\<lparr>body := b\<rparr>) = bset_count n"
  by (simp add: bset_count_def)

lemma level_write [simp]:
  "level (write_bset_header n off h) = level n" "level (write_entries_at n off es) = level n"
  "level (set_bset_entries i es n) = level n" "level (update_entry_at b i f n) = level n"
  "level (set_child_block i nr n) = level n" "level (set_nkeys m n) = level n"
  "level (set_bset_needs_whiteout i w n) = level n" "level (set_generation g n) = level n"
  by (simp_all add: write_bset_header_def write_entries_at_def set_bset_entries_def update_entry_at_def
      set_child_block_def set_child_block_at_def set_nkeys_def set_bset_needs_whiteout_def Let_def
      set_generation_def level_def)

lemma level_start_new_bset: "start_new_bset s n = Some n' \<Longrightarrow> level n' = level n"
  by (auto simp: start_new_bset_def Let_def level_def write_bset_header_def split: if_splits)

lemma bsets_total_update_same:
  "i < length bs \<Longrightarrow> length (snd b) = length (snd (bs ! i)) \<Longrightarrow> bsets_total (bs[i := b]) = bsets_total bs"
proof (induction bs arbitrary: i)
  case (Cons c bs)
  then show ?case by (cases i) auto
qed simp

text \<open>Replacing bset \<open>i\<close> by one of the same length, bytes spliced in place.\<close>

lemma layout_replace:
  assumes lay: "layout n bs" and i: "i < length bs"
    and b: "ok_bset b" "length (snd b) = length (snd (bs ! i))"
    and n': "header n' = header n"
      "body n' = enc_bsets (take i bs) @ enc_bset b @ drop (length (enc_bsets (take (Suc i) bs))) (body n)"
  shows "layout n' (bs[i := b])"
proof -
  obtain rest where body: "body n = enc_bsets bs @ rest" using lay by (auto simp: layout_def)
  have ok: "\<forall>b \<in> set bs. ok_bset b" by (rule lay_ok [OF lay])
  have split: "bs = take (Suc i) bs @ drop (Suc i) bs" by simp
  have "drop (length (enc_bsets (take (Suc i) bs))) (body n) = enc_bsets (drop (Suc i) bs) @ rest"
    by (subst body, subst split) (simp del: append_take_drop_id)
  then have body': "body n' = enc_bsets (bs[i := b]) @ rest"
    using n'(2) i by (simp add: upd_conv_take_nth_drop)
  have okb: "\<forall>c \<in> set (bs[i := b]). ok_bset c"
    using ok b(1) by (auto dest: set_update_subset_insert [THEN subsetD])
  have tot: "bsets_total (bs[i := b]) = bsets_total bs"
    using i b(2) by (rule bsets_total_update_same)
  have "length (enc_bsets (bs[i := b])) = length (enc_bsets bs)"
    using length_enc_bsets [OF okb] length_enc_bsets [OF ok] tot by simp
  then have "length (body n') = length (body n)" by (simp add: body body')
  then show ?thesis
    using lay n'(1) body' okb tot by (simp add: layout_def bset_count_def)
qed

lemma take_Suc_enc: "i < length bs \<Longrightarrow> enc_bsets (take (Suc i) bs) = enc_bsets (take i bs) @ enc_bset (bs ! i)"
  by (simp add: take_Suc_conv_app_nth)

lemma lay_offset_bset: "layout n bs \<Longrightarrow> i < length bs \<Longrightarrow> bset_offset n i = length (enc_bsets (take i bs))"
  using lay_split by blast

lemma layout_write_header:
  assumes lay: "layout n bs" and i: "i < length bs" and h: "unat (bh_nkeys h) = length (snd (bs ! i))"
  shows "layout (write_bset_header n (bset_offset n i) h) (bs[i := (h, snd (bs ! i))])"
proof (rule layout_replace [OF lay i])
  show "ok_bset (h, snd (bs ! i))" using h lay_nth_ok [OF lay i] by (simp add: ok_bset_def)
  obtain rest where body: "body n = enc_bsets (take i bs) @ bset_header_bytes (fst (bs ! i)) @
      enc_entries (snd (bs ! i)) @ enc_bsets (drop (Suc i) bs) @ rest"
    and off: "bset_offset n i = length (enc_bsets (take i bs))"
    using lay_split [OF lay i] by metis
  have "bsplice (bset_offset n i) (bset_header_bytes h) (body n) =
     enc_bsets (take i bs) @ bset_header_bytes h @ enc_entries (snd (bs ! i)) @ enc_bsets (drop (Suc i) bs) @ rest"
    unfolding body by (rule bsplice_middle) (simp_all add: off)
  moreover have "drop (length (enc_bsets (take (Suc i) bs))) (body n) = enc_bsets (drop (Suc i) bs) @ rest"
    using i by (simp add: body take_Suc_enc enc_bset_def)
  ultimately show "body (write_bset_header n (bset_offset n i) h) = enc_bsets (take i bs) @
      enc_bset (h, snd (bs ! i)) @ drop (length (enc_bsets (take (Suc i) bs))) (body n)"
    by (simp add: write_bset_header_def enc_bset_def)
qed (simp_all add: write_bset_header_def)

lemma layout_set_entries:
  assumes lay: "layout n bs" and i: "i < length bs" and len: "length es = length (snd (bs ! i))"
    and sz: "\<forall>e \<in> set es. sized_entry e"
  shows "layout (set_bset_entries i es n) (bs[i := (fst (bs ! i), es)])"
proof (rule layout_replace [OF lay i])
  have ok: "ok_bset (bs ! i)" by (rule lay_nth_ok [OF lay i])
  show "ok_bset (fst (bs ! i), es)" using ok len sz by (simp add: ok_bset_def)
  obtain rest where body: "body n = enc_bsets (take i bs) @ bset_header_bytes (fst (bs ! i)) @
      enc_entries (snd (bs ! i)) @ enc_bsets (drop (Suc i) bs) @ rest"
    and off: "bset_offset n i = length (enc_bsets (take i bs))"
    using lay_split [OF lay i] by metis
  have "bsplice (bset_offset n i + 16) (enc_entries es)
     ((enc_bsets (take i bs) @ bset_header_bytes (fst (bs ! i))) @ enc_entries (snd (bs ! i)) @
        enc_bsets (drop (Suc i) bs) @ rest) =
     (enc_bsets (take i bs) @ bset_header_bytes (fst (bs ! i))) @ enc_entries es @ enc_bsets (drop (Suc i) bs) @ rest"
    using ok len sz by (intro bsplice_middle) (simp_all add: off ok_bset_def)
  moreover have "drop (length (enc_bsets (take (Suc i) bs))) (body n) = enc_bsets (drop (Suc i) bs) @ rest"
    using i by (simp add: body take_Suc_enc enc_bset_def)
  ultimately show "body (set_bset_entries i es n) = enc_bsets (take i bs) @ enc_bset (fst (bs ! i), es) @
      drop (length (enc_bsets (take (Suc i) bs))) (body n)"
    by (simp add: set_bset_entries_def write_entries_at_def enc_bset_def enc_entries_def [symmetric] body)
qed (simp_all add: set_bset_entries_def write_entries_at_def len)

lemma layout_update_entry:
  assumes lay: "layout n bs" and b: "b < length bs" and i: "i < length (snd (bs ! b))"
    and sz: "sized_entry (f (snd (bs ! b) ! i))"
  shows "layout (update_entry_at b i f n) (bs[b := (fst (bs ! b), (snd (bs ! b))[i := f (snd (bs ! b) ! i)])])"
proof -
  have "\<forall>e \<in> set ((snd (bs ! b))[i := f (snd (bs ! b) ! i)]). sized_entry e"
    using lay_nth_ok [OF lay b] sz
    by (auto simp: ok_bset_def dest: set_update_subset_insert [THEN subsetD])
  then show ?thesis
    using layout_set_entries [OF lay b, of "(snd (bs ! b))[i := f (snd (bs ! b) ! i)]"]
    by (simp add: update_entry_at_def lay_entries [OF lay b] Let_def)
qed

text \<open>Rewriting the last bset, possibly with a different number of entries: the code only ever
  grows or shrinks the bset at the end of the packed area.\<close>

lemma layout_rewrite_last:
  assumes lay: "layout n (bs @ [(h, es)])"
    and ok: "ok_bset (h', es')" and tot: "bsets_total bs + length es' \<le> 29"
    and n': "header n' = header n" "length (body n') = 4032"
      "body n' = enc_bsets bs @ bset_header_bytes h' @ enc_entries es' @ rest'"
  shows "layout n' (bs @ [(h', es')])"
  using lay ok tot n'
  by (auto simp: layout_def bset_count_def enc_bset_def intro!: exI [of _ rest'])

lemma bset_offset_last: "layout n (bs @ [b]) \<Longrightarrow> bset_offset n (length bs) = length (enc_bsets bs)"
  using lay_offset_bset [of n "bs @ [b]" "length bs"] by simp

lemma layout_start_new_bset:
  assumes lay: "layout n bs" and c: "length bs < 4"
  shows "\<exists>n'. start_new_bset seq n = Some n' \<and> level n' = level n \<and> generation n' = generation n
     \<and> layout n' (bs @ [(\<lparr>bh_seq = seq, bh_nkeys = 0, bh_flags = 0, bh_pad = 0\<rparr>, [])])"
proof -
  let ?h = "\<lparr>bh_seq = seq, bh_nkeys = 0, bh_flags = 0, bh_pad = 0\<rparr>"
  obtain rest where body: "body n = enc_bsets bs @ rest" using lay by (auto simp: layout_def)
  have ok: "\<forall>b \<in> set bs. ok_bset b" by (rule lay_ok [OF lay])
  have len: "length (body n) = 4032" "bsets_total bs \<le> 29" using lay by (auto simp: layout_def)
  have fit: "length (enc_bsets bs) + 16 \<le> 4032"
    using length_enc_bsets [OF ok] len(2) c by simp
  then have rest: "16 \<le> length rest" using len(1) body by simp
  have off: "walk_bsets n (length bs) 0 = length (enc_bsets bs)"
    using lay_offset [OF lay, of "length bs"] by simp
  define n1 where "n1 = write_bset_header n (length (enc_bsets bs)) ?h"
  define n2 where "n2 = n1\<lparr>header := (header n1)\<lparr>nh_bset_count := of_nat (length bs + 1)\<rparr>\<rparr>"
  have start: "start_new_bset seq n = Some n2"
    using c by (simp add: start_new_bset_def lay_count [OF lay] off n1_def n2_def Let_def)
  have b2: "body n2 = enc_bsets (bs @ [(?h, [])]) @ drop 16 rest"
    by (simp add: n2_def n1_def write_bset_header_def body bsplice_def enc_bset_def)
  moreover have "length (body n2) = 4032" using len(1) rest by (simp add: b2 body enc_bset_def)
  moreover have "bset_count n2 = length (bs @ [(?h, [])])"
    using c by (simp add: n2_def bset_count_def unat_of_nat_small)
  moreover have "header_ok (header n2)"
    using lay by (simp add: layout_def n2_def n1_def write_bset_header_def)
  ultimately have "layout n2 (bs @ [(?h, [])])"
    using lay c ok by (auto simp: layout_def ok_bset_def)
  with start show ?thesis
    by (auto simp: n2_def n1_def level_def generation_def write_bset_header_def)
qed

text \<open>The common core of appending and sort-inserting: growing the last bset by one entry.\<close>

lemma layout_grow_last:
  assumes lay: "layout n (bs @ [(h, es)])" and tot: "bsets_total bs + length es < 29"
    and es': "length es' = Suc (length es)" "\<forall>e \<in> set es'. sized_entry e"
    and n': "header n' = header n"
      "body n' = bsplice (length (enc_bsets bs)) (bset_header_bytes h') (bsplice off buf (body n))"
    and buf: "bsplice off buf (body n) = take (length (enc_bsets bs) + 16) (body n) @ enc_entries es' @
      drop (length (enc_bsets bs) + 16 + length (enc_entries es')) (body n)"
    and h': "unat (bh_nkeys h') = Suc (length es)"
  shows "layout n' (bs @ [(h', es')])"
proof -
  have ok: "\<forall>b \<in> set bs. ok_bset b" using lay_ok [OF lay] by simp
  have len: "length (body n) = 4032" "length bs < 4" using lay by (auto simp: layout_def)
  have esz: "length (enc_entries es') = 136 * Suc (length es)" using es' by simp
  have fit: "length (enc_bsets bs) + 16 + length (enc_entries es') \<le> 4032"
    using length_enc_bsets [OF ok] tot len(2) esz by simp
  let ?P = "enc_bsets bs" and ?rest = "drop (length (enc_bsets bs) + 16 + length (enc_entries es')) (body n)"
  obtain r where b: "body n = ?P @ bset_header_bytes h @ r"
    using lay by (auto simp: layout_def enc_bset_def)
  then have "take (length ?P + 16) (body n) = ?P @ bset_header_bytes h" by simp
  then have "bsplice off buf (body n) = ?P @ bset_header_bytes h @ enc_entries es' @ ?rest"
    using buf by simp
  then have b': "body n' = ?P @ bset_header_bytes h' @ enc_entries es' @ ?rest"
    using n'(2) by (simp add: bsplice_def)
  moreover have "length (body n') = 4032" using fit len(1) by (simp add: b')
  moreover have "ok_bset (h', es')" using h' es' by (simp add: ok_bset_def)
  ultimately show ?thesis
    using tot es'(1) n'(1) by (intro layout_rewrite_last [OF lay]) simp_all
qed

lemma layout_append:
  assumes lay: "layout n (bs @ [(h, es)])" and tot: "bsets_total bs + length es < 29" and e: "sized_entry e"
  shows "\<exists>n'. append_to_last_bset e n = Some n' \<and> level n' = level n \<and> generation n' = generation n
     \<and> layout n' (bs @ [(\<lparr>bh_seq = bh_seq h, bh_nkeys = of_nat (length es + 1), bh_flags = bh_flags h,
                            bh_pad = 0\<rparr>, es @ [e])])"
proof -
  have count: "bset_count n = Suc (length bs)" using lay_count [OF lay] by simp
  have okl: "ok_bset (h, es)" using lay_ok [OF lay] by simp
  then have nk: "unat (bh_nkeys h) = length es" and sz: "\<forall>e \<in> set es. sized_entry e"
    by (auto simp: ok_bset_def)
  have nk': "bh_nkeys h = of_nat (length es)" by (simp flip: nk)
  let ?P = "enc_bsets bs"
  let ?h' = "\<lparr>bh_seq = bh_seq h, bh_nkeys = of_nat (length es + 1), bh_flags = bh_flags h, bh_pad = 0\<rparr> :: bset_header"
  have off: "bset_offset n (length bs) = length ?P" by (rule bset_offset_last [OF lay])
  have hd: "read_bset_header n (length ?P) = h"
    using lay_header [OF lay, of "length bs"] off by (simp add: nth_append)
  define n' where "n' = write_bset_header (n\<lparr>body := bsplice (length ?P + 16 + length es * 136) (entry_bytes e) (body n)\<rparr>)
      (length ?P) ?h'"
  have app: "append_to_last_bset e n = Some n'"
    using tot lay_total [OF lay] nk'
    by (simp add: append_to_last_bset_def count off hd n'_def Let_def unat_of_nat_small)
  have "layout n' (bs @ [(?h', es @ [e])])"
  proof (rule layout_grow_last [OF lay tot])
    obtain r where b: "body n = ?P @ bset_header_bytes h @ enc_entries es @ r"
      using lay by (auto simp: layout_def enc_bset_def)
    show "bsplice (length ?P + 16 + length es * 136) (entry_bytes e) (body n) =
       take (length ?P + 16) (body n) @ enc_entries (es @ [e]) @
       drop (length ?P + 16 + length (enc_entries (es @ [e]))) (body n)"
      using e sz by (simp add: b bsplice_def algebra_simps)
    show "unat (bh_nkeys ?h') = Suc (length es)"
      using tot by (simp add: unat_of_nat_small)
  qed (use e sz in \<open>auto simp: n'_def write_bset_header_def\<close>)
  with app show ?thesis by (auto simp: n'_def level_def generation_def write_bset_header_def)
qed


lemma insert_shift:
  assumes "i \<le> length es"
  shows "(bsplice (i + 1) (bslice i (length es - i) (es @ [x])) (es @ [x]))[i := e] = take i es @ e # drop i es"
proof (rule nth_equalityI)
  have len: "length (bslice i (length es - i) (es @ [x])) = length es - i" using assms by simp
  show "length ((bsplice (i + 1) (bslice i (length es - i) (es @ [x])) (es @ [x]))[i := e]) =
      length (take i es @ e # drop i es)"
    using assms by simp
  fix j assume "j < length ((bsplice (i + 1) (bslice i (length es - i) (es @ [x])) (es @ [x]))[i := e])"
  then have j: "j < Suc (length es)" using assms by simp
  have nth: "bslice i (length es - i) (es @ [x]) ! m = es ! (i + m)" if "m < length es - i" for m
    using that by (simp add: bslice_def nth_append)
  consider "j < i" | "j = i" | "i < j" by linarith
  then show "(bsplice (i + 1) (bslice i (length es - i) (es @ [x])) (es @ [x]))[i := e] ! j =
      (take i es @ e # drop i es) ! j"
  proof cases
    case 3
    then have "bsplice (i + 1) (bslice i (length es - i) (es @ [x])) (es @ [x]) ! j =
        bslice i (length es - i) (es @ [x]) ! (j - Suc i)"
      using j assms len by (simp add: bsplice_def nth_append)
    also have "\<dots> = es ! (j - 1)" using 3 j by (subst nth) auto
    finally show ?thesis using 3 j assms by (simp add: nth_append nth_Cons')
  qed (use j assms in \<open>auto simp: bsplice_def nth_append\<close>)
qed

text \<open>\<open>sort_insert_into_last_bset\<close>: overwrite at the found index, or open a slot at the insertion
  point.\<close>

lemma layout_sort_insert:
  assumes lay: "layout n (bs @ [(h, es)])" and e: "sized_entry e"
    and room: "key_bytes e \<notin> set (map key_bytes es) \<Longrightarrow> bsets_total bs + length es < 29"
    and srt: "sorted_keys (map key_bytes es)"
  shows "\<exists>r n' h'. sort_insert_into_last_bset e n = Some (r, n') \<and> level n' = level n
     \<and> generation n' = generation n \<and> bh_seq h' = bh_seq h \<and> bh_flags h' = bh_flags h
     \<and> layout n' (bs @ [(h', if key_bytes e \<in> set (map key_bytes es)
          then es[lower_bound (map key_bytes es) (key_bytes e) := e]
          else take (lower_bound (map key_bytes es) (key_bytes e)) es @ e #
               drop (lower_bound (map key_bytes es) (key_bytes e)) es)])"
proof -
  let ?i = "lower_bound (map key_bytes es) (key_bytes e)" and ?P = "enc_bsets bs"
  have count: "bset_count n = Suc (length bs)" using lay_count [OF lay] by simp
  have okl: "ok_bset (h, es)" using lay_ok [OF lay] by simp
  then have nk: "unat (bh_nkeys h) = length es" and sz: "\<forall>e \<in> set es. sized_entry e"
    by (auto simp: ok_bset_def)
  have off: "bset_offset n (length bs) = length ?P" by (rule bset_offset_last [OF lay])
  have hd: "read_bset_header n (length ?P) = h"
    using lay_header [OF lay, of "length bs"] off by (simp add: nth_append)
  have ents: "bset_entries n (length bs) = es" using lay_entries [OF lay, of "length bs"] by simp
  then have ents': "entries_at n (length ?P) (length es) = es" by (simp add: bset_entries_def off hd nk)
  have search: "bset_search n (length bs) (key_bytes e) =
      (if key_bytes e \<in> set (map key_bytes es) then Inr ?i else Inl ?i)"
    by (simp only: bset_search_def ents search_keys_sorted [OF srt])
  show ?thesis
  proof (cases "key_bytes e \<in> set (map key_bytes es)")
    case True
    have "layout (set_bset_entries (length bs) (es[?i := e]) n)
        ((bs @ [(h, es)])[length bs := (fst ((bs @ [(h, es)]) ! length bs), es[?i := e])])"
      using sz e by (intro layout_set_entries [OF lay])
        (auto dest: set_update_subset_insert [THEN subsetD])
    moreover have "sort_insert_into_last_bset e n =
        Some (Inr ?i, set_bset_entries (length bs) (es[?i := e]) n)"
      using True
      by (simp add: sort_insert_into_last_bset_def count search off hd nk ents' set_bset_entries_def Let_def)
    ultimately show ?thesis
      using True by (auto simp: set_bset_entries_def write_entries_at_def level_def generation_def)
  next
    case False
    then have tot: "bsets_total bs + length es < 29" by (rule room)
    let ?es' = "take ?i es @ e # drop ?i es"
    let ?h' = "\<lparr>bh_seq = bh_seq h, bh_nkeys = of_nat (length es + 1), bh_flags = bh_flags h, bh_pad = 0\<rparr> :: bset_header"
    obtain x where x: "entries_at n (length ?P) (Suc (length es)) = es @ [x]"
      using ents' by (simp add: entries_at_def)
    have ile: "?i \<le> length es" using lower_bound_le [of "map key_bytes es" "key_bytes e"] by simp
    define n' where "n' = write_bset_header (write_entries_at n (length ?P) ?es') (length ?P) ?h'"
    have shift: "(bsplice (Suc ?i) (bslice ?i (length es - ?i) (es @ [x])) (es @ [x]))[?i := e] = ?es'"
      using insert_shift [OF ile, of x e] by simp
    have ins: "sort_insert_into_last_bset e n = Some (Inl ?i, n')"
      using False tot lay_total [OF lay]
      by (simp add: sort_insert_into_last_bset_def count search off hd nk x shift n'_def Let_def)
    have "layout n' (bs @ [(?h', ?es')])"
    proof (rule layout_grow_last [OF lay tot])
      show "bsplice (length ?P + 16) (enc_entries ?es') (body n) =
         take (length ?P + 16) (body n) @ enc_entries ?es' @
         drop (length ?P + 16 + length (enc_entries ?es')) (body n)"
        by (simp add: bsplice_def)
      show "unat (bh_nkeys ?h') = Suc (length es)"
        using tot by (simp add: unat_of_nat_small)
      show "\<forall>e\<in>set ?es'. sized_entry e" using sz e by (auto dest: in_set_takeD in_set_dropD)
      show "length ?es' = Suc (length es)" using ile by simp
    qed (simp_all add: n'_def write_bset_header_def write_entries_at_def enc_entries_def)
    with ins False show ?thesis
      by (auto simp: n'_def level_def generation_def write_bset_header_def write_entries_at_def)
  qed
qed

lemma generation_write [simp]:
  "generation (write_bset_header n off h) = generation n" "generation (write_entries_at n off es) = generation n"
  "generation (set_bset_entries i es n) = generation n" "generation (update_entry_at b i f n) = generation n"
  "generation (set_child_block i nr n) = generation n" "generation (set_nkeys m n) = generation n"
  "generation (set_bset_needs_whiteout i w n) = generation n"
  by (simp_all add: write_bset_header_def write_entries_at_def set_bset_entries_def update_entry_at_def
      set_child_block_def set_child_block_at_def set_nkeys_def set_bset_needs_whiteout_def Let_def
      generation_def)

lemma layout_set_generation [simp]: "layout (set_generation g n) bs = layout n bs"
  by (simp add: layout_def set_generation_def bset_count_def)

lemma whiteout_flag_bit: "and x BSET_FLAG_NEEDS_WHITEOUT \<noteq> 0 \<longleftrightarrow> bit x 0"
  by (simp add: BSET_FLAG_NEEDS_WHITEOUT_def and_one_eq bit_0 odd_iff_mod_2_eq_one)

lemma layout_set_needs_whiteout:
  assumes lay: "layout n bs" and i: "i < length bs"
  shows "\<exists>h'. bh_seq h' = bh_seq (fst (bs ! i))
     \<and> (and (bh_flags h') BSET_FLAG_NEEDS_WHITEOUT \<noteq> 0 \<longleftrightarrow> w)
     \<and> layout (set_bset_needs_whiteout i w n) (bs[i := (h', snd (bs ! i))])"
proof -
  let ?h = "fst (bs ! i)"
  let ?h' = "?h\<lparr>bh_flags := (if w then or (bh_flags ?h) BSET_FLAG_NEEDS_WHITEOUT
      else and (bh_flags ?h) (not BSET_FLAG_NEEDS_WHITEOUT))\<rparr>"
  have "unat (bh_nkeys ?h') = length (snd (bs ! i))" using lay_nth_ok [OF lay i] by (simp add: ok_bset_def)
  from layout_write_header [OF lay i this]
  have "layout (set_bset_needs_whiteout i w n) (bs[i := (?h', snd (bs ! i))])"
    by (cases w) (simp_all add: set_bset_needs_whiteout_def lay_header [OF lay i] Let_def)
  moreover have "and (bh_flags ?h') BSET_FLAG_NEEDS_WHITEOUT \<noteq> 0 \<longleftrightarrow> w"
    by (subst whiteout_flag_bit) (simp add: BSET_FLAG_NEEDS_WHITEOUT_def bit_simps)
  ultimately show ?thesis by (intro exI [of _ ?h']) simp
qed

section \<open>Single-bset nodes\<close>

text \<open>\<open>set_nkeys\<close> on a node whose only bset shrinks.\<close>

lemma layout_set_nkeys_shrink:
  assumes lay: "layout n [(h, es)]" and m: "m = (if level n > 0 then k + 1 else k)" "m \<le> length es"
  shows "\<exists>h'. bh_seq h' = bh_seq h \<and> bh_flags h' = bh_flags h \<and> layout (set_nkeys k n) [(h', take m es)]"
proof -
  let ?h' = "\<lparr>bh_seq = bh_seq h, bh_nkeys = of_nat m, bh_flags = bh_flags h, bh_pad = 0\<rparr> :: bset_header"
  have okl: "ok_bset (h, es)" and tot: "length es \<le> 29" using lay_ok [OF lay] lay by (simp_all add: layout_def)
  have lay': "layout n ([] @ [(h, es)])" using lay by simp
  have hd: "read_bset_header n 0 = h"
    using lay_header [OF lay, of 0] bset_offset_last [OF lay'] by simp
  obtain r where b: "body n = bset_header_bytes h @ enc_entries es @ r"
    using lay by (auto simp: layout_def enc_bset_def)
  have es: "enc_entries es = enc_entries (take m es) @ enc_entries (drop m es)"
    by (metis append_take_drop_id enc_entries_simps(3))
  have "layout (set_nkeys k n) ([] @ [(?h', take m es)])"
  proof (rule layout_rewrite_last [OF lay'])
    show "ok_bset (?h', take m es)"
      using okl m tot by (auto simp: ok_bset_def unat_of_nat_small dest: in_set_takeD)
    show "body (set_nkeys k n) = enc_bsets [] @ bset_header_bytes ?h' @ enc_entries (take m es) @
        (enc_entries (drop m es) @ r)"
      by (subst append_assoc [symmetric, of "enc_entries (take m es)"], subst es [symmetric])
        (simp add: set_nkeys_def write_bset_header_def hd b bsplice_def Let_def m(1) flip: of_nat_Suc)
    show "length (body (set_nkeys k n)) = 4032"
      using lay by (simp add: set_nkeys_def write_bset_header_def Let_def layout_def)
  qed (use tot in \<open>simp_all add: set_nkeys_def write_bset_header_def Let_def\<close>)
  then show ?thesis by (intro exI [of _ ?h']) simp
qed

lemma entry_bytes_empty: "entry_bytes empty_entry = replicate 136 0"
  by (simp add: entry_bytes_def empty_entry_def replicate_app_Cons_same flip: replicate_add replicate_Suc)

lemma sized_empty [simp]: "sized_entry empty_entry"
  by (simp add: sized_entry_def empty_entry_def)

lemma enc_replicate_empty: "enc_entries (replicate k empty_entry) = replicate (136 * k) 0"
  by (induction k) (simp_all add: entry_bytes_empty flip: replicate_add)

lemma layout_node_new [simp]: "layout (node_new l) []"
  by (simp add: layout_def node_new_def bset_count_def header_ok_def)

lemma layout_checksum [simp]: "layout (n\<lparr>header := (header n)\<lparr>nh_checksum := s\<rparr>\<rparr>) bs = layout n bs"
  by (simp add: layout_def bset_count_def)

lemma level_checksum [simp]:
  "level (n\<lparr>header := (header n)\<lparr>nh_checksum := s\<rparr>\<rparr>) = level n"
  "generation (n\<lparr>header := (header n)\<lparr>nh_checksum := s\<rparr>\<rparr>) = generation n"
  by (simp_all add: level_def generation_def)

lemma level_node_new [simp]: "level (node_new l) = l" "generation (node_new l) = 0"
  by (simp_all add: level_def node_new_def generation_def)

text \<open>A leaf image holding given bsets.\<close>

definition leaf_image :: "bset list \<Rightarrow> node" where
  "leaf_image bs = \<lparr>header = (header (node_new 0))\<lparr>nh_bset_count := of_nat (length bs)\<rparr>,
     body = enc_bsets bs @ replicate (4032 - length (enc_bsets bs)) 0\<rparr>"

lemma layout_leaf_image:
  assumes "\<forall>b \<in> set bs. ok_bset b" "length bs \<le> 4" "bsets_total bs \<le> 29"
  shows "layout (leaf_image bs) bs"
proof -
  have "header_ok (header (node_new 0))" using layout_node_new [of 0] by (simp only: layout_def)
  then show ?thesis
    using assms layout_fits [OF assms] by (simp add: layout_def leaf_image_def bset_count_def unat_of_nat_small)
qed

end
