(* ===== verification/Storage.thy ===== *)
theory Storage
  imports Device Node_Layout "HOL-Library.Multiset"
begin

text \<open>
  \<open>src/storage.rs\<close>: the superblock and journal-frame formats and the block store, i.e. the node and
  data caches over a device, the block allocator with its free list, and the on-disk free-list
  chain.

  \<open>crc32fast::hash\<close> is a parameter: an argument \<open>crc\<close> of the pure format functions and the field
  \<open>crc32\<close> of the store.  The hash maps of the caches are maps; \<open>flush_all\<close> takes the iteration
  order of the hash map as an argument.  Block offsets are computed in \<open>u64\<close> and wrap as the
  release build does.
\<close>

section \<open>Constants\<close>

definition SUPERBLOCK_BLOCK_NR :: u64 where "SUPERBLOCK_BLOCK_NR = 0"
definition JOURNAL_MAGIC :: u32 where "JOURNAL_MAGIC = 0x524A4E4C"
definition JOURNAL_BLOCKS :: u64 where "JOURNAL_BLOCKS = 64"
definition FIRST_JOURNAL_BLOCK :: u64 where "FIRST_JOURNAL_BLOCK = 1"
definition ENTRIES_PER_BLOCK :: nat where "ENTRIES_PER_BLOCK = 16"
definition JOURNAL_CAPACITY :: u64 where "JOURNAL_CAPACITY = JOURNAL_BLOCKS * of_nat ENTRIES_PER_BLOCK"
definition FIRST_DATA_BLOCK_NR :: u64 where "FIRST_DATA_BLOCK_NR = FIRST_JOURNAL_BLOCK + JOURNAL_BLOCKS"
definition SUPERBLOCK_MAGIC :: u32 where "SUPERBLOCK_MAGIC = 0x52465342"
definition SUPERBLOCK_VERSION :: u32 where "SUPERBLOCK_VERSION = 4"
definition JOURNAL_FRAME_SIZE :: nat where "JOURNAL_FRAME_SIZE = 256"
definition JOURNAL_OP_CAPACITY :: nat where "JOURNAL_OP_CAPACITY = 184"
definition FREE_CHAIN_ENTRIES :: nat where "FREE_CHAIN_ENTRIES = (BLOCK_SIZE - 16) div 8"

lemma storage_values [simp]:
  "SUPERBLOCK_BLOCK_NR = 0" "JOURNAL_BLOCKS = 64" "FIRST_JOURNAL_BLOCK = 1" "ENTRIES_PER_BLOCK = 16"
  "JOURNAL_CAPACITY = 1024" "FIRST_DATA_BLOCK_NR = 65" "SUPERBLOCK_VERSION = 4"
  "JOURNAL_FRAME_SIZE = 256" "JOURNAL_OP_CAPACITY = 184" "FREE_CHAIN_ENTRIES = 510"
  by (simp_all add: SUPERBLOCK_BLOCK_NR_def JOURNAL_BLOCKS_def FIRST_JOURNAL_BLOCK_def
      ENTRIES_PER_BLOCK_def JOURNAL_CAPACITY_def FIRST_DATA_BLOCK_NR_def SUPERBLOCK_VERSION_def
      JOURNAL_FRAME_SIZE_def JOURNAL_OP_CAPACITY_def FREE_CHAIN_ENTRIES_def)

section \<open>Superblock\<close>

record superblock =
  sb_magic :: u32
  sb_version :: u32
  sb_root_block :: u64
  sb_next_block_nr :: u64
  sb_next_bset_seq :: u64
  sb_next_ino :: u64
  sb_journal_seq :: u64
  sb_next_snap_id :: u32
  sb_next_subvol_id :: u32
  sb_current_subvol :: u32
  sb_checksum :: u32
  sb_free_head :: u64
  sb_reserved :: bytes

definition superblock_bytes :: "superblock \<Rightarrow> bytes" where
  "superblock_bytes sb = u32_le (sb_magic sb) @ u32_le (sb_version sb) @ u64_le (sb_root_block sb)
     @ u64_le (sb_next_block_nr sb) @ u64_le (sb_next_bset_seq sb) @ u64_le (sb_next_ino sb)
     @ u64_le (sb_journal_seq sb) @ u32_le (sb_next_snap_id sb) @ u32_le (sb_next_subvol_id sb)
     @ u32_le (sb_current_subvol sb) @ u32_le (sb_checksum sb) @ u64_le (sb_free_head sb) @ sb_reserved sb"

definition superblock_of_bytes :: "bytes \<Rightarrow> superblock" where
  "superblock_of_bytes bs = \<lparr>sb_magic = u32_of_le (bslice 0 4 bs), sb_version = u32_of_le (bslice 4 4 bs),
     sb_root_block = u64_of_le (bslice 8 8 bs), sb_next_block_nr = u64_of_le (bslice 16 8 bs),
     sb_next_bset_seq = u64_of_le (bslice 24 8 bs), sb_next_ino = u64_of_le (bslice 32 8 bs),
     sb_journal_seq = u64_of_le (bslice 40 8 bs), sb_next_snap_id = u32_of_le (bslice 48 4 bs),
     sb_next_subvol_id = u32_of_le (bslice 52 4 bs), sb_current_subvol = u32_of_le (bslice 56 4 bs),
     sb_checksum = u32_of_le (bslice 60 4 bs), sb_free_head = u64_of_le (bslice 64 8 bs),
     sb_reserved = bslice 72 (BLOCK_SIZE - 72) bs\<rparr>"

definition fresh :: "u64 \<Rightarrow> u64 \<Rightarrow> superblock" where
  "fresh root_block next_block = \<lparr>sb_magic = SUPERBLOCK_MAGIC, sb_version = SUPERBLOCK_VERSION,
     sb_root_block = root_block, sb_next_block_nr = next_block, sb_next_bset_seq = 1, sb_next_ino = 0,
     sb_journal_seq = 0, sb_next_snap_id = ROOT_SNAP - 1, sb_next_subvol_id = 1, sb_current_subvol = 0,
     sb_checksum = 0, sb_free_head = 0, sb_reserved = replicate (BLOCK_SIZE - 72) 0\<rparr>"

definition sb_compute_checksum :: "(bytes \<Rightarrow> u32) \<Rightarrow> superblock \<Rightarrow> u32" where
  "sb_compute_checksum crc sb = crc (superblock_bytes (sb\<lparr>sb_checksum := 0\<rparr>))"

definition sb_stamp_checksum :: "(bytes \<Rightarrow> u32) \<Rightarrow> superblock \<Rightarrow> superblock" where
  "sb_stamp_checksum crc sb =
     (let sb0 = sb\<lparr>sb_checksum := 0\<rparr> in sb0\<lparr>sb_checksum := crc (superblock_bytes sb0)\<rparr>)"

text \<open>The decimal numbers of the version message.\<close>

fun dec :: "nat \<Rightarrow> string" where
  "dec n = (if n < 10 then [char_of (48 + n)] else dec (n div 10) @ [char_of (48 + n mod 10)])"

declare dec.simps [simp del]

definition sb_parse :: "(bytes \<Rightarrow> u32) \<Rightarrow> bytes \<Rightarrow> error + superblock" where
  "sb_parse crc bs =
     (if length bs \<noteq> BLOCK_SIZE then Inl (Io (OtherIo ''superblock size mismatch''))
      else (let sb = superblock_of_bytes bs
            in if sb_magic sb \<noteq> SUPERBLOCK_MAGIC
               then Inl (BadMagic SUPERBLOCK_BLOCK_NR (sb_magic sb) SUPERBLOCK_MAGIC)
               else if sb_version sb \<noteq> SUPERBLOCK_VERSION
               then Inl (Io (OtherIo (''unsupported superblock version '' @ dec (unat (sb_version sb))
                      @ '' (expected '' @ dec (unat SUPERBLOCK_VERSION) @ '')'')))
               else if sb_checksum sb \<noteq> sb_compute_checksum crc sb
               then Inl (ChecksumMismatch SUPERBLOCK_BLOCK_NR)
               else Inr sb))"

section \<open>Journal frames\<close>

datatype frame_kind = LoggedOp | CommitEnd

fun frame_kind_u8 :: "frame_kind \<Rightarrow> u8" where
  "frame_kind_u8 LoggedOp = 1"
| "frame_kind_u8 CommitEnd = 2"

definition frame_kind_from_u8 :: "u8 \<Rightarrow> frame_kind option" where
  "frame_kind_from_u8 v = (if v = 1 then Some LoggedOp else if v = 2 then Some CommitEnd else None)"

record journal_frame =
  jf_magic :: u32
  jf_checksum :: u32
  jf_seq :: u64
  jf_frame_kind :: u8
  jf_op_kind :: u8
  jf_op_len :: u16
  jf_pad0 :: bytes
  jf_root_block :: u64
  jf_next_block_nr :: u64
  jf_next_bset_seq :: u64
  jf_next_ino :: u64
  jf_next_snap_id :: u32
  jf_next_subvol_id :: u32
  jf_current_subvol :: u32
  jf_pad1 :: u32
  jf_op_data :: bytes

definition frame_bytes :: "journal_frame \<Rightarrow> bytes" where
  "frame_bytes f = u32_le (jf_magic f) @ u32_le (jf_checksum f) @ u64_le (jf_seq f)
     @ [jf_frame_kind f, jf_op_kind f] @ u16_le (jf_op_len f) @ jf_pad0 f
     @ u64_le (jf_root_block f) @ u64_le (jf_next_block_nr f) @ u64_le (jf_next_bset_seq f)
     @ u64_le (jf_next_ino f) @ u32_le (jf_next_snap_id f) @ u32_le (jf_next_subvol_id f)
     @ u32_le (jf_current_subvol f) @ u32_le (jf_pad1 f) @ jf_op_data f"

definition frame_of_bytes :: "bytes \<Rightarrow> journal_frame" where
  "frame_of_bytes bs = \<lparr>jf_magic = u32_of_le (bslice 0 4 bs), jf_checksum = u32_of_le (bslice 4 4 bs),
     jf_seq = u64_of_le (bslice 8 8 bs), jf_frame_kind = bs ! 16, jf_op_kind = bs ! 17,
     jf_op_len = u16_of_le (bslice 18 2 bs), jf_pad0 = bslice 20 4 bs,
     jf_root_block = u64_of_le (bslice 24 8 bs), jf_next_block_nr = u64_of_le (bslice 32 8 bs),
     jf_next_bset_seq = u64_of_le (bslice 40 8 bs), jf_next_ino = u64_of_le (bslice 48 8 bs),
     jf_next_snap_id = u32_of_le (bslice 56 4 bs), jf_next_subvol_id = u32_of_le (bslice 60 4 bs),
     jf_current_subvol = u32_of_le (bslice 64 4 bs), jf_pad1 = u32_of_le (bslice 68 4 bs),
     jf_op_data = bslice 72 184 bs\<rparr>"

definition frame_new :: "u64 \<Rightarrow> frame_kind \<Rightarrow> journal_frame" where
  "frame_new seq k = \<lparr>jf_magic = JOURNAL_MAGIC, jf_checksum = 0, jf_seq = seq,
     jf_frame_kind = frame_kind_u8 k, jf_op_kind = 0, jf_op_len = 0, jf_pad0 = replicate 4 0,
     jf_root_block = 0, jf_next_block_nr = 0, jf_next_bset_seq = 0, jf_next_ino = 0,
     jf_next_snap_id = 0, jf_next_subvol_id = 0, jf_current_subvol = 0, jf_pad1 = 0,
     jf_op_data = replicate JOURNAL_OP_CAPACITY 0\<rparr>"

definition logged_op :: "u64 \<Rightarrow> u8 \<Rightarrow> bytes \<Rightarrow> journal_frame option" where
  "logged_op seq op_kind data =
     (if length data \<le> JOURNAL_OP_CAPACITY
      then (let f = frame_new seq LoggedOp
            in Some (f\<lparr>jf_op_kind := op_kind, jf_op_len := of_nat (length data),
                       jf_op_data := bsplice 0 data (jf_op_data f)\<rparr>))
      else None)"

definition commit_end :: "u64 \<Rightarrow> u64 \<Rightarrow> u64 \<Rightarrow> u64 \<Rightarrow> u64 \<Rightarrow> u32 \<Rightarrow> u32 \<Rightarrow> u32 \<Rightarrow> journal_frame" where
  "commit_end seq root_block next_block bset_seq ino snap_id subvol_id cur_subvol =
     (frame_new seq CommitEnd)\<lparr>jf_root_block := root_block, jf_next_block_nr := next_block,
        jf_next_bset_seq := bset_seq, jf_next_ino := ino, jf_next_snap_id := snap_id,
        jf_next_subvol_id := subvol_id, jf_current_subvol := cur_subvol\<rparr>"

definition frame_kind_of :: "journal_frame \<Rightarrow> frame_kind option" where
  "frame_kind_of f = frame_kind_from_u8 (jf_frame_kind f)"

text \<open>\<open>op_payload\<close> slices \<open>op_data\<close> by \<open>op_len\<close>: out of range it panics.\<close>

definition op_payload :: "journal_frame \<Rightarrow> bytes option" where
  "op_payload f = (if unat (jf_op_len f) \<le> length (jf_op_data f)
     then Some (take (unat (jf_op_len f)) (jf_op_data f)) else None)"

definition frame_compute_checksum :: "(bytes \<Rightarrow> u32) \<Rightarrow> journal_frame \<Rightarrow> u32" where
  "frame_compute_checksum crc f = crc (frame_bytes (f\<lparr>jf_checksum := 0\<rparr>))"

definition frame_stamp_checksum :: "(bytes \<Rightarrow> u32) \<Rightarrow> journal_frame \<Rightarrow> journal_frame" where
  "frame_stamp_checksum crc f =
     (let f0 = f\<lparr>jf_checksum := 0\<rparr> in f0\<lparr>jf_checksum := crc (frame_bytes f0)\<rparr>)"

definition frame_is_valid :: "(bytes \<Rightarrow> u32) \<Rightarrow> u64 \<Rightarrow> journal_frame \<Rightarrow> bool" where
  "frame_is_valid crc expected_seq f =
     (jf_magic f = JOURNAL_MAGIC \<and> jf_seq f = expected_seq \<and> frame_kind_of f \<noteq> None
      \<and> jf_checksum f = frame_compute_checksum crc f)"

section \<open>The block store\<close>

record cached_node =
  cn_node :: node
  cn_dirty :: bool

record block_store =
  node_cache :: "u64 \<rightharpoonup> cached_node"
  data_cache :: "u64 \<rightharpoonup> bytes"
  next_block_nr :: u64
  free_list :: "u64 list"
  last_chain_blocks :: "u64 list"
  device :: device
  persistent :: bool
  crc32 :: "bytes \<Rightarrow> u32"

type_synonym 'a store_st = "(block_store, error, 'a) st"

definition with_device :: "(bytes \<Rightarrow> u32) \<Rightarrow> device \<Rightarrow> bool \<Rightarrow> block_store" where
  "with_device crc d persist = \<lparr>node_cache = Map.empty, data_cache = Map.empty,
     next_block_nr = FIRST_DATA_BLOCK_NR, free_list = [], last_chain_blocks = [], device = d,
     persistent = persist, crc32 = crc\<rparr>"

definition in_memory :: "(bytes \<Rightarrow> u32) \<Rightarrow> block_store" where
  "in_memory crc = with_device crc mem_device_new False"

text \<open>A created image is the empty file, an opened one has the bytes it has.\<close>

definition create_image :: "(bytes \<Rightarrow> u32) \<Rightarrow> block_store" where
  "create_image crc = with_device crc (file_device_new []) True"

definition open_image :: "(bytes \<Rightarrow> u32) \<Rightarrow> bytes \<Rightarrow> block_store" where
  "open_image crc content = with_device crc (file_device_new content) True"

definition alloc :: "u64 store_st" where
  "alloc s = (if free_list s \<noteq> []
     then (Inr (last (free_list s)), s\<lparr>free_list := butlast (free_list s)\<rparr>)
     else (Inr (next_block_nr s), s\<lparr>next_block_nr := next_block_nr s + 1\<rparr>))"

definition free :: "u64 \<Rightarrow> unit store_st" where
  "free nr s = (Inr (), s\<lparr>node_cache := (node_cache s)(nr := None),
     data_cache := (data_cache s)(nr := None), free_list := free_list s @ [nr]\<rparr>)"

definition free_count :: "block_store \<Rightarrow> u64" where
  "free_count s = of_nat (length (free_list s))"

definition free_list_snapshot :: "block_store \<Rightarrow> u64 list" where
  "free_list_snapshot s = free_list s"

definition chain_blocks_snapshot :: "block_store \<Rightarrow> u64 list" where
  "chain_blocks_snapshot s = last_chain_blocks s"

definition set_next_block_nr :: "u64 \<Rightarrow> unit store_st" where
  "set_next_block_nr n = modify (\<lambda>s. s\<lparr>next_block_nr := n\<rparr>)"

text \<open>\<open>nr * BLOCK_SIZE as u64\<close>.\<close>

definition block_off :: "u64 \<Rightarrow> nat" where
  "block_off nr = unat (nr * of_nat BLOCK_SIZE)"

subsection \<open>Nodes\<close>

definition node_bytes :: "node \<Rightarrow> bytes" where
  "node_bytes n = header_bytes (header n) @ body n"

definition node_of_bytes :: "bytes \<Rightarrow> node" where
  "node_of_bytes bs = \<lparr>header = header_of_bytes (take 64 bs), body = bslice 64 4032 bs\<rparr>"

definition set_node_checksum :: "u64 \<Rightarrow> node \<Rightarrow> node" where
  "set_node_checksum c n = n\<lparr>header := (header n)\<lparr>nh_checksum := c\<rparr>\<rparr>"

definition node_crc :: "(bytes \<Rightarrow> u32) \<Rightarrow> node \<Rightarrow> u64" where
  "node_crc crc n = ucast (crc (node_bytes (set_node_checksum 0 n)))"

definition verify_node_in_place :: "(bytes \<Rightarrow> u32) \<Rightarrow> u64 \<Rightarrow> node \<Rightarrow> error + unit" where
  "verify_node_in_place crc nr n =
     (if nh_magic (header n) \<noteq> MAGIC_NUMBER then Inl (BadMagic nr (nh_magic (header n)) MAGIC_NUMBER)
      else if nh_checksum (header n) \<noteq> node_crc crc n then Inl (ChecksumMismatch nr)
      else Inr ())"

text \<open>The miss path shared by \<open>with_node\<close> and \<open>with_node_mut\<close>: read the block, verify it.\<close>

definition fetch_node :: "u64 \<Rightarrow> block_store \<Rightarrow> error + node" where
  "fetch_node nr s =
     (case read_at BLOCK_SIZE (block_off nr) (device s) of
        Inl e \<Rightarrow> Inl (Io e)
      | Inr bs \<Rightarrow> (let n = node_of_bytes bs
           in case verify_node_in_place (crc32 s) nr n of Inl e \<Rightarrow> Inl e | Inr _ \<Rightarrow> Inr n))"

text \<open>\<open>with_node nr f\<close> is \<open>bindM (with_node nr) (\<lambda>n. ret (f n))\<close>: the closure runs on the node.\<close>

definition with_node :: "u64 \<Rightarrow> node store_st" where
  "with_node nr s =
     (case node_cache s nr of
        Some c \<Rightarrow> (Inr (cn_node c), s)
      | None \<Rightarrow>
          (case fetch_node nr s of
             Inl e \<Rightarrow> (Inl (Err e), s)
           | Inr n \<Rightarrow> (Inr n, s\<lparr>node_cache := (node_cache s)(nr \<mapsto> \<lparr>cn_node = n, cn_dirty = False\<rparr>)\<rparr>)))"

text \<open>The closure of \<open>with_node_mut\<close> returns the result and the edited node, or panics.\<close>

definition with_node_mut :: "u64 \<Rightarrow> (node \<Rightarrow> ('a \<times> node) option) \<Rightarrow> 'a store_st" where
  "with_node_mut nr f =
     bindM (with_node nr) (\<lambda>n.
     bindM (expect (f n)) (\<lambda>(r, n').
     bindM (modify (\<lambda>s. s\<lparr>node_cache := (node_cache s)(nr \<mapsto> \<lparr>cn_node = n', cn_dirty = True\<rparr>)\<rparr>)) (\<lambda>_.
     ret r)))"

definition with_cached_node :: "u64 \<Rightarrow> (node \<Rightarrow> bool \<Rightarrow> 'a) \<Rightarrow> block_store \<Rightarrow> 'a option" where
  "with_cached_node nr f s = map_option (\<lambda>c. f (cn_node c) (cn_dirty c)) (node_cache s nr)"

definition write_node :: "u64 \<Rightarrow> node \<Rightarrow> unit store_st" where
  "write_node nr n s =
     (let copy = set_node_checksum (node_crc (crc32 s) n) n
      in (Inr (), s\<lparr>device := write_at (node_bytes copy) (block_off nr) (device s),
                    node_cache := (node_cache s)(nr \<mapsto> \<lparr>cn_node = copy, cn_dirty = False\<rparr>)\<rparr>))"

definition flush_node :: "u64 \<Rightarrow> unit store_st" where
  "flush_node nr s =
     (case node_cache s nr of
        None \<Rightarrow> (Inr (), s)
      | Some c \<Rightarrow>
          if \<not> cn_dirty c then (Inr (), s)
          else (let n = set_node_checksum (node_crc (crc32 s) (cn_node c)) (cn_node c)
                in (Inr (), s\<lparr>device := write_at (node_bytes n) (block_off nr) (device s),
                              node_cache := (node_cache s)(nr \<mapsto> \<lparr>cn_node = n, cn_dirty = False\<rparr>)\<rparr>)))"

definition is_dirty :: "block_store \<Rightarrow> u64 \<Rightarrow> bool" where
  "is_dirty s nr = (case node_cache s nr of Some c \<Rightarrow> cn_dirty c | None \<Rightarrow> False)"

definition flush_all :: "u64 list \<Rightarrow> unit store_st" where
  "flush_all order = bindM (gets (\<lambda>s. filter (is_dirty s) order)) (\<lambda>dirty. forM dirty flush_node)"

subsection \<open>Data blocks and superblock\<close>

definition read_data :: "u64 \<Rightarrow> bytes store_st" where
  "read_data nr s =
     (case data_cache s nr of
        Some b \<Rightarrow> (Inr b, s)
      | None \<Rightarrow>
          (case read_at BLOCK_SIZE (block_off nr) (device s) of
             Inl e \<Rightarrow> (Inl (Err (Io e)), s)
           | Inr b \<Rightarrow> (Inr b, s\<lparr>data_cache := (data_cache s)(nr \<mapsto> b)\<rparr>)))"

definition write_data :: "u64 \<Rightarrow> bytes \<Rightarrow> unit store_st" where
  "write_data nr b s = (Inr (), s\<lparr>device := write_at b (block_off nr) (device s),
     data_cache := (data_cache s)(nr \<mapsto> b)\<rparr>)"

definition write_superblock :: "superblock \<Rightarrow> unit store_st" where
  "write_superblock sb s = (Inr (), s\<lparr>device :=
     write_at (superblock_bytes (sb_stamp_checksum (crc32 s) sb)) (block_off SUPERBLOCK_BLOCK_NR) (device s)\<rparr>)"

definition read_superblock :: "superblock store_st" where
  "read_superblock s =
     (case read_at BLOCK_SIZE (block_off SUPERBLOCK_BLOCK_NR) (device s) of
        Inl e \<Rightarrow> (Inl (Err (Io e)), s)
      | Inr buf \<Rightarrow> (case sb_parse (crc32 s) buf of Inl e \<Rightarrow> (Inl (Err e), s) | Inr sb \<Rightarrow> (Inr sb, s)))"

definition fsync :: "unit store_st" where
  "fsync = modify (\<lambda>s. s\<lparr>device := dev_sync (device s)\<rparr>)"

subsection \<open>Free-list persistence\<close>

function chunks :: "nat \<Rightarrow> 'a list \<Rightarrow> 'a list list" where
  "chunks n xs = (if xs = [] \<or> n = 0 then [] else take n xs # chunks n (drop n xs))"
  by pat_completeness auto
termination
  by (relation "measure (\<lambda>(n, xs). length xs)") auto

declare chunks.simps [simp del]

definition chain_block :: "u64 \<Rightarrow> u64 list \<Rightarrow> bytes" where
  "chain_block next_block chunk =
     (let buf0 = replicate BLOCK_SIZE 0;
          buf1 = bsplice 0 (u64_le next_block) buf0;
          buf2 = bsplice 8 (u64_le (of_nat (length chunk))) buf1
      in bsplice 16 (concat (map u64_le chunk)) buf2)"

fun persist_chunks :: "u64 list list \<Rightarrow> u64 \<Rightarrow> u64 list \<Rightarrow> (u64 \<times> u64 list) store_st" where
  "persist_chunks [] head chain = ret (head, chain)"
| "persist_chunks (c # cs) head chain =
     bindM (gets next_block_nr) (\<lambda>block_nr.
     bindM (modify (\<lambda>s. s\<lparr>next_block_nr := block_nr + 1\<rparr>)) (\<lambda>_.
     bindM (write_data block_nr (chain_block head c)) (\<lambda>_.
     persist_chunks cs block_nr (chain @ [block_nr]))))"

definition persist_free_list :: "u64 store_st" where
  "persist_free_list =
     bindM (modify (\<lambda>s. s\<lparr>free_list := free_list s @ last_chain_blocks s, last_chain_blocks := []\<rparr>)) (\<lambda>_.
     bindM (gets free_list) (\<lambda>list.
     if list = [] then ret 0
     else
       bindM (persist_chunks (chunks FREE_CHAIN_ENTRIES list) 0 []) (\<lambda>(head, chain).
       bindM (modify (\<lambda>s. s\<lparr>last_chain_blocks := chain\<rparr>)) (\<lambda>_.
       ret head))))"

definition chain_next :: "bytes \<Rightarrow> u64" where
  "chain_next buf = u64_of_le (take 8 buf)"

definition chain_entries :: "bytes \<Rightarrow> u64 list" where
  "chain_entries buf =
     (let n = unat (u64_of_le (bslice 8 8 buf))
      in map (\<lambda>i. u64_of_le (bslice (16 + i * 8) 8 buf)) [0..<min n FREE_CHAIN_ENTRIES])"

text \<open>A cyclic chain makes the loop run forever: fuel bounds the number of chain blocks followed.\<close>

fun load_chain :: "nat \<Rightarrow> u64 \<Rightarrow> u64 list \<Rightarrow> u64 list \<Rightarrow> (u64 list \<times> u64 list) store_st" where
  "load_chain 0 cur list chain = (if cur = 0 then ret (list, chain) else raise Diverge)"
| "load_chain (Suc fuel) cur list chain =
     (if cur = 0 then ret (list, chain)
      else bindM (read_data cur) (\<lambda>buf.
           load_chain fuel (chain_next buf) (list @ chain_entries buf) (chain @ [cur])))"

definition load_free_list :: "nat \<Rightarrow> u64 \<Rightarrow> unit store_st" where
  "load_free_list fuel head =
     bindM (load_chain fuel head [] []) (\<lambda>(list, chain).
     modify (\<lambda>s. s\<lparr>free_list := list @ chain\<rparr>))"

end
