(* ===== verification/Store_View.thy ===== *)
theory Store_View
  imports Storage
begin

text \<open>
  Facts about the formats and the store of \<open>src/storage.rs\<close>: round trips of the superblock, journal
  frame and node formats, what a reader of the store sees (\<open>node_at\<close>, \<open>data_at\<close>) and how each
  operation changes that view, cache coherence, and the free-list chain.
\<close>

section \<open>Round trips of the on-disk formats\<close>

definition sized_superblock :: "superblock \<Rightarrow> bool" where
  "sized_superblock sb = (length (sb_reserved sb) = 4024)"

definition sized_frame :: "journal_frame \<Rightarrow> bool" where
  "sized_frame f = (length (jf_pad0 f) = 4 \<and> length (jf_op_data f) = 184)"

definition sized_node :: "node \<Rightarrow> bool" where
  "sized_node n = (header_ok (header n) \<and> length (body n) = 4032)"

lemma length_superblock_bytes [simp, len_simps]:
  "sized_superblock sb \<Longrightarrow> length (superblock_bytes sb) = 4096"
  by (simp add: superblock_bytes_def sized_superblock_def)

lemma length_frame_bytes [simp, len_simps]: "sized_frame f \<Longrightarrow> length (frame_bytes f) = 256"
  by (simp add: frame_bytes_def sized_frame_def)

lemma length_node_bytes [simp, len_simps]: "sized_node n \<Longrightarrow> length (node_bytes n) = 4096"
  by (simp add: node_bytes_def sized_node_def header_ok_def)

lemma superblock_roundtrip [roundtrip_simps]:
  "sized_superblock sb \<Longrightarrow> superblock_of_bytes (superblock_bytes sb) = sb"
  by (simp add: superblock_of_bytes_def superblock_bytes_def bslice_def sized_superblock_def)

lemma frame_roundtrip [roundtrip_simps]: "sized_frame f \<Longrightarrow> frame_of_bytes (frame_bytes f) = f"
  by (simp add: frame_of_bytes_def frame_bytes_def bslice_def sized_frame_def nth_append)

lemma node_roundtrip [roundtrip_simps]: "sized_node n \<Longrightarrow> node_of_bytes (node_bytes n) = n"
  by (simp add: node_of_bytes_def node_bytes_def bslice_def sized_node_def header_ok_def header_roundtrip)

lemma sized_superblock_update [simp]: "sized_superblock (sb\<lparr>sb_checksum := c\<rparr>) = sized_superblock sb"
  by (simp add: sized_superblock_def)

lemma sized_stamp [simp]: "sized_superblock (sb_stamp_checksum crc sb) = sized_superblock sb"
  by (simp add: sb_stamp_checksum_def Let_def)

lemma sized_frame_update [simp]: "sized_frame (f\<lparr>jf_checksum := c\<rparr>) = sized_frame f"
  by (simp add: sized_frame_def)

lemma sized_frame_new [simp]: "sized_frame (frame_new seq k)" "sized_frame (commit_end a b c d e f g h)"
  by (simp_all add: sized_frame_def frame_new_def commit_end_def)

lemma sized_logged_op: "logged_op seq k data = Some f \<Longrightarrow> sized_frame f"
  by (auto simp: logged_op_def sized_frame_def frame_new_def Let_def split: if_splits)

lemma stamped_checksum: "sb_checksum (sb_stamp_checksum crc sb) = sb_compute_checksum crc (sb_stamp_checksum crc sb)"
  by (simp add: sb_stamp_checksum_def sb_compute_checksum_def Let_def)

lemma sb_parse_stamped:
  assumes "sb_magic sb = SUPERBLOCK_MAGIC" "sb_version sb = SUPERBLOCK_VERSION" "sized_superblock sb"
  shows "sb_parse crc (superblock_bytes (sb_stamp_checksum crc sb)) = Inr (sb_stamp_checksum crc sb)"
  using assms
  by (simp add: sb_parse_def superblock_roundtrip Let_def stamped_checksum [symmetric])
    (simp add: sb_stamp_checksum_def Let_def)

lemma frame_stamped_valid:
  assumes "jf_magic f = JOURNAL_MAGIC" "frame_kind_of f \<noteq> None"
  shows "frame_is_valid crc (jf_seq f) (frame_stamp_checksum crc f)"
  using assms
  by (simp add: frame_is_valid_def frame_stamp_checksum_def frame_compute_checksum_def Let_def frame_kind_of_def)

lemma frame_stamp_simps [simp]:
  "jf_seq (frame_stamp_checksum crc f) = jf_seq f" "sized_frame (frame_stamp_checksum crc f) = sized_frame f"
  "frame_kind_of (frame_stamp_checksum crc f) = frame_kind_of f"
  "jf_op_kind (frame_stamp_checksum crc f) = jf_op_kind f"
  "op_payload (frame_stamp_checksum crc f) = op_payload f"
  by (simp_all add: frame_stamp_checksum_def Let_def frame_kind_of_def op_payload_def)

lemma sized_node_checksum [simp]: "sized_node (set_node_checksum c n) = sized_node n"
  by (simp add: sized_node_def set_node_checksum_def)

lemma node_crc_checksum [simp]: "node_crc crc (set_node_checksum c n) = node_crc crc n"
  by (simp add: node_crc_def set_node_checksum_def)

lemma layout_sized: "layout n bs \<Longrightarrow> sized_node n"
  by (simp add: layout_def sized_node_def)

lemma layout_set_checksum [simp]: "layout (set_node_checksum c n) bs = layout n bs"
  "level (set_node_checksum c n) = level n" "generation (set_node_checksum c n) = generation n"
  by (simp_all add: set_node_checksum_def)

lemma verify_stamped:
  "sized_node n \<Longrightarrow> verify_node_in_place crc nr (set_node_checksum (node_crc crc n) n) = Inr ()"
  by (simp add: verify_node_in_place_def)
    (simp add: set_node_checksum_def sized_node_def header_ok_def)

section \<open>Block offsets\<close>

definition blk_ok :: "u64 \<Rightarrow> bool" where
  "blk_ok nr = (unat nr < 2 ^ 52)"

lemma block_off_eq: "blk_ok nr \<Longrightarrow> block_off nr = unat nr * 4096"
  by (simp add: block_off_def blk_ok_def unat_word_ariths(2))

lemma block_off_disjoint:
  assumes "blk_ok a" "blk_ok b" "a \<noteq> b"
  shows "block_off a + 4096 \<le> block_off b \<or> block_off b + 4096 \<le> block_off a"
proof -
  have "unat a \<noteq> unat b" using assms(3) by (auto dest: unsigned_word_eqI)
  then show ?thesis using assms(1,2) by (auto simp: block_off_eq)
qed

section \<open>The view of a store\<close>

definition node_at :: "block_store \<Rightarrow> u64 \<Rightarrow> node option" where
  "node_at s nr = (case node_cache s nr of Some c \<Rightarrow> Some (cn_node c)
     | None \<Rightarrow> (case fetch_node nr s of Inr n \<Rightarrow> Some n | Inl _ \<Rightarrow> None))"

definition data_at :: "block_store \<Rightarrow> u64 \<Rightarrow> bytes option" where
  "data_at s nr = (case data_cache s nr of Some b \<Rightarrow> Some b
     | None \<Rightarrow> (case read_at BLOCK_SIZE (block_off nr) (device s) of Inr b \<Rightarrow> Some b | Inl _ \<Rightarrow> None))"

text \<open>Reads change the caches only by faulting in what the device holds.\<close>

definition faulted :: "block_store \<Rightarrow> block_store \<Rightarrow> bool" where
  "faulted s s' = (\<exists>m d. s' = s\<lparr>node_cache := m, data_cache := d\<rparr>
     \<and> (\<forall>b. m b = node_cache s b \<or> (node_cache s b = None
          \<and> (\<exists>n. fetch_node b s = Inr n \<and> m b = Some \<lparr>cn_node = n, cn_dirty = False\<rparr>)))
     \<and> (\<forall>b. d b = data_cache s b \<or> (data_cache s b = None
          \<and> (\<exists>x. read_at BLOCK_SIZE (block_off b) (device s) = Inr x \<and> d b = Some x))))"

lemma fetch_node_cong:
  "device s' = device s \<Longrightarrow> crc32 s' = crc32 s \<Longrightarrow> fetch_node nr s' = fetch_node nr s"
  by (auto simp: fetch_node_def Let_def split: sum.splits)

lemma node_at_cong:
  "node_cache s' b = node_cache s b \<Longrightarrow> device s' = device s \<Longrightarrow> crc32 s' = crc32 s \<Longrightarrow>
     node_at s' b = node_at s b"
  using fetch_node_cong [of s' s b] by (simp add: node_at_def split: option.splits)

lemma data_at_cong:
  "data_cache s' b = data_cache s b \<Longrightarrow> device s' = device s \<Longrightarrow> data_at s' b = data_at s b"
  by (simp add: data_at_def split: option.splits)

lemma faulted_refl [simp, intro]: "faulted s s"
  unfolding faulted_def by (rule exI [of _ "node_cache s"], rule exI [of _ "data_cache s"]) simp

lemma faulted_fields:
  assumes "faulted s s'"
  shows "device s' = device s" "next_block_nr s' = next_block_nr s" "free_list s' = free_list s"
    "last_chain_blocks s' = last_chain_blocks s" "persistent s' = persistent s" "crc32 s' = crc32 s"
  using assms by (auto simp: faulted_def)

lemma faulted_fetch: "faulted s s' \<Longrightarrow> fetch_node b s' = fetch_node b s"
  by (rule fetch_node_cong) (simp_all add: faulted_fields)

lemma faulted_node_cache:
  assumes "faulted s s'"
  shows "node_cache s' b = node_cache s b \<or> (node_cache s b = None
     \<and> (\<exists>n. fetch_node b s = Inr n \<and> node_cache s' b = Some \<lparr>cn_node = n, cn_dirty = False\<rparr>))"
  using assms by (auto simp: faulted_def)

lemma faulted_data_cache:
  assumes "faulted s s'"
  shows "data_cache s' b = data_cache s b \<or> (data_cache s b = None
     \<and> (\<exists>x. read_at BLOCK_SIZE (block_off b) (device s) = Inr x \<and> data_cache s' b = Some x))"
  using assms by (auto simp: faulted_def)

lemma faultedI:
  assumes "device s' = device s" "next_block_nr s' = next_block_nr s" "free_list s' = free_list s"
    "last_chain_blocks s' = last_chain_blocks s" "persistent s' = persistent s" "crc32 s' = crc32 s"
    and "\<And>b. node_cache s' b = node_cache s b \<or> (node_cache s b = None
     \<and> (\<exists>n. fetch_node b s = Inr n \<and> node_cache s' b = Some \<lparr>cn_node = n, cn_dirty = False\<rparr>))"
    and "\<And>b. data_cache s' b = data_cache s b \<or> (data_cache s b = None
     \<and> (\<exists>x. read_at BLOCK_SIZE (block_off b) (device s) = Inr x \<and> data_cache s' b = Some x))"
  shows "faulted s s'"
  unfolding faulted_def
  by (rule exI [of _ "node_cache s'"], rule exI [of _ "data_cache s'"]) (use assms in simp)

lemma faulted_trans [trans]:
  assumes "faulted s s'" "faulted s' s''"
  shows "faulted s s''"
proof (rule faultedI)
  fix b
  show "node_cache s'' b = node_cache s b \<or> (node_cache s b = None
     \<and> (\<exists>n. fetch_node b s = Inr n \<and> node_cache s'' b = Some \<lparr>cn_node = n, cn_dirty = False\<rparr>))"
    using faulted_node_cache [OF assms(1), of b] faulted_node_cache [OF assms(2), of b]
      faulted_fetch [OF assms(1), of b] by auto
  show "data_cache s'' b = data_cache s b \<or> (data_cache s b = None
     \<and> (\<exists>x. read_at BLOCK_SIZE (block_off b) (device s) = Inr x \<and> data_cache s'' b = Some x))"
    using faulted_data_cache [OF assms(1), of b] faulted_data_cache [OF assms(2), of b]
      faulted_fields(1) [OF assms(1)] by auto
qed (use assms in \<open>simp_all add: faulted_fields\<close>)

lemma faulted_node_at: "faulted s s' \<Longrightarrow> node_at s' b = node_at s b"
  using faulted_node_cache [of s s' b] by (auto simp: node_at_def faulted_fetch split: option.splits)

lemma faulted_data_at: "faulted s s' \<Longrightarrow> data_at s' b = data_at s b"
  using faulted_data_cache [of s s' b] by (auto simp: data_at_def faulted_fields split: option.splits)

lemma with_node_ok:
  assumes "node_at s nr = Some n"
  shows "\<exists>s'. with_node nr s = (Inr n, s') \<and> faulted s s' \<and> node_cache s' nr \<noteq> None"
proof (cases "node_cache s nr")
  case None
  then have f: "fetch_node nr s = Inr n" using assms by (auto simp: node_at_def split: sum.splits)
  let ?s = "s\<lparr>node_cache := (node_cache s)(nr \<mapsto> \<lparr>cn_node = n, cn_dirty = False\<rparr>)\<rparr>"
  have "faulted s ?s" using None f by (intro faultedI) auto
  moreover have "with_node nr s = (Inr n, ?s)" using None f by (simp add: with_node_def)
  ultimately show ?thesis by auto
qed (use assms in \<open>auto simp: with_node_def node_at_def\<close>)

lemma with_node_Inr:
  assumes "with_node nr s = (Inr n, s')"
  shows "node_at s nr = Some n \<and> faulted s s' \<and> node_cache s' nr \<noteq> None"
proof -
  from assms have "node_at s nr = Some n"
    by (auto simp: with_node_def node_at_def split: option.splits sum.splits)
  with with_node_ok [OF this] assms show ?thesis by auto
qed

lemma with_node_state: "faulted s (snd (with_node nr s))"
  by (auto simp: with_node_def split: option.splits sum.splits if_splits intro!: faultedI)

lemma read_data_ok:
  assumes "data_at s nr = Some b"
  shows "\<exists>s'. read_data nr s = (Inr b, s') \<and> faulted s s'"
proof (cases "data_cache s nr")
  case None
  then have f: "read_at BLOCK_SIZE (block_off nr) (device s) = Inr b"
    using assms by (auto simp: data_at_def simp del: layout_values split: sum.splits)
  let ?s = "s\<lparr>data_cache := (data_cache s)(nr \<mapsto> b)\<rparr>"
  have "faulted s ?s" using None f by (intro faultedI) auto
  moreover have "read_data nr s = (Inr b, ?s)" using None f by (simp add: read_data_def)
  ultimately show ?thesis by blast
qed (use assms in \<open>auto simp: read_data_def data_at_def\<close>)

section \<open>Writes\<close>

text \<open>Two stores agree on every readable block outside a set; block contents only appear.\<close>

definition kept :: "u64 set \<Rightarrow> block_store \<Rightarrow> block_store \<Rightarrow> bool" where
  "kept B s s' = ((\<forall>b n. b \<notin> B \<longrightarrow> blk_ok b \<longrightarrow> node_at s b = Some n \<longrightarrow> node_at s' b = Some n)
     \<and> (\<forall>b x. b \<notin> B \<longrightarrow> blk_ok b \<longrightarrow> data_at s b = Some x \<longrightarrow> data_at s' b = Some x)
     \<and> persistent s' = persistent s \<and> crc32 s' = crc32 s)"

lemma kept_refl [simp, intro]: "kept B s s"
  by (simp add: kept_def)

lemma kept_cong:
  assumes "node_cache s' = node_cache s" "data_cache s' = data_cache s" "device s' = device s"
    "crc32 s' = crc32 s" "persistent s' = persistent s"
  shows "kept B s s'"
  using assms node_at_cong [of s' _ s] data_at_cong [of s' _ s] by (simp add: kept_def)

lemma kept_trans: "kept B s s' \<Longrightarrow> kept C s' s'' \<Longrightarrow> kept (B \<union> C) s s''"
  by (auto simp: kept_def)

lemma kept_mono: "kept B s s' \<Longrightarrow> B \<subseteq> C \<Longrightarrow> kept C s s'"
  by (auto simp: kept_def)

lemma kept_faulted: "faulted s s' \<Longrightarrow> kept B s s'"
  by (auto simp: kept_def faulted_node_at faulted_data_at faulted_fields)

lemma kept_node: "kept B s s' \<Longrightarrow> b \<notin> B \<Longrightarrow> blk_ok b \<Longrightarrow> node_at s b = Some n \<Longrightarrow> node_at s' b = Some n"
  by (simp add: kept_def)

lemma kept_data: "kept B s s' \<Longrightarrow> b \<notin> B \<Longrightarrow> blk_ok b \<Longrightarrow> data_at s b = Some x \<Longrightarrow> data_at s' b = Some x"
  by (simp add: kept_def)

lemma fetch_node_write:
  assumes "blk_ok nr" "blk_ok b" "b \<noteq> nr" "length buf = 4096" "fetch_node b s = Inr n"
  shows "fetch_node b (s\<lparr>device := write_at buf (block_off nr) (device s)\<rparr>) = Inr n"
proof -
  obtain bs where r: "read_at 4096 (block_off b) (device s) = Inr bs"
    using assms(5) by (auto simp: fetch_node_def split: sum.splits)
  have "read_at 4096 (block_off b) (write_at buf (block_off nr) (device s)) = Inr bs"
    using block_off_disjoint [OF assms(1,2)] assms(3,4) r by (intro read_write_disjoint) auto
  with r assms(5) show ?thesis by (simp add: fetch_node_def Let_def)
qed

lemma read_block_write:
  assumes "blk_ok nr" "blk_ok b" "b \<noteq> nr" "length buf = 4096" "read_at 4096 (block_off b) d = Inr x"
  shows "read_at 4096 (block_off b) (write_at buf (block_off nr) d) = Inr x"
  using block_off_disjoint [OF assms(1,2)] assms(3-5) by (intro read_write_disjoint) auto

lemma kept_device_write:
  assumes nr: "blk_ok nr" "length buf = 4096"
    and s': "device s' = write_at buf (block_off nr) (device s)" "crc32 s' = crc32 s" "persistent s' = persistent s"
    and c: "\<And>b. b \<noteq> nr \<Longrightarrow> node_cache s' b = node_cache s b" "\<And>b. b \<noteq> nr \<Longrightarrow> data_cache s' b = data_cache s b"
  shows "kept {nr} s s'"
proof -
  have f: "fetch_node b s' = Inr n" if "b \<noteq> nr" "blk_ok b" "fetch_node b s = Inr n" for b n
    using fetch_node_write [OF nr(1) that(2,1) nr(2) that(3)] s'(1,2) by (simp add: fetch_node_cong [of s' "s\<lparr>device := _\<rparr>"])
  have "node_at s' b = Some n" if "b \<noteq> nr" "blk_ok b" "node_at s b = Some n" for b n
    using that c(1) [of b] f [of b] by (auto simp: node_at_def split: option.splits sum.splits)
  moreover have "data_at s' b = Some x" if "b \<noteq> nr" "blk_ok b" "data_at s b = Some x" for b x
    using that c(2) [of b] read_block_write [OF nr(1) that(2,1) nr(2)] s'(1)
    by (auto simp: data_at_def split: option.splits sum.splits)
  ultimately show ?thesis using s' by (simp add: kept_def)
qed

definition stamped :: "block_store \<Rightarrow> node \<Rightarrow> node" where
  "stamped s n = set_node_checksum (node_crc (crc32 s) n) n"

lemma stamped_simps [simp]:
  "layout (stamped s n) bs = layout n bs" "level (stamped s n) = level n"
  "generation (stamped s n) = generation n" "sized_node (stamped s n) = sized_node n"
  by (simp_all add: stamped_def)

lemma fetch_stamped:
  assumes "sized_node n"
  shows "fetch_node nr (s\<lparr>device := write_at (node_bytes (stamped s n)) (block_off nr) (device s)\<rparr>) = Inr (stamped s n)"
proof -
  have "read_at 4096 (block_off nr) (write_at (node_bytes (stamped s n)) (block_off nr) (device s))
      = Inr (node_bytes (stamped s n))"
    using assms by (intro read_write_same) simp
  then show ?thesis
    using assms verify_stamped [of n "crc32 s" nr]
    by (simp add: fetch_node_def node_roundtrip) (simp add: stamped_def)
qed

text \<open>\<open>write_node\<close>: the stamped node is readable from the cache and from the device; every other
  block keeps its contents.\<close>

lemma write_node_ok:
  assumes "blk_ok nr" "sized_node n"
  obtains s' where "write_node nr n s = (Inr (), s')" "kept {nr} s s'" "node_at s' nr = Some (stamped s n)"
    "fetch_node nr s' = Inr (stamped s n)" "next_block_nr s' = next_block_nr s" "free_list s' = free_list s"
    "last_chain_blocks s' = last_chain_blocks s" "data_cache s' = data_cache s"
    "node_cache s' = (node_cache s)(nr \<mapsto> \<lparr>cn_node = stamped s n, cn_dirty = False\<rparr>)"
    "device s' = write_at (node_bytes (stamped s n)) (block_off nr) (device s)"
proof -
  let ?s = "snd (write_node nr n s)"
  have s: "?s = s\<lparr>device := write_at (node_bytes (stamped s n)) (block_off nr) (device s),
      node_cache := (node_cache s)(nr \<mapsto> \<lparr>cn_node = stamped s n, cn_dirty = False\<rparr>)\<rparr>"
    by (simp add: write_node_def Let_def stamped_def)
  have "kept {nr} s ?s" using assms by (intro kept_device_write [where nr = nr]) (simp_all add: s)
  moreover have "fetch_node nr ?s = Inr (stamped s n)"
    using fetch_stamped [OF assms(2), of nr s] by (simp add: s fetch_node_cong [of "s\<lparr>device := _, node_cache := _\<rparr>" "s\<lparr>device := _\<rparr>"])
  moreover have "write_node nr n s = (Inr (), ?s)" by (simp add: write_node_def Let_def)
  ultimately show thesis by (intro that [of ?s]) (simp_all add: s node_at_def)
qed

lemma write_data_ok:
  assumes "blk_ok nr" "length b = 4096"
  obtains s' where "write_data nr b s = (Inr (), s')" "kept {nr} s s'" "data_at s' nr = Some b"
    "read_at 4096 (block_off nr) (device s') = Inr b" "next_block_nr s' = next_block_nr s"
    "free_list s' = free_list s" "last_chain_blocks s' = last_chain_blocks s"
    "node_cache s' = node_cache s" "data_cache s' = (data_cache s)(nr \<mapsto> b)"
    "device s' = write_at b (block_off nr) (device s)"
proof -
  let ?s = "s\<lparr>device := write_at b (block_off nr) (device s), data_cache := (data_cache s)(nr \<mapsto> b)\<rparr>"
  have "kept {nr} s ?s" using assms by (intro kept_device_write [where nr = nr]) simp_all
  moreover have "write_data nr b s = (Inr (), ?s)" by (simp add: write_data_def)
  ultimately show thesis
    using assms by (intro that [of ?s]) (simp_all add: data_at_def read_write_same)
qed

lemma with_node_mut_ok:
  assumes "node_at s nr = Some n" "f n = Some (r, n')"
  obtains s' where "with_node_mut nr f s = (Inr r, s')" "kept {nr} s s'" "node_at s' nr = Some n'"
    "\<And>b. b \<noteq> nr \<Longrightarrow> node_at s' b = node_at s b" "\<And>b. data_at s' b = data_at s b"
    "next_block_nr s' = next_block_nr s" "free_list s' = free_list s"
    "last_chain_blocks s' = last_chain_blocks s" "device s' = device s"
proof -
  obtain s1 where s1: "with_node nr s = (Inr n, s1)" "faulted s s1"
    using with_node_ok [OF assms(1)] by auto
  let ?s = "s1\<lparr>node_cache := (node_cache s1)(nr \<mapsto> \<lparr>cn_node = n', cn_dirty = True\<rparr>)\<rparr>"
  have run: "with_node_mut nr f s = (Inr r, ?s)"
    using assms(2) s1(1) by (simp add: with_node_mut_def mon_simps)
  have nodes: "node_at ?s b = node_at s b" if "b \<noteq> nr" for b
    using that faulted_node_at [OF s1(2), of b] node_at_cong [of ?s b s1] by simp
  have data: "data_at ?s b = data_at s b" for b
    using faulted_data_at [OF s1(2), of b] data_at_cong [of ?s b s1] by simp
  have "kept {nr} s ?s" using nodes data faulted_fields [OF s1(2)] by (simp add: kept_def)
  with run nodes data show thesis
    using faulted_fields [OF s1(2)] by (intro that [of ?s]) (simp_all add: node_at_def)
qed

section \<open>Properties\<close>

text \<open>A superblock written with \<open>write_superblock\<close> is read back by \<open>read_superblock\<close> with every field
  intact and the stamped checksum, whatever the hash function is.\<close>

lemma superblock_survives:
  assumes "sb_magic sb = SUPERBLOCK_MAGIC" "sb_version sb = SUPERBLOCK_VERSION" "sized_superblock sb"
  shows "\<exists>s'. write_superblock sb s = (Inr (), s') \<and> read_superblock s' = (Inr (sb_stamp_checksum (crc32 s) sb), s')
    \<and> (sb_stamp_checksum (crc32 s) sb)\<lparr>sb_checksum := sb_checksum sb\<rparr> = sb"
proof -
  have "length (superblock_bytes (sb_stamp_checksum (crc32 s) sb)) = 4096" using assms(3) by simp
  then show ?thesis
    using sb_parse_stamped [OF assms, of "crc32 s"]
    by (simp add: write_superblock_def read_superblock_def read_write_same)
      (simp add: sb_stamp_checksum_def Let_def)
qed

lemma superblock_survives_witness:
  "\<exists>s'. write_superblock (fresh 65 66) (in_memory (\<lambda>b. of_nat (length b))) = (Inr (), s')
     \<and> read_superblock s' =
         (Inr (sb_stamp_checksum (\<lambda>b. of_nat (length b)) (fresh 65 66)), s')"
  using superblock_survives [of "fresh 65 66" "in_memory (\<lambda>b. of_nat (length b))"]
  by (auto simp: fresh_def sized_superblock_def in_memory_def with_device_def)

text \<open>C29. A node written with \<open>write_node\<close> is what every later reader of that block sees, also after
  the caches are gone: a store reopened over the device faults it in and verifies it.  No other
  readable block changes.\<close>

theorem write_node_durable:
  assumes "blk_ok nr" "sized_node n"
  shows "\<exists>s'. write_node nr n s = (Inr (), s') \<and> node_at s' nr = Some (stamped s n)
    \<and> fst (with_node nr (with_device (crc32 s) (device s') p)) = Inr (stamped s n)
    \<and> kept {nr} s s'"
proof (rule write_node_ok [OF assms, of s])
  fix s' assume w: "write_node nr n s = (Inr (), s')" "kept {nr} s s'" "node_at s' nr = Some (stamped s n)"
    "fetch_node nr s' = Inr (stamped s n)"
  have "fetch_node nr (with_device (crc32 s) (device s') p) = fetch_node nr s'"
    using w(2) by (intro fetch_node_cong) (simp_all add: with_device_def kept_def)
  then show ?thesis
    using w by (intro exI [of _ s']) (simp add: with_node_def with_device_def)
qed

theorem write_node_durable_witness:
  "\<exists>s'. write_node 65 (node_new 0) (in_memory (\<lambda>b. 7)) = (Inr (), s')
     \<and> node_at s' 65 = Some (stamped (in_memory (\<lambda>b. 7)) (node_new 0))"
proof -
  have "blk_ok 65" "sized_node (node_new 0)"
    by (simp add: blk_ok_def) (rule layout_sized [OF layout_node_new])
  from write_node_durable [OF this] show ?thesis by metis
qed

end
