(* ===== verification/Free_List.thy ===== *)
theory Free_List
  imports Store_View
begin

text \<open>
  The block allocator of \<open>src/storage.rs\<close> and its on-disk chain: \<open>alloc\<close> never hands out an allocated
  block, \<open>free\<close> returns one, and loading the chain that \<open>persist_free_list\<close> wrote recovers the free
  list together with the chain blocks.
\<close>

section \<open>Allocated blocks\<close>

definition allocated :: "block_store \<Rightarrow> u64 set" where
  "allocated s = {b. FIRST_DATA_BLOCK_NR \<le> b \<and> b < next_block_nr s} - set (free_list s)"

definition alloc_ok :: "block_store \<Rightarrow> bool" where
  "alloc_ok s = (distinct (free_list s @ last_chain_blocks s) \<and> FIRST_DATA_BLOCK_NR \<le> next_block_nr s
     \<and> unat (next_block_nr s) \<le> 2 ^ 52
     \<and> (\<forall>b \<in> set (free_list s @ last_chain_blocks s). FIRST_DATA_BLOCK_NR \<le> b \<and> b < next_block_nr s))"

lemma allocated_blk_ok: "alloc_ok s \<Longrightarrow> b \<in> allocated s \<Longrightarrow> blk_ok b"
  by (auto simp: allocated_def alloc_ok_def blk_ok_def word_less_nat_alt)

lemma allocated_ge: "b \<in> allocated s \<Longrightarrow> 65 \<le> b"
  by (simp add: allocated_def)

text \<open>\<open>alloc\<close> on a store whose bump allocator has a block left.\<close>

lemma alloc_fresh:
  assumes ok: "alloc_ok s" and room: "unat (next_block_nr s) < 2 ^ 52"
  obtains nr s' where "alloc s = (Inr nr, s')" "nr \<notin> allocated s" "allocated s' = insert nr (allocated s)"
    "alloc_ok s'" "blk_ok nr" "65 \<le> nr" "nr \<notin> set (last_chain_blocks s)"
    "node_cache s' = node_cache s" "data_cache s' = data_cache s" "device s' = device s"
    "last_chain_blocks s' = last_chain_blocks s" "persistent s' = persistent s" "crc32 s' = crc32 s"
    "unat (next_block_nr s') \<le> unat (next_block_nr s) + 1"
proof (cases "free_list s = []")
  case True
  let ?n = "next_block_nr s"
  have n1: "unat (?n + 1) = unat ?n + 1" using unat_Suc_small [OF room] .
  then have lt: "b < ?n + 1 \<longleftrightarrow> b < ?n \<or> b = ?n" for b
    by (auto simp: word_less_nat_alt less_Suc_eq dest: unsigned_word_eqI)
  have "alloc s = (Inr ?n, s\<lparr>next_block_nr := ?n + 1\<rparr>)" using True by (simp add: alloc_def)
  then show thesis
  proof (rule that)
    show "alloc_ok (s\<lparr>next_block_nr := ?n + 1\<rparr>)"
      using ok room n1 by (auto simp: alloc_ok_def lt word_le_nat_alt)
    show "?n \<notin> set (last_chain_blocks s)" using ok by (auto simp: alloc_ok_def)
  qed (use ok room n1 True in \<open>auto simp: allocated_def alloc_ok_def lt blk_ok_def\<close>)
next
  case False
  let ?b = "last (free_list s)"
  have split: "free_list s = butlast (free_list s) @ [?b]" using False by simp
  have "alloc s = (Inr ?b, s\<lparr>free_list := butlast (free_list s)\<rparr>)" using False by (simp add: alloc_def)
  moreover have d: "distinct (butlast (free_list s) @ [?b] @ last_chain_blocks s)"
    using ok split by (metis alloc_ok_def append_assoc)
  moreover have mem: "set (free_list s) = insert ?b (set (butlast (free_list s)))"
    using split by (metis Un_insert_right list.simps(15) set_append sup_bot.right_neutral list.set(1))
  moreover have b: "FIRST_DATA_BLOCK_NR \<le> ?b" "?b < next_block_nr s"
    using ok mem by (auto simp: alloc_ok_def)
  ultimately show thesis
  proof (intro that)
    show "alloc_ok (s\<lparr>free_list := butlast (free_list s)\<rparr>)"
      using ok d mem by (auto simp: alloc_ok_def)
    show "blk_ok ?b" using b ok by (auto simp: blk_ok_def alloc_ok_def word_less_nat_alt)
  qed (use d mem b in \<open>auto simp: allocated_def\<close>)
qed

lemma free_releases:
  assumes ok: "alloc_ok s" and nr: "nr \<in> allocated s" "nr \<notin> set (last_chain_blocks s)"
  shows "\<exists>s'. free nr s = (Inr (), s') \<and> alloc_ok s' \<and> allocated s' = allocated s - {nr}
     \<and> node_cache s' nr = None \<and> data_cache s' nr = None \<and> device s' = device s
     \<and> (\<forall>b. b \<noteq> nr \<longrightarrow> node_at s' b = node_at s b \<and> data_at s' b = data_at s b)"
proof -
  have "node_at (snd (free nr s)) b = node_at s b" "data_at (snd (free nr s)) b = data_at s b" if "b \<noteq> nr" for b
    using that by (auto intro!: node_at_cong data_at_cong simp: free_def)
  with assms show ?thesis by (auto simp: free_def alloc_ok_def allocated_def)
qed

section \<open>The free-list chain\<close>

lemma concat_chunks: "0 < n \<Longrightarrow> concat (chunks n xs) = xs"
  by (induction n xs rule: chunks.induct) (simp add: chunks.simps)

lemma chunks_size: "c \<in> set (chunks n xs) \<Longrightarrow> length c \<le> n"
proof (induction n xs rule: chunks.induct)
  case (1 n xs)
  then show ?case by (subst (asm) (2) chunks.simps) (auto split: if_splits)
qed

lemma length_chunks: "length (chunks n xs) \<le> length xs"
proof (induction n xs rule: chunks.induct)
  case (1 n xs)
  show ?case
  proof (cases "xs = [] \<or> n = 0")
    case False
    then show ?thesis using 1 by (subst chunks.simps) (cases xs; cases n; auto)
  qed (simp add: chunks.simps)
qed

lemma length_concat_le [simp, len_simps]: "length (concat (map u64_le c)) = 8 * length c"
  by (induction c) auto

lemma bslice_concat_le:
  "i < length c \<Longrightarrow> bslice (i * 8) 8 (concat (map u64_le c) @ r) = u64_le (c ! i)"
proof (induction c arbitrary: i)
  case (Cons x c)
  then show ?case by (cases i) (simp_all add: bslice_def drop_append)
qed simp

lemma chain_block_eq:
  "length c \<le> 510 \<Longrightarrow> chain_block nx c =
     u64_le nx @ u64_le (of_nat (length c)) @ concat (map u64_le c) @ replicate (4080 - 8 * length c) 0"
  by (simp add: chain_block_def Let_def bsplice_def)

lemma chain_block_decode:
  assumes "length c \<le> 510"
  shows "chain_next (chain_block nx c) = nx" "chain_entries (chain_block nx c) = c"
    "length (chain_block nx c) = 4096"
proof -
  have len: "unat (of_nat (length c) :: u64) = length c" using assms by (simp add: unat_of_nat)
  have e: "u64_of_le (bslice (16 + i * 8) 8 (chain_block nx c)) = c ! i" if "i < length c" for i
  proof -
    have "bslice (16 + i * 8) 8 (chain_block nx c) =
        bslice (i * 8) 8 (concat (map u64_le c) @ replicate (4080 - 8 * length c) 0)"
      using assms by (simp add: chain_block_eq bslice_def drop_append)
    then show ?thesis using bslice_concat_le [OF that] by simp
  qed
  show "chain_next (chain_block nx c) = nx" "length (chain_block nx c) = 4096"
    using assms by (simp_all add: chain_next_def chain_block_eq)
  have "bslice 8 8 (chain_block nx c) = u64_le (of_nat (length c))"
    using assms by (simp add: chain_block_eq bslice_def)
  then show "chain_entries (chain_block nx c) = c"
    using assms len e by (auto simp: chain_entries_def Let_def min_def intro!: nth_equalityI)
qed

text \<open>A chain as the device holds it, from block \<open>cur\<close> to block \<open>stop\<close>.\<close>

definition dev_block :: "device \<Rightarrow> u64 \<Rightarrow> bytes option" where
  "dev_block d b = (case read_at 4096 (block_off b) d of Inr x \<Rightarrow> Some x | Inl _ \<Rightarrow> None)"

fun chain_at :: "device \<Rightarrow> u64 \<Rightarrow> u64 \<Rightarrow> (u64 \<times> u64 list) list \<Rightarrow> bool" where
  "chain_at d cur stop [] = (cur = stop)"
| "chain_at d cur stop ((b, c) # l) =
     (cur = b \<and> b \<noteq> 0 \<and> length c \<le> 510 \<and> (\<exists>nx. dev_block d b = Some (chain_block nx c) \<and> chain_at d nx stop l))"

lemma chain_at_snoc:
  "chain_at d cur b l \<Longrightarrow> b \<noteq> 0 \<Longrightarrow> length c \<le> 510 \<Longrightarrow> dev_block d b = Some (chain_block stop c) \<Longrightarrow>
     chain_at d cur stop (l @ [(b, c)])"
  by (induction d cur b l rule: chain_at.induct) auto

lemma load_chain_ok:
  assumes "chain_at (device s) cur 0 l" "length l \<le> fuel" "\<forall>b \<in> fst ` set l. data_cache s b = None \<or> data_cache s b = dev_block (device s) b"
  shows "\<exists>s'. load_chain fuel cur list chain s = (Inr (list @ concat (map snd l), chain @ map fst l), s') \<and> faulted s s'"
  using assms
proof (induction l arbitrary: fuel cur list chain s)
  case Nil
  then show ?case by (cases fuel) auto
next
  case (Cons bc l)
  obtain b c where bc: "bc = (b, c)" by force
  obtain fuel' where fuel: "fuel = Suc fuel'" using Cons.prems(2) by (cases fuel) auto
  from Cons.prems(1) obtain nx where cur: "cur = b" "b \<noteq> 0" and c: "length c \<le> 510"
    and blk: "dev_block (device s) b = Some (chain_block nx c)" and rest: "chain_at (device s) nx 0 l"
    by (auto simp: bc)
  have "data_at s b = Some (chain_block nx c)"
    using Cons.prems(3) blk by (auto simp: bc data_at_def dev_block_def split: option.splits)
  then obtain s1 where s1: "read_data b s = (Inr (chain_block nx c), s1)" "faulted s s1"
    using read_data_ok by blast
  have dev: "device s1 = device s" using faulted_fields [OF s1(2)] by simp
  have "data_cache s1 x = None \<or> data_cache s1 x = dev_block (device s1) x" if "x \<in> fst ` set l" for x
    using faulted_data_cache [OF s1(2), of x] Cons.prems(3) that dev by (auto simp: dev_block_def)
  with Cons.IH [of s1 nx fuel' "list @ c" "chain @ [b]"] rest dev Cons.prems(2) fuel
  obtain s2 where s2: "load_chain fuel' nx (list @ c) (chain @ [b]) s1 =
      (Inr (list @ c @ concat (map snd l), chain @ b # map fst l), s2)" "faulted s1 s2"
    by auto
  show ?case
    using s1 s2 cur c faulted_trans [OF s1(2) s2(2)]
    by (auto simp: fuel bc chain_block_decode bindM_def)
qed

primrec fresh_blocks :: "nat \<Rightarrow> u64 \<Rightarrow> u64 list" where
  "fresh_blocks 0 n = []"
| "fresh_blocks (Suc k) n = n # fresh_blocks k (n + 1)"

lemma length_fresh_blocks [simp]: "length (fresh_blocks k n) = k"
  by (induction k arbitrary: n) simp_all

lemma fresh_blocks_range:
  assumes "unat n + k \<le> 2 ^ 52" "b \<in> set (fresh_blocks k n)"
  shows "unat n \<le> unat b \<and> unat b < unat n + k"
  using assms
proof (induction k arbitrary: n)
  case (Suc k)
  have "unat (n + 1) = unat n + 1" using Suc.prems(1) by (intro unat_Suc_small) simp
  with Suc.IH [of "n + 1"] Suc.prems show ?case by auto
qed simp

lemma distinct_fresh_blocks: "unat n + k \<le> 2 ^ 52 \<Longrightarrow> distinct (fresh_blocks k n)"
proof (induction k arbitrary: n)
  case (Suc k)
  have "unat (n + 1) = unat n + 1" using Suc.prems(1) by (intro unat_Suc_small) simp
  with Suc.IH [of "n + 1"] Suc.prems fresh_blocks_range [of "n + 1" k n] show ?case by auto
qed simp

lemma chain_at_cong:
  "chain_at d cur stop l \<Longrightarrow> (\<And>b x. b \<in> fst ` set l \<Longrightarrow> dev_block d b = Some x \<Longrightarrow> dev_block d' b = Some x) \<Longrightarrow> chain_at d' cur stop l"
proof (induction d cur stop l rule: chain_at.induct)
  case (2 d cur stop b c l)
  then show ?case by auto
qed simp

text \<open>A device extends another below a block: what could be read there still can.\<close>

definition below :: "u64 \<Rightarrow> device \<Rightarrow> device \<Rightarrow> bool" where
  "below n d d' = (\<forall>off len x. off + len \<le> unat n * 4096 \<longrightarrow> read_at len off d = Inr x \<longrightarrow> read_at len off d' = Inr x)"

lemma below_refl [simp]: "below n d d"
  by (simp add: below_def)

lemma below_trans: "below n d d' \<Longrightarrow> below m d' d'' \<Longrightarrow> n \<le> m \<Longrightarrow> below n d d''"
  unfolding below_def word_le_nat_alt by (meson le_trans mult_le_mono1)

lemma below_write: "blk_ok nr \<Longrightarrow> n \<le> nr \<Longrightarrow> below n d (write_at buf (block_off nr) d)"
  unfolding below_def
  by (auto simp: block_off_eq word_le_nat_alt intro!: read_write_disjoint elim: order.trans)

lemma below_block:
  assumes "below n d d'" "b < n" "blk_ok b" "dev_block d b = Some x"
  shows "dev_block d' b = Some x"
proof -
  have "block_off b + 4096 \<le> unat n * 4096" using assms(2,3) by (simp add: block_off_eq word_less_nat_alt)
  then show ?thesis using assms(1,4) by (auto simp: below_def dev_block_def split: sum.splits)
qed

text \<open>Writing the chunks: the blocks come fresh from the bump allocator, the chain is on the device,
  and every other block is untouched.\<close>

lemma persist_chunks_ok:
  assumes "unat (next_block_nr s) + length cs \<le> 2 ^ 52" "0 < unat (next_block_nr s)"
    and "\<forall>c \<in> set cs. length c \<le> 510"
  shows "\<exists>s' head'. let bs = fresh_blocks (length cs) (next_block_nr s) in
     persist_chunks cs head chain s = (Inr (head', chain @ bs), s')
     \<and> chain_at (device s') head' head (rev (zip bs cs))
     \<and> kept (set bs) s s' \<and> free_list s' = free_list s \<and> node_cache s' = node_cache s
     \<and> next_block_nr s' = next_block_nr s + of_nat (length cs)
     \<and> (\<forall>b x. blk_ok b \<longrightarrow> b \<notin> set bs \<longrightarrow> dev_block (device s) b = Some x \<longrightarrow> dev_block (device s') b = Some x)
     \<and> dev_kind (device s') = dev_kind (device s) \<and> below (next_block_nr s) (device s) (device s')"
  using assms
proof (induction cs arbitrary: s head chain)
  case (Cons c cs)
  let ?n = "next_block_nr s"
  define s1 where "s1 = s\<lparr>next_block_nr := ?n + 1\<rparr>"
  have okn: "blk_ok ?n" using Cons.prems(1) by (simp add: blk_ok_def)
  have n1: "unat (?n + 1) = unat ?n + 1" using Cons.prems(1) by (intro unat_Suc_small) simp
  have len: "length (chain_block head c) = 4096" using chain_block_decode(3) Cons.prems(3) by simp
  obtain s2 where w: "write_data ?n (chain_block head c) s1 = (Inr (), s2)" "kept {?n} s1 s2"
    "read_at 4096 (block_off ?n) (device s2) = Inr (chain_block head c)" "next_block_nr s2 = next_block_nr s1"
    "free_list s2 = free_list s1" "node_cache s2 = node_cache s1"
    "device s2 = write_at (chain_block head c) (block_off ?n) (device s1)"
    using write_data_ok [OF okn len, of s1] by metis
  have nx: "next_block_nr s2 = ?n + 1" by (simp add: w s1_def)
  let ?bs = "fresh_blocks (length cs) (?n + 1)"
  have room: "unat (?n + 1) + length cs \<le> 2 ^ 52" using Cons.prems(1) n1 by simp
  have notin: "?n \<notin> set ?bs" using fresh_blocks_range [OF room, of ?n] n1 by auto
  obtain s' head' where IH: "persist_chunks cs ?n (chain @ [?n]) s2 = (Inr (head', (chain @ [?n]) @ ?bs), s')"
    "chain_at (device s') head' ?n (rev (zip ?bs cs))" "kept (set ?bs) s2 s'" "free_list s' = free_list s2"
    "node_cache s' = node_cache s2" "next_block_nr s' = ?n + 1 + of_nat (length cs)"
    and kd: "dev_kind (device s') = dev_kind (device s2)" and bl: "below (?n + 1) (device s2) (device s')"
    and dev: "\<And>b x. blk_ok b \<Longrightarrow> b \<notin> set ?bs \<Longrightarrow> dev_block (device s2) b = Some x \<Longrightarrow> dev_block (device s') b = Some x"
    using Cons.IH [of s2 ?n "chain @ [?n]"] Cons.prems room n1 by (auto simp: nx Let_def)
  have k1: "kept {?n} s s1" by (rule kept_cong) (simp_all add: s1_def)
  have "kept (insert ?n (set ?bs)) s s'"
    using kept_mono [OF kept_trans [OF k1 kept_trans [OF w(2) IH(3)]], of "insert ?n (set ?bs)"] by simp
  moreover have "chain_at (device s') head' head (rev (zip ?bs cs) @ [(?n, c)])"
  proof (rule chain_at_snoc [OF IH(2)])
    show "?n \<noteq> 0" using Cons.prems(2) by auto
    show "dev_block (device s') ?n = Some (chain_block head c)"
      using dev [OF okn notin] w(3) by (simp add: dev_block_def)
  qed (use Cons.prems(3) in simp)
  moreover have "dev_block (device s') b = Some x"
    if "blk_ok b" "b \<noteq> ?n" "b \<notin> set ?bs" "dev_block (device s) b = Some x" for b x
  proof -
    have "read_at 4096 (block_off b) (device s1) = Inr x"
      using that(4) by (auto simp: dev_block_def s1_def split: sum.splits)
    from read_block_write [OF okn that(1,2) len this] have "dev_block (device s2) b = Some x"
      by (simp add: dev_block_def w)
    then show ?thesis by (rule dev [OF that(1,3)])
  qed
  moreover have "persist_chunks (c # cs) head chain s = (Inr (head', chain @ ?n # ?bs), s')"
    using w(1) IH(1) by (simp add: bindM_def s1_def)
  moreover have "below ?n (device s) (device s')"
  proof (rule below_trans [OF _ bl])
    show "below ?n (device s) (device s2)" using below_write [OF okn order_refl] by (simp add: w s1_def)
    show "?n \<le> ?n + 1" using n1 by (simp add: word_le_nat_alt)
  qed
  moreover have "dev_kind (device s') = dev_kind (device s)" by (simp add: kd w s1_def)
  ultimately show ?case
    using IH(4-6) w by (intro exI [of _ s'] exI [of _ head']) (auto simp: s1_def Let_def algebra_simps)
qed auto

text \<open>What \<open>persist_free_list\<close> writes is recovered by \<open>load_free_list\<close> on a store over the same device
  whose data cache does not contradict it (after a remount it is empty).\<close>

lemma persist_then_load:
  assumes room: "unat (next_block_nr s) + length (free_list s @ last_chain_blocks s) \<le> 2 ^ 52"
    "0 < unat (next_block_nr s)"
  shows "\<exists>head s'. persist_free_list s = (Inr head, s')
    \<and> free_list s' = free_list s @ last_chain_blocks s
    \<and> kept (set (last_chain_blocks s')) s s' \<and> node_cache s' = node_cache s
    \<and> (\<forall>b \<in> set (last_chain_blocks s'). unat (next_block_nr s) \<le> unat b \<and> unat b < unat (next_block_nr s'))
    \<and> distinct (last_chain_blocks s')
    \<and> unat (next_block_nr s) \<le> unat (next_block_nr s')
    \<and> unat (next_block_nr s') \<le> unat (next_block_nr s) + length (free_list s @ last_chain_blocks s)
    \<and> dev_kind (device s') = dev_kind (device s) \<and> below (next_block_nr s) (device s) (device s')
    \<and> (\<forall>t fuel. (\<forall>b \<in> set (last_chain_blocks s'). \<forall>x. dev_block (device s') b = Some x \<longrightarrow> dev_block (device t) b = Some x) \<longrightarrow> data_cache t = Map.empty \<longrightarrow> length (free_list s') \<le> fuel \<longrightarrow>
         (\<exists>t' t1. load_free_list fuel head t = (Inr (), t') \<and> faulted t t1 \<and> t' = t1\<lparr>free_list := free_list t'\<rparr>
            \<and> mset (free_list t') = mset (free_list s') + mset (last_chain_blocks s')))"
proof -
  let ?l = "free_list s @ last_chain_blocks s"
  define s0 where "s0 = s\<lparr>free_list := ?l, last_chain_blocks := []\<rparr>"
  have k0: "kept {} s s0" by (rule kept_cong) (simp_all add: s0_def)
  show ?thesis
  proof (cases "?l = []")
    case True
    then have "persist_free_list s = (Inr 0, s0)" by (simp add: persist_free_list_def s0_def)
    moreover have "load_free_list fuel 0 t = (Inr (), t\<lparr>free_list := []\<rparr>)" for fuel t
      by (cases fuel) (simp_all add: load_free_list_def bindM_def)
    then have "\<exists>t' t1. load_free_list fuel 0 t = (Inr (), t') \<and> faulted t t1 \<and> t' = t1\<lparr>free_list := free_list t'\<rparr> \<and> free_list t' = []" for fuel t
      by (intro exI [of _ "t\<lparr>free_list := []\<rparr>"] exI [of _ t]) simp
    ultimately show ?thesis
      using True k0 by (intro exI [of _ 0] exI [of _ s0]) (simp add: s0_def)
  next
    case False
    define cs where "cs = chunks 510 ?l"
    have cc: "concat cs = ?l" by (simp add: cs_def concat_chunks)
    have lcs: "length cs \<le> length ?l" by (simp only: cs_def length_chunks)
    have sz: "\<forall>c \<in> set cs. length c \<le> 510" by (simp add: cs_def chunks_size)
    let ?n = "next_block_nr s"
    let ?bs = "fresh_blocks (length cs) ?n"
    have room': "unat ?n + length cs \<le> 2 ^ 52" using room(1) lcs by simp
    obtain s1 head where P: "persist_chunks cs 0 [] s0 = (Inr (head, ?bs), s1)"
      "chain_at (device s1) head 0 (rev (zip ?bs cs))" "kept (set ?bs) s0 s1" "free_list s1 = ?l"
      "node_cache s1 = node_cache s" "next_block_nr s1 = ?n + of_nat (length cs)"
      "dev_kind (device s1) = dev_kind (device s)" "below ?n (device s) (device s1)"
      using persist_chunks_ok [of s0 cs 0 "[]"] room' room(2) sz by (auto simp: s0_def Let_def)
    let ?s = "s1\<lparr>last_chain_blocks := ?bs\<rparr>"
    have run: "persist_free_list s = (Inr head, ?s)"
      using False P(1) by (auto simp: persist_free_list_def bindM_def s0_def cs_def)
    have k: "kept (set ?bs) s ?s"
    proof -
      have "kept {} s1 ?s" by (rule kept_cong) simp_all
      with kept_trans [OF k0 kept_trans [OF P(3)]] show ?thesis by fastforce
    qed
    have nn: "unat (next_block_nr ?s) = unat ?n + length cs"
      using P(6) room' by (simp add: unat_word_ariths(1) unat_of_nat)
    have load: "\<exists>t' t1. load_free_list fuel head t = (Inr (), t') \<and> faulted t t1 \<and> t' = t1\<lparr>free_list := free_list t'\<rparr> \<and> mset (free_list t') = mset (free_list ?s) + mset ?bs"
      if t: "\<forall>b \<in> set ?bs. \<forall>x. dev_block (device ?s) b = Some x \<longrightarrow> dev_block (device t) b = Some x" "data_cache t = Map.empty" "length (free_list ?s) \<le> fuel" for t fuel
    proof -
      have "chain_at (device t) head 0 (rev (zip ?bs cs))"
        by (rule chain_at_cong [OF P(2)]) (use t(1) in \<open>auto dest!: set_zip_leftD\<close>)
      moreover have "length (rev (zip ?bs cs)) \<le> fuel" using t(3) lcs by (simp add: P(4))
      ultimately obtain t1 where t1: "load_chain fuel head [] [] t =
          (Inr (concat (map snd (rev (zip ?bs cs))), map fst (rev (zip ?bs cs))), t1)" "faulted t t1"
        using load_chain_ok [of t head "rev (zip ?bs cs)" fuel "[]" "[]"] t(2) by auto
      then have "load_free_list fuel head t = (Inr (), t1\<lparr>free_list := concat (rev cs) @ rev ?bs\<rparr>)"
        by (simp add: load_free_list_def bindM_def rev_map [symmetric])
      moreover have "mset (concat (rev cs)) = mset ?l"
        using cc by (metis mset_concat mset_map mset_rev sum_mset_sum_list)
      ultimately show ?thesis using t1(2)
        by (intro exI [of _ "t1\<lparr>free_list := concat (rev cs) @ rev ?bs\<rparr>"] exI [of _ t1]) (simp add: P(4))
    qed
    show ?thesis
      using run k P nn lcs fresh_blocks_range [OF room'] distinct_fresh_blocks [OF room'] load
      by (intro exI [of _ head] exI [of _ ?s]) auto
  qed
qed

section \<open>Properties\<close>

text \<open>C31. On a consistent allocator \<open>alloc\<close> returns a data block that is not allocated, marks exactly
  that block as allocated, and keeps the allocator consistent; \<open>free\<close> undoes it, so that a freed
  block is served from neither cache.\<close>

theorem alloc_free_consistent:
  assumes "alloc_ok s" "unat (next_block_nr s) < 2 ^ 52"
  shows "\<exists>nr s'. alloc s = (Inr nr, s') \<and> nr \<notin> allocated s \<and> 65 \<le> nr \<and> allocated s' = insert nr (allocated s)
    \<and> alloc_ok s' \<and> nr \<notin> set (last_chain_blocks s)
    \<and> (\<exists>s''. free nr s' = (Inr (), s'') \<and> allocated s'' = allocated s \<and> alloc_ok s''
          \<and> node_cache s'' nr = None \<and> data_cache s'' nr = None)"
proof (rule alloc_fresh [OF assms])
  fix nr s' assume a: "alloc s = (Inr nr, s')" "nr \<notin> allocated s" "allocated s' = insert nr (allocated s)"
    "alloc_ok s'" "65 \<le> nr" "nr \<notin> set (last_chain_blocks s)" "last_chain_blocks s' = last_chain_blocks s"
  have "\<exists>s''. free nr s' = (Inr (), s'') \<and> alloc_ok s'' \<and> allocated s'' = allocated s' - {nr}
      \<and> node_cache s'' nr = None \<and> data_cache s'' nr = None"
    using free_releases [OF a(4), of nr] a by auto
  moreover have "allocated s' - {nr} = allocated s" using a(2,3) by auto
  ultimately show ?thesis using a by metis
qed

definition sample_store :: block_store where
  "sample_store = (in_memory (\<lambda>b. 7))\<lparr>next_block_nr := 80, free_list := [70, 66], last_chain_blocks := [79]\<rparr>"

lemma sample_store_ok: "alloc_ok sample_store" "unat (next_block_nr sample_store) + 5 \<le> 2 ^ 52"
  by (simp_all add: sample_store_def alloc_ok_def)

theorem alloc_free_consistent_witness:
  "\<exists>s'. alloc sample_store = (Inr 66, s') \<and> allocated s' = insert 66 (allocated sample_store)"
proof -
  have "unat (next_block_nr sample_store) < 2 ^ 52" using sample_store_ok(2) by simp
  from alloc_free_consistent [OF sample_store_ok(1) this] show ?thesis
    by (auto simp: alloc_def sample_store_def)
qed

text \<open>C32. The free list survives a remount: \<open>persist_free_list\<close> writes it, with the chain blocks of the
  previous persist, to fresh blocks only, and \<open>load_free_list\<close> over the same device ends and recovers
  exactly these blocks plus the chain blocks themselves, each once.\<close>

theorem free_list_survives:
  assumes "unat (next_block_nr s) + length (free_list s @ last_chain_blocks s) \<le> 2 ^ 52"
    "0 < unat (next_block_nr s)"
  shows "\<exists>head s'. persist_free_list s = (Inr head, s')
    \<and> kept (set (last_chain_blocks s')) s s'
    \<and> (\<forall>b \<in> set (last_chain_blocks s'). unat (next_block_nr s) \<le> unat b)
    \<and> (\<forall>t fuel. device t = device s' \<longrightarrow> data_cache t = Map.empty \<longrightarrow> length (free_list s') \<le> fuel \<longrightarrow>
         (\<exists>t'. load_free_list fuel head t = (Inr (), t')
            \<and> mset (free_list t') = mset (free_list s) + mset (last_chain_blocks s) + mset (last_chain_blocks s')))"
proof -
  obtain head s' where P: "persist_free_list s = (Inr head, s')" "free_list s' = free_list s @ last_chain_blocks s"
    "kept (set (last_chain_blocks s')) s s'"
    "\<forall>b \<in> set (last_chain_blocks s'). unat (next_block_nr s) \<le> unat b \<and> unat b < unat (next_block_nr s')"
    and L: "\<forall>t fuel. device t = device s' \<longrightarrow> data_cache t = Map.empty \<longrightarrow> length (free_list s') \<le> fuel \<longrightarrow>
         (\<exists>t'. load_free_list fuel head t = (Inr (), t')
            \<and> mset (free_list t') = mset (free_list s') + mset (last_chain_blocks s'))"
    using persist_then_load [OF assms] by (metis (no_types, lifting))
  from P L show ?thesis by (intro exI [of _ head] exI [of _ s']) auto
qed

theorem free_list_survives_witness:
  "\<exists>head s'. persist_free_list sample_store = (Inr head, s')
     \<and> (\<exists>t'. load_free_list 3 head (with_device (\<lambda>b. 7) (device s') False) = (Inr (), t')
          \<and> mset (free_list t') = {#70, 66, 79#} + mset (last_chain_blocks s'))"
proof -
  have pre: "unat (next_block_nr sample_store) + length (free_list sample_store @ last_chain_blocks sample_store) \<le> 2 ^ 52"
    "0 < unat (next_block_nr sample_store)"
    by (simp_all add: sample_store_def)
  obtain head s' where P: "persist_free_list sample_store = (Inr head, s')"
    and L: "\<forall>t fuel. device t = device s' \<longrightarrow> data_cache t = Map.empty \<longrightarrow> length (free_list s') \<le> fuel \<longrightarrow>
      (\<exists>t'. load_free_list fuel head t = (Inr (), t') \<and> mset (free_list t') =
         mset (free_list sample_store) + mset (last_chain_blocks sample_store) + mset (last_chain_blocks s'))"
    using free_list_survives [OF pre] by blast
  have "free_list s' = [70, 66, 79]"
    using P persist_then_load [OF pre] by (auto simp: sample_store_def)
  with P L [rule_format, of "with_device (\<lambda>b. 7) (device s') False" 3] show ?thesis
    by (auto simp: with_device_def sample_store_def)
qed

end
