(* ===== verification/Journal.thy ===== *)
theory Journal
  imports Store_View
begin

text \<open>
  \<open>src/journal.rs\<close>: the write-ahead ring of 1024 fixed-size frames in blocks 1 to 64.  The journal
  holds nothing but a handle of the store's device, so its operations run on a \<open>device\<close>.  The scan
  loops end because the ring is bounded, which the termination proofs below establish with the
  wrapping \<open>u64\<close> arithmetic of the code.
\<close>

section \<open>Operations\<close>

record commit_group =
  cg_ops :: "(u8 \<times> bytes) list"
  cg_end :: journal_frame

definition frame_offset :: "u64 \<Rightarrow> u64" where
  "frame_offset seq =
     (let ring_pos = seq mod JOURNAL_CAPACITY;
          block_index = ring_pos div of_nat ENTRIES_PER_BLOCK + FIRST_JOURNAL_BLOCK;
          slot_index = ring_pos mod of_nat ENTRIES_PER_BLOCK
      in block_index * of_nat BLOCK_SIZE + slot_index * of_nat JOURNAL_FRAME_SIZE)"

definition journal_append :: "journal_frame \<Rightarrow> device \<Rightarrow> device" where
  "journal_append frame d = write_at (frame_bytes frame) (unat (frame_offset (jf_seq frame))) d"

definition read_frame :: "(bytes \<Rightarrow> u32) \<Rightarrow> u64 \<Rightarrow> device \<Rightarrow> error + journal_frame option" where
  "read_frame crc seq d =
     (case read_at JOURNAL_FRAME_SIZE (unat (frame_offset seq)) d of
        Inl e \<Rightarrow> Inl (Io e)
      | Inr bs \<Rightarrow> (let frame = frame_of_bytes bs in Inr (if frame_is_valid crc seq frame then Some frame else None)))"

lemma scan_step:
  assumes "unat (seq - start :: u64) < 1024"
  shows "\<not> JOURNAL_CAPACITY \<le> seq - start" "unat (seq + 1 - start) = unat (seq - start) + 1"
proof -
  show "\<not> JOURNAL_CAPACITY \<le> seq - start" using assms by (simp add: word_le_nat_alt)
  have e: "seq + 1 - start = (seq - start) + 1" by simp
  show "unat (seq + 1 - start) = unat (seq - start) + 1"
    unfolding e using assms by (intro unat_Suc_small) simp
qed

lemma scan_measure:
  assumes "\<not> seq - start \<ge> JOURNAL_CAPACITY"
  shows "1024 - unat (seq + 1 - start) < 1024 - unat (seq - start)"
proof -
  have "unat (seq - start) < 1024" using assms by (simp add: word_le_nat_alt)
  with scan_step [OF this] show ?thesis by linarith
qed

function scan_loop :: "(bytes \<Rightarrow> u32) \<Rightarrow> device \<Rightarrow> u64 \<Rightarrow> u64 \<Rightarrow> (u8 \<times> bytes) list \<Rightarrow> commit_group list \<Rightarrow>
    error fault + commit_group list" where
  "scan_loop crc d start seq pending groups =
     (if seq - start \<ge> JOURNAL_CAPACITY then Inr groups
      else case read_frame crc seq d of
          Inl e \<Rightarrow> Inl (Err e)
        | Inr None \<Rightarrow> Inr groups
        | Inr (Some frame) \<Rightarrow>
            (case frame_kind_of frame of
               Some LoggedOp \<Rightarrow>
                 (case op_payload frame of
                    None \<Rightarrow> Inl Panic
                  | Some p \<Rightarrow> scan_loop crc d start (seq + 1) (pending @ [(jf_op_kind frame, p)]) groups)
             | Some CommitEnd \<Rightarrow>
                 scan_loop crc d start (seq + 1) [] (groups @ [\<lparr>cg_ops = pending, cg_end = frame\<rparr>])
             | None \<Rightarrow> Inr groups))"
  by pat_completeness auto
termination
  by (relation "measure (\<lambda>(crc, d, start, seq, p, g). 1024 - unat (seq - start))")
    (use scan_measure in \<open>auto simp: algebra_simps\<close>)

definition scan_groups :: "(bytes \<Rightarrow> u32) \<Rightarrow> u64 \<Rightarrow> device \<Rightarrow> error fault + commit_group list" where
  "scan_groups crc start d = scan_loop crc d start start [] []"

function next_seq_loop :: "(bytes \<Rightarrow> u32) \<Rightarrow> device \<Rightarrow> u64 \<Rightarrow> u64 \<Rightarrow> u64 \<Rightarrow> error + u64" where
  "next_seq_loop crc d start seq last_group_end =
     (if seq - start \<ge> JOURNAL_CAPACITY then Inr last_group_end
      else case read_frame crc seq d of
          Inl e \<Rightarrow> Inl e
        | Inr None \<Rightarrow> Inr last_group_end
        | Inr (Some frame) \<Rightarrow>
            (if frame_kind_of frame = None then Inr last_group_end
             else next_seq_loop crc d start (seq + 1)
                    (if frame_kind_of frame = Some CommitEnd then seq + 1 else last_group_end)))"
  by pat_completeness auto
termination
  by (relation "measure (\<lambda>(crc, d, start, seq, l). 1024 - unat (seq - start))")
    (use scan_measure in \<open>auto simp: algebra_simps\<close>)

definition next_seq_after_scan :: "(bytes \<Rightarrow> u32) \<Rightarrow> u64 \<Rightarrow> device \<Rightarrow> error + u64" where
  "next_seq_after_scan crc start d = next_seq_loop crc d start start start"

declare scan_loop.simps [simp del] next_seq_loop.simps [simp del]

section \<open>Ring slots\<close>

lemma unat_frame_offset: "unat (frame_offset seq) = 4096 + (unat seq mod 1024) * 256"
proof -
  let ?r = "unat seq mod 1024"
  have r: "?r < 1024" by simp
  have "unat (seq mod 1024) = ?r" by (simp add: unat_mod_distrib)
  then have b: "unat (seq mod 1024 div 16 + 1) = ?r div 16 + 1" "unat (seq mod 1024 mod 16) = ?r mod 16"
    using r by (simp_all add: unat_word_ariths(1) unat_div_distrib unat_mod_distrib)
  have "unat (frame_offset seq) = (?r div 16 + 1) * 4096 + ?r mod 16 * 256"
    using b r by (simp add: frame_offset_def Let_def unat_word_ariths)
  also have "\<dots> = 4096 + (?r div 16 * 16 + ?r mod 16) * 256" by (simp only: algebra_simps)
  finally show ?thesis by (simp only: div_mult_mod_eq)
qed

text \<open>Every slot lies in the journal blocks: below the first data block and above the superblock.\<close>

lemma frame_slot_range: "4096 \<le> unat (frame_offset seq)" "unat (frame_offset seq) + 256 \<le> 65 * 4096"
  using mod_less_divisor [of 1024 "unat seq"] by (simp_all add: unat_frame_offset)

lemma frame_slots_disjoint:
  assumes "unat a mod 1024 \<noteq> unat b mod 1024"
  shows "unat (frame_offset a) + 256 \<le> unat (frame_offset b) \<or> unat (frame_offset b) + 256 \<le> unat (frame_offset a)"
  using assms by (auto simp: unat_frame_offset)

section \<open>Reading back\<close>

definition valid_frame :: "(bytes \<Rightarrow> u32) \<Rightarrow> journal_frame \<Rightarrow> bool" where
  "valid_frame crc f = (sized_frame f \<and> op_payload f \<noteq> None \<and> frame_is_valid crc (jf_seq f) f)"

lemma read_append_same: "valid_frame crc f \<Longrightarrow> read_frame crc (jf_seq f) (journal_append f d) = Inr (Some f)"
  by (simp add: read_frame_def journal_append_def valid_frame_def read_write_same frame_roundtrip)

lemma read_append_other:
  assumes "sized_frame f" "unat seq mod 1024 \<noteq> unat (jf_seq f) mod 1024" "read_frame crc seq d = Inr r"
  shows "read_frame crc seq (journal_append f d) = Inr r"
proof -
  obtain bs where bs: "read_at 256 (unat (frame_offset seq)) d = Inr bs"
    using assms(3) by (auto simp: read_frame_def split: sum.splits)
  have "read_at 256 (unat (frame_offset seq)) (journal_append f d) = Inr bs"
    using frame_slots_disjoint [OF assms(2)] bs assms(1)
    by (auto simp: journal_append_def intro: read_write_disjoint)
  with bs assms(3) show ?thesis by (simp add: read_frame_def)
qed

text \<open>Journal writes never reach a data block or the superblock.\<close>

lemma journal_append_keeps_block:
  assumes "blk_ok b" "b = 0 \<or> 65 \<le> b" "sized_frame f" "read_at 4096 (block_off b) d = Inr x"
  shows "read_at 4096 (block_off b) (journal_append f d) = Inr x"
proof -
  have "block_off b = 0 \<or> 65 * 4096 \<le> block_off b"
    using assms(2) block_off_eq [OF assms(1)] by (auto simp: word_le_nat_alt)
  then show ?thesis
    using frame_slot_range [of "jf_seq f"] assms(3,4)
    by (auto simp: journal_append_def intro: read_write_disjoint)
qed

section \<open>Scanning\<close>

text \<open>The reference reading of a run of frames: close a group at every commit end, drop an
  unfinished tail.\<close>

fun split_groups :: "(u8 \<times> bytes) list \<Rightarrow> journal_frame list \<Rightarrow> commit_group list" where
  "split_groups p [] = []"
| "split_groups p (f # fs) =
     (case frame_kind_of f of
        Some LoggedOp \<Rightarrow> split_groups (p @ [(jf_op_kind f, the (op_payload f))]) fs
      | Some CommitEnd \<Rightarrow> \<lparr>cg_ops = p, cg_end = f\<rparr> # split_groups [] fs
      | None \<Rightarrow> [])"

text \<open>The frames the ring holds from \<open>seq\<close> on, up to the first slot that is not valid.\<close>

fun ring_holds :: "(bytes \<Rightarrow> u32) \<Rightarrow> device \<Rightarrow> u64 \<Rightarrow> journal_frame list \<Rightarrow> bool" where
  "ring_holds crc d seq [] = True"
| "ring_holds crc d seq (f # fs) = (read_frame crc seq d = Inr (Some f) \<and> op_payload f \<noteq> None
     \<and> ring_holds crc d (seq + 1) fs)"

lemma read_frame_kind: "read_frame crc seq d = Inr (Some f) \<Longrightarrow> frame_kind_of f \<noteq> None"
  by (auto simp: read_frame_def frame_is_valid_def Let_def split: sum.splits if_splits)

lemma scan_loop_holds:
  assumes "ring_holds crc d seq fs" "unat (seq - start) + length fs \<le> 1024"
    and "unat (seq - start) + length fs = 1024 \<or> read_frame crc (seq + of_nat (length fs)) d = Inr None"
  shows "scan_loop crc d start seq pending groups = Inr (groups @ split_groups pending fs)"
  using assms
proof (induction fs arbitrary: seq pending groups)
  case Nil
  then show ?case by (auto simp: scan_loop.simps [of crc d start seq] word_le_nat_alt split: sum.splits)
next
  case (Cons f fs)
  have lt: "unat (seq - start) < 1024" using Cons.prems(2) by simp
  note st = scan_step [OF lt]
  have IH: "scan_loop crc d start (seq + 1) p g = Inr (g @ split_groups p fs)" for p g
    using Cons.prems st(2) by (intro Cons.IH) (auto simp: algebra_simps)
  have rf: "read_frame crc seq d = Inr (Some f)" "op_payload f \<noteq> None" using Cons.prems(1) by auto
  from st(1) rf read_frame_kind [OF rf(1)] show ?case
    by (subst scan_loop.simps) (auto simp: IH split: option.splits frame_kind.splits)
qed

definition last_commit :: "journal_frame list \<Rightarrow> nat" where
  "last_commit fs = length fs - length (takeWhile (\<lambda>f. frame_kind_of f \<noteq> Some CommitEnd) (rev fs))"

lemma next_seq_loop_holds:
  assumes "ring_holds crc d seq fs" "unat (seq - start) + length fs \<le> 1024"
    and "unat (seq - start) + length fs = 1024 \<or> read_frame crc (seq + of_nat (length fs)) d = Inr None"
  shows "next_seq_loop crc d start seq l =
    Inr (if \<exists>f \<in> set fs. frame_kind_of f = Some CommitEnd then seq + of_nat (last_commit fs) else l)"
  using assms
proof (induction fs arbitrary: seq l)
  case Nil
  then show ?case by (auto simp: next_seq_loop.simps [of crc d start seq] word_le_nat_alt split: sum.splits)
next
  case (Cons f fs)
  have lt: "unat (seq - start) < 1024" using Cons.prems(2) by simp
  note st = scan_step [OF lt]
  have IH: "next_seq_loop crc d start (seq + 1) l =
      Inr (if \<exists>f \<in> set fs. frame_kind_of f = Some CommitEnd then seq + 1 + of_nat (last_commit fs) else l)" for l
    using Cons.prems st(2) by (intro Cons.IH) (auto simp: algebra_simps)
  have rf: "read_frame crc seq d = Inr (Some f)" using Cons.prems(1) by auto
  have step: "next_seq_loop crc d start seq l =
      next_seq_loop crc d start (seq + 1) (if frame_kind_of f = Some CommitEnd then seq + 1 else l)"
    using st(1) rf read_frame_kind [OF rf] by (subst next_seq_loop.simps) auto
  show ?case
  proof (cases "\<exists>g \<in> set fs. frame_kind_of g = Some CommitEnd")
    case True
    then have tw: "takeWhile (\<lambda>f. frame_kind_of f \<noteq> Some CommitEnd) (rev fs @ [f]) =
        takeWhile (\<lambda>f. frame_kind_of f \<noteq> Some CommitEnd) (rev fs)"
      by (auto intro: takeWhile_append1)
    have "length (takeWhile (\<lambda>f. frame_kind_of f \<noteq> Some CommitEnd) (rev fs)) \<le> length fs"
      using length_takeWhile_le [of _ "rev fs"] by simp
    then have "last_commit (f # fs) = Suc (last_commit fs)" by (simp add: last_commit_def tw Suc_diff_le)
    with True show ?thesis by (simp add: step IH)
  next
    case False
    then have "\<forall>g \<in> set (rev fs). frame_kind_of g \<noteq> Some CommitEnd" by auto
    then have "last_commit (f # fs) = (if frame_kind_of f = Some CommitEnd then 1 else 0)"
      using takeWhile_append2 [of "rev fs" "\<lambda>f. frame_kind_of f \<noteq> Some CommitEnd" "[f]"]
      by (simp add: last_commit_def)
    with False show ?thesis by (simp add: step IH)
  qed
qed

section \<open>Commit groups survive, torn groups do not\<close>

definition is_op :: "journal_frame \<Rightarrow> bool" where
  "is_op f = (frame_kind_of f = Some LoggedOp)"

definition op_of :: "journal_frame \<Rightarrow> u8 \<times> bytes" where
  "op_of f = (jf_op_kind f, the (op_payload f))"

text \<open>A commit group as written: its operation frames and the closing frame.\<close>

definition group_frames :: "journal_frame list \<times> journal_frame \<Rightarrow> journal_frame list" where
  "group_frames g = fst g @ [snd g]"

definition whole_group :: "journal_frame list \<times> journal_frame \<Rightarrow> bool" where
  "whole_group g = ((\<forall>f \<in> set (fst g). is_op f) \<and> frame_kind_of (snd g) = Some CommitEnd)"

definition recovered :: "journal_frame list \<times> journal_frame \<Rightarrow> commit_group" where
  "recovered g = \<lparr>cg_ops = map op_of (fst g), cg_end = snd g\<rparr>"

lemma split_ops: "\<forall>f \<in> set fs. is_op f \<Longrightarrow> split_groups p (fs @ rest) = split_groups (p @ map op_of fs) rest"
  by (induction fs arbitrary: p) (auto simp: is_op_def op_of_def)

lemma split_whole:
  assumes "\<forall>g \<in> set gs. whole_group g" "\<forall>f \<in> set tail. is_op f"
  shows "split_groups [] (concat (map group_frames gs) @ tail) = map recovered gs"
  using assms
proof (induction gs)
  case Nil
  then show ?case using split_ops [of tail "[]" "[]"] by simp
next
  case (Cons g gs)
  then have "\<forall>f \<in> set (fst g). is_op f" "frame_kind_of (snd g) = Some CommitEnd" by (auto simp: whole_group_def)
  with Cons show ?case by (simp add: group_frames_def split_ops recovered_def)
qed

text \<open>Appending frames with consecutive sequence numbers, at most one lap of the ring.\<close>

primrec consecutive :: "u64 \<Rightarrow> journal_frame list \<Rightarrow> bool" where
  "consecutive seq [] = True"
| "consecutive seq (f # fs) = (jf_seq f = seq \<and> consecutive (seq + 1) fs)"

definition journal_write :: "journal_frame list \<Rightarrow> device \<Rightarrow> device" where
  "journal_write fs d = fold journal_append fs d"

lemma consecutive_nth: "consecutive seq fs \<Longrightarrow> i < length fs \<Longrightarrow> jf_seq (fs ! i) = seq + of_nat i"
proof (induction fs arbitrary: seq i)
  case (Cons f fs)
  then show ?case by (cases i) (auto simp: algebra_simps)
qed simp

lemma ring_slot_ne:
  assumes "0 < k" "k < 1024"
  shows "unat (seq :: u64) mod 1024 \<noteq> unat (seq + of_nat k) mod 1024"
proof -
  have "unat (seq + of_nat k) mod 1024 = (unat seq + k) mod 1024"
    using assms by (simp add: unat_word_ariths(1) unat_of_nat mod_mod_cancel)
  moreover have "unat seq mod 1024 \<noteq> (unat seq + k) mod 1024"
  proof
    assume "unat seq mod 1024 = (unat seq + k) mod 1024"
    then have "1024 dvd (unat seq + k) - unat seq" by (intro mod_eq_dvd_iff_nat [THEN iffD1]) simp_all
    then show False using assms dvd_imp_le [of 1024 k] by simp
  qed
  ultimately show ?thesis by simp
qed

lemma ring_holds_nth:
  "ring_holds crc d seq fs \<longleftrightarrow>
     (\<forall>i < length fs. read_frame crc (seq + of_nat i) d = Inr (Some (fs ! i)) \<and> op_payload (fs ! i) \<noteq> None)"
proof (induction fs arbitrary: seq)
  case (Cons f fs)
  have "seq + 1 + of_nat i = seq + of_nat (Suc i)" for i by simp
  then show ?case by (simp only: ring_holds.simps Cons.IH) (auto simp: less_Suc_eq_0_disj)
qed simp

lemma journal_write_other:
  assumes "\<forall>f \<in> set fs. sized_frame f \<and> unat seq mod 1024 \<noteq> unat (jf_seq f) mod 1024"
    and "read_frame crc seq d = Inr r"
  shows "read_frame crc seq (journal_write fs d) = Inr r"
  using assms by (induction fs arbitrary: d) (auto simp: journal_write_def read_append_other)

lemma journal_write_holds:
  assumes c: "consecutive seq fs" and v: "\<forall>f \<in> set fs. valid_frame crc f" and len: "length fs \<le> 1024"
  shows "ring_holds crc (journal_write fs d) seq fs"
proof (unfold ring_holds_nth, intro allI impI conjI)
  fix i assume i: "i < length fs"
  let ?f = "fs ! i" and ?d = "journal_write (take i fs) d" and ?post = "drop (Suc i) fs"
  have "valid_frame crc ?f" using v i by simp
  then have pay: "op_payload ?f \<noteq> None"
    and at: "read_frame crc (jf_seq ?f) (journal_append ?f ?d) = Inr (Some ?f)"
    by (simp add: valid_frame_def, simp add: read_append_same)
  show "op_payload ?f \<noteq> None" by (rule pay)
  have sq: "jf_seq ?f = seq + of_nat i" by (rule consecutive_nth [OF c i])
  have "sized_frame g \<and> unat (seq + of_nat i) mod 1024 \<noteq> unat (jf_seq g) mod 1024" if g: "g \<in> set ?post" for g
  proof -
    obtain j where "j < length ?post" "?post ! j = g" using g unfolding in_set_conv_nth by blast
    then have j: "Suc i + j < length fs" "g = fs ! (Suc i + j)" using i by auto
    have e: "jf_seq g = (seq + of_nat i) + of_nat (Suc j)" using consecutive_nth [OF c j(1)] j(2) by simp
    have "unat (seq + of_nat i) mod 1024 \<noteq> unat ((seq + of_nat i) + of_nat (Suc j)) mod 1024"
      by (rule ring_slot_ne) (use j(1) len in auto)
    moreover have "sized_frame g" using v g by (auto simp: valid_frame_def dest: in_set_dropD)
    ultimately show ?thesis unfolding e by blast
  qed
  then have "read_frame crc (seq + of_nat i) (journal_write ?post (journal_append ?f ?d)) = Inr (Some ?f)"
    using at sq by (intro journal_write_other) auto
  moreover have "journal_write fs d = journal_write ?post (journal_append ?f ?d)"
    by (subst id_take_nth_drop [OF i]) (simp add: journal_write_def)
  ultimately show "read_frame crc (seq + of_nat i) (journal_write fs d) = Inr (Some ?f)" by simp
qed

lemma last_commit_whole:
  assumes "\<forall>g \<in> set gs. whole_group g" "\<forall>f \<in> set tail. is_op f" "gs \<noteq> []"
  shows "last_commit (concat (map group_frames gs) @ tail) = length (concat (map group_frames gs))"
    "\<exists>f \<in> set (concat (map group_frames gs)). frame_kind_of f = Some CommitEnd"
proof -
  obtain gs' g where gs: "gs = gs' @ [g]" using assms(3) by (metis rev_exhaust)
  then have e: "frame_kind_of (snd g) = Some CommitEnd" using assms(1) by (simp add: whole_group_def)
  then show "\<exists>f \<in> set (concat (map group_frames gs)). frame_kind_of f = Some CommitEnd"
    by (auto simp: gs group_frames_def)
  have "takeWhile (\<lambda>f. frame_kind_of f \<noteq> Some CommitEnd) (rev tail @ rest) =
      rev tail @ takeWhile (\<lambda>f. frame_kind_of f \<noteq> Some CommitEnd) rest" for rest
    using assms(2) by (intro takeWhile_append2) (auto simp: is_op_def)
  then show "last_commit (concat (map group_frames gs) @ tail) = length (concat (map group_frames gs))"
    using e by (simp add: last_commit_def gs group_frames_def)
qed

text \<open>The journal after a run of commits and possibly a torn one: the scan returns exactly the
  committed groups, and the next sequence number is the one after the last of them.\<close>

lemma journal_recovers:
  assumes whole: "\<forall>g \<in> set gs. whole_group g" and torn: "\<forall>f \<in> set tail. is_op f"
    and fs: "fs = concat (map group_frames gs) @ tail" "consecutive start fs" "\<forall>f \<in> set fs. valid_frame crc f"
    and ring: "length fs = 1024 \<or> length fs < 1024 \<and> read_frame crc (start + of_nat (length fs)) d = Inr None"
  shows "scan_groups crc start (journal_write fs d) = Inr (map recovered gs)"
    "next_seq_after_scan crc start (journal_write fs d) = Inr (start + of_nat (length (concat (map group_frames gs))))"
proof -
  let ?d = "journal_write fs d"
  have len: "length fs \<le> 1024" using ring by auto
  have holds: "ring_holds crc ?d start fs" by (rule journal_write_holds [OF fs(2,3) len])
  have stop: "length fs = 1024 \<or> read_frame crc (start + of_nat (length fs)) ?d = Inr None"
  proof (cases "length fs = 1024")
    case False
    then have lt: "length fs < 1024" and none: "read_frame crc (start + of_nat (length fs)) d = Inr None"
      using ring by auto
    have "sized_frame f \<and> unat (start + of_nat (length fs)) mod 1024 \<noteq> unat (jf_seq f) mod 1024"
      if f: "f \<in> set fs" for f
    proof -
      obtain i where i: "i < length fs" "f = fs ! i" using f by (auto simp: in_set_conv_nth)
      have e: "start + of_nat (length fs) = jf_seq f + of_nat (length fs - i)"
        using consecutive_nth [OF fs(2) i(1)] i by (simp add: of_nat_diff)
      have "unat (jf_seq f) mod 1024 \<noteq> unat (jf_seq f + of_nat (length fs - i)) mod 1024"
        by (rule ring_slot_ne) (use i lt in auto)
      moreover have "sized_frame f" using fs(3) f by (simp add: valid_frame_def)
      ultimately show ?thesis unfolding e by metis
    qed
    then show ?thesis using journal_write_other [OF _ none] by simp
  qed simp
  show "scan_groups crc start ?d = Inr (map recovered gs)"
    using scan_loop_holds [OF holds, of start "[]" "[]"] stop len split_whole [OF whole torn] fs(1)
    by (simp add: scan_groups_def)
  have "next_seq_after_scan crc start ?d =
      Inr (if \<exists>f \<in> set fs. frame_kind_of f = Some CommitEnd then start + of_nat (last_commit fs) else start)"
    using next_seq_loop_holds [OF holds, of start start] stop len by (simp add: next_seq_after_scan_def)
  moreover have "gs = [] \<Longrightarrow> \<not> (\<exists>f \<in> set fs. frame_kind_of f = Some CommitEnd)"
    using torn fs(1) by (auto simp: is_op_def)
  ultimately show "next_seq_after_scan crc start ?d = Inr (start + of_nat (length (concat (map group_frames gs))))"
    using last_commit_whole [OF whole torn] fs(1) by (cases "gs = []") auto
qed

section \<open>Properties\<close>

lemma valid_logged_op:
  assumes "logged_op seq k data = Some f"
  shows "valid_frame crc (frame_stamp_checksum crc f)" "is_op (frame_stamp_checksum crc f)"
    "op_of (frame_stamp_checksum crc f) = (k, data)" "jf_seq f = seq"
proof -
  have f: "length data \<le> 184" "f = (frame_new seq LoggedOp)\<lparr>jf_op_kind := k, jf_op_len := of_nat (length data),
      jf_op_data := bsplice 0 data (replicate 184 0)\<rparr>"
    using assms by (auto simp: logged_op_def Let_def frame_new_def split: if_splits)
  have kind: "frame_kind_of f = Some LoggedOp" "jf_magic f = JOURNAL_MAGIC"
    by (simp_all add: f(2) frame_new_def frame_kind_of_def frame_kind_from_u8_def)
  have pay: "op_payload f = Some data"
    using f(1) by (simp add: f(2) op_payload_def unat_of_nat_small bsplice_def)
  show "jf_seq f = seq" by (simp add: f(2) frame_new_def)
  show "valid_frame crc (frame_stamp_checksum crc f)"
    using frame_stamped_valid [of f crc] kind pay sized_logged_op [OF assms] by (simp add: valid_frame_def)
  show "is_op (frame_stamp_checksum crc f)" "op_of (frame_stamp_checksum crc f) = (k, data)"
    using kind pay by (simp_all add: is_op_def op_of_def)
      (simp add: f(2) frame_stamp_checksum_def Let_def)
qed

lemma valid_commit_end:
  assumes f_def: "f = commit_end seq a b c d e g h"
  shows "valid_frame crc (frame_stamp_checksum crc f)" "frame_kind_of (frame_stamp_checksum crc f) = Some CommitEnd"
    "jf_seq f = seq"
proof -
  have kind: "frame_kind_of f = Some CommitEnd" "jf_magic f = JOURNAL_MAGIC" "op_payload f = Some []" "sized_frame f"
    by (simp_all add: f_def commit_end_def frame_new_def frame_kind_of_def frame_kind_from_u8_def op_payload_def sized_frame_def)
  then show "valid_frame crc (frame_stamp_checksum crc f)" "frame_kind_of (frame_stamp_checksum crc f) = Some CommitEnd"
    using frame_stamped_valid [of f crc] by (simp_all add: valid_frame_def)
  show "jf_seq f = seq" by (simp add: f_def commit_end_def frame_new_def)
qed

text \<open>C15. Crash atomicity of the journal: after any run of whole commit groups followed by the frames
  of an unfinished one, at most a lap of the ring, \<open>scan_groups\<close> returns exactly the whole groups with
  their operations and state, and \<open>next_seq_after_scan\<close> the sequence number behind the last of them.\<close>

theorem journal_crash_atomic:
  assumes "\<forall>g \<in> set gs. whole_group g" "\<forall>f \<in> set tail. is_op f"
    and "fs = concat (map group_frames gs) @ tail" "consecutive start fs" "\<forall>f \<in> set fs. valid_frame crc f"
    and "length fs = 1024 \<or> length fs < 1024 \<and> read_frame crc (start + of_nat (length fs)) d = Inr None"
  shows "scan_groups crc start (journal_write fs d) = Inr (map recovered gs)
    \<and> next_seq_after_scan crc start (journal_write fs d) = Inr (start + of_nat (length (concat (map group_frames gs))))"
  using journal_recovers [OF assms] by simp

definition sample_crc :: "bytes \<Rightarrow> u32" where
  "sample_crc bs = of_nat (length bs)"

definition sample_op :: "u64 \<Rightarrow> journal_frame" where
  "sample_op seq = frame_stamp_checksum sample_crc (the (logged_op seq 1 [5, 6]))"

definition sample_end :: "u64 \<Rightarrow> journal_frame" where
  "sample_end seq = frame_stamp_checksum sample_crc (commit_end seq 65 66 1 2 3 4 5)"

lemma sample_frames:
  "valid_frame sample_crc (sample_op q)" "is_op (sample_op q)" "op_of (sample_op q) = (1, [5, 6])"
  "jf_seq (sample_op q) = q" "valid_frame sample_crc (sample_end q)"
  "frame_kind_of (sample_end q) = Some CommitEnd" "jf_seq (sample_end q) = q"
proof -
  obtain f where f: "logged_op q 1 [5, 6] = Some f" by (simp add: logged_op_def Let_def)
  show "valid_frame sample_crc (sample_op q)" "is_op (sample_op q)" "op_of (sample_op q) = (1, [5, 6])"
    "jf_seq (sample_op q) = q"
    using valid_logged_op [OF f] by (simp_all add: sample_op_def f)
  show "valid_frame sample_crc (sample_end q)" "frame_kind_of (sample_end q) = Some CommitEnd" "jf_seq (sample_end q) = q"
    using valid_commit_end [OF refl] by (simp_all add: sample_end_def)
qed

lemma empty_ring: "read_frame crc seq mem_device_new = Inr None"
proof -
  have "jf_magic (frame_of_bytes (replicate 256 0)) = 0"
    by (simp add: frame_of_bytes_def bslice_def u32_of_le_def le_nat_zeros)
  then have "\<not> frame_is_valid crc seq (frame_of_bytes (replicate 256 0))"
    by (simp add: frame_is_valid_def JOURNAL_MAGIC_def)
  then show ?thesis by (simp add: read_frame_def read_at_def mem_device_new_def mem_read_def)
qed

theorem journal_crash_atomic_witness:
  "scan_groups sample_crc 1 (journal_write [sample_op 1, sample_end 2, sample_op 3] mem_device_new) =
     Inr [\<lparr>cg_ops = [(1, [5, 6])], cg_end = sample_end 2\<rparr>]"
proof -
  let ?fs = "[sample_op 1, sample_end 2, sample_op 3]"
  have "scan_groups sample_crc 1 (journal_write ?fs mem_device_new) = Inr (map recovered [([sample_op 1], sample_end 2)])
     \<and> next_seq_after_scan sample_crc 1 (journal_write ?fs mem_device_new) =
        Inr (1 + of_nat (length (concat (map group_frames [([sample_op 1], sample_end 2)]))))"
    by (rule journal_crash_atomic [where tail = "[sample_op 3]"])
      (simp_all add: whole_group_def sample_frames group_frames_def empty_ring)
  then show ?thesis by (simp add: recovered_def sample_frames)
qed

end
