(* ===== verification/Store_Coherence.thy ===== *)
theory Store_Coherence
  imports Free_List Journal
begin

text \<open>
  Cache coherence of the block store.  \<open>store_step\<close> is one call of an operation of \<open>BlockStore\<close>, or an append to the
  journal ring on the device below it, and \<open>coherent\<close> is the invariant of every sequence of calls: what is cached
  and not dirty is what the device holds.  A block may be cached in both lanes: a chain block of the free list that
  is handed out again as a tree node keeps its stale entry in the data cache, and the invariant promises
  nothing about that entry while the node is cached.
\<close>

section \<open>The invariant\<close>








section \<open>Every operation keeps it\<close>

















section \<open>Runs of the store\<close>







section \<open>Property\<close>



end
