(* ===== verification/Btree.thy ===== *)
theory Btree
  imports Storage
begin

text \<open>
  \<open>src/btree.rs\<close>: the copy-on-write tree over the block store.  The free functions of the file run on
  the shared store and the counter of bset sequence numbers (\<open>tctx\<close>); the methods of \<open>Btree\<close> run on
  a record that adds the root, the write-ahead log buffer and the logging flag; \<open>Tx\<close> adds the
  pending root.

  A walk down the tree recurses on block numbers read from disk, so it is not structurally
  recursive: the model gives each walk fuel, and running out of it is the fault \<open>Diverge\<close>.
  \<open>insert_leaf\<close> and \<open>insert_internal\<close> take the recursive call to \<open>insert\<close> (here \<open>insert_rec\<close>) as an argument.
\<close>

section \<open>State\<close>

record log_record =
  lr_key :: bytes
  lr_kind :: entry_kind
  lr_value :: bytes

record tctx =
  store :: block_store
  next_bset_seq :: u64

record btree =
  root_block :: u64
  ctx :: tctx
  log :: "log_record list"
  logging :: bool

type_synonym 'a tree_st = "(tctx, error, 'a) st"
type_synonym 'a btree_st = "(btree, error, 'a) st"
type_synonym all_snap_row = "bytes \<times> snap_id \<times> entry_kind \<times> bytes"
type_synonym visible_snap_row = "bytes \<times> snap_id \<times> bytes"

definition on_store :: "'a store_st \<Rightarrow> 'a tree_st" where
  "on_store m = on_part store (\<lambda>s c. c\<lparr>store := s\<rparr>) m"

definition on_tree :: "'a tree_st \<Rightarrow> 'a btree_st" where
  "on_tree m = on_part ctx (\<lambda>c t. t\<lparr>ctx := c\<rparr>) m"

definition read_node :: "u64 \<Rightarrow> node tree_st" where
  "read_node nr = on_store (with_node nr)"

text \<open>Depth bound of the walks.  A level is a \<open>u8\<close>, so a well-formed tree has at most 256 levels; the
  walks visit one node per level, and an insertion that splits visits one more.\<close>

definition TREE_FUEL :: nat where "TREE_FUEL = 512"

definition sortable_key :: "bytes \<Rightarrow> snap_id \<Rightarrow> bytes option" where
  "sortable_key logical snap =
     (if length logical \<le> MAX_LOGICAL_KEY_SIZE then Some (logical @ u32_be snap) else None)"

section \<open>Node construction and leaf helpers\<close>

definition new_node_on_heap :: "u8 \<Rightarrow> node option" where
  "new_node_on_heap lvl = start_new_bset 0 (node_new lvl)"

definition alloc_seq :: "u64 tree_st" where
  "alloc_seq c = (Inr (next_bset_seq c), c\<lparr>next_bset_seq := next_bset_seq c + 1\<rparr>)"

definition collect_leaf_entries_sorted :: "node \<Rightarrow> disk_entry list" where
  "collect_leaf_entries_sorted n = map (\<lambda>(b, i). entry_at n b i) (merged_collect (merged_iter_new n))"

definition rebuild_leaf_from_entries :: "node \<Rightarrow> u64 \<Rightarrow> disk_entry list \<Rightarrow> node option" where
  "rebuild_leaf_from_entries n new_seq entries =
     do {
       n1 \<leftarrow> start_new_bset new_seq (set_generation (generation n) (node_new 0));
       n2 \<leftarrow> fold_opt append_to_last_bset entries n1;
       Some (set_bset_needs_whiteout 0 (list_ex (\<lambda>e. kind_enum e = Whiteout) entries) n2)
     }"

definition compact_leaf_in_place :: "node \<Rightarrow> u64 \<Rightarrow> node option" where
  "compact_leaf_in_place n new_seq =
     rebuild_leaf_from_entries n new_seq (collect_leaf_entries_sorted n)"

definition droppable :: "snap_id set \<Rightarrow> disk_entry \<Rightarrow> bool" where
  "droppable dead e = (kind_enum e = Whiteout \<and> entry_snap_id e \<in> dead)"

definition compact_leaf_dropping_whiteouts :: "node \<Rightarrow> u64 \<Rightarrow> snap_id set \<Rightarrow> (nat \<times> node) option" where
  "compact_leaf_dropping_whiteouts n new_seq dead =
     (let entries = collect_leaf_entries_sorted n;
          kept = filter (\<lambda>e. \<not> droppable dead e) entries;
          dropped = length (filter (droppable dead) entries)
      in map_option (\<lambda>n'. (dropped, n')) (rebuild_leaf_from_entries n new_seq kept))"

definition leaf_has_droppable_whiteout :: "node \<Rightarrow> snap_id set \<Rightarrow> bool" where
  "leaf_has_droppable_whiteout n dead =
     list_ex (\<lambda>b. bset_needs_whiteout n b \<and> list_ex (droppable dead) (bset_entries n b)) [0..<bset_count n]"

definition leaf_has_snap_entries :: "node \<Rightarrow> snap_id \<Rightarrow> bool" where
  "leaf_has_snap_entries n dead_snap =
     list_ex (\<lambda>b. list_ex (\<lambda>e. entry_snap_id e = dead_snap) (bset_entries n b)) [0..<bset_count n]"

definition compact_leaf_dropping_snap :: "node \<Rightarrow> u64 \<Rightarrow> snap_id \<Rightarrow> (nat \<times> node) option" where
  "compact_leaf_dropping_snap n new_seq dead_snap =
     (let entries = collect_leaf_entries_sorted n;
          kept = filter (\<lambda>e. entry_snap_id e \<noteq> dead_snap) entries;
          dropped = length (filter (\<lambda>e. entry_snap_id e = dead_snap) entries)
      in map_option (\<lambda>n'. (dropped, n')) (rebuild_leaf_from_entries n new_seq kept))"

text \<open>The second component is the sequence counter the function takes by reference.\<close>

definition ensure_writable_last_bset :: "node \<Rightarrow> u64 \<Rightarrow> (node \<times> u64) option" where
  "ensure_writable_last_bset leaf q =
     (if bset_count leaf = 0 then map_option (\<lambda>n. (n, q + 1)) (start_new_bset q leaf)
      else if unat (bh_nkeys (bset_header_at leaf (bset_count leaf - 1))) < BSET_SOFT_LIMIT then Some (leaf, q)
      else if bset_count leaf < BSET_TREE_NR_MAX then map_option (\<lambda>n. (n, q + 1)) (start_new_bset q leaf)
      else map_option (\<lambda>n. (n, q + 1)) (compact_leaf_in_place leaf q))"

definition build_leaf_entry :: "bytes \<Rightarrow> entry_kind \<Rightarrow> bytes \<Rightarrow> disk_entry option" where
  "build_leaf_entry key kind val =
     do { e \<leftarrow> set_key key empty_entry; Some (entry_set_value val (set_kind kind e)) }"

section \<open>Lookup\<close>

datatype write_mode = InPlace | Cow

text \<open>\<open>match node.search(key) { Ok(i) => i + 1, Err(i) => i }\<close>.\<close>

definition route :: "node \<Rightarrow> bytes \<Rightarrow> nat" where
  "route n key = child_index (search n key)"

fun find_raw :: "nat \<Rightarrow> u64 \<Rightarrow> bytes \<Rightarrow> (bytes \<times> entry_kind) option tree_st" where
  "find_raw 0 block_nr key = raise Diverge"
| "find_raw (Suc fuel) block_nr key =
     bindM (read_node block_nr) (\<lambda>n.
     if level n = 0
     then ret (case merged_find n key of
                 Some hit \<Rightarrow> Some (value_bytes_at n (mh_bset_idx hit) (mh_entry_idx hit),
                                 kind_enum (entry_at n (mh_bset_idx hit) (mh_entry_idx hit)))
               | None \<Rightarrow> None)
     else find_raw fuel (child_block n (route n key)) key)"

definition live_value :: "(bytes \<times> entry_kind) option \<Rightarrow> bytes option" where
  "live_value r = (case r of Some (v, Live) \<Rightarrow> Some v | _ \<Rightarrow> None)"

definition find_val :: "u64 \<Rightarrow> bytes \<Rightarrow> bytes option tree_st" where
  "find_val block_nr key = bindM (find_raw TREE_FUEL block_nr key) (\<lambda>r. ret (live_value r))"

section \<open>Range scans\<close>

text \<open>The children to descend into from \<open>start\<close> on, each with the separator to its right.\<close>

definition scan_plan :: "node \<Rightarrow> bytes \<Rightarrow> (u64 \<times> bytes option) list" where
  "scan_plan n start =
     (let i = route n start; nchildren = nkeys n + 1;
          i = (if i \<ge> nchildren then nchildren - 1 else i)
      in map (\<lambda>i. (child_block n i, if i < nkeys n then Some (key_bytes (entry n i)) else None)) [i..<nchildren])"

fun run_plan :: "(u64 \<Rightarrow> 'r list tree_st) \<Rightarrow> bytes \<Rightarrow> (u64 \<times> bytes option) list \<Rightarrow> 'r list tree_st" where
  "run_plan scan en [] = ret []"
| "run_plan scan en ((c, sep) # plan) =
     bindM (scan c) (\<lambda>rows.
     case sep of
       Some k \<Rightarrow> if k \<ge> en then ret rows else bindM (run_plan scan en plan) (\<lambda>rs. ret (rows @ rs))
     | None \<Rightarrow> bindM (run_plan scan en plan) (\<lambda>rs. ret (rows @ rs)))"

fun scan_leaf :: "node \<Rightarrow> bytes \<Rightarrow> bytes \<Rightarrow> (nat \<times> nat) list \<Rightarrow> (bytes \<times> bytes) list" where
  "scan_leaf n start en [] = []"
| "scan_leaf n start en ((b, i) # ps) =
     (let e = entry_at n b i; sk = key_bytes e
      in if sk < start then scan_leaf n start en ps
         else if sk \<ge> en then []
         else if kind_enum e \<noteq> Live then scan_leaf n start en ps
         else (logical_key_bytes e, value_bytes_at n b i) # scan_leaf n start en ps)"

fun scan_leaf_all :: "node \<Rightarrow> bytes \<Rightarrow> bytes \<Rightarrow> (nat \<times> nat) list \<Rightarrow> all_snap_row list" where
  "scan_leaf_all n start en [] = []"
| "scan_leaf_all n start en ((b, i) # ps) =
     (let e = entry_at n b i; sk = key_bytes e
      in if sk < start then scan_leaf_all n start en ps
         else if sk \<ge> en then []
         else (logical_key_bytes e, entry_snap_id e, kind_enum e, value_bytes_at n b i)
              # scan_leaf_all n start en ps)"

fun range_scan :: "nat \<Rightarrow> u64 \<Rightarrow> bytes \<Rightarrow> bytes \<Rightarrow> (bytes \<times> bytes) list tree_st" where
  "range_scan 0 block_nr start en = raise Diverge"
| "range_scan (Suc fuel) block_nr start en =
     bindM (read_node block_nr) (\<lambda>n.
     if level n = 0 then ret (scan_leaf n start en (merged_collect (merged_iter_new n)))
     else run_plan (\<lambda>c. range_scan fuel c start en) en (scan_plan n start))"

fun range_scan_all :: "nat \<Rightarrow> u64 \<Rightarrow> bytes \<Rightarrow> bytes \<Rightarrow> all_snap_row list tree_st" where
  "range_scan_all 0 block_nr start en = raise Diverge"
| "range_scan_all (Suc fuel) block_nr start en =
     bindM (read_node block_nr) (\<lambda>n.
     if level n = 0 then ret (scan_leaf_all n start en (merged_collect (merged_iter_new n)))
     else run_plan (\<lambda>c. range_scan_all fuel c start en) en (scan_plan n start))"

section \<open>Snapshot-aware lookup\<close>

text \<open>The filter loop of \<open>find_visible_with_snap\<close>: the first row of exactly this key on the chain
  decides.\<close>

fun first_visible :: "bytes \<Rightarrow> snap_id list \<Rightarrow> all_snap_row list \<Rightarrow> (bytes \<times> snap_id) option" where
  "first_visible logical chain [] = None"
| "first_visible logical chain ((l, snap, kind, val) # rows) =
     (if l \<noteq> logical \<or> snap \<notin> set chain then first_visible logical chain rows
      else if kind = Live then Some (val, snap) else None)"

definition find_visible_with_snap :: "u64 \<Rightarrow> bytes \<Rightarrow> snap_id list \<Rightarrow> (bytes \<times> snap_id) option tree_st" where
  "find_visible_with_snap block_nr logical chain =
     (if length logical \<le> MAX_LOGICAL_KEY_SIZE
      then bindM (range_scan_all TREE_FUEL block_nr (logical @ replicate SNAP_ID_BYTES 0)
                    (logical @ replicate SNAP_ID_BYTES 255 @ [0])) (\<lambda>rows.
           ret (first_visible logical chain rows))
      else raise Panic)"

definition find_visible :: "u64 \<Rightarrow> bytes \<Rightarrow> snap_id list \<Rightarrow> bytes option tree_st" where
  "find_visible block_nr logical chain =
     bindM (find_visible_with_snap block_nr logical chain) (\<lambda>r. ret (map_option fst r))"

section \<open>Flipping the kind of an entry\<close>

definition flip_best_step ::
  "node \<Rightarrow> bytes \<Rightarrow> nat \<Rightarrow> (nat \<times> nat \<times> u64) option \<Rightarrow> (nat \<times> nat \<times> u64) option" where
  "flip_best_step leaf key b best =
     (case bset_search leaf b key of
        Inl _ \<Rightarrow> best
      | Inr idx \<Rightarrow>
          (let seq = bh_seq (bset_header_at leaf b)
           in if (case best of None \<Rightarrow> True | Some (_, _, s) \<Rightarrow> seq > s) then Some (b, idx, seq) else best))"

definition flip_leaf :: "bytes \<Rightarrow> entry_kind \<Rightarrow> node \<Rightarrow> node option" where
  "flip_leaf key new_kind leaf =
     (case fold (flip_best_step leaf key) [0..<bset_count leaf] None of
        None \<Rightarrow> None
      | Some (b, i, _) \<Rightarrow>
          (let leaf' = update_entry_at b i (set_kind new_kind) leaf
           in Some (if new_kind = Whiteout then set_bset_needs_whiteout b True leaf' else leaf')))"

fun flip_kind_in_place :: "nat \<Rightarrow> u64 \<Rightarrow> bytes \<Rightarrow> entry_kind \<Rightarrow> write_mode \<Rightarrow> u64 tree_st" where
  "flip_kind_in_place 0 block_nr key new_kind mode = raise Diverge"
| "flip_kind_in_place (Suc fuel) block_nr key new_kind mode =
     bindM (read_node block_nr) (\<lambda>n.
     if level n = 0
     then (case mode of
             InPlace \<Rightarrow>
               bindM (on_store (with_node_mut block_nr (\<lambda>l. map_option (\<lambda>l'. ((), l')) (flip_leaf key new_kind l)))) (\<lambda>_.
               ret block_nr)
           | Cow \<Rightarrow>
               bindM (on_store alloc) (\<lambda>new_block.
               bindM (read_node block_nr) (\<lambda>l.
               bindM (expect (flip_leaf key new_kind l)) (\<lambda>l'.
               bindM (on_store (write_node new_block l')) (\<lambda>_.
               ret new_block)))))
     else
       bindM (read_node block_nr) (\<lambda>n.
       bindM (flip_kind_in_place fuel (child_block n (route n key)) key new_kind mode) (\<lambda>new_child.
       case mode of
         InPlace \<Rightarrow> ret block_nr
       | Cow \<Rightarrow>
           bindM (on_store alloc) (\<lambda>new_block.
           bindM (read_node block_nr) (\<lambda>n'.
           bindM (on_store (write_node new_block (set_child_block (route n key) new_child n'))) (\<lambda>_.
           ret new_block))))))"

section \<open>Split and promote\<close>

text \<open>The four blocks of a split: the unwritten parent, its reserved number, and the two halves.\<close>

type_synonym split_result = "node \<times> u64 \<times> u64 \<times> u64"

text \<open>A fresh internal node with one separator.\<close>

definition new_parent :: "u8 \<Rightarrow> u64 \<Rightarrow> bytes \<Rightarrow> node option" where
  "new_parent lvl gen_no median =
     do { r \<leftarrow> new_node_on_heap lvl; set_entry_key 0 median (set_nkeys 1 (set_generation gen_no r)) }"

definition split_leaf_node :: "node \<Rightarrow> split_result tree_st" where
  "split_leaf_node n =
     bindM (if bset_count n > 1
            then bindM alloc_seq (\<lambda>q. expect (compact_leaf_in_place n q))
            else ret n) (\<lambda>canonical.
     let k = nkeys canonical; mid = k div 2; median_key_buf = key_bytes (entry canonical mid) in
     bindM (on_store alloc) (\<lambda>left_block.
     bindM (on_store (write_node left_block (set_nkeys mid canonical))) (\<lambda>_.
     bindM (on_store alloc) (\<lambda>right_block.
     let es = bset_entries canonical 0;
         right = set_nkeys (k - mid) (set_bset_entries 0 (bsplice 0 (bslice mid (k - mid) es) es) canonical) in
     bindM (on_store (write_node right_block right)) (\<lambda>_.
     bindM (on_store alloc) (\<lambda>root_blk.
     bindM (expect (new_parent 1 (generation canonical) median_key_buf)) (\<lambda>root.
     ret (root, root_blk, left_block, right_block))))))))"

definition split_right :: "node \<Rightarrow> nat \<Rightarrow> nat \<Rightarrow> node option" where
  "split_right n k mid =
     do {
       r0 \<leftarrow> new_node_on_heap (level n);
       let r1 = set_nkeys (k - mid - 1) (set_generation (generation n) r0);
       r2 \<leftarrow> fold_opt (\<lambda>i r. set_entry_key (i - mid - 1) (key_bytes (entry n i)) r) [mid + 1..<k] r1;
       Some (fold (\<lambda>i r. set_child_block i (child_block n (mid + 1 + i)) r) [0..<k - mid - 1 + 1] r2)
     }"

definition split_internal_node :: "node \<Rightarrow> split_result tree_st" where
  "split_internal_node n =
     (let k = nkeys n; mid = k div 2; median_key_buf = key_bytes (entry n mid) in
     bindM (on_store alloc) (\<lambda>left_block.
     bindM (on_store (write_node left_block (set_nkeys mid n))) (\<lambda>_.
     bindM (on_store alloc) (\<lambda>right_block.
     bindM (expect (split_right n k mid)) (\<lambda>right.
     bindM (on_store (write_node right_block right)) (\<lambda>_.
     bindM (on_store alloc) (\<lambda>root_blk.
     bindM (expect (new_parent (level n + 1) (generation n) median_key_buf)) (\<lambda>root.
     ret (root, root_blk, left_block, right_block)))))))))"

text \<open>The parent \<open>promote_to_parent\<close> builds before it decides whether it overflows.\<close>

definition promoted :: "node \<Rightarrow> nat \<Rightarrow> bytes \<Rightarrow> u64 \<Rightarrow> u64 \<Rightarrow> node option" where
  "promoted old_parent child_idx median_key left_child right_child =
     (let old_nkeys = nkeys old_parent in
      do {
        n0 \<leftarrow> new_node_on_heap (level old_parent);
        let n1 = set_nkeys (old_nkeys + 1) (set_generation (generation old_parent) n0);
        n2 \<leftarrow> fold_opt (\<lambda>i n. do {
                n' \<leftarrow> set_entry_key i (key_bytes (entry old_parent i)) n;
                Some (set_child_block i (child_block old_parent i) n') }) [0..<child_idx] n1;
        n3 \<leftarrow> set_entry_key child_idx median_key n2;
        let n4 = set_child_block (child_idx + 1) right_child (set_child_block child_idx left_child n3);
        fold_opt (\<lambda>i n. do {
                n' \<leftarrow> set_entry_key (i + 1) (key_bytes (entry old_parent i)) n;
                Some (set_child_block (i + 2) (child_block old_parent (i + 1)) n') }) [child_idx..<old_nkeys] n4
      })"

definition promote_to_parent :: "node \<Rightarrow> nat \<Rightarrow> bytes \<Rightarrow> u64 \<Rightarrow> u64 \<Rightarrow> u64 tree_st" where
  "promote_to_parent old_parent child_idx median_key left_child right_child =
     bindM (on_store alloc) (\<lambda>new_block.
     bindM (expect (promoted old_parent child_idx median_key left_child right_child)) (\<lambda>new_node.
     if nkeys new_node \<le> MAX_INTERNAL_KEYS
     then bindM (on_store (write_node new_block new_node)) (\<lambda>_. ret new_block)
     else
       bindM (split_internal_node new_node) (\<lambda>(root_box, root_nr, new_left, new_right).
       bindM (on_store (write_node root_nr (set_child_block 1 new_right (set_child_block 0 new_left root_box)))) (\<lambda>_.
       ret root_nr))))"

section \<open>Insert\<close>

definition leaf_absorbs :: "node \<Rightarrow> bytes \<Rightarrow> bool" where
  "leaf_absorbs n key =
     (if bset_count n = 0 then False else \<exists>i. bset_search n (bset_count n - 1) key = Inr i)"

lemma leaf_absorbs_code [code]:
  "leaf_absorbs n key = (if bset_count n = 0 then False
     else case bset_search n (bset_count n - 1) key of Inr _ \<Rightarrow> True | Inl _ \<Rightarrow> False)"
  by (auto simp: leaf_absorbs_def split: sum.splits)

text \<open>The closure \<open>apply\<close> of \<open>insert_leaf\<close>; the second component is the sequence counter.\<close>

definition apply_write :: "bytes \<Rightarrow> bytes \<Rightarrow> entry_kind \<Rightarrow> node \<Rightarrow> bool \<Rightarrow> u64 \<Rightarrow> (node \<times> u64) option" where
  "apply_write key val kind leaf absorbs q =
     do {
       e \<leftarrow> build_leaf_entry key kind val;
       (leaf1, q1) \<leftarrow>
         (if absorbs
          then (case bset_search leaf (bset_count leaf - 1) key of
                  Inr i \<Rightarrow> Some (update_entry_at (bset_count leaf - 1) i (\<lambda>_. e) leaf, q)
                | Inl _ \<Rightarrow> None)
          else do {
            (leaf0, q0) \<leftarrow> ensure_writable_last_bset leaf q;
            (_, leaf1) \<leftarrow> sort_insert_into_last_bset e leaf0;
            Some (leaf1, q0)
          });
       Some (if kind = Whiteout then set_bset_needs_whiteout (bset_count leaf1 - 1) True leaf1 else leaf1, q1)
     }"

definition set_seq :: "u64 \<Rightarrow> unit tree_st" where
  "set_seq q = modify (\<lambda>c. c\<lparr>next_bset_seq := q\<rparr>)"

text \<open>The median key and the two children of a child that split.\<close>

definition split_child :: "u64 \<Rightarrow> (bytes \<times> u64 \<times> u64) tree_st" where
  "split_child nr = bindM (read_node nr) (\<lambda>n. ret (key_bytes (entry n 0), child_block n 0, child_block n 1))"

definition insert_leaf ::
  "(u64 \<Rightarrow> u64 tree_st) \<Rightarrow> u64 \<Rightarrow> bytes \<Rightarrow> bytes \<Rightarrow> entry_kind \<Rightarrow> write_mode \<Rightarrow> u64 tree_st" where
  "insert_leaf ins block_nr key val kind mode =
     bindM (read_node block_nr) (\<lambda>n.
     let absorbs = leaf_absorbs n key in
     if \<not> (\<not> absorbs \<and> nkeys n \<ge> MAX_ENTRIES)
     then (case mode of
             InPlace \<Rightarrow>
               bindM (gets next_bset_seq) (\<lambda>q.
               bindM (on_store (with_node_mut block_nr (\<lambda>l.
                        map_option (\<lambda>(l', q'). (q', l')) (apply_write key val kind l absorbs q)))) (\<lambda>q'.
               bindM (set_seq q') (\<lambda>_.
               ret block_nr)))
           | Cow \<Rightarrow>
               bindM (on_store alloc) (\<lambda>new_block.
               bindM (read_node block_nr) (\<lambda>l.
               bindM (gets next_bset_seq) (\<lambda>q.
               bindM (expect (apply_write key val kind l absorbs q)) (\<lambda>(l', q').
               bindM (set_seq q') (\<lambda>_.
               bindM (on_store (write_node new_block l')) (\<lambda>_.
               ret new_block)))))))
     else
       bindM (split_leaf_node n) (\<lambda>(root_box, root_nr, left_block, right_block).
       let root_box = set_child_block 1 right_block (set_child_block 0 left_block root_box);
           child_idx = route root_box key;
           child_nr = child_block root_box child_idx in
       bindM (read_node child_nr) (\<lambda>c.
       bindM (ins child_nr) (\<lambda>new_child_nr.
       bindM (read_node new_child_nr) (\<lambda>c'.
       if level c' > level c
       then bindM (split_child new_child_nr) (\<lambda>(median_key, left, right).
            promote_to_parent root_box child_idx median_key left right)
       else bindM (on_store (write_node root_nr (set_child_block child_idx new_child_nr root_box))) (\<lambda>_.
            ret root_nr))))))"

definition insert_internal ::
  "(u64 \<Rightarrow> u64 tree_st) \<Rightarrow> u64 \<Rightarrow> bytes \<Rightarrow> u64 tree_st" where
  "insert_internal ins block_nr key =
     bindM (read_node block_nr) (\<lambda>n.
     let child_idx = route n key; child_nr = child_block n child_idx in
     bindM (read_node child_nr) (\<lambda>c.
     bindM (ins child_nr) (\<lambda>new_child_nr.
     bindM (read_node new_child_nr) (\<lambda>c'.
     if level c' > level c
     then bindM (split_child new_child_nr) (\<lambda>(median_key, left, right).
          bindM (read_node block_nr) (\<lambda>old_node.
          promote_to_parent old_node child_idx median_key left right))
     else if new_child_nr = child_nr then ret block_nr
     else
       bindM (on_store alloc) (\<lambda>new_block.
       bindM (read_node block_nr) (\<lambda>n'.
       bindM (on_store (write_node new_block (set_child_block child_idx new_child_nr n'))) (\<lambda>_.
       ret new_block)))))))"

fun insert_rec :: "nat \<Rightarrow> bytes \<Rightarrow> bytes \<Rightarrow> entry_kind \<Rightarrow> write_mode \<Rightarrow> u64 \<Rightarrow> u64 tree_st" where
  "insert_rec 0 key val kind mode block_nr = raise Diverge"
| "insert_rec (Suc fuel) key val kind mode block_nr =
     bindM (read_node block_nr) (\<lambda>n.
     if level n = 0 then insert_leaf (insert_rec fuel key val kind mode) block_nr key val kind mode
     else insert_internal (insert_rec fuel key val kind mode) block_nr key)"

section \<open>Checkpoint flush\<close>

definition children :: "node \<Rightarrow> u64 list" where
  "children n = map (child_block n) [0..<nkeys n + 1]"

text \<open>The loop over the children; it returns their new block numbers and the blocks freed so far.\<close>

fun flush_children :: "(u64 \<Rightarrow> u64 list \<Rightarrow> (u64 \<times> u64 list) tree_st) \<Rightarrow> u64 list \<Rightarrow> u64 list \<Rightarrow>
    (u64 list \<times> u64 list) tree_st" where
  "flush_children fl [] freed = ret ([], freed)"
| "flush_children fl (c # cs) freed =
     bindM (fl c freed) (\<lambda>(c', freed').
     bindM (flush_children fl cs freed') (\<lambda>(cs', freed'').
     ret (c' # cs', freed'')))"

fun checkpoint_flush :: "nat \<Rightarrow> u64 \<Rightarrow> u64 list \<Rightarrow> (u64 \<times> u64 list) tree_st" where
  "checkpoint_flush 0 block_nr freed = raise Diverge"
| "checkpoint_flush (Suc fuel) block_nr freed =
     bindM (gets (\<lambda>c. with_cached_node block_nr (\<lambda>n dirty. (level n, dirty)) (store c))) (\<lambda>cached.
     case cached of
       None \<Rightarrow> ret (block_nr, freed)
     | Some (lvl, dirty) \<Rightarrow>
         if lvl = 0
         then (if \<not> dirty then ret (block_nr, freed)
               else bindM (read_node block_nr) (\<lambda>n.
                    bindM (on_store alloc) (\<lambda>new_block.
                    bindM (on_store (write_node new_block n)) (\<lambda>_.
                    ret (new_block, freed @ [block_nr])))))
         else
           bindM (gets (\<lambda>c. with_cached_node block_nr (\<lambda>n _. children n) (store c))) (\<lambda>cs.
           bindM (expect cs) (\<lambda>child_blocks.
           bindM (flush_children (checkpoint_flush fuel) child_blocks freed) (\<lambda>(new_children, freed').
           if \<not> dirty \<and> new_children = child_blocks then ret (block_nr, freed')
           else
             bindM (read_node block_nr) (\<lambda>n.
             let n' = fold (\<lambda>(i, c) n. set_child_block i c n) (enumerate 0 new_children) n in
             bindM (on_store alloc) (\<lambda>new_block.
             bindM (on_store (write_node new_block n')) (\<lambda>_.
             ret (new_block, freed' @ [block_nr]))))))))"

section \<open>Whole-tree compaction and traversal\<close>

text \<open>Both passes visit every leaf, rebuild the ones their predicate selects and sum up what they
  dropped.\<close>

primrec sum_over :: "(u64 \<Rightarrow> nat tree_st) \<Rightarrow> u64 list \<Rightarrow> nat tree_st" where
  "sum_over f [] = ret 0"
| "sum_over f (c # cs) = bindM (f c) (\<lambda>a. bindM (sum_over f cs) (\<lambda>b. ret (a + b)))"

definition rebuild_leaf :: "u64 \<Rightarrow> (node \<Rightarrow> u64 \<Rightarrow> (nat \<times> node) option) \<Rightarrow> nat tree_st" where
  "rebuild_leaf block_nr f =
     bindM (gets next_bset_seq) (\<lambda>q.
     bindM (on_store (with_node_mut block_nr (\<lambda>l. f l q))) (\<lambda>dropped.
     bindM (set_seq (q + 1)) (\<lambda>_.
     ret dropped)))"

fun compact_whiteouts_rec :: "nat \<Rightarrow> snap_id set \<Rightarrow> u64 \<Rightarrow> nat tree_st" where
  "compact_whiteouts_rec 0 dead block_nr = raise Diverge"
| "compact_whiteouts_rec (Suc fuel) dead block_nr =
     bindM (read_node block_nr) (\<lambda>n.
     if level n = 0
     then bindM (read_node block_nr) (\<lambda>l.
          if leaf_has_droppable_whiteout l dead
          then rebuild_leaf block_nr (\<lambda>l q. compact_leaf_dropping_whiteouts l q dead)
          else ret 0)
     else bindM (read_node block_nr) (\<lambda>n. sum_over (compact_whiteouts_rec fuel dead) (children n)))"

fun drop_snapshot_keys_rec :: "nat \<Rightarrow> snap_id \<Rightarrow> u64 \<Rightarrow> nat tree_st" where
  "drop_snapshot_keys_rec 0 dead_snap block_nr = raise Diverge"
| "drop_snapshot_keys_rec (Suc fuel) dead_snap block_nr =
     bindM (read_node block_nr) (\<lambda>n.
     if level n = 0
     then bindM (read_node block_nr) (\<lambda>l.
          if leaf_has_snap_entries l dead_snap
          then rebuild_leaf block_nr (\<lambda>l q. compact_leaf_dropping_snap l q dead_snap)
          else ret 0)
     else bindM (read_node block_nr) (\<lambda>n. sum_over (drop_snapshot_keys_rec fuel dead_snap) (children n)))"

primrec concat_over :: "(u64 \<Rightarrow> u64 list tree_st) \<Rightarrow> u64 list \<Rightarrow> u64 list tree_st" where
  "concat_over f [] = ret []"
| "concat_over f (c # cs) = bindM (f c) (\<lambda>a. bindM (concat_over f cs) (\<lambda>b. ret (a @ b)))"

fun collect_node_blocks_rec :: "nat \<Rightarrow> u64 \<Rightarrow> u64 list tree_st" where
  "collect_node_blocks_rec 0 block_nr = raise Diverge"
| "collect_node_blocks_rec (Suc fuel) block_nr =
     bindM (read_node block_nr) (\<lambda>n.
     let cs = (if level n = 0 then [] else children n) in
     bindM (concat_over (collect_node_blocks_rec fuel) cs) (\<lambda>bs.
     ret (block_nr # bs)))"

section \<open>\<open>Btree\<close>\<close>

definition initialize_with :: "block_store \<Rightarrow> btree option" where
  "initialize_with st =
     (case alloc st of
        (Inr root, st1) \<Rightarrow>
          (case start_new_bset 0 (node_new 0) of
             Some n \<Rightarrow> Some \<lparr>root_block = root,
               ctx = \<lparr>store = snd (write_node root n st1), next_bset_seq = 1\<rparr>, log = [], logging = True\<rparr>
           | None \<Rightarrow> None)
      | _ \<Rightarrow> None)"

definition btree_new :: "(bytes \<Rightarrow> u32) \<Rightarrow> btree option" where
  "btree_new crc = initialize_with (in_memory crc)"

definition create_in :: "block_store \<Rightarrow> btree option" where
  "create_in st = initialize_with st"

definition reopen :: "block_store \<Rightarrow> u64 \<Rightarrow> u64 \<Rightarrow> btree" where
  "reopen st root seq = \<lparr>root_block = root, ctx = \<lparr>store = st, next_bset_seq = seq\<rparr>, log = [], logging = True\<rparr>"

definition drain_log :: "log_record list btree_st" where
  "drain_log t = (Inr (log t), t\<lparr>log := []\<rparr>)"

definition on_root :: "(u64 \<Rightarrow> 'a tree_st) \<Rightarrow> 'a btree_st" where
  "on_root f = bindM (gets root_block) (\<lambda>r. on_tree (f r))"

definition checkpoint :: "unit btree_st" where
  "checkpoint =
     bindM (on_root (\<lambda>r. checkpoint_flush TREE_FUEL r [])) (\<lambda>(new_root, freed).
     bindM (modify (\<lambda>t. t\<lparr>root_block := new_root\<rparr>)) (\<lambda>_.
     forM freed (\<lambda>nr. on_tree (on_store (free nr)))))"

definition collect_live_node_blocks :: "u64 list btree_st" where
  "collect_live_node_blocks = on_root (collect_node_blocks_rec TREE_FUEL)"

definition pending_log_len :: "btree \<Rightarrow> nat" where
  "pending_log_len t = length (log t)"

definition log_truncate :: "nat \<Rightarrow> unit btree_st" where
  "log_truncate len = modify (\<lambda>t. t\<lparr>log := take len (log t)\<rparr>)"

definition without_logging :: "'a btree_st \<Rightarrow> 'a btree_st" where
  "without_logging f t = (case f (t\<lparr>logging := False\<rparr>) of (r, t') \<Rightarrow> (r, t'\<lparr>logging := logging t\<rparr>))"

definition push_log :: "bytes \<Rightarrow> entry_kind \<Rightarrow> bytes \<Rightarrow> unit btree_st" where
  "push_log key kind val = modify (\<lambda>t. if logging t
     then t\<lparr>log := log t @ [\<lparr>lr_key = key, lr_kind = kind, lr_value = val\<rparr>]\<rparr> else t)"

definition find_at :: "bytes \<Rightarrow> snap_id \<Rightarrow> bytes option btree_st" where
  "find_at key snap = bindM (expect (sortable_key key snap)) (\<lambda>sk. on_root (\<lambda>r. find_val r sk))"

definition btree_find :: "bytes \<Rightarrow> bytes option btree_st" where
  "btree_find key = find_at key ROOT_SNAP"

definition insert_with_kind :: "bytes \<Rightarrow> snap_id \<Rightarrow> entry_kind \<Rightarrow> bytes \<Rightarrow> unit btree_st" where
  "insert_with_kind key snap kind val =
     bindM (expect (sortable_key key snap)) (\<lambda>sk.
     bindM (on_root (insert_rec TREE_FUEL sk val kind InPlace)) (\<lambda>new_root.
     bindM (modify (\<lambda>t. t\<lparr>root_block := new_root\<rparr>)) (\<lambda>_.
     push_log sk kind val)))"

definition insert_at :: "bytes \<Rightarrow> snap_id \<Rightarrow> bytes \<Rightarrow> unit btree_st" where
  "insert_at key snap val = insert_with_kind key snap Live val"

definition btree_insert :: "bytes \<Rightarrow> bytes \<Rightarrow> unit btree_st" where
  "btree_insert key val = insert_at key ROOT_SNAP val"

definition btree_find_visible_with_snap :: "bytes \<Rightarrow> snap_id list \<Rightarrow> (bytes \<times> snap_id) option btree_st" where
  "btree_find_visible_with_snap logical chain = on_root (\<lambda>r. find_visible_with_snap r logical chain)"

definition btree_find_visible :: "bytes \<Rightarrow> snap_id list \<Rightarrow> bytes option btree_st" where
  "btree_find_visible logical chain = on_root (\<lambda>r. find_visible r logical chain)"

definition delete_at :: "bytes \<Rightarrow> snap_id \<Rightarrow> snap_id list \<Rightarrow> bool btree_st" where
  "delete_at key snap chain =
     bindM (btree_find_visible_with_snap key chain) (\<lambda>r.
     case r of
       None \<Rightarrow> ret False
     | Some (_, visible_snap) \<Rightarrow>
         if visible_snap = snap
         then bindM (expect (sortable_key key snap)) (\<lambda>sk.
              bindM (on_root (\<lambda>r. flip_kind_in_place TREE_FUEL r sk Deleted InPlace)) (\<lambda>new_root.
              bindM (modify (\<lambda>t. t\<lparr>root_block := new_root\<rparr>)) (\<lambda>_.
              bindM (push_log sk Deleted []) (\<lambda>_.
              ret True))))
         else bindM (insert_with_kind key snap Whiteout []) (\<lambda>_. ret True))"

definition btree_delete :: "bytes \<Rightarrow> bool btree_st" where
  "btree_delete key = delete_at key ROOT_SNAP [ROOT_SNAP]"

text \<open>The byte bounds of a logical range: every snapshot suffix of every key in it.\<close>

definition scan_bound :: "bytes \<Rightarrow> bytes option" where
  "scan_bound k = (if length k \<le> MAX_LOGICAL_KEY_SIZE then Some (k @ replicate SNAP_ID_BYTES 0) else None)"

definition range_scan_at :: "bytes \<Rightarrow> bytes \<Rightarrow> snap_id \<Rightarrow> (bytes \<times> bytes) list btree_st" where
  "range_scan_at start en snap =
     bindM (expect (scan_bound start)) (\<lambda>s.
     bindM (expect (scan_bound en)) (\<lambda>e.
     on_root (\<lambda>r. range_scan TREE_FUEL r s e)))"

definition btree_range_scan :: "bytes \<Rightarrow> bytes \<Rightarrow> (bytes \<times> bytes) list btree_st" where
  "btree_range_scan start en = range_scan_at start en ROOT_SNAP"

definition btree_range_scan_all :: "bytes \<Rightarrow> bytes \<Rightarrow> all_snap_row list btree_st" where
  "btree_range_scan_all start en =
     bindM (expect (scan_bound start)) (\<lambda>s.
     bindM (expect (scan_bound en)) (\<lambda>e.
     on_root (\<lambda>r. range_scan_all TREE_FUEL r s e)))"

text \<open>The group-by-logical-key loop of \<open>range_scan_visible\<close> and \<open>range_scan_visible_with_snap\<close>, which
  differ in the emitted row only.\<close>

fun visible_rows ::
  "snap_id set \<Rightarrow> (bytes \<Rightarrow> snap_id \<Rightarrow> bytes \<Rightarrow> 'r) \<Rightarrow> bytes option \<Rightarrow> bool \<Rightarrow> all_snap_row list \<Rightarrow> 'r list" where
  "visible_rows chain mk cur decided [] = []"
| "visible_rows chain mk cur decided ((logical, snap, kind, val) # raw) =
     (let decided = (if cur \<noteq> Some logical then False else decided); cur = Some logical
      in if decided then visible_rows chain mk cur decided raw
         else if snap \<notin> chain then visible_rows chain mk cur decided raw
         else if kind = Live then mk logical snap val # visible_rows chain mk cur True raw
         else visible_rows chain mk cur True raw)"

definition range_scan_visible :: "bytes \<Rightarrow> bytes \<Rightarrow> snap_id list \<Rightarrow> (bytes \<times> bytes) list btree_st" where
  "range_scan_visible start en chain =
     bindM (btree_range_scan_all start en) (\<lambda>raw.
     ret (visible_rows (set chain) (\<lambda>l s v. (l, v)) None False raw))"

definition range_scan_visible_with_snap :: "bytes \<Rightarrow> bytes \<Rightarrow> snap_id list \<Rightarrow> visible_snap_row list btree_st" where
  "range_scan_visible_with_snap start en chain =
     bindM (btree_range_scan_all start en) (\<lambda>raw.
     ret (visible_rows (set chain) (\<lambda>l s v. (l, s, v)) None False raw))"

definition drop_snapshot_keys :: "snap_id \<Rightarrow> nat btree_st" where
  "drop_snapshot_keys dead_snap = on_root (drop_snapshot_keys_rec TREE_FUEL dead_snap)"

definition compact_whiteouts :: "snap_id set \<Rightarrow> nat btree_st" where
  "compact_whiteouts dead = (if dead = {} then ret 0 else on_root (compact_whiteouts_rec TREE_FUEL dead))"

section \<open>Transactions and replay\<close>

record tx =
  tx_btree :: btree
  pending_root :: u64

type_synonym 'a tx_st = "(tx, error, 'a) st"

definition on_pending :: "(u64 \<Rightarrow> 'a tree_st) \<Rightarrow> 'a tx_st" where
  "on_pending f = bindM (gets pending_root) (\<lambda>r. on_part tx_btree (\<lambda>t x. x\<lparr>tx_btree := t\<rparr>) (on_tree (f r)))"

definition tx_push_log :: "bytes \<Rightarrow> entry_kind \<Rightarrow> bytes \<Rightarrow> unit tx_st" where
  "tx_push_log key kind val = on_part tx_btree (\<lambda>t x. x\<lparr>tx_btree := t\<rparr>) (push_log key kind val)"

definition tx_insert_with_kind :: "bytes \<Rightarrow> snap_id \<Rightarrow> entry_kind \<Rightarrow> bytes \<Rightarrow> unit tx_st" where
  "tx_insert_with_kind key snap kind val =
     bindM (expect (sortable_key key snap)) (\<lambda>sk.
     bindM (on_pending (insert_rec TREE_FUEL sk val kind Cow)) (\<lambda>new_root.
     bindM (modify (\<lambda>x. x\<lparr>pending_root := new_root\<rparr>)) (\<lambda>_.
     tx_push_log sk kind val)))"

definition tx_insert :: "bytes \<Rightarrow> snap_id \<Rightarrow> bytes \<Rightarrow> unit tx_st" where
  "tx_insert key snap val = tx_insert_with_kind key snap Live val"

definition tx_find_visible_with_snap :: "bytes \<Rightarrow> snap_id list \<Rightarrow> (bytes \<times> snap_id) option tx_st" where
  "tx_find_visible_with_snap key chain = on_pending (\<lambda>r. find_visible_with_snap r key chain)"

definition tx_find_visible :: "bytes \<Rightarrow> snap_id list \<Rightarrow> bytes option tx_st" where
  "tx_find_visible key chain = on_pending (\<lambda>r. find_visible r key chain)"

definition tx_find_at :: "bytes \<Rightarrow> snap_id \<Rightarrow> bytes option tx_st" where
  "tx_find_at key snap = bindM (expect (sortable_key key snap)) (\<lambda>sk. on_pending (\<lambda>r. find_val r sk))"

definition tx_delete_at :: "bytes \<Rightarrow> snap_id \<Rightarrow> snap_id list \<Rightarrow> bool tx_st" where
  "tx_delete_at key snap chain =
     bindM (tx_find_visible_with_snap key chain) (\<lambda>r.
     case r of
       None \<Rightarrow> ret False
     | Some (_, visible_snap) \<Rightarrow>
         if visible_snap = snap
         then bindM (expect (sortable_key key snap)) (\<lambda>sk.
              bindM (on_pending (\<lambda>r. flip_kind_in_place TREE_FUEL r sk Deleted Cow)) (\<lambda>new_root.
              bindM (modify (\<lambda>x. x\<lparr>pending_root := new_root\<rparr>)) (\<lambda>_.
              bindM (tx_push_log sk Deleted []) (\<lambda>_.
              ret True))))
         else bindM (tx_insert_with_kind key snap Whiteout []) (\<lambda>_. ret True))"

text \<open>Only an \<open>Err\<close> of the closure takes the abort branch; a panic unwinds past it.\<close>

definition transaction :: "'a tx_st \<Rightarrow> 'a btree_st" where
  "transaction f t =
     (let log_mark = length (log t)
      in case f \<lparr>tx_btree = t, pending_root = root_block t\<rparr> of
           (Inr v, x) \<Rightarrow> (Inr v, (tx_btree x)\<lparr>root_block := pending_root x\<rparr>)
         | (Inl (Err e), x) \<Rightarrow> (Inl (Err e), (tx_btree x)\<lparr>log := take log_mark (log (tx_btree x))\<rparr>)
         | (Inl e, x) \<Rightarrow> (Inl e, tx_btree x))"

definition replay_record :: "log_record \<Rightarrow> unit btree_st" where
  "replay_record rec =
     (let n = length (lr_key rec)
      in if n < SNAP_ID_BYTES then raise Panic
         else without_logging (insert_with_kind (take (n - SNAP_ID_BYTES) (lr_key rec))
                (u32_of_be (drop (n - SNAP_ID_BYTES) (lr_key rec))) (lr_kind rec) (lr_value rec)))"

end
