(* ===== verification/Merged_View.thy ===== *)
theory Merged_View
  imports Node_Layout
begin

text \<open>
  What the merged search and the merged iterator of \<open>src/block_btree.rs\<close> compute.  The reference is
  the map \<open>bs_map\<close> of a list of bsets: a later bset overrides an earlier one.  \<open>merged_find\<close> is a
  lookup in that map, and \<open>MergedIter\<close> lists it in key order without duplicates.
\<close>

section \<open>The map of a bset list\<close>

definition keyed :: "disk_entry list \<Rightarrow> (bytes \<times> disk_entry) list" where
  "keyed es = map (\<lambda>e. (key_bytes e, e)) es"

abbreviation bset_map :: "bset \<Rightarrow> bytes \<rightharpoonup> disk_entry" where
  "bset_map b \<equiv> map_of (keyed (snd b))"

primrec bs_map :: "bset list \<Rightarrow> bytes \<rightharpoonup> disk_entry" where
  "bs_map [] = Map.empty"
| "bs_map (b # bs) = bset_map b ++ bs_map bs"

abbreviation entry_keys :: "disk_entry list \<Rightarrow> bytes list" where
  "entry_keys es \<equiv> map key_bytes es"

abbreviation bset_seq :: "bset \<Rightarrow> u64" where
  "bset_seq b \<equiv> bh_seq (fst b)"

definition good_bsets :: "bset list \<Rightarrow> bool" where
  "good_bsets bs = ((\<forall>b \<in> set bs. sorted_keys (entry_keys (snd b))) \<and> sorted_wrt (<) (map bset_seq bs))"

lemma bs_map_append [simp]: "bs_map (xs @ ys) = bs_map xs ++ bs_map ys"
  by (induction xs) simp_all

lemma keyed_simps [simp]:
  "keyed [] = []" "keyed (e # es) = (key_bytes e, e) # keyed es" "keyed (xs @ ys) = keyed xs @ keyed ys"
  "map fst (keyed es) = entry_keys es" "fst ` set (keyed es) = key_bytes ` set es"
  "length (keyed es) = length es"
  by (auto simp: keyed_def image_image)

lemma dom_keyed: "dom (map_of (keyed es)) = key_bytes ` set es"
  by (simp add: dom_map_of_conv_image_fst)

lemma keyed_None: "map_of (keyed es) k = None \<longleftrightarrow> k \<notin> key_bytes ` set es"
  by (simp add: map_of_eq_None_iff)

lemma keyed_SomeD: "map_of (keyed es) k = Some e \<Longrightarrow> e \<in> set es \<and> key_bytes e = k"
  by (induction es) (auto split: if_splits)

lemma sorted_distinct: "sorted_keys (ks :: 'a :: linorder list) \<Longrightarrow> distinct ks"
  by (simp add: strict_sorted_iff)

lemma keyed_nth:
  "sorted_keys (entry_keys es) \<Longrightarrow> i < length es \<Longrightarrow> map_of (keyed es) (key_bytes (es ! i)) = Some (es ! i)"
  by (rule map_of_is_SomeI) (simp add: sorted_distinct, simp add: keyed_def)

lemma bs_map_SomeD: "bs_map bs k = Some e \<Longrightarrow> key_bytes e = k \<and> (\<exists>b \<in> set bs. e \<in> set (snd b))"
  by (induction bs) (auto dest: keyed_SomeD)

lemma dom_bs_map: "dom (bs_map bs) = (\<Union>b \<in> set bs. key_bytes ` set (snd b))"
  by (induction bs) (auto simp: dom_keyed)

lemma bs_map_last:
  assumes "b < length bs" "bset_map (bs ! b) k = Some e"
    and "\<And>c. b < c \<Longrightarrow> c < length bs \<Longrightarrow> bset_map (bs ! c) k = None"
  shows "bs_map bs k = Some e"
proof -
  have eq: "bs_map bs = bs_map (take b bs @ bs ! b # drop (Suc b) bs)"
    using id_take_nth_drop [OF assms(1)] by simp
  have "bs_map (drop (Suc b) bs) k = None"
  proof (rule ccontr)
    assume "bs_map (drop (Suc b) bs) k \<noteq> None"
    then have "k \<in> dom (bs_map (drop (Suc b) bs))" by auto
    then obtain x where x: "x \<in> set (drop (Suc b) bs)" "k \<in> key_bytes ` set (snd x)"
      by (auto simp only: dom_bs_map)
    then obtain j where j: "j < length bs - Suc b" "x = bs ! (Suc b + j)"
      by (auto simp: in_set_conv_nth)
    then have "bset_map x k = None" using assms(3) [of "Suc b + j"] by simp
    with x(2) show False by (simp add: keyed_None)
  qed
  then show ?thesis using assms(2) by (simp add: eq map_add_def)
qed

text \<open>Two sorted entry lists with the same map are equal.\<close>

lemma keyed_unique:
  assumes s: "sorted_keys (entry_keys xs)" "sorted_keys (entry_keys ys)"
    and m: "map_of (keyed xs) = map_of (keyed ys)"
  shows "xs = ys"
proof -
  have "set (entry_keys xs) = set (entry_keys ys)"
    using arg_cong [OF m, of dom] by (simp add: dom_keyed)
  then have k: "entry_keys xs = entry_keys ys" using s by (metis strict_sorted_equal)
  show ?thesis
  proof (rule nth_equalityI)
    show len: "length xs = length ys" using arg_cong [OF k, of length] by simp
    fix i assume i: "i < length xs"
    then have "key_bytes (xs ! i) = key_bytes (ys ! i)" using arg_cong [OF k, of "\<lambda>l. l ! i"] len by simp
    moreover have "map_of (keyed ys) (key_bytes (ys ! i)) = Some (ys ! i)"
      using keyed_nth [OF s(2)] i len by simp
    ultimately show "xs ! i = ys ! i" using keyed_nth [OF s(1) i] m by simp
  qed
qed

section \<open>\<open>merged_find\<close>\<close>

lemma bset_search_lay:
  assumes "layout n bs" "good_bsets bs" "b < length bs"
  shows "bset_search n b k =
    (let ks = entry_keys (snd (bs ! b)) in if k \<in> set ks then Inr (lower_bound ks k) else Inl (lower_bound ks k))"
proof -
  have "sorted_keys (entry_keys (snd (bs ! b)))" using assms by (simp add: good_bsets_def)
  from search_keys_sorted [OF this] show ?thesis
    by (simp only: bset_search_def lay_entries [OF assms(1,3)] Let_def)
qed

lemma good_seqs: "good_bsets bs \<Longrightarrow> i < j \<Longrightarrow> j < length bs \<Longrightarrow> bset_seq (bs ! i) < bset_seq (bs ! j)"
  by (auto simp: good_bsets_def sorted_wrt_iff_nth_less)

lemma good_sorted: "good_bsets bs \<Longrightarrow> i < length bs \<Longrightarrow> sorted_keys (entry_keys (snd (bs ! i)))"
  by (simp add: good_bsets_def)

definition hit_ok :: "bset list \<Rightarrow> bytes \<Rightarrow> nat \<Rightarrow> merged_hit option \<Rightarrow> bool" where
  "hit_ok bs k m r = (case r of
     None \<Rightarrow> bs_map (take m bs) k = None
   | Some h \<Rightarrow> mh_bset_idx h < m \<and> mh_entry_idx h < length (snd (bs ! mh_bset_idx h))
       \<and> mh_seq h = bset_seq (bs ! mh_bset_idx h)
       \<and> (\<forall>c < m. mh_bset_idx h < c \<longrightarrow> k \<notin> key_bytes ` set (snd (bs ! c)))
       \<and> bs_map (take m bs) k = Some (snd (bs ! mh_bset_idx h) ! mh_entry_idx h))"

lemma merged_find_step_ok:
  assumes lay: "layout n bs" and good: "good_bsets bs" and m: "m < length bs" and r: "hit_ok bs k m r"
  shows "hit_ok bs k (Suc m) (merged_find_step n k m r)"
proof -
  let ?es = "snd (bs ! m)" and ?ks = "entry_keys (snd (bs ! m))"
  have tk: "bs_map (take (Suc m) bs) = bs_map (take m bs) ++ bset_map (bs ! m)"
    using m by (simp add: take_Suc_conv_app_nth)
  have s: "sorted_keys ?ks" using good m by (rule good_sorted)
  show ?thesis
  proof (cases "k \<in> set ?ks")
    case True
    let ?i = "lower_bound ?ks k"
    have i: "?i < length ?es" "key_bytes (?es ! ?i) = k" using lower_bound_found [OF s True] by auto
    then have hit: "bset_map (bs ! m) k = Some (?es ! ?i)" using keyed_nth [OF s [simplified], of ?i] by simp
    have sr: "\<not> bset_seq (bs ! m) \<le> mh_seq h" if "r = Some h" for h
      using r that good_seqs [OF good _ m, of "mh_bset_idx h"] by (simp add: hit_ok_def)
    have "merged_find_step n k m r =
        Some \<lparr>mh_bset_idx = m, mh_entry_idx = ?i, mh_seq = bset_seq (bs ! m)\<rparr>"
      using sr True by (auto simp: merged_find_step_def bset_search_lay [OF lay good m] lay_header_at [OF lay m]
          Let_def split: option.splits)
    then show ?thesis using i hit by (simp add: hit_ok_def tk)
  next
    case False
    then have "bset_map (bs ! m) k = None" "k \<notin> key_bytes ` set ?es" by (simp_all add: keyed_None)
    moreover have "merged_find_step n k m r = r"
      using False by (auto simp: merged_find_step_def bset_search_lay [OF lay good m] Let_def)
    ultimately show ?thesis using r by (auto simp: hit_ok_def tk map_add_def less_Suc_eq split: option.splits)
  qed
qed

lemma merged_find_ok:
  assumes lay: "layout n bs" and good: "good_bsets bs"
  shows "hit_ok bs k (length bs) (merged_find n k)"
proof -
  have "hit_ok bs k m (fold (merged_find_step n k) [0..<m] None)" if "m \<le> length bs" for m
    using that by (induction m) (simp_all add: hit_ok_def [of _ _ 0] merged_find_step_ok [OF lay good])
  then show ?thesis by (simp add: merged_find_def lay_count [OF lay])
qed

lemma merged_find_None: "layout n bs \<Longrightarrow> good_bsets bs \<Longrightarrow> merged_find n k = None \<longleftrightarrow> bs_map bs k = None"
  using merged_find_ok [of n bs k] by (auto simp: hit_ok_def split: option.splits)

lemma merged_find_Some:
  assumes "layout n bs" "good_bsets bs" "merged_find n k = Some h"
  shows "mh_bset_idx h < length bs" "mh_entry_idx h < length (snd (bs ! mh_bset_idx h))"
    "bs_map bs k = Some (entry_at n (mh_bset_idx h) (mh_entry_idx h))"
    "entry_at n (mh_bset_idx h) (mh_entry_idx h) = snd (bs ! mh_bset_idx h) ! mh_entry_idx h"
    "mh_seq h = bset_seq (bs ! mh_bset_idx h)"
  using merged_find_ok [OF assms(1,2), of k] assms(3) lay_entries [OF assms(1)]
  by (simp_all add: hit_ok_def entry_at_def)

lemma merged_find_max:
  assumes lay: "layout n bs" and good: "good_bsets bs" and h: "merged_find n k = Some h"
    and c: "c < length bs" "k \<in> set (entry_keys (snd (bs ! c)))" "c \<noteq> mh_bset_idx h"
  shows "bset_seq (bs ! c) < bset_seq (bs ! mh_bset_idx h)"
proof -
  have "\<not> mh_bset_idx h < c" "mh_bset_idx h < length bs" using merged_find_ok [OF lay good, of k] h c by (auto simp: hit_ok_def)
  then show ?thesis using good_seqs [OF good, of c "mh_bset_idx h"] c(3) by auto
qed

section \<open>\<open>MergedIter\<close>\<close>

text \<open>The bsets still ahead of the cursors, and the iterator's link to the node.\<close>

definition ahead :: "bset list \<Rightarrow> (nat \<Rightarrow> nat) \<Rightarrow> bset list" where
  "ahead bs c = map (\<lambda>b. (fst (bs ! b), drop (c b) (snd (bs ! b)))) [0..<length bs]"

definition iter_ok :: "bset list \<Rightarrow> merged_iter \<Rightarrow> bool" where
  "iter_ok bs it = (layout (mi_node it) bs \<and> good_bsets bs \<and> mi_bset_count it = length bs
     \<and> (\<forall>b < length bs. mi_lens it b = length (snd (bs ! b)) \<and> mi_seqs it b = bset_seq (bs ! b)))"

lemma length_ahead [simp]: "length (ahead bs c) = length bs"
  by (simp add: ahead_def)

lemma ahead_nth: "b < length bs \<Longrightarrow> ahead bs c ! b = (fst (bs ! b), drop (c b) (snd (bs ! b)))"
  by (simp add: ahead_def)

lemma iter_ok_cursors [simp]: "iter_ok bs (it\<lparr>mi_cursors := c\<rparr>) = iter_ok bs it"
  by (simp add: iter_ok_def)

lemma iter_ok_new:
  assumes lay: "layout n bs" and "good_bsets bs"
  shows "iter_ok bs (merged_iter_new n)"
  using assms lay_nth_ok [OF lay]
  by (auto simp: iter_ok_def merged_iter_new_def lay_count [OF lay] lay_header_at [OF lay] ok_bset_def)

lemma cursor_simps:
  assumes "iter_ok bs it" "b < length bs"
  shows "cursor_done it b \<longleftrightarrow> drop (mi_cursors it b) (snd (bs ! b)) = []"
    and "cursor_key it b = key_bytes (snd (bs ! b) ! mi_cursors it b)"
  using assms lay_entries [of "mi_node it" bs b]
  by (auto simp: iter_ok_def cursor_done_def cursor_key_def)

lemma select_fold:
  "case fold (select_step it) [0..<m] None of
     None \<Rightarrow> \<forall>c < m. cursor_done it c
   | Some (b, s, k) \<Rightarrow> b < m \<and> \<not> cursor_done it b \<and> s = mi_seqs it b \<and> k = cursor_key it b
       \<and> (\<forall>c < m. \<not> cursor_done it c \<longrightarrow> k < cursor_key it c \<or> (k = cursor_key it c \<and> mi_seqs it c \<le> s))"
proof (induction m)
  case (Suc m)
  then show ?case
    by (auto simp: select_step_def Let_def less_Suc_eq not_less split: option.splits if_splits
        dest: order.strict_trans le_less_trans)
qed simp

text \<open>The keys ahead of a cursor are at least the key under it.\<close>

lemma ahead_bset_ge:
  assumes s: "sorted_keys (entry_keys es)" and e: "e \<in> set (drop i es)"
  shows "key_bytes (es ! i) \<le> key_bytes e"
    and "e \<noteq> es ! i \<Longrightarrow> key_bytes (es ! i) < key_bytes e"
proof -
  obtain j where j: "i \<le> j" "j < length es" "e = es ! j"
    using e by (auto simp: in_set_conv_nth) (metis add.commute le_add2 less_diff_conv)
  have "i < j \<Longrightarrow> key_bytes (es ! i) < key_bytes (es ! j)"
    using s j by (simp add: sorted_wrt_iff_nth_less)
  then show "key_bytes (es ! i) \<le> key_bytes e" "e \<noteq> es ! i \<Longrightarrow> key_bytes (es ! i) < key_bytes e"
    using j by (cases "i = j"; auto)+
qed

lemma drop_keyed_tail:
  assumes "sorted_keys (entry_keys es)" "i < length es"
  shows "map_of (keyed (drop (Suc i) es)) = (map_of (keyed (drop i es))) (key_bytes (es ! i) := None)"
proof -
  have d: "drop i es = es ! i # drop (Suc i) es" using assms(2) by (simp add: Cons_nth_drop_Suc)
  have "sorted_keys (entry_keys (drop i es))" using assms(1) by (simp add: sorted_wrt_drop drop_map [symmetric])
  then have "\<forall>e \<in> set (drop (Suc i) es). key_bytes (es ! i) \<noteq> key_bytes e" by (auto simp: d)
  then have "map_of (keyed (drop (Suc i) es)) (key_bytes (es ! i)) = None" by (auto simp: keyed_None)
  then show ?thesis by (simp add: d fun_upd_idem)
qed

lemma bs_map_cong_remove:
  assumes "length bs' = length bs" "\<And>b. b < length bs \<Longrightarrow> bset_map (bs' ! b) = (bset_map (bs ! b)) (k := None)"
  shows "bs_map bs' = (bs_map bs) (k := None)"
  using assms
proof (induction bs' bs rule: list_induct2)
  case (Cons b' bs' b bs)
  have "bset_map b' = (bset_map b) (k := None)" using Cons.prems [of 0] by (simp add: fun_eq_iff)
  moreover have "bs_map bs' = (bs_map bs) (k := None)" using Cons.IH Cons.prems [of "Suc _"] by auto
  ultimately show ?case by (auto simp: map_add_def fun_eq_iff split: option.splits)
qed simp

lemma merged_next_None:
  assumes "iter_ok bs it" "merged_next it = None"
  shows "bs_map (ahead bs (mi_cursors it)) = Map.empty"
proof -
  have "select_best it = None" using assms(2) by (auto simp: merged_next_def split: option.splits prod.splits)
  then have "\<forall>c < length bs. cursor_done it c"
    using select_fold [where it = it and m = "length bs"] assms(1) by (simp add: select_best_def iter_ok_def)
  then have "\<forall>b \<in> set (ahead bs (mi_cursors it)). snd b = []"
    using cursor_simps(1) [OF assms(1)] by (auto simp: ahead_def)
  then have "dom (bs_map (ahead bs (mi_cursors it))) = {}" by (simp add: dom_bs_map)
  then show ?thesis by simp
qed

lemma merged_next_Some:
  assumes ok: "iter_ok bs it" and nx: "merged_next it = Some ((b, i), it')"
  defines "m \<equiv> bs_map (ahead bs (mi_cursors it))" and "e \<equiv> snd (bs ! b) ! i"
  shows "b < length bs" "i < length (snd (bs ! b))" "iter_ok bs it'" "mi_node it' = mi_node it"
    "m (key_bytes e) = Some e" "\<And>k. k \<in> dom m \<Longrightarrow> key_bytes e \<le> k"
    "bs_map (ahead bs (mi_cursors it')) = m (key_bytes e := None)"
proof -
  let ?c = "mi_cursors it" and ?k = "key_bytes e"
  obtain s k where sel: "select_best it = Some (b, s, k)" and i: "i = ?c b"
    and it': "it' = it\<lparr>mi_cursors := advance it k\<rparr>"
    using nx by (auto simp: merged_next_def split: option.splits)
  have cnt: "mi_bset_count it = length bs" and good: "good_bsets bs" using ok by (simp_all add: iter_ok_def)
  from select_fold [where it = it and m = "length bs"] sel cnt
  have b: "b < length bs" "\<not> cursor_done it b" and sk: "s = mi_seqs it b" "k = cursor_key it b"
    and best: "\<And>c. c < length bs \<Longrightarrow> \<not> cursor_done it c \<Longrightarrow>
      k < cursor_key it c \<or> k = cursor_key it c \<and> mi_seqs it c \<le> s"
    by (auto simp: select_best_def)
  have k: "k = ?k" using cursor_simps(2) [OF ok b(1)] sk i by (simp add: e_def)
  show "b < length bs" by (rule b(1))
  show il: "i < length (snd (bs ! b))" using cursor_simps(1) [OF ok b(1)] b(2) i by simp
  show "iter_ok bs it'" "mi_node it' = mi_node it" using ok by (simp_all add: it')
  have sorted: "sorted_keys (entry_keys (snd (bs ! c)))" if "c < length bs" for c
    using good that by (rule good_sorted)
  have ge: "k \<le> key_bytes x" if "c < length bs" "x \<in> set (drop (?c c) (snd (bs ! c)))" for c x
  proof -
    have "\<not> cursor_done it c" using cursor_simps(1) [OF ok that(1)] that(2) by auto
    from best [OF that(1) this] have "k \<le> cursor_key it c" by auto
    also have "\<dots> \<le> key_bytes x"
      using ahead_bset_ge(1) [OF sorted [OF that(1)] that(2)] cursor_simps(2) [OF ok that(1)] by simp
    finally show ?thesis .
  qed
  show "key_bytes e \<le> k'" if "k' \<in> dom m" for k'
    using that ge by (auto simp: m_def dom_bs_map ahead_def k)
  show "m ?k = Some e"
    unfolding m_def
  proof (rule bs_map_last [of b])
    show "bset_map (ahead bs ?c ! b) ?k = Some e"
      using il b(1) by (simp add: ahead_nth i [symmetric] Cons_nth_drop_Suc [symmetric] e_def)
    fix c assume c: "b < c" "c < length (ahead bs ?c)"
    show "bset_map (ahead bs ?c ! c) ?k = None"
    proof (rule ccontr)
      assume "bset_map (ahead bs ?c ! c) ?k \<noteq> None"
      then obtain x where x: "x \<in> set (drop (?c c) (snd (bs ! c)))" "key_bytes x = ?k"
        using c by (auto simp: ahead_nth dest: keyed_SomeD)
      have nd: "\<not> cursor_done it c" using cursor_simps(1) [OF ok, of c] c x(1) by auto
      have "cursor_key it c \<le> k"
        using ahead_bset_ge(1) [OF sorted [of c] x(1)] c cursor_simps(2) [OF ok, of c] x(2) k by simp
      with best [of c] nd c have "mi_seqs it c \<le> mi_seqs it b" using sk by auto
      then show False using good_seqs [OF good c(1)] c ok b(1) by (simp add: iter_ok_def)
    qed
  qed (use b in simp)
  show "bs_map (ahead bs (mi_cursors it')) = m (?k := None)"
    unfolding m_def
  proof (rule bs_map_cong_remove)
    fix c assume "c < length (ahead bs ?c)"
    then have c: "c < length bs" by simp
    show "bset_map (ahead bs (mi_cursors it') ! c) = (bset_map (ahead bs ?c ! c)) (?k := None)"
    proof (cases "\<not> cursor_done it c \<and> cursor_key it c = k")
      case True
      then have l: "?c c < length (snd (bs ! c))" using cursor_simps(1) [OF ok c] by simp
      from True have "mi_cursors it' c = Suc (?c c)" using c cnt by (simp add: it' advance_def)
      then show ?thesis
        using drop_keyed_tail [OF sorted [OF c] l] True cursor_simps(2) [OF ok c] k c by (simp add: ahead_nth)
    next
      case False
      then have same: "mi_cursors it' c = ?c c" by (auto simp: it' advance_def)
      have "?k \<noteq> key_bytes x" if "x \<in> set (drop (?c c) (snd (bs ! c)))" for x
      proof -
        have nd: "\<not> cursor_done it c" using cursor_simps(1) [OF ok c] that by auto
        with False best [OF c nd] have "k < cursor_key it c" by auto
        then show ?thesis
          using ahead_bset_ge(1) [OF sorted [OF c] that] cursor_simps(2) [OF ok c] k by simp
      qed
      then have "bset_map (ahead bs ?c ! c) ?k = None" using c by (auto simp: ahead_nth keyed_None)
      then show ?thesis using c by (simp add: ahead_nth same fun_upd_idem)
    qed
  qed simp
qed

text \<open>Running the iterator lists exactly the map ahead of its cursors, in strictly ascending key
  order.\<close>

definition emitted :: "node \<Rightarrow> (nat \<times> nat) list \<Rightarrow> disk_entry list" where
  "emitted n ps = map (\<lambda>(b, i). entry_at n b i) ps"

lemma merged_collect_ok:
  assumes "iter_ok bs it"
  shows "sorted_keys (entry_keys (emitted (mi_node it) (merged_collect it)))
    \<and> map_of (keyed (emitted (mi_node it) (merged_collect it))) = bs_map (ahead bs (mi_cursors it))
    \<and> (\<forall>(b, i) \<in> set (merged_collect it). b < length bs \<and> i < length (snd (bs ! b)))"
  using assms
proof (induction it rule: merged_collect.induct)
  case (1 it)
  show ?case
  proof (cases "merged_next it")
    case None
    then show ?thesis
      using merged_next_None [OF 1(2)] by (simp add: merged_collect.simps [of it] emitted_def)
  next
    case (Some y)
    obtain b i it' where y: "y = ((b, i), it')" by (metis prod.exhaust)
    note nx = merged_next_Some [OF 1(2) Some [unfolded y]]
    let ?e = "snd (bs ! b) ! i"
    have e: "entry_at (mi_node it) b i = ?e"
      using lay_entries [of "mi_node it" bs b] 1(2) nx(1) by (simp add: entry_at_def iter_ok_def)
    have IH: "sorted_keys (entry_keys (emitted (mi_node it) (merged_collect it')))"
      "map_of (keyed (emitted (mi_node it) (merged_collect it'))) =
         (bs_map (ahead bs (mi_cursors it))) (key_bytes ?e := None)"
      "\<forall>(b, i) \<in> set (merged_collect it'). b < length bs \<and> i < length (snd (bs ! b))"
      using "1.IH" [OF Some [unfolded y], of "(b, i)" it'] nx(3,4,7) by (simp_all add: y fun_upd_def)
    have step: "emitted (mi_node it) (merged_collect it) = ?e # emitted (mi_node it) (merged_collect it')"
      using Some e by (simp add: merged_collect.simps [of it] y emitted_def)
    have "key_bytes ?e < key_bytes x" if "x \<in> set (emitted (mi_node it) (merged_collect it'))" for x
    proof -
      have "key_bytes x \<in> dom (map_of (keyed (emitted (mi_node it) (merged_collect it'))))"
        using that by (simp add: dom_keyed)
      then have "key_bytes x \<in> dom (bs_map (ahead bs (mi_cursors it)))" "key_bytes x \<noteq> key_bytes ?e"
        by (auto simp: IH(2) split: if_splits)
      with nx(6) show ?thesis by (simp add: less_le)
    qed
    then have "sorted_keys (entry_keys (emitted (mi_node it) (merged_collect it)))"
      using IH(1) by (simp add: step)
    moreover have "map_of (keyed (emitted (mi_node it) (merged_collect it))) = bs_map (ahead bs (mi_cursors it))"
      using nx(5) by (auto simp: step IH(2) fun_eq_iff)
    ultimately show ?thesis
      using IH(3) nx(1,2) Some by (auto simp: merged_collect.simps [of it] y)
  qed
qed

lemma ahead_zero [simp]: "ahead bs (\<lambda>_. 0) = bs"
  by (simp add: ahead_def map_nth)

lemma drop_lower_bound:
  assumes "sorted_keys (entry_keys es)"
  shows "drop (lower_bound (entry_keys es) k) es = filter (\<lambda>e. k \<le> key_bytes e) es"
  using assms
proof (induction es)
  case (Cons e es)
  show ?case
  proof (cases "key_bytes e < k")
    case True
    then show ?thesis using Cons by (simp add: lower_bound_def)
  next
    case False
    then have "\<forall>x \<in> set es. k \<le> key_bytes x" using Cons.prems by fastforce
    then show ?thesis using False by (simp add: lower_bound_def not_less)
  qed
qed (simp add: lower_bound_def)

lemma keyed_filter:
  "map_of (keyed (filter (\<lambda>e. P (key_bytes e)) es)) = map_of (keyed es) |` {k. P k}"
  by (induction es) (auto simp: restrict_map_def fun_eq_iff)

lemma bs_map_filter:
  "bs_map (map (\<lambda>b. (fst b, filter (\<lambda>e. P (key_bytes e)) (snd b))) bs) = bs_map bs |` {k. P k}"
  by (induction bs) (auto simp: keyed_filter restrict_map_def map_add_def fun_eq_iff split: option.splits)

lemma ahead_lower_bound:
  assumes lay: "layout n bs" and good: "good_bsets bs"
  shows "bs_map (ahead bs (merged_lower_bound_cursors n k)) = bs_map bs |` {k'. k \<le> k'}"
proof -
  have "drop (merged_lower_bound_cursors n k b) (snd (bs ! b)) = filter (\<lambda>e. k \<le> key_bytes e) (snd (bs ! b))"
    if "b < length bs" for b
  proof -
    have "merged_lower_bound_cursors n k b = lower_bound (entry_keys (snd (bs ! b))) k"
      using that by (simp add: merged_lower_bound_cursors_def lay_count [OF lay] bset_search_lay [OF lay good that] Let_def)
    then show ?thesis using drop_lower_bound [OF good_sorted [OF good that]] by simp
  qed
  then have "ahead bs (merged_lower_bound_cursors n k) =
      map (\<lambda>b. (fst b, filter (\<lambda>e. k \<le> key_bytes e) (snd b))) bs"
    by (intro nth_equalityI) (simp_all add: ahead_nth)
  then show ?thesis by (simp only: bs_map_filter)
qed

text \<open>The listing of a whole leaf, and of a leaf from a key on.\<close>

definition merged_list :: "bset list \<Rightarrow> disk_entry list" where
  "merged_list bs = map (\<lambda>k. the (bs_map bs k)) (sorted_list_of_set (dom (bs_map bs)))"

lemma finite_dom_bs_map [simp]: "finite (dom (bs_map bs))"
  by (simp add: dom_bs_map)

lemma merged_list_keys: "entry_keys (merged_list bs) = sorted_list_of_set (dom (bs_map bs))"
proof -
  have "map (key_bytes \<circ> (\<lambda>k. the (bs_map bs k))) (sorted_list_of_set (dom (bs_map bs))) =
      map id (sorted_list_of_set (dom (bs_map bs)))"
    by (rule map_cong) (auto dest: bs_map_SomeD)
  then show ?thesis by (simp add: merged_list_def)
qed

lemma sorted_merged_list [simp]: "sorted_keys (entry_keys (merged_list bs))"
  by (simp only: merged_list_keys strict_sorted_list_of_set)

lemma map_of_merged_list [simp]: "map_of (keyed (merged_list bs)) = bs_map bs"
proof
  fix k
  show "map_of (keyed (merged_list bs)) k = bs_map bs k"
  proof (cases "bs_map bs k")
    case None
    then have "k \<notin> set (entry_keys (merged_list bs))" by (simp only: merged_list_keys) auto
    then show ?thesis using None by (simp add: keyed_None)
  next
    case (Some e)
    then have "e \<in> set (merged_list bs)" by (force simp: merged_list_def)
    then have "map_of (keyed (merged_list bs)) (key_bytes e) = Some e"
      using keyed_nth [OF sorted_merged_list] by (metis in_set_conv_nth)
    then show ?thesis using Some bs_map_SomeD by metis
  qed
qed

lemma merged_collect_new:
  assumes "layout n bs" "good_bsets bs"
  shows "emitted n (merged_collect (merged_iter_new n)) = merged_list bs"
  using merged_collect_ok [OF iter_ok_new [OF assms]]
  by (intro keyed_unique) (simp_all add: merged_iter_new_def)

lemma merged_collect_lower_bound:
  assumes "layout n bs" "good_bsets bs"
  shows "emitted n (merged_collect (with_lower_bound n k)) = filter (\<lambda>e. k \<le> key_bytes e) (merged_list bs)"
proof -
  have "iter_ok bs (with_lower_bound n k)" using iter_ok_new [OF assms] by (simp add: with_lower_bound_def)
  note ok = merged_collect_ok [OF this]
  show ?thesis
  proof (rule keyed_unique)
    have "sorted_keys (filter (\<lambda>x. k \<le> x) (entry_keys (merged_list bs)))"
      by (rule sorted_wrt_filter) simp
    then show "sorted_keys (entry_keys (filter (\<lambda>e. k \<le> key_bytes e) (merged_list bs)))"
      by (simp add: filter_map comp_def)
  qed (use ok in \<open>simp_all add: with_lower_bound_def merged_iter_new_def keyed_filter ahead_lower_bound [OF assms]\<close>)
qed

lemma merged_list_single:
  "sorted_keys (entry_keys es) \<Longrightarrow> merged_list [(h, es)] = es"
  by (rule keyed_unique) simp_all

section \<open>Properties\<close>

text \<open>A leaf with two bsets: the newer one overwrites the key \<open>[1,0,0,0,1]\<close> of the older one.\<close>

definition sample_entry :: "bytes \<Rightarrow> snap_id \<Rightarrow> bytes \<Rightarrow> disk_entry" where
  "sample_entry k snap v = entry_set_value v (set_key_with_snap k snap empty_entry)"

definition sample_bset :: "u64 \<Rightarrow> disk_entry list \<Rightarrow> bset" where
  "sample_bset seq es = (\<lparr>bh_seq = seq, bh_nkeys = of_nat (length es), bh_flags = 0, bh_pad = 0\<rparr>, es)"

definition sample_bsets :: "bset list" where
  "sample_bsets = [sample_bset 3 [sample_entry [1] 1 [10], sample_entry [2] 1 [20]],
                   sample_bset 7 [sample_entry [1] 1 [11]]]"

lemma sample_entry_key:
  assumes "length k \<le> 28"
  shows "key_bytes (sample_entry k snap v) = k @ u32_be snap"
  using assms
  by (simp add: sample_entry_def key_bytes_def set_key_with_snap_def entry_set_value_def Let_def
      unat_of_nat_small min_def)

lemma sized_sample_entry: "length k \<le> 28 \<Longrightarrow> length v \<le> 96 \<Longrightarrow> sized_entry (sample_entry k snap v)"
  by (simp add: sample_entry_def sized_entry_def set_key_with_snap_def entry_set_value_def Let_def
      empty_entry_def unat_of_nat_small min_def)

lemma sample_layout: "layout (leaf_image sample_bsets) sample_bsets"
  by (rule layout_leaf_image) (simp_all add: sample_bsets_def sample_bset_def ok_bset_def sized_sample_entry)

lemma sample_good: "good_bsets sample_bsets"
  by (simp add: good_bsets_def sample_bsets_def sample_bset_def sample_entry_key)

text \<open>C27. \<open>merged_find\<close> on a leaf that stores the bsets \<open>bs\<close> returns the position of the key in the newest bset
  that contains it, with that bset's sequence number and entry, and nothing exactly when no bset contains the key:
  every other bset that contains it is strictly older.\<close>

theorem merged_find_newest:
  assumes "layout n bs" "good_bsets bs"
  shows "case merged_find n k of
      None \<Rightarrow> (\<forall>b \<in> set bs. k \<notin> set (entry_keys (snd b)))
    | Some h \<Rightarrow> mh_bset_idx h < length bs
        \<and> mh_entry_idx h < length (snd (bs ! mh_bset_idx h))
        \<and> mh_seq h = bset_seq (bs ! mh_bset_idx h)
        \<and> entry_at n (mh_bset_idx h) (mh_entry_idx h) = snd (bs ! mh_bset_idx h) ! mh_entry_idx h
        \<and> key_bytes (snd (bs ! mh_bset_idx h) ! mh_entry_idx h) = k
        \<and> (\<forall>c < length bs. c \<noteq> mh_bset_idx h \<longrightarrow> k \<in> set (entry_keys (snd (bs ! c))) \<longrightarrow>
              bset_seq (bs ! c) < bset_seq (bs ! mh_bset_idx h))"
proof (cases "merged_find n k")
  case None
  then have "bs_map bs k = None" using merged_find_None [OF assms] by simp
  then have "k \<notin> dom (bs_map bs)" by auto
  then show ?thesis using None by (auto simp: dom_bs_map)
next
  case (Some h)
  note hit = merged_find_Some [OF assms Some]
  have "bset_seq (bs ! c) < bset_seq (bs ! mh_bset_idx h)"
    if c: "c < length bs" "c \<noteq> mh_bset_idx h" "k \<in> set (entry_keys (snd (bs ! c)))" for c
    by (rule merged_find_max [OF assms Some c(1,3,2)])
  then show ?thesis using hit bs_map_SomeD [OF hit(3)] Some by simp
qed

text \<open>The newest entry of the sample leaf is found in its second bset.\<close>

theorem merged_find_newest_witness:
  "merged_find (leaf_image sample_bsets) [1, 0, 0, 0, 1] = Some \<lparr>mh_bset_idx = 1, mh_entry_idx = 0, mh_seq = 7\<rparr>"
proof -
  have "u32_be 1 = [0, 0, 0, 1]" by code_simp
  then have in1: "[1, 0, 0, 0, 1] \<in> set (entry_keys (snd (sample_bsets ! 1)))" "[1, 0, 0, 0, 1] \<in> set (entry_keys (snd (sample_bsets ! 0)))"
    by (simp_all add: sample_bsets_def sample_bset_def sample_entry_key)
  have len: "length sample_bsets = 2" "length (snd (sample_bsets ! 1)) = 1" "bset_seq (sample_bsets ! 0) = 3" "bset_seq (sample_bsets ! 1) = 7"
    by (simp_all add: sample_bsets_def sample_bset_def)
  from merged_find_newest [OF sample_layout sample_good, of "[1, 0, 0, 0, 1]"]
  obtain h where h: "merged_find (leaf_image sample_bsets) [1, 0, 0, 0, 1] = Some h" "mh_bset_idx h < 2"
    "mh_entry_idx h < length (snd (sample_bsets ! mh_bset_idx h))" "mh_seq h = bset_seq (sample_bsets ! mh_bset_idx h)"
    "mh_bset_idx h \<noteq> 1 \<longrightarrow> bset_seq (sample_bsets ! 1) < bset_seq (sample_bsets ! mh_bset_idx h)"
    using in1 len(1) by (auto split: option.splits)
  have "mh_bset_idx h = 1" using h(2,5) len(3,4) by (cases "mh_bset_idx h") auto
  then show ?thesis using h len by (cases h) simp
qed

text \<open>C28. Running \<open>MergedIter\<close> over a leaf lists, in strictly ascending key order, exactly the map of
  its bsets, in which a later bset overrides an earlier one; started at a lower bound it lists the
  part at or above the bound.\<close>

theorem merged_iter_lists_map:
  assumes "layout n bs" "good_bsets bs"
  shows "sorted_keys (entry_keys (emitted n (merged_collect (merged_iter_new n))))
    \<and> map_of (keyed (emitted n (merged_collect (merged_iter_new n)))) = bs_map bs
    \<and> emitted n (merged_collect (with_lower_bound n k)) =
        filter (\<lambda>e. k \<le> key_bytes e) (emitted n (merged_collect (merged_iter_new n)))"
  using merged_collect_new [OF assms] merged_collect_lower_bound [OF assms] by simp

theorem merged_iter_lists_map_witness:
  "map_of (keyed (emitted (leaf_image sample_bsets) (merged_collect (merged_iter_new (leaf_image sample_bsets)))))
     [1, 0, 0, 0, 1] = Some (sample_entry [1] 1 [11])"
proof -
  have "bs_map sample_bsets [1, 0, 0, 0, 1] = Some (sample_entry [1] 1 [11])" by code_simp
  then show ?thesis using merged_iter_lists_map [OF sample_layout sample_good] by simp
qed

end
