(* ===== verification/Tree_Leaf.thy ===== *)
theory Tree_Leaf
  imports Btree Merged_View
begin

text \<open>
  The leaf operations of \<open>src/btree.rs\<close> on the bset lists a leaf stores: building entries, rebuilding
  a leaf as one bset, making the last bset writable, and the write an insertion applies to a leaf.
\<close>

section \<open>Entries\<close>

definition ok_key :: "bytes \<Rightarrow> bool" where
  "ok_key k = (4 \<le> length k \<and> length k \<le> 32)"

lemma sized_key: "sized_entry e \<Longrightarrow> ok_key (key_bytes e)"
  by (simp add: sized_entry_def ok_key_def key_bytes_def)

lemma set_key_ok:
  assumes "ok_key k" "sized_entry e"
  obtains e' where "set_key k e = Some e'" "key_bytes e' = k" "sized_entry e'" "de_payload e' = de_payload e"
    "de_value_len e' = de_value_len e" "de_kind e' = de_kind e"
proof -
  let ?e = "e\<lparr>de_key := k @ replicate (32 - length k) 0, de_key_len := of_nat (length k - 4)\<rparr>"
  have "set_key k e = Some ?e" using assms(1) by (simp add: set_key_def ok_key_def Let_def min_def)
  moreover have "unat (of_nat (length k - 4) :: u8) = length k - 4"
    using assms(1) unfolding ok_key_def by (intro unat_of_nat_small) linarith
  ultimately show thesis
    using assms by (intro that [of ?e]) (simp_all add: key_bytes_def sized_entry_def ok_key_def, linarith)
qed

lemma build_leaf_entry_ok:
  assumes "ok_key k"
  obtains e where "build_leaf_entry k kind v = Some e" "key_bytes e = k" "sized_entry e" "kind_enum e = kind"
    "entry_value e = take 96 v"
proof -
  obtain e where e: "set_key k empty_entry = Some e" "key_bytes e = k" "sized_entry e"
    using set_key_ok [OF assms sized_empty] .
  let ?e = "entry_set_value v (set_kind kind e)"
  have l: "unat (of_nat (min (length v) 96) :: u8) = min (length v) 96" by (intro unat_of_nat_small) simp
  have "build_leaf_entry k kind v = Some ?e" by (simp add: build_leaf_entry_def e)
  moreover have "key_bytes ?e = k" "sized_entry ?e" "kind_enum ?e = kind" "entry_value ?e = take 96 v"
    using e(2,3) l
    by (simp_all add: entry_set_value_def set_kind_def key_bytes_def sized_entry_def kind_enum_def Let_def entry_value_def)
      (simp add: min_def)
  ultimately show thesis by (rule that)
qed

section \<open>Replacing or inserting an entry of a sorted run\<close>

definition ins_entry :: "disk_entry \<Rightarrow> disk_entry list \<Rightarrow> disk_entry list" where
  "ins_entry e es = (let i = lower_bound (entry_keys es) (key_bytes e)
     in if key_bytes e \<in> set (entry_keys es) then es[i := e] else take i es @ e # drop i es)"

lemma set_ins_entry: "set (ins_entry e es) \<subseteq> Set.insert e (set es)"
  using set_update_subset_insert [of es] by (auto simp: ins_entry_def Let_def dest: in_set_takeD in_set_dropD)

lemma keyed_update:
  assumes "sorted_keys (entry_keys es)" "i < length es" "key_bytes (es ! i) = key_bytes e"
  shows "sorted_keys (entry_keys (es[i := e]))" "map_of (keyed (es[i := e])) = (map_of (keyed es))(key_bytes e \<mapsto> e)"
proof -
  have keys: "entry_keys (es[i := e]) = entry_keys es"
    using assms(2,3) by (simp add: map_update list_update_same_conv)
  then show s: "sorted_keys (entry_keys (es[i := e]))" using assms(1) by simp
  have es: "es = take i es @ es ! i # drop (Suc i) es" using assms(2) by (rule id_take_nth_drop)
  have up: "es[i := e] = take i es @ e # drop (Suc i) es" using assms(2) by (rule upd_conv_take_nth_drop)
  have d: "key_bytes e \<notin> set (entry_keys (take i es))"
  proof -
    have "distinct (entry_keys (take i es @ es ! i # drop (Suc i) es))"
      using sorted_distinct [OF assms(1)] es by metis
    then show ?thesis using assms(3) by auto
  qed
  then have "map_of (keyed (take i es)) (key_bytes e) = None" by (simp add: keyed_None)
  then have "map_of (keyed (take i es @ e # drop (Suc i) es)) =
      (map_of (keyed (take i es @ es ! i # drop (Suc i) es)))(key_bytes e \<mapsto> e)"
    using assms(3) by (auto simp: fun_eq_iff map_add_def split: option.splits)
  then show "map_of (keyed (es[i := e])) = (map_of (keyed es))(key_bytes e \<mapsto> e)"
    by (simp only: up es [symmetric])
qed

lemma keyed_insert:
  assumes s: "sorted_keys (entry_keys es)" and k: "key_bytes e \<notin> set (entry_keys es)"
  defines "i \<equiv> lower_bound (entry_keys es) (key_bytes e)"
  shows "sorted_keys (entry_keys (take i es @ e # drop i es))"
    "map_of (keyed (take i es @ e # drop i es)) = (map_of (keyed es))(key_bytes e \<mapsto> e)"
proof -
  have lo: "x < key_bytes e" if xin: "x \<in> set (entry_keys (take i es))" for x
  proof -
    obtain j where "j < length (entry_keys (take i es))" "x = entry_keys (take i es) ! j"
      using xin unfolding in_set_conv_nth by blast
    then have "j < i" "j < length es" "x = entry_keys es ! j" by simp_all
    then show ?thesis using lower_bound_nth(1) [OF s, of j "key_bytes e"] by (simp add: i_def)
  qed
  have hi: "key_bytes e < x" if xin: "x \<in> set (entry_keys (drop i es))" for x
  proof -
    obtain m where "m < length (entry_keys (drop i es))" "x = entry_keys (drop i es) ! m"
      using xin unfolding in_set_conv_nth by blast
    then have j: "i \<le> i + m" "i + m < length es" "x = entry_keys es ! (i + m)" by simp_all
    then have "key_bytes e \<le> x" using lower_bound_nth(2) [OF s, of "key_bytes e" "i + m"] by (simp add: i_def)
    moreover have "x \<in> set (entry_keys es)" using j(2,3) by (simp only: j(3) nth_mem length_map)
    then have "x \<noteq> key_bytes e" using k by metis
    ultimately show ?thesis by simp
  qed
  have "sorted_keys (entry_keys (take i es) @ entry_keys (drop i es))"
    using s by (metis append_take_drop_id map_append)
  then show "sorted_keys (entry_keys (take i es @ e # drop i es))"
    using lo hi by (auto simp: sorted_wrt_append)
  have "key_bytes e \<notin> set (entry_keys (take i es))" using lo by blast
  then have "map_of (keyed (take i es)) (key_bytes e) = None" by (simp add: keyed_None)
  then have "map_of (keyed (take i es @ e # drop i es)) = (map_of (keyed (take i es @ drop i es)))(key_bytes e \<mapsto> e)"
    by (auto simp: fun_eq_iff map_add_def simp del: append_take_drop_id split: option.splits)
  then show "map_of (keyed (take i es @ e # drop i es)) = (map_of (keyed es))(key_bytes e \<mapsto> e)" by simp
qed

lemma ins_entry_ok:
  assumes "sorted_keys (entry_keys es)"
  shows "sorted_keys (entry_keys (ins_entry e es))" "map_of (keyed (ins_entry e es)) = (map_of (keyed es))(key_bytes e \<mapsto> e)"
proof -
  have "sorted_keys (entry_keys (ins_entry e es)) \<and> map_of (keyed (ins_entry e es)) = (map_of (keyed es))(key_bytes e \<mapsto> e)"
  proof (cases "key_bytes e \<in> set (entry_keys es)")
    case True
    let ?i = "lower_bound (entry_keys es) (key_bytes e)"
    have "?i < length es" "key_bytes (es ! ?i) = key_bytes e" using lower_bound_found [OF assms True] by auto
    from keyed_update [OF assms this] True show ?thesis by (simp add: ins_entry_def Let_def)
  next
    case False
    with keyed_insert [OF assms False] show ?thesis by (simp add: ins_entry_def Let_def)
  qed
  then show "sorted_keys (entry_keys (ins_entry e es))"
    "map_of (keyed (ins_entry e es)) = (map_of (keyed es))(key_bytes e \<mapsto> e)" by simp_all
qed

section \<open>Well-formed leaves\<close>

abbreviation wo_flag :: "bset_header \<Rightarrow> bool" where
  "wo_flag h \<equiv> and (bh_flags h) BSET_FLAG_NEEDS_WHITEOUT \<noteq> 0"

definition flags_ok :: "bset list \<Rightarrow> bool" where
  "flags_ok bs = (\<forall>b \<in> set bs. wo_flag (fst b) \<or> (\<forall>e \<in> set (snd b). kind_enum e \<noteq> Whiteout))"

definition leaf_ok :: "u64 \<Rightarrow> bset list \<Rightarrow> bool" where
  "leaf_ok q bs = (good_bsets bs \<and> flags_ok bs \<and> (\<forall>b \<in> set bs. bset_seq b < q))"

lemma leaf_ok_snoc:
  "leaf_ok q (bs @ [(h, es)]) \<longleftrightarrow> leaf_ok q bs \<and> (\<forall>b \<in> set bs. bset_seq b < bh_seq h) \<and> bh_seq h < q
     \<and> sorted_keys (entry_keys es) \<and> (wo_flag h \<or> (\<forall>e \<in> set es. kind_enum e \<noteq> Whiteout))"
  by (auto simp: leaf_ok_def good_bsets_def flags_ok_def sorted_wrt_append)

lemma leaf_ok_mono: "leaf_ok q bs \<Longrightarrow> q \<le> q' \<Longrightarrow> leaf_ok q' bs"
  by (auto simp: leaf_ok_def)

lemma merged_list_subset: "set (merged_list bs) \<subseteq> (\<Union>b \<in> set bs. set (snd b))"
proof
  fix e assume "e \<in> set (merged_list bs)"
  then obtain k where "bs_map bs k = Some e" by (auto simp: merged_list_def)
  then show "e \<in> (\<Union>b \<in> set bs. set (snd b))" using bs_map_SomeD by blast
qed

lemma length_merged_list: "length (merged_list bs) = card (dom (bs_map bs))"
  by (simp add: merged_list_def)

lemma merged_list_le: "length (merged_list bs) \<le> bsets_total bs"
proof -
  have "card (dom (bs_map bs)) \<le> bsets_total bs"
  proof (induction bs)
    case (Cons b bs)
    have "card (dom (bs_map (b # bs))) \<le> card (dom (bset_map b)) + card (dom (bs_map bs))"
      using card_Un_le [of "dom (bs_map bs)" "dom (bset_map b)"] by simp
    also have "card (dom (bset_map b)) \<le> length (snd b)"
      using card_image_le [of "set (snd b)" key_bytes] card_length [of "snd b"] by (simp add: dom_keyed)
    finally show ?case using Cons.IH by simp
  qed simp
  then show ?thesis by (simp only: length_merged_list)
qed

lemma merged_list_ge:
  assumes "good_bsets bs" "b \<in> set bs"
  shows "length (snd b) \<le> length (merged_list bs)"
proof -
  have "length (snd b) = card (key_bytes ` set (snd b))"
    using assms by (metis distinct_card good_bsets_def length_map list.set_map sorted_distinct)
  also have "\<dots> \<le> card (dom (bs_map bs))" using assms(2) by (intro card_mono) (auto simp: dom_bs_map)
  finally show ?thesis by (simp only: length_merged_list)
qed

lemma merged_list_sized: "layout n bs \<Longrightarrow> e \<in> set (merged_list bs) \<Longrightarrow> sized_entry e"
  using merged_list_subset [of bs] lay_ok [of n bs] by (auto simp: ok_bset_def)

lemma collect_leaf_entries:
  "layout n bs \<Longrightarrow> good_bsets bs \<Longrightarrow> collect_leaf_entries_sorted n = merged_list bs"
  using merged_collect_new [of n bs] by (simp add: collect_leaf_entries_sorted_def emitted_def)

section \<open>Rebuilding\<close>

lemma fold_append_ok:
  assumes "layout n (bs @ [(h, es)])" "bsets_total bs + length es + length xs \<le> 29" "\<forall>e \<in> set xs. sized_entry e"
  shows "\<exists>n' h'. fold_opt append_to_last_bset xs n = Some n' \<and> level n' = level n
     \<and> layout n' (bs @ [(h', es @ xs)]) \<and> bh_seq h' = bh_seq h \<and> bh_flags h' = bh_flags h"
  using assms
proof (induction xs arbitrary: n h es)
  case (Cons x xs)
  obtain n1 where n1: "append_to_last_bset x n = Some n1" "level n1 = level n"
    "layout n1 (bs @ [(\<lparr>bh_seq = bh_seq h, bh_nkeys = of_nat (length es + 1), bh_flags = bh_flags h, bh_pad = 0\<rparr>, es @ [x])])"
    using layout_append [OF Cons.prems(1), of x] Cons.prems(2,3) by auto
  from Cons.IH [OF n1(3)] Cons.prems(2,3) obtain n2 h2 where
    "fold_opt append_to_last_bset xs n1 = Some n2" "level n2 = level n1" "layout n2 (bs @ [(h2, (es @ [x]) @ xs)])"
    "bh_seq h2 = bh_seq h" "bh_flags h2 = bh_flags h"
    by auto
  with n1 show ?case by auto
qed auto

lemma rebuild_ok:
  assumes "length xs \<le> 29" "\<forall>e \<in> set xs. sized_entry e"
  obtains n' h where "rebuild_leaf_from_entries n q xs = Some n'" "level n' = 0" "layout n' [(h, xs)]"
    "bh_seq h = q" "wo_flag h \<longleftrightarrow> (\<exists>e \<in> set xs. kind_enum e = Whiteout)"
proof -
  let ?n = "set_generation (generation n) (node_new 0)"
  have "layout ?n []" by simp
  then obtain n1 where n1: "start_new_bset q ?n = Some n1" "level n1 = level ?n"
    "layout n1 ([] @ [(\<lparr>bh_seq = q, bh_nkeys = 0, bh_flags = 0, bh_pad = 0\<rparr>, [])])"
    using layout_start_new_bset [of ?n "[]" q] by auto
  from fold_append_ok [OF n1(3), of xs] assms obtain n2 h2 where n2: "fold_opt append_to_last_bset xs n1 = Some n2"
    "level n2 = level n1" "layout n2 [(h2, xs)]" "bh_seq h2 = q" "bh_flags h2 = 0"
    by auto
  have "level ?n = 0" by (simp add: set_generation_def level_def node_new_def)
  moreover obtain h3 where "bh_seq h3 = q" "wo_flag h3 \<longleftrightarrow> list_ex (\<lambda>e. kind_enum e = Whiteout) xs"
    "layout (set_bset_needs_whiteout 0 (list_ex (\<lambda>e. kind_enum e = Whiteout) xs) n2) [(h3, xs)]"
    using layout_set_needs_whiteout [OF n2(3), of 0 "list_ex (\<lambda>e. kind_enum e = Whiteout) xs"] n2(4) by auto
  ultimately show thesis
    using n1 n2 by (intro that [of "set_bset_needs_whiteout 0 (list_ex (\<lambda>e. kind_enum e = Whiteout) xs) n2" h3])
      (auto simp: rebuild_leaf_from_entries_def list_ex_iff)
qed

lemma leaf_ok_single:
  "sorted_keys (entry_keys es) \<Longrightarrow> bh_seq h < q \<Longrightarrow> wo_flag h \<or> (\<forall>e \<in> set es. kind_enum e \<noteq> Whiteout) \<Longrightarrow>
     leaf_ok q [(h, es)]"
  by (auto simp: leaf_ok_def good_bsets_def flags_ok_def)

section \<open>Compaction and the writable bset\<close>

lemma compact_ok:
  assumes lay: "layout n bs" and good: "good_bsets bs"
  obtains n' h where "compact_leaf_in_place n q = Some n'" "level n' = 0" "layout n' [(h, merged_list bs)]"
    "bh_seq h = q" "wo_flag h \<longleftrightarrow> (\<exists>e \<in> set (merged_list bs). kind_enum e = Whiteout)"
proof -
  have len: "length (merged_list bs) \<le> 29" using merged_list_le [of bs] lay by (simp add: layout_def)
  have "\<forall>e \<in> set (merged_list bs). sized_entry e" using merged_list_sized [OF lay] by blast
  from rebuild_ok [OF len this] show thesis
    using that by (metis compact_leaf_in_place_def collect_leaf_entries [OF lay good])
qed

lemma bs_map_single: "bs_map [(h, merged_list bs)] = bs_map bs"
  by simp

text \<open>After \<open>ensure_writable_last_bset\<close> the last bset may take an entry, and the map is unchanged.\<close>

lemma ensure_writable_ok:
  assumes lay: "layout n bs" and lvl: "level n = 0" and ok: "leaf_ok q bs" and q: "unat q < 2 ^ 52"
  obtains n' q' bs' h es where "ensure_writable_last_bset n q = Some (n', q')" "level n' = 0"
    "layout n' (bs' @ [(h, es)])" "leaf_ok q' (bs' @ [(h, es)])" "bs_map (bs' @ [(h, es)]) = bs_map bs"
    "unat q \<le> unat q'" "unat q' \<le> unat q + 1" "bsets_total (bs' @ [(h, es)]) \<le> bsets_total bs"
proof -
  note finish = that
  have q1: "unat (q + 1) = unat q + 1" using unat_Suc_small [OF q] .
  then have lt: "q < q + 1" "q \<le> q + 1" by (simp_all add: word_less_nat_alt word_le_nat_alt)
  have good: "good_bsets bs" using ok by (simp add: leaf_ok_def)
  note count = lay_count [OF lay]
  have newb: thesis if c: "length bs < 4" "ensure_writable_last_bset n q = map_option (\<lambda>n. (n, q + 1)) (start_new_bset q n)"
  proof -
    obtain n' where n': "start_new_bset q n = Some n'" "level n' = level n"
      "layout n' (bs @ [(\<lparr>bh_seq = q, bh_nkeys = 0, bh_flags = 0, bh_pad = 0\<rparr>, [])])"
      using layout_start_new_bset [OF lay c(1), of q] by auto
    have "leaf_ok (q + 1) (bs @ [(\<lparr>bh_seq = q, bh_nkeys = 0, bh_flags = 0, bh_pad = 0\<rparr>, [])])"
      unfolding leaf_ok_snoc using ok lt leaf_ok_mono [OF ok lt(2)] by (auto simp: leaf_ok_def)
    then show thesis using n' c(2) lvl q1 by (intro finish [OF _ _ n'(3)]) (simp_all, linarith+)
  qed
  show thesis
  proof (cases "bs = []")
    case True
    then show thesis using newb count by (simp add: ensure_writable_last_bset_def)
  next
    case False
    then obtain bs0 h es where bs: "bs = bs0 @ [(h, es)]" by (metis rev_exhaust surj_pair)
    have hd: "bset_header_at n (length bs - 1) = h" using lay_header_at [OF lay, of "length bs - 1"] by (simp add: bs)
    have nk: "unat (bh_nkeys h) = length es" using lay_ok [OF lay] by (simp add: bs ok_bset_def)
    show thesis
    proof (cases "length es < 7")
      case True
      then have "ensure_writable_last_bset n q = Some (n, q)"
        using False hd nk by (simp add: ensure_writable_last_bset_def count bs)
      then show thesis using lay lvl ok by (intro that [of n q bs0 h es]) (simp_all add: bs)
    next
      case full: False
      show thesis
      proof (cases "length bs < 4")
        case True
        then show thesis
          using newb full hd nk False by (simp add: ensure_writable_last_bset_def count bs)
      next
        case False
        obtain n' h' where c: "compact_leaf_in_place n q = Some n'" "level n' = 0" "layout n' [(h', merged_list bs)]"
          "bh_seq h' = q" "wo_flag h' \<longleftrightarrow> (\<exists>e \<in> set (merged_list bs). kind_enum e = Whiteout)"
          using compact_ok [OF lay good] .
        have "ensure_writable_last_bset n q = Some (n', q + 1)"
          using False full hd nk c(1) by (simp add: ensure_writable_last_bset_def count bs)
        moreover have "leaf_ok (q + 1) ([] @ [(h', merged_list bs)])"
          using c(4,5) lt by (auto intro!: leaf_ok_single)
        ultimately show thesis
          using c q1 merged_list_le [of bs] by (intro that [of n' "q + 1" "[]" h' "merged_list bs"]) simp_all
      qed
    qed
  qed
qed

section \<open>The write of an insertion\<close>

lemma leaf_absorbs_iff:
  assumes "layout n (bs @ [(h, es)])" "good_bsets (bs @ [(h, es)])"
  shows "leaf_absorbs n k \<longleftrightarrow> k \<in> set (entry_keys es)"
  using bset_search_lay [OF assms, of "length bs" k] lay_count [OF assms(1)]
  by (auto simp: leaf_absorbs_def Let_def)

lemma wo_flag_set:
  assumes lay: "layout n (bs @ [(h, es)])" and ok: "leaf_ok q (bs @ [(h, es0)])" "sorted_keys (entry_keys es)"
    and k: "kind \<noteq> Whiteout \<Longrightarrow> wo_flag h \<or> (\<forall>e \<in> set es. kind_enum e \<noteq> Whiteout)" and lvl: "level n = 0"
  obtains n' h' where
    "(if kind = Whiteout then set_bset_needs_whiteout (bset_count n - 1) True n else n) = n'"
    "level n' = 0" "layout n' (bs @ [(h', es)])" "leaf_ok q (bs @ [(h', es)])"
proof (cases "kind = Whiteout")
  case True
  obtain h' where h': "bh_seq h' = bh_seq h" "wo_flag h'"
    "layout (set_bset_needs_whiteout (length bs) True n) (bs @ [(h', es)])"
    using layout_set_needs_whiteout [OF lay, of "length bs" True] by auto
  have "leaf_ok q (bs @ [(h', es)])" using ok h' by (simp add: leaf_ok_snoc)
  then show thesis
    using True h' lay_count [OF lay] lvl by (intro that [of "set_bset_needs_whiteout (length bs) True n" h']) simp_all
next
  case False
  have "leaf_ok q (bs @ [(h, es)])" using ok k [OF False] by (simp add: leaf_ok_snoc)
  then show thesis using False lay lvl by (intro that [of n h]) simp_all
qed

lemma apply_write_ok:
  assumes lay: "layout n bs" and lvl: "level n = 0" and ok: "leaf_ok q bs" and q: "unat q < 2 ^ 52"
    and e: "build_leaf_entry k kind v = Some e" "ok_key k"
    and room: "\<not> leaf_absorbs n k \<Longrightarrow> bsets_total bs < 29"
  obtains n' q' bs' where "apply_write k v kind n (leaf_absorbs n k) q = Some (n', q')" "level n' = 0"
    "layout n' bs'" "leaf_ok q' bs'" "bs_map bs' = (bs_map bs)(k \<mapsto> e)" "unat q \<le> unat q'" "unat q' \<le> unat q + 1"
proof -
  have e': "key_bytes e = k" "sized_entry e" "kind_enum e = kind"
    using build_leaf_entry_ok [OF e(2), of kind v] e(1) by auto
  have good: "good_bsets bs" using ok by (simp add: leaf_ok_def)
  show thesis
  proof (cases "leaf_absorbs n k")
    case True
    then have "bs \<noteq> []" using lay_count [OF lay] by (auto simp: leaf_absorbs_def split: if_splits)
    then obtain bs0 h es where bs: "bs = bs0 @ [(h, es)]" by (metis rev_exhaust surj_pair)
    have mem: "k \<in> set (entry_keys es)" using True leaf_absorbs_iff [of n bs0 h es k] lay good by (simp add: bs)
    have srt: "sorted_keys (entry_keys es)" using ok by (simp add: bs leaf_ok_snoc)
    let ?i = "lower_bound (entry_keys es) k"
    have i: "?i < length es" "key_bytes (es ! ?i) = k" using lower_bound_found [OF srt mem] by auto
    let ?n1 = "update_entry_at (length bs0) ?i (\<lambda>_. e) n"
    have l1: "layout ?n1 (bs0 @ [(h, es[?i := e])])"
      using layout_update_entry [OF lay, of "length bs0" ?i "\<lambda>_. e"] i e'(2) by (simp add: bs)
    note up = keyed_update [OF srt i(1), of e]
    have srch: "bset_search n (bset_count n - 1) k = Inr ?i"
      using bset_search_lay [OF lay good, of "length bs0" k] mem lay_count [OF lay] by (simp add: bs Let_def)
    have "kind \<noteq> Whiteout \<Longrightarrow> wo_flag h \<or> (\<forall>x \<in> set (es[?i := e]). kind_enum x \<noteq> Whiteout)"
      using ok e'(3) set_update_subset_insert [of es ?i e] by (auto simp: bs leaf_ok_snoc)
    then obtain n' h' where n': "(if kind = Whiteout then set_bset_needs_whiteout (bset_count ?n1 - 1) True ?n1 else ?n1) = n'"
      "level n' = 0" "layout n' (bs0 @ [(h', es[?i := e])])" "leaf_ok q (bs0 @ [(h', es[?i := e])])"
      using wo_flag_set [OF l1 ok [unfolded bs], of kind] up(1) i(2) e'(1) lvl by auto
    have "apply_write k v kind n True q = Some (n', q)"
      using srch e(1) n'(1) lay_count [OF lay] by (simp add: apply_write_def bs)
    then show thesis
      using True n' up(2) i(2) e'(1) by (intro that [of n' q]) (auto simp: bs)
  next
    case False
    obtain n0 q0 bs0 h es where w: "ensure_writable_last_bset n q = Some (n0, q0)" "level n0 = 0"
      "layout n0 (bs0 @ [(h, es)])" "leaf_ok q0 (bs0 @ [(h, es)])" "bs_map (bs0 @ [(h, es)]) = bs_map bs"
      "unat q \<le> unat q0" "unat q0 \<le> unat q + 1" "bsets_total (bs0 @ [(h, es)]) \<le> bsets_total bs"
      using ensure_writable_ok [OF lay lvl ok q] .
    have srt: "sorted_keys (entry_keys es)" using w(4) by (simp add: leaf_ok_snoc)
    have "bsets_total bs0 + length es < 29" using w(8) room [OF False] by simp
    then obtain r n1 h1 where n1: "sort_insert_into_last_bset e n0 = Some (r, n1)" "level n1 = level n0"
      "bh_seq h1 = bh_seq h" "bh_flags h1 = bh_flags h" "layout n1 (bs0 @ [(h1, ins_entry e es)])"
      using layout_sort_insert [OF w(3) e'(2) _ srt] by (auto simp: ins_entry_def Let_def)
    have l1: "leaf_ok q0 (bs0 @ [(h1, es)])" using w(4) n1(3,4) by (simp add: leaf_ok_snoc)
    have "kind \<noteq> Whiteout \<Longrightarrow> wo_flag h1 \<or> (\<forall>x \<in> set (ins_entry e es). kind_enum x \<noteq> Whiteout)"
      using w(4) e'(3) n1(4) set_ins_entry [of e es] by (auto simp: leaf_ok_snoc)
    then obtain n' h' where n': "(if kind = Whiteout then set_bset_needs_whiteout (bset_count n1 - 1) True n1 else n1) = n'"
      "level n' = 0" "layout n' (bs0 @ [(h', ins_entry e es)])" "leaf_ok q0 (bs0 @ [(h', ins_entry e es)])"
      using wo_flag_set [OF n1(5) l1 ins_entry_ok(1) [OF srt], of kind] n1(2) w(2) by auto
    have "apply_write k v kind n False q = Some (n', q0)"
      using w(1) n1(1) e(1) n'(1) by (simp add: apply_write_def)
    moreover have "bs_map (bs0 @ [(h', ins_entry e es)]) = (bs_map bs)(k \<mapsto> e)"
      using w(5) ins_entry_ok(2) [OF srt] e'(1) by (auto simp: map_add_upd)
    ultimately show thesis using False n' w(6,7) by (intro that [of n' q0]) auto
  qed
qed

section \<open>Flipping the kind\<close>

lemma set_kind_simps [simp]:
  "key_bytes (set_kind k e) = key_bytes e" "sized_entry (set_kind k e) = sized_entry e"
  "kind_enum (set_kind k e) = k" "entry_value (set_kind k e) = entry_value e"
  "entry_snap_id (set_kind k e) = entry_snap_id e" "logical_key_bytes (set_kind k e) = logical_key_bytes e"
  by (simp_all add: set_kind_def key_bytes_def sized_entry_def kind_enum_def entry_value_def entry_snap_id_def
      logical_key_bytes_def)

lemma flip_best_merged:
  "fold (flip_best_step n k) xs (map_option (\<lambda>h. (mh_bset_idx h, mh_entry_idx h, mh_seq h)) r) =
     map_option (\<lambda>h. (mh_bset_idx h, mh_entry_idx h, mh_seq h)) (fold (merged_find_step n k) xs r)"
proof (induction xs arbitrary: r)
  case (Cons b xs)
  have "flip_best_step n k b (map_option (\<lambda>h. (mh_bset_idx h, mh_entry_idx h, mh_seq h)) r) =
      map_option (\<lambda>h. (mh_bset_idx h, mh_entry_idx h, mh_seq h)) (merged_find_step n k b r)"
    by (auto simp: flip_best_step_def merged_find_step_def Let_def not_le split: sum.splits option.splits)
  then show ?case using Cons.IH by simp
qed simp

lemma bs_map_update_last:
  assumes "b < length bs" "key_bytes e = k" "sorted_keys (entry_keys (snd (bs ! b)))"
    and i: "i < length (snd (bs ! b))" "key_bytes (snd (bs ! b) ! i) = k"
    and last: "\<And>c. b < c \<Longrightarrow> c < length bs \<Longrightarrow> k \<notin> key_bytes ` set (snd (bs ! c))"
  shows "bs_map (bs[b := (h, (snd (bs ! b))[i := e])]) = (bs_map bs)(k \<mapsto> e)"
proof -
  let ?es = "snd (bs ! b)"
  have "k \<notin> dom (bs_map (drop (Suc b) bs))"
  proof
    assume "k \<in> dom (bs_map (drop (Suc b) bs))"
    then obtain x where x: "x \<in> set (drop (Suc b) bs)" "k \<in> key_bytes ` set (snd x)" by (auto simp only: dom_bs_map)
    then obtain j where "j < length bs - Suc b" "x = bs ! (Suc b + j)" by (auto simp: in_set_conv_nth)
    then show False using last [of "Suc b + j"] x(2) by simp
  qed
  then have none: "bs_map (drop (Suc b) bs) k = None" by auto
  have up: "map_of (keyed (?es[i := e])) = (map_of (keyed ?es))(k \<mapsto> e)"
    using keyed_update(2) [OF assms(3) i(1), of e] i(2) assms(2) by simp
  have "bs_map (take b bs @ (h, ?es[i := e]) # drop (Suc b) bs) = (bs_map (take b bs @ bs ! b # drop (Suc b) bs))(k \<mapsto> e)"
    using none by (auto simp: up map_add_def fun_eq_iff split: option.splits)
  then show ?thesis
    using assms(1) id_take_nth_drop [OF assms(1)] by (simp only: upd_conv_take_nth_drop)
qed

lemma good_bsets_update:
  assumes "good_bsets bs" "b < length bs" "bh_seq h = bset_seq (bs ! b)" "sorted_keys (entry_keys es)"
  shows "good_bsets (bs[b := (h, es)])"
proof -
  have "map bset_seq (bs[b := (h, es)]) = map bset_seq bs"
    using assms(2,3) by (simp add: map_update list_update_same_conv)
  then show ?thesis
    using assms set_update_subset_insert [of bs b "(h, es)"] by (fastforce simp: good_bsets_def)
qed

lemma flip_leaf_ok:
  assumes lay: "layout n bs" and lvl: "level n = 0" and ok: "leaf_ok q bs" and e: "bs_map bs k = Some e"
    and nk: "new_kind \<noteq> Whiteout"
  obtains n' bs' where "flip_leaf k new_kind n = Some n'" "level n' = 0" "layout n' bs'" "leaf_ok q bs'"
    "bs_map bs' = (bs_map bs)(k \<mapsto> set_kind new_kind e)"
proof -
  have good: "good_bsets bs" using ok by (simp add: leaf_ok_def)
  obtain h where h: "merged_find n k = Some h" using merged_find_None [OF lay good, of k] e by auto
  let ?b = "mh_bset_idx h" and ?i = "mh_entry_idx h"
  note hit = merged_find_Some [OF lay good h]
  have ei: "snd (bs ! ?b) ! ?i = e" using hit(3,4) e by simp
  have key: "key_bytes e = k" using bs_map_SomeD [OF e] by simp
  have later: "k \<notin> key_bytes ` set (snd (bs ! c))" if "?b < c" "c < length bs" for c
    using merged_find_ok [OF lay good, of k] h that by (auto simp: hit_ok_def)
  have srt: "sorted_keys (entry_keys (snd (bs ! ?b)))" using good_sorted [OF good hit(1)] .
  let ?es = "(snd (bs ! ?b))[?i := set_kind new_kind e]"
  let ?bs = "bs[?b := (fst (bs ! ?b), ?es)]" and ?n = "update_entry_at ?b ?i (set_kind new_kind) n"
  have sz: "sized_entry e" using lay_nth_ok [OF lay hit(1)] ei hit(2) by (auto simp: ok_bset_def)
  have lay': "layout ?n ?bs"
    using layout_update_entry [OF lay hit(1,2), of "set_kind new_kind"] sz ei by simp
  have "fold (flip_best_step n k) [0..<bset_count n] None = Some (?b, ?i, mh_seq h)"
    using flip_best_merged [of n k "[0..<bset_count n]" None] h by (simp add: merged_find_def)
  then have run: "flip_leaf k new_kind n = Some ?n" using nk by (simp add: flip_leaf_def)
  note up = keyed_update [OF srt hit(2), of "set_kind new_kind e"]
  have "good_bsets ?bs" using up(1) ei by (intro good_bsets_update [OF good hit(1)]) simp_all
  moreover have "flags_ok ?bs"
  proof -
    have old: "\<forall>b \<in> set bs. wo_flag (fst b) \<or> (\<forall>x \<in> set (snd b). kind_enum x \<noteq> Whiteout)"
      using ok by (simp add: leaf_ok_def flags_ok_def)
    have new: "x = set_kind new_kind e \<or> x \<in> set (snd (bs ! ?b))" if "x \<in> set ?es" for x
      using that set_update_subset_insert [of "snd (bs ! ?b)" ?i "set_kind new_kind e"] by blast
    have "b = (fst (bs ! ?b), ?es) \<or> b \<in> set bs" if "b \<in> set ?bs" for b
      using that set_update_subset_insert [of bs ?b "(fst (bs ! ?b), ?es)"] by blast
    then show ?thesis
      unfolding flags_ok_def using old new nk bspec [OF old nth_mem [OF hit(1)]] by (metis fst_conv snd_conv set_kind_simps(3))
  qed
  moreover have "\<forall>b \<in> set ?bs. bset_seq b < q"
    using ok nth_mem [OF hit(1)] set_update_subset_insert [of bs ?b "(fst (bs ! ?b), ?es)"]
    by (fastforce simp: leaf_ok_def)
  moreover have "bs_map ?bs = (bs_map bs)(k \<mapsto> set_kind new_kind e)"
    using bs_map_update_last [OF hit(1) _ srt hit(2) _ later, of "set_kind new_kind e"] key ei by simp
  ultimately show thesis using run lay' lvl by (intro that [of ?n ?bs]) (simp_all add: leaf_ok_def)
qed

section \<open>Dropping entries\<close>

definition keep_if :: "(disk_entry \<Rightarrow> bool) \<Rightarrow> (bytes \<rightharpoonup> disk_entry) \<Rightarrow> bytes \<rightharpoonup> disk_entry" where
  "keep_if P m k = (case m k of Some e \<Rightarrow> if P e then Some e else None | None \<Rightarrow> None)"

lemma keyed_keep:
  assumes "distinct (entry_keys es)"
  shows "map_of (keyed (filter P es)) = keep_if P (map_of (keyed es))"
  using assms
proof (induction es)
  case (Cons e es)
  have "map_of (keyed es) (key_bytes e) = None" using Cons.prems by (simp add: keyed_None)
  with Cons show ?case by (auto simp: keep_if_def fun_eq_iff)
qed (simp add: keep_if_def fun_eq_iff)

lemma rebuild_filtered:
  assumes lay: "layout n bs" and ok: "leaf_ok q bs" and q: "unat q < 2 ^ 52"
  obtains n' h where "rebuild_leaf_from_entries n q (filter P (collect_leaf_entries_sorted n)) = Some n'" "level n' = 0"
    "layout n' [(h, filter P (merged_list bs))]" "leaf_ok (q + 1) [(h, filter P (merged_list bs))]"
    "bs_map [(h, filter P (merged_list bs))] = keep_if P (bs_map bs)"
proof -
  let ?es = "filter P (merged_list bs)"
  have good: "good_bsets bs" using ok by (simp add: leaf_ok_def)
  have len: "length ?es \<le> 29"
    using merged_list_le [of bs] lay by (intro order_trans [OF length_filter_le]) (simp add: layout_def)
  have sz: "\<forall>e \<in> set ?es. sized_entry e" using merged_list_sized [OF lay] by auto
  obtain n' h where n': "rebuild_leaf_from_entries n q ?es = Some n'" "level n' = 0" "layout n' [(h, ?es)]"
    "bh_seq h = q" "wo_flag h \<longleftrightarrow> (\<exists>e \<in> set ?es. kind_enum e = Whiteout)"
    using rebuild_ok [OF len sz] .
  have srt: "sorted_keys (entry_keys ?es)"
    using sorted_merged_list [of bs] unfolding sorted_wrt_map by (rule sorted_wrt_filter)
  have "q < q + 1" using unat_Suc_small [OF q] by (simp add: word_less_nat_alt)
  then have "leaf_ok (q + 1) [(h, ?es)]" using n'(4,5) srt by (intro leaf_ok_single) auto
  moreover have "bs_map [(h, ?es)] = keep_if P (bs_map bs)"
    using keyed_keep [OF sorted_distinct [OF sorted_merged_list], of P bs] by simp
  ultimately show thesis using n' collect_leaf_entries [OF lay good] by (intro that [of n' h]) simp_all
qed

section \<open>Splitting a leaf\<close>

lemma leaf_halves:
  assumes lay: "layout n [(h, es)]" and lvl: "level n = 0" and mid: "mid \<le> length es"
  shows "\<exists>h'. bh_seq h' = bh_seq h \<and> bh_flags h' = bh_flags h \<and> layout (set_nkeys mid n) [(h', take mid es)]"
    "\<exists>h'. bh_seq h' = bh_seq h \<and> bh_flags h' = bh_flags h \<and>
       layout (set_nkeys (length es - mid) (set_bset_entries 0 (bsplice 0 (bslice mid (length es - mid) es) es) n))
         [(h', drop mid es)]"
proof -
  show "\<exists>h'. bh_seq h' = bh_seq h \<and> bh_flags h' = bh_flags h \<and> layout (set_nkeys mid n) [(h', take mid es)]"
    using layout_set_nkeys_shrink [OF lay, of mid mid] lvl mid by simp
  let ?es = "bsplice 0 (bslice mid (length es - mid) es) es"
  have sz: "\<forall>e \<in> set es. sized_entry e" using lay_ok [OF lay] by (simp add: ok_bset_def)
  have es': "?es = drop mid es @ drop (length es - mid) es" by (simp add: bsplice_def bslice_def)
  have "layout (set_bset_entries 0 ?es n) [(h, ?es)]"
    using layout_set_entries [OF lay, of 0 ?es] sz mid
    by (auto simp: es' dest: in_set_dropD)
  from layout_set_nkeys_shrink [OF this, of "length es - mid" "length es - mid"] lvl mid
  show "\<exists>h'. bh_seq h' = bh_seq h \<and> bh_flags h' = bh_flags h \<and>
       layout (set_nkeys (length es - mid) (set_bset_entries 0 ?es n)) [(h', drop mid es)]"
    by (simp add: es')
qed

end
