(* ===== verification/Tree_Node.thy ===== *)
theory Tree_Node
  imports Tree_Leaf Store_View
begin

text \<open>
  Internal nodes of the tree: a single bset whose entries are slots with a separator key and a child
  pointer, the last slot holding a child only.  The lemmas give what every step of splitting and
  promoting in \<open>src/btree.rs\<close> does to the slots.
\<close>

section \<open>Slots\<close>

definition slots :: "node \<Rightarrow> bytes list \<Rightarrow> u64 list \<Rightarrow> bool" where
  "slots n ks cs = (\<exists>h es. layout n [(h, es)] \<and> ks = entry_keys es \<and> cs = map (child \<circ> de_payload) es)"

lemma slotsE:
  assumes "slots n ks cs"
  obtains h es where "layout n [(h, es)]" "ks = entry_keys es" "cs = map (child \<circ> de_payload) es"
    "bset_entries n 0 = es" "\<forall>e \<in> set es. sized_entry e" "length ks = length es" "length cs = length es" "length es \<le> 29"
proof -
  obtain h es where l: "layout n [(h, es)]" "ks = entry_keys es" "cs = map (child \<circ> de_payload) es"
    using assms by (auto simp: slots_def)
  moreover have "bset_entries n 0 = es" using lay_entries [OF l(1), of 0] by simp
  moreover have "\<forall>e \<in> set es. sized_entry e" "length es \<le> 29" using l(1) by (auto simp: layout_def ok_bset_def)
  ultimately show thesis by (intro that) simp_all
qed

lemma slots_length: "slots n ks cs \<Longrightarrow> length ks = length cs \<and> length ks \<le> 29"
  by (erule slotsE) simp

lemma slots_sized: "slots n ks cs \<Longrightarrow> sized_node n"
  by (auto simp: slots_def layout_def sized_node_def)

lemma slots_keys: "slots n ks cs \<Longrightarrow> k \<in> set ks \<Longrightarrow> ok_key k"
  by (erule slotsE) (auto simp: sized_key)

lemma slots_entry: "slots n ks cs \<Longrightarrow> i < length ks \<Longrightarrow> key_bytes (entry n i) = ks ! i"
  by (erule slotsE) (simp add: entry_def entry_at_def)

lemma slots_child: "slots n ks cs \<Longrightarrow> i < length ks \<Longrightarrow> child_block n i = cs ! i"
  by (erule slotsE) (simp add: child_block_def child_block_at_def entry_at_def)

lemma slots_nkeys:
  assumes "slots n ks cs" "level n > 0"
  shows "nkeys n = length ks - 1"
  using assms by (auto simp: slots_def nkeys_def Let_def lay_total)

lemma slots_route:
  assumes s: "slots n ks cs" and "level n > 0" and srt: "sorted_keys (butlast ks)"
  shows "route n k = upper_bound (butlast ks) k"
proof -
  obtain h es where es: "ks = entry_keys es" "bset_entries n 0 = es" using slotsE [OF s] by metis
  have "search n k = search_keys (butlast ks) k"
    using assms(2) es by (simp add: search_def search_internal_def Let_def butlast_conv_take take_map)
  then show ?thesis using child_index_search [OF srt] by (simp add: route_def)
qed

lemma child_set_child: "length p = 96 \<Longrightarrow> child (set_child c p) = c"
  by (simp add: child_def set_child_def bsplice_def)

lemma length_set_child: "length p = 96 \<Longrightarrow> length (set_child c p) = 96"
  by (simp add: set_child_def)

lemma slots_set_child:
  assumes s: "slots n ks cs" and i: "i < length ks"
  shows "slots (set_child_block i c n) ks (cs[i := c])"
proof -
  obtain h es where es: "layout n [(h, es)]" "ks = entry_keys es" "cs = map (child \<circ> de_payload) es"
    and sz: "\<forall>e \<in> set es. sized_entry e" and len: "length ks = length es"
    using slotsE [OF s] by metis
  let ?f = "\<lambda>e. e\<lparr>de_payload := set_child c (de_payload e)\<rparr>"
  have il: "i < length es" using i len by simp
  then have szi: "sized_entry (es ! i)" using sz by simp
  have "sized_entry (?f (es ! i))" using szi by (simp add: sized_entry_def length_set_child)
  then have "layout (set_child_block i c n) [(h, es[i := ?f (es ! i)])]"
    using layout_update_entry [OF es(1), of 0 i ?f] il by (simp add: set_child_block_def set_child_block_at_def)
  moreover have "entry_keys (es[i := ?f (es ! i)]) = ks"
    using il by (simp add: es(2) map_update list_update_same_conv key_bytes_def)
  moreover have "map (child \<circ> de_payload) (es[i := ?f (es ! i)]) = cs[i := c]"
    using szi by (simp add: es(3) map_update child_set_child sized_entry_def)
  ultimately show ?thesis unfolding slots_def by metis
qed

lemma slots_set_key:
  assumes s: "slots n ks cs" and i: "i < length ks" and k: "ok_key k"
  obtains n' where "set_entry_key i k n = Some n'" "level n' = level n" "generation n' = generation n" "slots n' (ks[i := k]) cs"
proof -
  obtain h es where es: "layout n [(h, es)]" "ks = entry_keys es" "cs = map (child \<circ> de_payload) es"
    and sz: "\<forall>e \<in> set es. sized_entry e" and len: "length ks = length es" and be: "bset_entries n 0 = es"
    using slotsE [OF s] by metis
  have il: "i < length es" using i len by simp
  have ei: "entry n i = es ! i" by (simp add: entry_def entry_at_def be)
  obtain e where e: "set_key k (es ! i) = Some e" "key_bytes e = k" "sized_entry e" "de_payload e = de_payload (es ! i)"
    using set_key_ok [OF k] sz il nth_mem by metis
  let ?n = "update_entry_at 0 i (\<lambda>_. e) n"
  have "layout ?n [(h, es[i := e])]" using layout_update_entry [OF es(1), of 0 i "\<lambda>_. e"] il e(3) by simp
  moreover have "entry_keys (es[i := e]) = ks[i := k]" by (simp add: es(2) map_update e(2))
  moreover have "map (child \<circ> de_payload) (es[i := e]) = cs"
    using il by (simp add: es(3) map_update e(4) list_update_same_conv)
  ultimately have "slots ?n (ks[i := k]) cs" unfolding slots_def by metis
  then show thesis using e(1) ei by (intro that [of ?n]) (simp_all add: set_entry_key_def)
qed

lemma slots_shrink:
  assumes s: "slots n ks cs" and lvl: "level n > 0" and m: "m < length ks"
  shows "slots (set_nkeys m n) (take (Suc m) ks) (take (Suc m) cs)"
proof -
  obtain h es where es: "layout n [(h, es)]" "ks = entry_keys es" "cs = map (child \<circ> de_payload) es"
    using s by (auto simp: slots_def)
  obtain h' where "layout (set_nkeys m n) [(h', take (Suc m) es)]"
    using layout_set_nkeys_shrink [OF es(1), of "Suc m" m] lvl m es(2) by auto
  then show ?thesis unfolding slots_def by (metis es(2,3) take_map)
qed

lemma slots_set_generation [simp]: "slots (set_generation g n) ks cs = slots n ks cs"
  by (simp add: slots_def)

lemma level_set_generation [simp]: "level (set_generation g n) = level n"
  by (simp add: level_def set_generation_def)

section \<open>Fresh internal nodes\<close>

lemma fresh_slots:
  assumes lvl: "l > 0" and m: "m < 29"
  obtains n where "new_node_on_heap l = Some n" "level n = l"
    "\<forall>g. slots (set_nkeys m (set_generation g n)) (replicate (Suc m) (key_bytes empty_entry)) (replicate (Suc m) 0)"
proof -
  let ?hz = "\<lparr>bh_seq = 0, bh_nkeys = 0, bh_flags = 0, bh_pad = 0\<rparr> :: bset_header"
  let ?h = "\<lparr>bh_seq = 0, bh_nkeys = of_nat (Suc m), bh_flags = 0, bh_pad = 0\<rparr> :: bset_header"
  obtain n where n: "new_node_on_heap l = Some n" "level n = l" "layout n [(?hz, [])]"
    using layout_start_new_bset [of "node_new l" "[]" 0] by (auto simp: new_node_on_heap_def)
  have b: "body n = bset_header_bytes ?hz @ replicate 4016 0"
    using n(1) by (simp add: new_node_on_heap_def start_new_bset_def node_new_def bset_count_def Let_def
        write_bset_header_def bsplice_def)
      (auto simp: write_bset_header_def bsplice_def)
  have rd: "read_bset_header (n\<lparr>header := hd\<rparr>) 0 = ?hz" for hd
    by (simp add: read_bset_header_def b bslice_def)
  let ?es = "replicate (Suc m) empty_entry"
  have "layout (set_nkeys m (set_generation g n)) [(?h, ?es)]" for g
  proof -
    let ?n = "set_nkeys m (set_generation g n)"
    have "body ?n = bset_header_bytes ?h @ replicate 4016 0"
      using lvl n(2) by (simp add: set_nkeys_def rd Let_def write_bset_header_def bsplice_def set_generation_def b level_def
          flip: of_nat_Suc)
    moreover have "replicate 4016 (0 :: byte) = enc_entries ?es @ replicate (4016 - 136 * Suc m) 0"
      using m by (simp add: enc_replicate_empty flip: replicate_add replicate_Suc)
    ultimately have "body ?n = enc_bsets [(?h, ?es)] @ replicate (4016 - 136 * Suc m) 0"
      by (simp add: enc_bset_def)
    moreover have "header ?n = (header n)\<lparr>nh_generation := g\<rparr>"
      by (simp add: set_nkeys_def Let_def write_bset_header_def set_generation_def)
    ultimately show ?thesis
      using n(3) m by (auto simp: layout_def bset_count_def ok_bset_def unat_of_nat_small enc_bset_def
          enc_replicate_empty simp flip: of_nat_Suc replicate_Suc)
  qed
  moreover have "child (de_payload empty_entry) = 0"
    by (simp add: child_def empty_entry_def u64_of_le_def le_nat_zeros)
  ultimately show thesis
    using n by (intro that [of n]) (auto simp: slots_def simp del: replicate_Suc intro!: exI [of _ ?h] exI [of _ ?es])
qed

section \<open>Loops that fill slots\<close>

lemma fold_update_up:
  "x \<le> y \<Longrightarrow> y + d \<le> length K \<Longrightarrow>
     fold (\<lambda>i K. K[i + d := a i]) [x..<y] K = take (x + d) K @ map a [x..<y] @ drop (y + d) K"
proof (induction y)
  case (Suc y)
  show ?case
  proof (cases "x = Suc y")
    case False
    then have IH: "fold (\<lambda>i K. K[i + d := a i]) [x..<y] K = take (x + d) K @ map a [x..<y] @ drop (y + d) K" and "x \<le> y"
      using Suc by auto
    moreover have "drop (y + d) K = K ! (y + d) # drop (Suc (y + d)) K"
      using Suc.prems by (simp add: Cons_nth_drop_Suc)
    ultimately show ?thesis
      using Suc.prems by (simp add: list_update_append min_def)
  qed simp
qed simp

lemma fold_update_down:
  "y - c \<le> length K \<Longrightarrow> fold (\<lambda>i K. K[i - c := a i]) [c..<y] K = map a [c..<y] @ drop (y - c) K"
proof (induction y)
  case (Suc y)
  show ?case
  proof (cases "c \<le> y")
    case True
    then have IH: "fold (\<lambda>i K. K[i - c := a i]) [c..<y] K = map a [c..<y] @ drop (y - c) K"
      using Suc by auto
    moreover have "drop (y - c) K = K ! (y - c) # drop (Suc (y - c)) K"
      using Suc.prems True by (simp add: Cons_nth_drop_Suc Suc_diff_le)
    ultimately show ?thesis using True by (simp add: list_update_append Suc_diff_le)
  qed simp
qed simp

lemma length_fold_update: "length (fold (\<lambda>i K. K[f i := a i]) xs K) = length K"
  by (induction xs arbitrary: K) auto

lemma fill_slots:
  assumes "slots n ks cs" "\<forall>i \<in> set xs. f i < length ks \<and> g i < length ks \<and> ok_key (a i)"
  shows "\<exists>n'. fold_opt (\<lambda>i n. do { n' \<leftarrow> set_entry_key (f i) (a i) n; Some (set_child_block (g i) (b i) n') }) xs n = Some n'
    \<and> level n' = level n
    \<and> slots n' (fold (\<lambda>i K. K[f i := a i]) xs ks) (fold (\<lambda>i C. C[g i := b i]) xs cs)"
  using assms
proof (induction xs arbitrary: n ks cs)
  case (Cons x xs)
  obtain n1 where n1: "set_entry_key (f x) (a x) n = Some n1" "level n1 = level n" "slots n1 (ks[f x := a x]) cs"
    using slots_set_key [OF Cons.prems(1), of "f x" "a x"] Cons.prems(2) by auto
  have "slots (set_child_block (g x) (b x) n1) (ks[f x := a x]) (cs[g x := b x])"
    using slots_set_child [OF n1(3), of "g x"] Cons.prems(2) by simp
  from Cons.IH [OF this] Cons.prems(2) n1 show ?case by auto
qed auto

lemma fill_keys:
  assumes "slots n ks cs" "\<forall>i \<in> set xs. f i < length ks \<and> ok_key (a i)"
  shows "\<exists>n'. fold_opt (\<lambda>i n. set_entry_key (f i) (a i) n) xs n = Some n' \<and> level n' = level n
    \<and> slots n' (fold (\<lambda>i K. K[f i := a i]) xs ks) cs"
  using assms
proof (induction xs arbitrary: n ks)
  case (Cons x xs)
  obtain n1 where n1: "set_entry_key (f x) (a x) n = Some n1" "level n1 = level n" "slots n1 (ks[f x := a x]) cs"
    using slots_set_key [OF Cons.prems(1), of "f x" "a x"] Cons.prems(2) by auto
  from Cons.IH [OF n1(3)] Cons.prems(2) n1 show ?case by auto
qed auto

lemma fill_children:
  assumes "slots n ks cs" "\<forall>i \<in> set xs. g i < length ks"
  shows "level (fold (\<lambda>i n. set_child_block (g i) (b i) n) xs n) = level n
    \<and> slots (fold (\<lambda>i n. set_child_block (g i) (b i) n) xs n) ks (fold (\<lambda>i C. C[g i := b i]) xs cs)"
  using assms
proof (induction xs arbitrary: n cs)
  case (Cons x xs)
  have "slots (set_child_block (g x) (b x) n) ks (cs[g x := b x])"
    using slots_set_child [OF Cons.prems(1), of "g x"] Cons.prems(2) by simp
  from Cons.IH [OF this] Cons.prems(2) show ?case by simp
qed simp

section \<open>Promote, split, new parent\<close>

lemma map_nth_upt: "y \<le> length xs \<Longrightarrow> map (\<lambda>i. xs ! i) [x..<y] = take (y - x) (drop x xs)"
  by (rule nth_equalityI) (auto simp: add.commute)

lemma map_nth_upt_Suc: "Suc y \<le> length xs \<Longrightarrow> map (\<lambda>i. xs ! Suc i) [x..<y] = take (y - x) (drop (Suc x) xs)"
  by (rule nth_equalityI) (auto simp: add.commute)

lemma new_parent_ok:
  assumes "l > 0" "ok_key m"
  obtains n x where "new_parent l g m = Some n" "level n = l" "slots n [m, x] [0, 0]"
proof -
  obtain n0 where n0: "new_node_on_heap l = Some n0" "level n0 = l"
    "\<forall>g. slots (set_nkeys 1 (set_generation g n0)) (replicate (Suc 1) (key_bytes empty_entry)) (replicate (Suc 1) 0)"
    using fresh_slots [OF assms(1), of 1] by auto
  obtain n1 where "set_entry_key 0 m (set_nkeys 1 (set_generation g n0)) = Some n1" "level n1 = level n0"
    "slots n1 ((replicate (Suc 1) (key_bytes empty_entry))[0 := m]) (replicate (Suc 1) 0)"
    using slots_set_key [OF spec [OF n0(3), of g], of 0 m] assms(2) by auto
  then show thesis using n0 by (intro that [of n1 "key_bytes empty_entry"]) (simp_all add: new_parent_def)
qed

lemma drop_slots:
  assumes "ci \<le> m"
  shows "drop ci (replicate (Suc (Suc m)) x) = x # x # replicate (m - ci) x"
    "drop (Suc ci) (replicate (Suc (Suc m)) x) = x # replicate (m - ci) x"
    "drop (Suc (Suc ci)) (replicate (Suc (Suc m)) x) = replicate (m - ci) x"
  using assms by (simp_all only: drop_replicate) (simp_all add: Suc_diff_le)

lemma promoted_ok:
  assumes s: "slots p ks cs" and lvl: "level p > 0" and m: "length ks = Suc m" "m < 28" and ci: "ci \<le> m" and med: "ok_key med"
  obtains n x where "promoted p ci med l r = Some n" "level n = level p"
    "slots n (take ci ks @ med # take (m - ci) (drop ci ks) @ [x]) (take ci cs @ l # r # drop (Suc ci) cs)"
proof -
  have lc: "length cs = Suc m" using slots_length [OF s] m by simp
  have nk: "nkeys p = m" using slots_nkeys [OF s lvl] m by simp
  let ?K0 = "replicate (Suc (Suc m)) (key_bytes empty_entry)" and ?C0 = "replicate (Suc (Suc m)) (0 :: u64)"
  obtain n0 where n0: "new_node_on_heap (level p) = Some n0" "level n0 = level p"
    "\<forall>g. slots (set_nkeys (Suc m) (set_generation g n0)) ?K0 ?C0"
    using fresh_slots [OF lvl, of "Suc m"] m(2) by auto
  let ?n1 = "set_nkeys (m + 1) (set_generation (generation p) n0)"
  have keys: "ok_key (key_bytes (entry p i))" if "i < m" for i
    using that slots_entry [OF s, of i] slots_keys [OF s] m by simp
  let ?step1 = "\<lambda>i n. do { n' \<leftarrow> set_entry_key i (key_bytes (entry p i)) n; Some (set_child_block i (child_block p i) n') }"
  obtain n2 where n2: "fold_opt ?step1 [0..<ci] ?n1 = Some n2" "level n2 = level p"
    "slots n2 (fold (\<lambda>i K. K[i := key_bytes (entry p i)]) [0..<ci] ?K0) (fold (\<lambda>i C. C[i := child_block p i]) [0..<ci] ?C0)"
    using fill_slots [OF spec [OF n0(3), of "generation p"], of "[0..<ci]" "\<lambda>i. i" "\<lambda>i. i" "\<lambda>i. key_bytes (entry p i)" "child_block p"]
      keys ci n0(2) by auto
  have k2: "fold (\<lambda>i K. K[i := key_bytes (entry p i)]) [0..<ci] ?K0 = take ci ks @ drop ci ?K0"
  proof -
    have "fold (\<lambda>i K. K[i := key_bytes (entry p i)]) [0..<ci] ?K0 = map (\<lambda>i. key_bytes (entry p i)) [0..<ci] @ drop ci ?K0"
      using fold_update_up [of 0 ci 0 ?K0 "\<lambda>i. key_bytes (entry p i)"] ci by simp
    also have "map (\<lambda>i. key_bytes (entry p i)) [0..<ci] = map (\<lambda>i. ks ! i) [0..<ci]"
      using slots_entry [OF s] m ci by (intro map_cong) auto
    finally show ?thesis using map_nth_upt [of ci ks 0] m ci by simp
  qed
  have c2: "fold (\<lambda>i C. C[i := child_block p i]) [0..<ci] ?C0 = take ci cs @ drop ci ?C0"
  proof -
    have "fold (\<lambda>i C. C[i := child_block p i]) [0..<ci] ?C0 = map (child_block p) [0..<ci] @ drop ci ?C0"
      using fold_update_up [of 0 ci 0 ?C0 "child_block p"] ci by simp
    also have "map (child_block p) [0..<ci] = map (\<lambda>i. cs ! i) [0..<ci]"
      using slots_child [OF s] m ci by (intro map_cong) auto
    finally show ?thesis using map_nth_upt [of ci cs 0] lc ci by simp
  qed
  let ?K2 = "take ci ks @ drop ci ?K0" and ?C2 = "take ci cs @ drop ci ?C0"
  have s2: "slots n2 ?K2 ?C2" using n2(3) by (simp only: k2 c2)
  obtain n3 where n3: "set_entry_key ci med n2 = Some n3" "level n3 = level p" "slots n3 (?K2[ci := med]) ?C2"
    using slots_set_key [OF s2, of ci med] med m ci n2(2) by auto
  let ?n4 = "set_child_block (ci + 1) r (set_child_block ci l n3)"
  let ?K4 = "?K2[ci := med]" and ?C4 = "?C2[ci := l, ci + 1 := r]"
  have s4: "slots ?n4 ?K4 ?C4"
    using n3(3) m ci by (intro slots_set_child) auto
  let ?step2 = "\<lambda>i n. do { n' \<leftarrow> set_entry_key (i + 1) (key_bytes (entry p i)) n; Some (set_child_block (i + 2) (child_block p (i + 1)) n') }"
  have fill: "\<forall>i\<in>set [ci..<m]. i + 1 < length ?K4 \<and> i + 2 < length ?K4 \<and> ok_key (key_bytes (entry p i))"
    using keys m ci by auto
  obtain n5 where n5: "fold_opt ?step2 [ci..<m] ?n4 = Some n5" "level n5 = level p"
    "slots n5 (fold (\<lambda>i K. K[i + 1 := key_bytes (entry p i)]) [ci..<m] ?K4)
       (fold (\<lambda>i C. C[i + 2 := child_block p (i + 1)]) [ci..<m] ?C4)"
    using fill_slots [OF s4 fill, of "\<lambda>i. child_block p (i + 1)"] n3(2) by auto
  have K4: "?K4 = take ci ks @ med # drop (Suc ci) ?K0" "length ?K4 = Suc (Suc m)"
    using m ci by (simp_all add: list_update_append drop_slots del: replicate_Suc drop_replicate)
  have C4: "?C4 = take ci cs @ l # r # drop (Suc (Suc ci)) ?C0" "length ?C4 = Suc (Suc m)"
    using lc ci by (simp_all add: list_update_append drop_slots del: replicate_Suc drop_replicate)
  have mk: "map (\<lambda>i. key_bytes (entry p i)) [ci..<m] = take (m - ci) (drop ci ks)"
    using map_nth_upt [of m ks ci] slots_entry [OF s] m by (subst map_cong [OF refl, of _ _ "\<lambda>i. ks ! i"]) auto
  have mc: "map (\<lambda>i. child_block p (i + 1)) [ci..<m] = drop (Suc ci) cs"
    using map_nth_upt_Suc [of m cs ci] slots_child [OF s] m lc by (subst map_cong [OF refl, of _ _ "\<lambda>i. cs ! Suc i"]) auto
  have "fold (\<lambda>i K. K[i + 1 := key_bytes (entry p i)]) [ci..<m] ?K4 =
      take (ci + 1) ?K4 @ take (m - ci) (drop ci ks) @ drop (m + 1) ?K4"
    using fold_update_up [OF ci, of 1 ?K4 "\<lambda>i. key_bytes (entry p i)"] K4(2) mk by simp
  also have "\<dots> = take ci ks @ med # take (m - ci) (drop ci ks) @ [key_bytes empty_entry]"
    using m ci unfolding K4(1) by (simp add: Suc_diff_le del: replicate_Suc) simp
  finally have kf: "fold (\<lambda>i K. K[i + 1 := key_bytes (entry p i)]) [ci..<m] ?K4 =
      take ci ks @ med # take (m - ci) (drop ci ks) @ [key_bytes empty_entry]" .
  have "fold (\<lambda>i C. C[i + 2 := child_block p (i + 1)]) [ci..<m] ?C4 =
      take (ci + 2) ?C4 @ drop (Suc ci) cs @ drop (m + 2) ?C4"
    using fold_update_up [OF ci, of 2 ?C4 "\<lambda>i. child_block p (i + 1)"] C4(2) mc by simp
  also have "\<dots> = take ci cs @ l # r # drop (Suc ci) cs"
    using lc ci unfolding C4(1) by (simp add: del: replicate_Suc)
  finally have cf: "fold (\<lambda>i C. C[i + 2 := child_block p (i + 1)]) [ci..<m] ?C4 = take ci cs @ l # r # drop (Suc ci) cs" .
  have "promoted p ci med l r = Some n5"
    using n0(1) n2(1) n3(1) n5(1) by (simp add: promoted_def nk Let_def)
  then show thesis using n5(2,3) that [of n5 "key_bytes empty_entry"] by (simp only: kf cf)
qed

lemma split_right_ok:
  assumes s: "slots p ks cs" and lvl: "level p > 0" and m: "length ks = Suc m" and mid: "mid < m"
  obtains n x where "split_right p m mid = Some n" "level n = level p"
    "slots n (take (m - mid - 1) (drop (Suc mid) ks) @ [x]) (drop (Suc mid) cs)"
proof -
  have lc: "length cs = Suc m" and le: "Suc m \<le> 29" using slots_length [OF s] m by simp_all
  let ?k = "m - mid - 1"
  have kk: "?k < 29" using le by simp
  let ?K0 = "replicate (Suc ?k) (key_bytes empty_entry)" and ?C0 = "replicate (Suc ?k) (0 :: u64)"
  obtain n0 where n0: "new_node_on_heap (level p) = Some n0" "level n0 = level p"
    "\<forall>g. slots (set_nkeys ?k (set_generation g n0)) ?K0 ?C0"
    using fresh_slots [OF lvl kk] .
  let ?n1 = "set_nkeys ?k (set_generation (generation p) n0)"
  have keys: "\<forall>i \<in> set [mid + 1..<m]. i - mid - 1 < length ?K0 \<and> ok_key (key_bytes (entry p i))"
    using slots_entry [OF s] slots_keys [OF s] m by auto
  obtain n2 where n2: "fold_opt (\<lambda>i r. set_entry_key (i - mid - 1) (key_bytes (entry p i)) r) [mid + 1..<m] ?n1 = Some n2"
    "level n2 = level p" "slots n2 (fold (\<lambda>i K. K[i - mid - 1 := key_bytes (entry p i)]) [mid + 1..<m] ?K0) ?C0"
    using fill_keys [OF spec [OF n0(3), of "generation p"] keys] n0(2) by auto
  have "fold (\<lambda>i K. K[i - (mid + 1) := key_bytes (entry p i)]) [mid + 1..<m] ?K0 =
      map (\<lambda>i. key_bytes (entry p i)) [mid + 1..<m] @ drop (m - (mid + 1)) ?K0"
    by (rule fold_update_down) simp
  also have "map (\<lambda>i. key_bytes (entry p i)) [mid + 1..<m] = take ?k (drop (Suc mid) ks)"
    using map_nth_upt [of m ks "mid + 1"] slots_entry [OF s] m by (subst map_cong [OF refl, of _ _ "\<lambda>i. ks ! i"]) auto
  also have "drop (m - (mid + 1)) ?K0 = [key_bytes empty_entry]" by (simp del: replicate_Suc) simp
  finally have kf: "fold (\<lambda>i K. K[i - mid - 1 := key_bytes (entry p i)]) [mid + 1..<m] ?K0 =
      take ?k (drop (Suc mid) ks) @ [key_bytes empty_entry]"
    by (simp only: diff_diff_left)
  let ?n3 = "fold (\<lambda>i r. set_child_block i (child_block p (mid + 1 + i)) r) [0..<?k + 1] n2"
  have len: "length (take ?k (drop (Suc mid) ks) @ [key_bytes empty_entry]) = Suc ?k" using m mid by simp
  have n3: "level ?n3 = level p" "slots ?n3 (take ?k (drop (Suc mid) ks) @ [key_bytes empty_entry])
      (fold (\<lambda>i C. C[i := child_block p (mid + 1 + i)]) [0..<?k + 1] ?C0)"
    using fill_children [OF n2(3) [unfolded kf], of "[0..<?k + 1]" "\<lambda>i. i" "\<lambda>i. child_block p (mid + 1 + i)"] n2(2) len
    by simp_all
  have "fold (\<lambda>i C. C[i := child_block p (mid + 1 + i)]) [0..<?k + 1] ?C0 = map (\<lambda>i. child_block p (mid + 1 + i)) [0..<?k + 1]"
    using fold_update_up [of 0 "?k + 1" 0 ?C0 "\<lambda>i. child_block p (mid + 1 + i)"] by simp
  also have "\<dots> = drop (Suc mid) cs"
    using slots_child [OF s] m lc mid by (intro nth_equalityI) (auto simp del: upt_Suc)
  finally have cf: "fold (\<lambda>i C. C[i := child_block p (mid + 1 + i)]) [0..<?k + 1] ?C0 = drop (Suc mid) cs" .
  have "split_right p m mid = Some ?n3" using n0(1) n2(1) by (simp add: split_right_def Let_def)
  then show thesis using n3 that [of ?n3 "key_bytes empty_entry"] by (simp only: cf)
qed

end
