(* ===== verification/Tree_View.thy ===== *)
theory Tree_View
  imports Tree_Node Free_List
begin

text \<open>
  The abstract tree behind a root block, its well-formedness, and its contents.  \<open>rep\<close> relates the
  nodes of the store to an abstract tree, \<open>wf_tree\<close> is the invariant that \<open>verify_node\<close> of \<open>src/btree.rs\<close>
  checks in the tests, \<open>cont\<close> is the map from sortable keys to entries and \<open>entries\<close> its in-order
  listing.
\<close>

section \<open>Abstract trees\<close>

datatype atree = ALeaf u64 "bset list" | ANode u64 "bytes list" "atree list"

fun blk :: "atree \<Rightarrow> u64" where
  "blk (ALeaf b bs) = b"
| "blk (ANode b ks ts) = b"

fun blocks :: "atree \<Rightarrow> u64 list" where
  "blocks (ALeaf b bs) = [b]"
| "blocks (ANode b ks ts) = b # concat (map blocks ts)"

fun leaf_bsets :: "atree \<Rightarrow> bset list list" where
  "leaf_bsets (ALeaf b bs) = [bs]"
| "leaf_bsets (ANode b ks ts) = concat (map leaf_bsets ts)"

lemma blk_blocks [simp]: "blk t \<in> set (blocks t)"
  by (cases t) auto

text \<open>Separator-in-right: child \<open>i\<close> holds the keys in \<open>[separator (i - 1), separator i)\<close>.\<close>

definition within :: "bytes option \<Rightarrow> bytes option \<Rightarrow> bytes \<Rightarrow> bool" where
  "within lo hi k = ((case lo of None \<Rightarrow> True | Some l \<Rightarrow> l \<le> k) \<and> (case hi of None \<Rightarrow> True | Some h \<Rightarrow> k < h))"

definition lo_at :: "bytes option \<Rightarrow> bytes list \<Rightarrow> nat \<Rightarrow> bytes option" where
  "lo_at lo ks i = (if i = 0 then lo else Some (ks ! (i - 1)))"

definition hi_at :: "bytes option \<Rightarrow> bytes list \<Rightarrow> nat \<Rightarrow> bytes option" where
  "hi_at hi ks i = (if i < length ks then Some (ks ! i) else hi)"

lemma size_nth [termination_simp]: "i < length ts \<Longrightarrow> size (ts ! i) < Suc (size_list size ts)"
  using size_list_estimation [of "ts ! i" ts "size (ts ! i)" size] nth_mem [of i ts]
  by (metis less_Suc_eq_le order_refl size_list_estimation')

definition internal :: "node \<Rightarrow> bytes list \<Rightarrow> u64 list \<Rightarrow> bool" where
  "internal n ks cs = (\<exists>x. slots n (ks @ [x]) cs)"

fun rep :: "block_store \<Rightarrow> nat \<Rightarrow> atree \<Rightarrow> bool" where
  "rep s L (ALeaf b bs) = (L = 0 \<and> (\<exists>n. node_at s b = Some n \<and> level n = 0 \<and> layout n bs))"
| "rep s L (ANode b ks ts) = (0 < L \<and> L < 256 \<and> (\<exists>n. node_at s b = Some n \<and> level n = of_nat L
     \<and> internal n ks (map blk ts)) \<and> (\<forall>t \<in> set ts. rep s (L - 1) t))"

fun wf_tree :: "u64 \<Rightarrow> bytes option \<Rightarrow> bytes option \<Rightarrow> atree \<Rightarrow> bool" where
  "wf_tree q lo hi (ALeaf b bs) = (leaf_ok q bs \<and> (\<forall>k \<in> dom (bs_map bs). within lo hi k))"
| "wf_tree q lo hi (ANode b ks ts) = (length ts = Suc (length ks) \<and> 0 < length ks \<and> length ks \<le> 27 \<and> sorted_keys ks
     \<and> (\<forall>k \<in> set ks. within lo hi k)
     \<and> (\<forall>i < length ts. wf_tree q (lo_at lo ks i) (hi_at hi ks i) (ts ! i)))"

fun cont :: "atree \<Rightarrow> bytes \<rightharpoonup> disk_entry" where
  "cont (ALeaf b bs) k = bs_map bs k"
| "cont (ANode b ks ts) k = (let i = upper_bound ks k in if i < length ts then cont (ts ! i) k else None)"

fun entries :: "atree \<Rightarrow> disk_entry list" where
  "entries (ALeaf b bs) = merged_list bs"
| "entries (ANode b ks ts) = concat (map entries ts)"

section \<open>Routing\<close>

lemma route_within:
  assumes "sorted_keys ks" "within lo hi k"
  shows "within (lo_at lo ks (upper_bound ks k)) (hi_at hi ks (upper_bound ks k)) k"
  using assms upper_bound_nth(1) [OF assms(1), of "upper_bound ks k - 1" k] upper_bound_nth(2) [OF assms(1), of k "upper_bound ks k"]
  by (auto simp: within_def lo_at_def hi_at_def split: option.splits)

lemma within_route:
  assumes srt: "sorted_keys ks" and i: "i \<le> length ks" and w: "within (lo_at lo ks i) (hi_at hi ks i) k"
  shows "upper_bound ks k = i"
proof (rule upper_bound_unique [OF i])
  fix j assume j: "j < i"
  have "ks ! (i - 1) \<le> k" using w j by (auto simp: within_def lo_at_def)
  moreover have "ks ! j \<le> ks ! (i - 1)"
    using srt j i by (cases "j = i - 1") (auto simp: sorted_wrt_iff_nth_less less_imp_le)
  ultimately show "ks ! j \<le> k" by simp
next
  assume "i < length ks"
  then show "k < ks ! i" using w by (auto simp: within_def hi_at_def)
qed

lemma within_child:
  assumes "\<forall>k \<in> set ks. within lo hi k" "i \<le> length ks" "within (lo_at lo ks i) (hi_at hi ks i) k" "sorted_keys ks"
  shows "within lo hi k"
proof (cases "ks = []")
  case False
  have lo: "case lo of None \<Rightarrow> True | Some l \<Rightarrow> l \<le> k"
  proof (cases "i = 0")
    case False
    then have "within lo hi (ks ! (i - 1))" "ks ! (i - 1) \<le> k" using assms(1-3) by (auto simp: within_def lo_at_def)
    then show ?thesis by (auto simp: within_def split: option.splits)
  qed (use assms(3) in \<open>simp add: within_def lo_at_def\<close>)
  have hi: "case hi of None \<Rightarrow> True | Some h \<Rightarrow> k < h"
  proof (cases "i < length ks")
    case True
    then have "within lo hi (ks ! i)" "k < ks ! i" using assms(1,3) by (auto simp: within_def hi_at_def)
    then show ?thesis by (auto simp: within_def split: option.splits)
  qed (use assms(3) in \<open>simp add: within_def hi_at_def\<close>)
  show ?thesis using lo hi by (simp add: within_def)
qed (use assms in \<open>simp add: lo_at_def hi_at_def\<close>)

section \<open>Contents\<close>

lemma cont_within: "wf_tree q lo hi t \<Longrightarrow> cont t k = Some e \<Longrightarrow> within lo hi k \<and> key_bytes e = k"
proof (induction t arbitrary: lo hi)
  case (ALeaf b bs)
  then show ?case by (auto dest: bs_map_SomeD)
next
  case (ANode b ks ts)
  let ?i = "upper_bound ks k"
  have c: "?i < length ts" "cont (ts ! ?i) k = Some e" using ANode.prems(2) by (auto simp: Let_def split: if_splits)
  have w: "wf_tree q (lo_at lo ks ?i) (hi_at hi ks ?i) (ts ! ?i)" using ANode.prems(1) c(1) by simp
  have "within (lo_at lo ks ?i) (hi_at hi ks ?i) k \<and> key_bytes e = k"
    using ANode.IH [OF nth_mem [OF c(1)] w c(2)] .
  then show ?case using within_child [of ks lo hi ?i k] ANode.prems(1) by auto
qed

lemma entries_within: "wf_tree q lo hi t \<Longrightarrow> e \<in> set (entries t) \<Longrightarrow> within lo hi (key_bytes e)"
proof (induction t arbitrary: lo hi)
  case (ALeaf b bs)
  then show ?case using merged_list_subset [of bs] by (fastforce simp: dom_bs_map)
next
  case (ANode b ks ts)
  obtain t where "t \<in> set ts" "e \<in> set (entries t)" using ANode.prems(2) by auto
  then obtain i where i: "i < length ts" "e \<in> set (entries (ts ! i))" by (metis in_set_conv_nth)
  have "within (lo_at lo ks i) (hi_at hi ks i) (key_bytes e)"
    using ANode.IH [OF nth_mem [OF i(1)] _ i(2)] ANode.prems(1) i(1) by simp
  then show ?case using within_child [of ks lo hi i] ANode.prems(1) i(1) by auto
qed

lemma within_order:
  assumes srt: "sorted_keys ks" and ij: "i < j" "j \<le> length ks"
    and w: "within (lo_at lo ks i) (hi_at hi ks i) a" "within (lo_at lo ks j) (hi_at hi ks j) b"
  shows "a < b"
proof -
  have "a < ks ! i" using w(1) ij by (auto simp: within_def hi_at_def)
  also have "ks ! i \<le> ks ! (j - 1)"
    using srt ij by (cases "i = j - 1") (auto simp: sorted_wrt_iff_nth_less less_imp_le)
  also have "ks ! (j - 1) \<le> b" using w(2) ij by (auto simp: within_def lo_at_def)
  finally show ?thesis .
qed

lemma sorted_concat:
  assumes "\<And>i. i < length xss \<Longrightarrow> sorted_keys (xss ! i)"
    "\<And>i j a b. i < j \<Longrightarrow> j < length xss \<Longrightarrow> a \<in> set (xss ! i) \<Longrightarrow> b \<in> set (xss ! j) \<Longrightarrow> a < b"
  shows "sorted_keys (concat xss :: 'a :: linorder list)"
  using assms
proof (induction xss)
  case (Cons xs xss)
  have "sorted_keys (concat xss)"
  proof (rule Cons.IH)
    show "sorted_keys (xss ! i)" if "i < length xss" for i using Cons.prems(1) [of "Suc i"] that by simp
    show "a < b" if "i < j" "j < length xss" "a \<in> set (xss ! i)" "b \<in> set (xss ! j)" for i j a b
      using Cons.prems(2) [of "Suc i" "Suc j"] that by simp
  qed
  moreover have "\<forall>a \<in> set xs. \<forall>b \<in> set (concat xss). a < b"
  proof (intro ballI)
    fix a b assume a: "a \<in> set xs" and "b \<in> set (concat xss)"
    then obtain ys where "ys \<in> set xss" "b \<in> set ys" by auto
    then obtain j where "j < length xss" "b \<in> set (xss ! j)" by (metis in_set_conv_nth)
    then show "a < b" using Cons.prems(2) [of 0 "Suc j" a b] a by simp
  qed
  ultimately show ?case using Cons.prems(1) [of 0] by (simp add: sorted_wrt_append)
qed simp

lemma entries_sorted: "wf_tree q lo hi t \<Longrightarrow> sorted_keys (entry_keys (entries t))"
proof (induction t arbitrary: lo hi)
  case (ANode b ks ts)
  have eq: "entry_keys (entries (ANode b ks ts)) = concat (map (\<lambda>t. entry_keys (entries t)) ts)"
    by (simp add: map_concat comp_def)
  show ?case
    unfolding eq
  proof (rule sorted_concat)
    show "sorted_keys (map (\<lambda>t. entry_keys (entries t)) ts ! i)"
      if i: "i < length (map (\<lambda>t. entry_keys (entries t)) ts)" for i
    proof -
      have "i < length ts" using i by simp
      with ANode.IH [OF nth_mem, of i "lo_at lo ks i" "hi_at hi ks i"] ANode.prems show ?thesis by simp
    qed
    show "a < c" if ij: "i < j" "j < length (map (\<lambda>t. entry_keys (entries t)) ts)"
      "a \<in> set (map (\<lambda>t. entry_keys (entries t)) ts ! i)" "c \<in> set (map (\<lambda>t. entry_keys (entries t)) ts ! j)" for i j a c
    proof -
      have w: "wf_tree q (lo_at lo ks m) (hi_at hi ks m) (ts ! m)" if "m < length ts" for m
        using ANode.prems that by simp
      obtain x y where "x \<in> set (entries (ts ! i))" "a = key_bytes x" "y \<in> set (entries (ts ! j))" "c = key_bytes y"
        using ij by auto
      then have "within (lo_at lo ks i) (hi_at hi ks i) a" "within (lo_at lo ks j) (hi_at hi ks j) c"
        using ij entries_within [OF w [of i]] entries_within [OF w [of j]] by auto
      then show ?thesis using within_order [of ks i j] ij ANode.prems by simp
    qed
  qed
qed simp

text \<open>The listing and the map agree.\<close>

lemma entries_cont: "wf_tree q lo hi t \<Longrightarrow> map_of (keyed (entries t)) = cont t"
proof (induction t arbitrary: lo hi)
  case (ALeaf b bs)
  then show ?case by (simp add: fun_eq_iff)
next
  case (ANode b ks ts)
  show ?case
  proof
    fix k
    have srt: "sorted_keys ks" and len: "length ts = Suc (length ks)" using ANode.prems by auto
    let ?i = "upper_bound ks k"
    have i: "?i < length ts" using len by (simp add: less_Suc_eq_le)
    have wi: "wf_tree q (lo_at lo ks j) (hi_at hi ks j) (ts ! j)" if "j < length ts" for j using ANode.prems that by simp
    note IH = ANode.IH [OF nth_mem [OF i] wi [OF i]]
    have dist: "distinct (entry_keys (entries (ANode b ks ts)))"
      using sorted_distinct [OF entries_sorted [OF ANode.prems]] .
    show "map_of (keyed (entries (ANode b ks ts))) k = cont (ANode b ks ts) k"
    proof (cases "cont (ts ! ?i) k")
      case None
      have "k \<notin> key_bytes ` set (entries (ts ! j))" if j: "j < length ts" for j
      proof
        assume "k \<in> key_bytes ` set (entries (ts ! j))"
        then obtain e where e: "e \<in> set (entries (ts ! j))" "key_bytes e = k" by auto
        have "within (lo_at lo ks j) (hi_at hi ks j) k" using entries_within [OF wi [OF j] e(1)] e(2) by simp
        then have "?i = j" using within_route [OF srt, of j lo hi k] j len by simp
        then show False using IH None e by (metis imageI keyed_None)
      qed
      then have "\<forall>t \<in> set ts. k \<notin> key_bytes ` set (entries t)" by (metis in_set_conv_nth)
      then have "k \<notin> key_bytes ` set (entries (ANode b ks ts))" by auto
      then have "map_of (keyed (entries (ANode b ks ts))) k = None" by (simp only: keyed_None not_False_eq_True)
      then show ?thesis using None i by (simp add: Let_def)
    next
      case (Some e)
      then have e: "e \<in> set (entries (ts ! ?i))" "key_bytes e = k"
        using IH keyed_SomeD [of "entries (ts ! ?i)" k e] by auto
      then have "e \<in> set (entries (ANode b ks ts))" using nth_mem [OF i] by auto
      then have "(k, e) \<in> set (keyed (entries (ANode b ks ts)))" using e(2) by (auto simp: keyed_def)
      then have "map_of (keyed (entries (ANode b ks ts))) k = Some e"
        using dist by (intro map_of_is_SomeI) (simp_all only: keyed_simps)
      then show ?thesis using Some i by (simp add: Let_def)
    qed
  qed
qed

end
