(* ===== verification/Tree_Read.thy ===== *)
theory Tree_Read
  imports Tree_View
begin

text \<open>
  Reading the tree: point lookup, the two range scans, the traversal that collects node blocks, and
  the snapshot-aware lookup.  Reads only fault nodes into the cache (\<open>quiet\<close>), and they return
  normally on every well-formed tree that the fuel covers.
\<close>

section \<open>Quiet steps\<close>

definition quiet :: "tctx \<Rightarrow> tctx \<Rightarrow> bool" where
  "quiet c c' = (faulted (store c) (store c') \<and> next_bset_seq c' = next_bset_seq c)"

lemma quiet_refl [simp, intro]: "quiet c c"
  by (simp add: quiet_def)

lemma quiet_trans [trans]: "quiet c c' \<Longrightarrow> quiet c' c'' \<Longrightarrow> quiet c c''"
  by (auto simp: quiet_def intro: faulted_trans)

lemma quiet_node_at: "quiet c c' \<Longrightarrow> node_at (store c') b = node_at (store c) b"
  by (simp add: quiet_def faulted_node_at)

lemma runs_read:
  assumes "node_at (store c) b = Some n" "\<And>c'. quiet c c' \<Longrightarrow> node_cache (store c') b \<noteq> None \<Longrightarrow> Q n c'"
  shows "runs (read_node b) c Q"
proof -
  obtain s' where s: "with_node b (store c) = (Inr n, s')" "faulted (store c) s'" "node_cache s' b \<noteq> None"
    using with_node_ok [OF assms(1)] by auto
  have "Q n (c\<lparr>store := s'\<rparr>)" using s by (intro assms(2)) (simp_all add: quiet_def)
  then show ?thesis using s(1) by (simp add: read_node_def on_store_def runs_on_part) (simp add: runs_def)
qed

lemma runs_quiet:
  "quiet c c' \<Longrightarrow> runs m c' (\<lambda>r d. r = x \<and> quiet c' d) \<Longrightarrow> runs m c' (\<lambda>r d. r = x \<and> quiet c d)"
  by (erule runs_mono) (auto intro: quiet_trans)

lemma rep_mono:
  "rep s L t \<Longrightarrow> (\<And>b n. b \<in> set (blocks t) \<Longrightarrow> node_at s b = Some n \<Longrightarrow> node_at s' b = Some n) \<Longrightarrow> rep s' L t"
proof (induction t arbitrary: L)
  case (ALeaf b bs)
  then show ?case by auto
next
  case (ANode b ks ts)
  have "rep s' (L - 1) t" if t: "t \<in> set ts" for t
    using ANode.prems t by (intro ANode.IH [OF t]) auto
  then show ?case using ANode.prems by auto
qed

lemma rep_quiet: "quiet c c' \<Longrightarrow> rep (store c) L t \<Longrightarrow> rep (store c') L t"
  by (erule rep_mono) (simp add: quiet_node_at)

lemma rep_leafE:
  assumes "rep s L (ALeaf b bs)"
  obtains n where "L = 0" "node_at s b = Some n" "level n = 0" "layout n bs"
  using assms by auto

lemma rep_nodeE:
  assumes "rep s L (ANode b ks ts)"
  obtains n x L' where "L = Suc L'" "L < 256" "node_at s b = Some n" "level n = of_nat L" "0 < level n" "level n \<noteq> 0"
    "slots n (ks @ [x]) (map blk ts)" "length ts = Suc (length ks)" "\<And>t. t \<in> set ts \<Longrightarrow> rep s L' t"
proof -
  obtain n x where n: "0 < L" "L < 256" "node_at s b = Some n" "level n = of_nat L" "slots n (ks @ [x]) (map blk ts)"
    using assms by (auto simp: internal_def)
  have "unat (level n) = L" using n(2,4) by (simp add: unat_of_nat_small)
  then have pos: "0 < level n" "level n \<noteq> 0" using n(1) by (auto simp: word_less_nat_alt)
  have "length ts = Suc (length ks)" using slots_length [OF n(5)] by simp
  then show thesis using n pos assms by (intro that [of "L - 1" n x]) auto
qed

lemma node_children:
  assumes "slots n (ks @ [x]) (map blk ts)" "0 < level n" "sorted_keys ks"
  shows "route n k = upper_bound ks k" "i \<le> length ks \<Longrightarrow> child_block n i = blk (ts ! i)"
    "nkeys n = length ks" "children n = map blk ts" "i < length ks \<Longrightarrow> key_bytes (entry n i) = ks ! i"
proof -
  have len: "length ts = Suc (length ks)" using slots_length [OF assms(1)] by simp
  show "route n k = upper_bound ks k" using slots_route [OF assms(1,2)] assms(3) by simp
  show nk: "nkeys n = length ks" using slots_nkeys [OF assms(1,2)] by simp
  show cb: "i \<le> length ks \<Longrightarrow> child_block n i = blk (ts ! i)" for i using slots_child [OF assms(1), of i] len by simp
  show "children n = map blk ts"
    using cb len by (intro nth_equalityI) (simp_all add: children_def nk nth_append del: upt_Suc)
  show "i < length ks \<Longrightarrow> key_bytes (entry n i) = ks ! i" using slots_entry [OF assms(1), of i] by (simp add: nth_append)
qed

section \<open>Point lookup\<close>

definition entry_result :: "disk_entry \<Rightarrow> bytes \<times> entry_kind" where
  "entry_result e = (entry_value e, kind_enum e)"

lemma find_raw_ok:
  assumes "rep (store c) L t" "wf_tree q lo hi t" "L < fuel"
  shows "runs (find_raw fuel (blk t) k) c (\<lambda>r c'. r = map_option entry_result (cont t k) \<and> quiet c c')"
  using assms
proof (induction fuel arbitrary: c L t lo hi)
  case (Suc fuel)
  show ?case
  proof (cases t)
    case (ALeaf b bs)
    obtain n where n: "node_at (store c) b = Some n" "level n = 0" "layout n bs" using Suc.prems(1) ALeaf by auto
    have good: "good_bsets bs" using Suc.prems(2) ALeaf by (simp add: leaf_ok_def)
    have "(case merged_find n k of Some hit \<Rightarrow> Some (value_bytes_at n (mh_bset_idx hit) (mh_entry_idx hit),
          kind_enum (entry_at n (mh_bset_idx hit) (mh_entry_idx hit))) | None \<Rightarrow> None) = map_option entry_result (bs_map bs k)"
    proof (cases "merged_find n k")
      case None
      then have "bs_map bs k = None" using merged_find_None [OF n(3) good, of k] by blast
      then show ?thesis using None by simp
    next
      case (Some h)
      then show ?thesis using merged_find_Some [OF n(3) good Some] by (simp add: entry_result_def value_bytes_at_def)
    qed
    with n show ?thesis by (auto simp: ALeaf intro!: runs_read [OF n(1)])
  next
    case (ANode b ks ts)
    obtain n x L' where n: "L = Suc L'" "node_at (store c) b = Some n" "0 < level n" "level n \<noteq> 0"
      "slots n (ks @ [x]) (map blk ts)" "length ts = Suc (length ks)" "\<And>t. t \<in> set ts \<Longrightarrow> rep (store c) L' t"
      using rep_nodeE [of "store c" L b ks ts] Suc.prems(1) ANode by metis
    have srt: "sorted_keys ks" using Suc.prems(2) ANode by simp
    let ?i = "upper_bound ks k"
    have i: "?i < length ts" using n(6) by (simp add: less_Suc_eq_le)
    note nc = node_children [OF n(5,3) srt]
    show ?thesis
      unfolding ANode find_raw.simps blk.simps runs_bind
    proof (rule runs_read [OF n(2)])
      fix c' assume q: "quiet c c'"
      have "runs (find_raw fuel (blk (ts ! ?i)) k) c' (\<lambda>r c''. r = map_option entry_result (cont (ts ! ?i) k) \<and> quiet c' c'')"
        using Suc.prems ANode n(1) i
        by (intro Suc.IH [of _ L' _ "lo_at lo ks ?i" "hi_at hi ks ?i"] rep_quiet [OF q] n(7)) auto
      then show "runs (if level n = 0 then ret (case merged_find n k of None \<Rightarrow> None
            | Some hit \<Rightarrow> Some (value_bytes_at n (mh_bset_idx hit) (mh_entry_idx hit),
                kind_enum (entry_at n (mh_bset_idx hit) (mh_entry_idx hit))))
          else find_raw fuel (child_block n (route n k)) k) c'
          (\<lambda>r c'. r = map_option entry_result (cont (ANode b ks ts) k) \<and> quiet c c')"
        using n(4) nc(1) nc(2) [of ?i] i q by (auto simp: Let_def elim!: runs_mono intro: quiet_trans)
    qed
  qed
qed simp

section \<open>Range scans\<close>

definition all_row :: "disk_entry \<Rightarrow> all_snap_row" where
  "all_row e = (logical_key_bytes e, entry_snap_id e, kind_enum e, entry_value e)"

definition live_row :: "disk_entry \<Rightarrow> bytes \<times> bytes" where
  "live_row e = (logical_key_bytes e, entry_value e)"

abbreviation in_range :: "bytes \<Rightarrow> bytes \<Rightarrow> disk_entry \<Rightarrow> bool" where
  "in_range start en e \<equiv> start \<le> key_bytes e \<and> key_bytes e < en"

lemma sorted_past_end:
  assumes "sorted_keys (entry_keys (e # es))" "\<not> key_bytes e < en"
  shows "filter (in_range start en) es = []"
  using assms by (fastforce simp: filter_empty_conv)

lemma scan_leaf_all_eq:
  "sorted_keys (entry_keys (emitted n ps)) \<Longrightarrow>
     scan_leaf_all n start en ps = map all_row (filter (in_range start en) (emitted n ps))"
proof (induction n start en ps rule: scan_leaf_all.induct)
  case (2 n start en b i ps)
  have "sorted_keys (entry_keys (emitted n ps))" using "2.prems" by (simp add: emitted_def)
  with 2 sorted_past_end [of "entry_at n b i" "emitted n ps" en start] show ?case
    by (auto simp: emitted_def Let_def all_row_def value_bytes_at_def not_less not_le)
qed (simp add: emitted_def)

lemma scan_leaf_eq:
  "sorted_keys (entry_keys (emitted n ps)) \<Longrightarrow>
     scan_leaf n start en ps = map live_row (filter (\<lambda>e. kind_enum e = Live) (filter (in_range start en) (emitted n ps)))"
proof (induction ps)
  case (Cons p ps)
  obtain b i where p: "p = (b, i)" by (cases p)
  let ?e = "entry_at n b i"
  have em: "emitted n ((b, i) # ps) = ?e # emitted n ps" by (simp add: emitted_def)
  have IH: "scan_leaf n start en ps = map live_row (filter (\<lambda>e. kind_enum e = Live) (filter (in_range start en) (emitted n ps)))"
    using Cons.IH Cons.prems em p by simp
  show ?case
  proof (cases "key_bytes ?e < en")
    case True
    then show ?thesis
      unfolding p em using IH by (auto simp: Let_def live_row_def [of ?e] value_bytes_at_def not_less not_le simp del: filter_filter)
  next
    case False
    then have "filter (in_range start en) (emitted n ps) = []"
      using sorted_past_end [of ?e "emitted n ps" en start] Cons.prems em p by simp
    then show ?thesis
      unfolding p em using False IH by (auto simp: Let_def simp del: filter_filter)
  qed
qed (simp add: emitted_def)

text \<open>The plan of an internal node covers every child that can hold a key of the range, and stopping
  at a separator past the end loses nothing.\<close>

lemma scan_plan_eq:
  assumes "slots n (ks @ [x]) (map blk ts)" "0 < level n" "sorted_keys ks"
  shows "scan_plan n start = map (\<lambda>i. (blk (ts ! i), if i < length ks then Some (ks ! i) else None)) [upper_bound ks start..<length ts]"
proof -
  note nc = node_children [OF assms]
  have len: "length ts = Suc (length ks)" using slots_length [OF assms(1)] by simp
  have "upper_bound ks start < Suc (length ks)" by (simp add: less_Suc_eq_le)
  then show ?thesis
    using nc len by (auto simp: scan_plan_def Let_def simp del: upt_Suc)
qed

lemma run_plan_ok:
  assumes scan: "\<And>i c. i0 \<le> i \<Longrightarrow> i < length ts \<Longrightarrow> quiet c0 c \<Longrightarrow>
      runs (scan (blk (ts ! i))) c (\<lambda>r c'. r = R (ts ! i) \<and> quiet c c')"
    and stop: "\<And>i j. i < length ks \<Longrightarrow> en \<le> ks ! i \<Longrightarrow> i < j \<Longrightarrow> j < length ts \<Longrightarrow> R (ts ! j) = []"
    and "quiet c0 c" "i0 \<le> length ts"
  shows "runs (run_plan scan en (map (\<lambda>i. (blk (ts ! i), if i < length ks then Some (ks ! i) else None)) [i0..<length ts])) c
     (\<lambda>r c'. r = concat (map R (drop i0 ts)) \<and> quiet c c')"
  using assms(1,3,4)
proof (induction "length ts - i0" arbitrary: i0 c)
  case 0
  then show ?case by simp
next
  case (Suc m)
  then have i0: "i0 < length ts" by simp
  have plan: "map (\<lambda>i. (blk (ts ! i), if i < length ks then Some (ks ! i) else None)) [i0..<length ts] =
      (blk (ts ! i0), if i0 < length ks then Some (ks ! i0) else None) #
      map (\<lambda>i. (blk (ts ! i), if i < length ks then Some (ks ! i) else None)) [Suc i0..<length ts]"
    using i0 by (simp add: upt_conv_Cons)
  have dr: "drop i0 ts = ts ! i0 # drop (Suc i0) ts" using i0 by (simp add: Cons_nth_drop_Suc)
  have rest: "concat (map R (drop (Suc i0) ts)) = []" if "i0 < length ks" "en \<le> ks ! i0"
  proof -
    have "R t = []" if t: "t \<in> set (drop (Suc i0) ts)" for t
    proof -
      obtain j where "j < length (drop (Suc i0) ts)" "t = drop (Suc i0) ts ! j" using t by (metis in_set_conv_nth)
      then show ?thesis using stop [of i0 "Suc i0 + j"] \<open>i0 < length ks\<close> \<open>en \<le> ks ! i0\<close> by simp
    qed
    then show ?thesis by simp
  qed
  have cont: "runs (run_plan scan en (map (\<lambda>i. (blk (ts ! i), if i < length ks then Some (ks ! i) else None)) [Suc i0..<length ts])) c'
      (\<lambda>r c''. r = concat (map R (drop (Suc i0) ts)) \<and> quiet c' c'')" if q: "quiet c c'" for c'
    using Suc.hyps(2) i0 Suc.prems(1) quiet_trans [OF Suc.prems(2) q] by (intro Suc.hyps(1)) auto
  show ?case
    unfolding plan
    by (auto simp: dr rest intro!: runs_mono [OF Suc.prems(1) [OF order_refl i0 Suc.prems(2)]] runs_mono [OF cont]
        intro: quiet_trans)
qed

lemma scan_internal_ok:
  assumes n: "slots n (ks @ [x]) (map blk ts)" "0 < level n" and wt: "wf_tree q lo hi (ANode b ks ts)"
    and scan: "\<And>i c. i < length ts \<Longrightarrow> quiet c0 c \<Longrightarrow>
      runs (scan (blk (ts ! i))) c (\<lambda>r c'. r = R (filter (in_range start en) (entries (ts ! i))) \<and> quiet c c')"
    and R: "R [] = []" "\<And>xs ys. R (xs @ ys) = R xs @ R ys"
  shows "runs (run_plan scan en (scan_plan n start)) c0
     (\<lambda>r c'. r = R (filter (in_range start en) (entries (ANode b ks ts))) \<and> quiet c0 c')"
proof -
  let ?i = "upper_bound ks start" and ?R = "\<lambda>t. R (filter (in_range start en) (entries t))"
  have srt: "sorted_keys ks" and len: "length ts = Suc (length ks)" using wt by auto
  have w: "within (lo_at lo ks j) (hi_at hi ks j) (key_bytes e)" if "j < length ts" "e \<in> set (entries (ts ! j))" for j e
    by (rule entries_within [of q _ _ "ts ! j"]) (use wt that in auto)
  have low: "filter (in_range start en) (entries (ts ! j)) = []" if j: "j < ?i" for j
  proof -
    have jl: "j < length ks" using order_less_le_trans [OF j upper_bound_le] .
    have "ks ! j \<le> start" using upper_bound_nth(1) [OF srt j] .
    moreover have "key_bytes e < ks ! j" if "e \<in> set (entries (ts ! j))" for e
      using w [of j e] that jl len by (auto simp: within_def hi_at_def)
    ultimately show ?thesis by (force simp: filter_empty_conv)
  qed
  have high: "filter (in_range start en) (entries (ts ! j)) = []"
    if i: "i < length ks" "en \<le> ks ! i" "i < j" "j < length ts" for i j
  proof -
    have "ks ! i \<le> ks ! (j - 1)"
      using srt i len by (cases "i = j - 1") (auto simp: sorted_wrt_iff_nth_less less_imp_le)
    moreover have "ks ! (j - 1) \<le> key_bytes e" if "e \<in> set (entries (ts ! j))" for e
      using w [of j e] that i by (auto simp: within_def lo_at_def)
    ultimately show ?thesis using i(2) by (force simp: filter_empty_conv)
  qed
  have Rc: "R (concat xss) = concat (map R xss)" for xss by (induction xss) (simp_all add: R)
  have "?R t = []" if t: "t \<in> set (take ?i ts)" for t
  proof -
    obtain j where "j < length (take ?i ts)" "t = take ?i ts ! j" using t unfolding in_set_conv_nth by blast
    then show ?thesis using low [of j] R(1) by simp
  qed
  then have "concat (map ?R (take ?i ts)) = []" by simp
  then have "concat (map ?R (take ?i ts @ drop ?i ts)) = concat (map ?R (drop ?i ts))"
    by (simp only: map_append concat_append append_Nil)
  then have "concat (map ?R (drop ?i ts)) = concat (map ?R ts)"
    by (simp only: append_take_drop_id)
  also have "\<dots> = R (filter (in_range start en) (entries (ANode b ks ts)))"
    by (simp add: filter_concat Rc comp_def)
  finally have eq: "concat (map ?R (drop ?i ts)) = R (filter (in_range start en) (entries (ANode b ks ts)))" .
  have "runs (run_plan scan en (scan_plan n start)) c0 (\<lambda>r c'. r = concat (map ?R (drop ?i ts)) \<and> quiet c0 c')"
    unfolding scan_plan_eq [OF n srt]
    using scan high R(1) len by (intro run_plan_ok [of _ _ c0]) (auto intro: le_SucI)
  then show ?thesis unfolding eq .
qed

lemma range_scan_all_ok:
  assumes "rep (store c) L t" "wf_tree q lo hi t" "L < fuel"
  shows "runs (range_scan_all fuel (blk t) start en) c
     (\<lambda>r c'. r = map all_row (filter (in_range start en) (entries t)) \<and> quiet c c')"
  using assms
proof (induction fuel arbitrary: c L t lo hi)
  case (Suc fuel)
  show ?case
  proof (cases t)
    case (ALeaf b bs)
    obtain n where n: "node_at (store c) b = Some n" "level n = 0" "layout n bs" using Suc.prems(1) ALeaf by auto
    have good: "good_bsets bs" using Suc.prems(2) ALeaf by (simp add: leaf_ok_def)
    note em = merged_collect_new [OF n(3) good]
    show ?thesis
      unfolding ALeaf range_scan_all.simps blk.simps runs_bind
      by (rule runs_read [OF n(1)]) (use n(2) em in \<open>simp add: scan_leaf_all_eq\<close>)
  next
    case (ANode b ks ts)
    obtain n x L' where n: "L = Suc L'" "node_at (store c) b = Some n" "0 < level n" "level n \<noteq> 0"
      "slots n (ks @ [x]) (map blk ts)" "\<And>t. t \<in> set ts \<Longrightarrow> rep (store c) L' t"
      using rep_nodeE [of "store c" L b ks ts] Suc.prems(1) ANode by metis
    have "runs (run_plan (\<lambda>b. range_scan_all fuel b start en) en (scan_plan n start)) c'
        (\<lambda>r c''. r = map all_row (filter (in_range start en) (entries (ANode b ks ts))) \<and> quiet c' c'')"
      if q: "quiet c c'" for c'
    proof (rule scan_internal_ok [OF n(5,3), of q lo hi b])
      fix i d assume i: "i < length ts" "quiet c' d"
      show "runs (range_scan_all fuel (blk (ts ! i)) start en) d
          (\<lambda>r d'. r = map all_row (filter (in_range start en) (entries (ts ! i))) \<and> quiet d d')"
        using Suc.prems ANode n(1) i(1)
        by (intro Suc.IH [of _ L' _ "lo_at lo ks i" "hi_at hi ks i"] rep_quiet [OF quiet_trans [OF q i(2)]] n(6)) auto
    qed (use Suc.prems(2) ANode in auto)
    then show ?thesis
      unfolding ANode range_scan_all.simps blk.simps runs_bind
      using n(4) by (intro runs_read [OF n(2)]) (simp only: if_False, blast intro: runs_quiet)
  qed
qed simp

lemma range_scan_ok:
  assumes "rep (store c) L t" "wf_tree q lo hi t" "L < fuel"
  shows "runs (range_scan fuel (blk t) start en) c
     (\<lambda>r c'. r = map live_row (filter (\<lambda>e. kind_enum e = Live) (filter (in_range start en) (entries t))) \<and> quiet c c')"
  using assms
proof (induction fuel arbitrary: c L t lo hi)
  case (Suc fuel)
  show ?case
  proof (cases t)
    case (ALeaf b bs)
    obtain n where n: "node_at (store c) b = Some n" "level n = 0" "layout n bs" using Suc.prems(1) ALeaf by auto
    have good: "good_bsets bs" using Suc.prems(2) ALeaf by (simp add: leaf_ok_def)
    note em = merged_collect_new [OF n(3) good]
    show ?thesis
      unfolding ALeaf range_scan.simps blk.simps runs_bind
      by (rule runs_read [OF n(1)]) (use n(2) em in \<open>simp add: scan_leaf_eq\<close>)
  next
    case (ANode b ks ts)
    obtain n x L' where n: "L = Suc L'" "node_at (store c) b = Some n" "0 < level n" "level n \<noteq> 0"
      "slots n (ks @ [x]) (map blk ts)" "\<And>t. t \<in> set ts \<Longrightarrow> rep (store c) L' t"
      using rep_nodeE [of "store c" L b ks ts] Suc.prems(1) ANode by metis
    let ?R = "\<lambda>es. map live_row (filter (\<lambda>e. kind_enum e = Live) es)"
    have "runs (run_plan (\<lambda>b. range_scan fuel b start en) en (scan_plan n start)) c'
        (\<lambda>r c''. r = ?R (filter (in_range start en) (entries (ANode b ks ts))) \<and> quiet c' c'')"
      if q: "quiet c c'" for c'
    proof (rule scan_internal_ok [OF n(5,3), of q lo hi b _ _ ?R])
      fix i d assume i: "i < length ts" "quiet c' d"
      show "runs (range_scan fuel (blk (ts ! i)) start en) d
          (\<lambda>r d'. r = ?R (filter (in_range start en) (entries (ts ! i))) \<and> quiet d d')"
        using Suc.prems ANode n(1) i(1)
        by (intro Suc.IH [of _ L' _ "lo_at lo ks i" "hi_at hi ks i"] rep_quiet [OF quiet_trans [OF q i(2)]] n(6)) auto
    qed (use Suc.prems(2) ANode in auto)
    then show ?thesis
      unfolding ANode range_scan.simps blk.simps runs_bind
      using n(4) by (intro runs_read [OF n(2)]) (simp only: if_False, blast intro: runs_quiet)
  qed
qed simp

end
