(* ===== verification/Tree_Shape.thy ===== *)
theory Tree_Shape
  imports Tree_Read
begin

text \<open>
  The three shape changes of an insertion, on abstract trees: a child is replaced, a child is split
  and its separator promoted, and an overfull node is divided.  Each keeps the invariant and says
  what it does to the contents.
\<close>

section \<open>Routing over edited separators\<close>

lemma upper_bound_count: "sorted_keys ks \<Longrightarrow> upper_bound ks k = length (filter (\<lambda>x. x \<le> k) ks)"
proof (induction ks)
  case (Cons a ks)
  show ?case
  proof (cases "a \<le> k")
    case True
    then show ?thesis using Cons by (simp add: upper_bound_def)
  next
    case False
    then have "filter (\<lambda>x. x \<le> k) ks = []" using Cons.prems by (fastforce simp: filter_empty_conv)
    then show ?thesis using False by (simp add: upper_bound_def)
  qed
qed (simp add: upper_bound_def)

definition ins_at :: "nat \<Rightarrow> 'a \<Rightarrow> 'a list \<Rightarrow> 'a list" where
  "ins_at i x xs = take i xs @ x # drop i xs"

definition split_at :: "nat \<Rightarrow> 'a \<Rightarrow> 'a \<Rightarrow> 'a list \<Rightarrow> 'a list" where
  "split_at i l r xs = take i xs @ l # r # drop (Suc i) xs"

lemma length_ins_at [simp]: "i \<le> length xs \<Longrightarrow> length (ins_at i x xs) = Suc (length xs)"
  by (simp add: ins_at_def)

lemma length_split_at [simp]: "i < length xs \<Longrightarrow> length (split_at i l r xs) = Suc (length xs)"
  by (simp add: split_at_def)

lemma nth_ins_at:
  "i \<le> length xs \<Longrightarrow> ins_at i x xs ! j = (if j < i then xs ! j else if j = i then x else xs ! (j - 1))"
  by (auto simp: ins_at_def nth_append nth_Cons' min_def)

lemma nth_split_at:
  assumes "i < length xs"
  shows "split_at i l r xs ! j = (if j < i then xs ! j else if j = i then l else if j = Suc i then r else xs ! (j - 1))"
  using assms by (auto simp: split_at_def nth_append nth_Cons' min_def intro!: arg_cong [of _ _ "(!) xs"])

lemma map_split_at: "map f (split_at i l r xs) = split_at i (f l) (f r) (map f xs)"
  by (simp add: split_at_def take_map drop_map)

lemma set_split_at: "set (split_at i l r xs) \<subseteq> {l, r} \<union> set xs"
  by (auto simp: split_at_def dest: in_set_takeD in_set_dropD)

section \<open>Nodes before the size bound\<close>

definition wf_kids :: "u64 \<Rightarrow> bytes option \<Rightarrow> bytes option \<Rightarrow> bytes list \<Rightarrow> atree list \<Rightarrow> bool" where
  "wf_kids q lo hi ks ts = (length ts = Suc (length ks) \<and> sorted_keys ks \<and> (\<forall>k \<in> set ks. within lo hi k)
     \<and> (\<forall>i < length ts. wf_tree q (lo_at lo ks i) (hi_at hi ks i) (ts ! i)))"

lemma wf_tree_ANode: "wf_tree q lo hi (ANode b ks ts) \<longleftrightarrow> wf_kids q lo hi ks ts \<and> 0 < length ks \<and> length ks \<le> 27"
  by (auto simp: wf_kids_def)

lemma wf_tree_mono: "wf_tree q lo hi t \<Longrightarrow> q \<le> q' \<Longrightarrow> wf_tree q' lo hi t"
proof (induction t arbitrary: lo hi)
  case (ALeaf b bs)
  then show ?case using leaf_ok_mono by auto
qed auto

lemma wf_kids_mono: "wf_kids q lo hi ks ts \<Longrightarrow> q \<le> q' \<Longrightarrow> wf_kids q' lo hi ks ts"
  using wf_tree_mono by (auto simp: wf_kids_def)

text \<open>A separator strictly inside the bounds.\<close>

definition inside :: "bytes option \<Rightarrow> bytes option \<Rightarrow> bytes \<Rightarrow> bool" where
  "inside lo hi m = (within lo hi m \<and> lo \<noteq> Some m)"

section \<open>Replacing a child\<close>

lemma cont_node:
  "length ts = Suc (length ks) \<Longrightarrow> cont (ANode b ks ts) k = cont (ts ! upper_bound ks k) k"
  by (simp add: Let_def less_Suc_eq_le)

lemma wf_kids_update:
  assumes "wf_kids q lo hi ks ts" "wf_tree q (lo_at lo ks i) (hi_at hi ks i) t"
  shows "wf_kids q lo hi ks (ts[i := t])"
proof -
  have "wf_tree q (lo_at lo ks j) (hi_at hi ks j) (ts[i := t] ! j)" if "j < length ts" for j
    using assms that by (cases "i = j") (auto simp: wf_kids_def)
  then show ?thesis using assms(1) by (simp add: wf_kids_def)
qed

lemma cont_update:
  assumes "length ts = Suc (length ks)" "cont t = (cont (ts ! upper_bound ks k))(k \<mapsto> e)"
  shows "cont (ANode b' ks (ts[upper_bound ks k := t])) = (cont (ANode b ks ts))(k \<mapsto> e)"
proof
  fix j
  show "cont (ANode b' ks (ts[upper_bound ks k := t])) j = ((cont (ANode b ks ts))(k \<mapsto> e)) j"
  proof (cases "upper_bound ks j = upper_bound ks k")
    case True
    have "upper_bound ks k < length ts" using assms(1) by (simp add: less_Suc_eq_le)
    then show ?thesis using True assms by (simp only: cont_node length_list_update) (simp add: cont_node fun_upd_def del: cont.simps)
  next
    case False
    then have "j \<noteq> k" by auto
    then show ?thesis using False assms(1) by (simp only: cont_node length_list_update) (simp add: cont_node del: cont.simps)
  qed
qed

section \<open>Splitting a child\<close>

lemma sorted_ins_at:
  assumes srt: "sorted_keys ks" and i: "i \<le> length ks" and m: "inside (lo_at lo ks i) (hi_at hi ks i) m"
  shows "sorted_keys (ins_at i m ks)"
proof -
  have lo: "x < m" if "x \<in> set (take i ks)" for x
  proof -
    obtain j where j: "j < length (take i ks)" "x = take i ks ! j" using \<open>x \<in> _\<close> unfolding in_set_conv_nth by blast
    have "x \<le> ks ! (i - 1)" using j i srt by (cases "j = i - 1") (auto simp: sorted_wrt_iff_nth_less less_imp_le)
    also have "ks ! (i - 1) < m" using m j by (auto simp: inside_def within_def lo_at_def)
    finally show ?thesis .
  qed
  have hi: "m < x" if "x \<in> set (drop i ks)" for x
  proof -
    obtain j where j: "j < length (drop i ks)" "x = drop i ks ! j" using \<open>x \<in> _\<close> unfolding in_set_conv_nth by blast
    then have "i < length ks" by simp
    then have "m < ks ! i" using m by (auto simp: inside_def within_def hi_at_def)
    also have "ks ! i \<le> x" using j i srt by (cases "j = 0") (auto simp: sorted_wrt_iff_nth_less less_imp_le)
    finally show ?thesis .
  qed
  have "sorted_keys (take i ks @ drop i ks)" using srt by simp
  then show ?thesis using lo hi unfolding ins_at_def sorted_wrt_append by auto
qed

lemma lo_at_ins_at:
  "i \<le> length ks \<Longrightarrow> lo_at lo (ins_at i m ks) j = (if j \<le> i then lo_at lo ks j else if j = Suc i then Some m else lo_at lo ks (j - 1))"
  by (auto simp: lo_at_def nth_ins_at)

lemma hi_at_ins_at:
  "i \<le> length ks \<Longrightarrow> hi_at hi (ins_at i m ks) j = (if j < i then hi_at hi ks j else if j = i then Some m else hi_at hi ks (j - 1))"
  by (auto simp: hi_at_def nth_ins_at)

lemma wf_kids_split:
  assumes wf: "wf_kids q lo hi ks ts" and i: "i < length ts" and m: "inside (lo_at lo ks i) (hi_at hi ks i) m"
    and l: "wf_tree q (lo_at lo ks i) (Some m) l" and r: "wf_tree q (Some m) (hi_at hi ks i) r"
  shows "wf_kids q lo hi (ins_at i m ks) (split_at i l r ts)"
proof -
  have i': "i \<le> length ks" using i wf by (simp add: wf_kids_def)
  have "within lo hi m"
    using wf i' m within_child [of ks lo hi i m] by (auto simp: wf_kids_def inside_def)
  then have "\<forall>k \<in> set (ins_at i m ks). within lo hi k"
    using wf by (auto simp: wf_kids_def ins_at_def dest: in_set_takeD in_set_dropD)
  moreover have "wf_tree q (lo_at lo (ins_at i m ks) j) (hi_at hi (ins_at i m ks) j) (split_at i l r ts ! j)"
    if j: "j < Suc (length ts)" for j
  proof -
    consider "j < i" | "j = i" | "j = Suc i" | "Suc i < j" by linarith
    then show ?thesis
    proof cases
      case 4
      then have "wf_tree q (lo_at lo ks (j - 1)) (hi_at hi ks (j - 1)) (ts ! (j - 1))" using wf j by (simp add: wf_kids_def)
      then show ?thesis using 4 i i' by (simp add: lo_at_ins_at hi_at_ins_at nth_split_at)
    qed (use wf i i' l r in \<open>auto simp: lo_at_ins_at hi_at_ins_at nth_split_at wf_kids_def\<close>)
  qed
  ultimately show ?thesis
    using wf i i' sorted_ins_at [OF _ i' m] by (simp add: wf_kids_def)
qed

lemma upper_bound_ins_at:
  assumes srt: "sorted_keys ks" and i: "i \<le> length ks" and m: "inside (lo_at lo ks i) (hi_at hi ks i) m"
  shows "upper_bound (ins_at i m ks) k = (if m \<le> k then Suc (upper_bound ks k) else upper_bound ks k)"
    "m \<le> k \<Longrightarrow> i \<le> upper_bound ks k" "\<not> m \<le> k \<Longrightarrow> upper_bound ks k \<le> i"
proof -
  have "filter (\<lambda>x. x \<le> k) ks = filter (\<lambda>x. x \<le> k) (take i ks) @ filter (\<lambda>x. x \<le> k) (drop i ks)"
    by (simp flip: filter_append)
  then show "upper_bound (ins_at i m ks) k = (if m \<le> k then Suc (upper_bound ks k) else upper_bound ks k)"
    using srt sorted_ins_at [OF srt i m] by (simp add: upper_bound_count) (simp add: ins_at_def)
  show "i \<le> upper_bound ks k" if "m \<le> k"
  proof (rule ccontr)
    assume "\<not> i \<le> upper_bound ks k"
    then have "k < ks ! (i - 1)" using upper_bound_nth(2) [OF srt, of k "i - 1"] i by simp
    moreover have "ks ! (i - 1) \<le> m" using m \<open>\<not> i \<le> _\<close> by (auto simp: inside_def within_def lo_at_def)
    ultimately show False using that by simp
  qed
  show "upper_bound ks k \<le> i" if "\<not> m \<le> k"
  proof (rule ccontr)
    assume u: "\<not> upper_bound ks k \<le> i"
    then have "ks ! i \<le> k" using upper_bound_nth(1) [OF srt, of i k] by simp
    moreover have "i < length ks" using u upper_bound_le [of ks k] by linarith
    then have "m < ks ! i" using m by (auto simp: inside_def within_def hi_at_def)
    ultimately show False using that by simp
  qed
qed

lemma cont_split:
  assumes wf: "wf_kids q lo hi ks ts" and i: "i < length ts" and m: "inside (lo_at lo ks i) (hi_at hi ks i) m"
  shows "cont (ANode b' (ins_at i m ks) (split_at i l r ts)) = cont (ANode b ks (ts[i := ANode x [m] [l, r]]))"
proof
  fix k
  have srt: "sorted_keys ks" and len: "length ts = Suc (length ks)" using wf by (auto simp: wf_kids_def)
  then have i': "i \<le> length ks" using i by simp
  note ub = upper_bound_ins_at [OF srt i' m, of k]
  have one: "upper_bound [m] k = (if m \<le> k then 1 else 0)" by (simp add: upper_bound_def)
  have "upper_bound ks k < length ts" using len by (simp add: less_Suc_eq_le)
  then show "cont (ANode b' (ins_at i m ks) (split_at i l r ts)) k = cont (ANode b ks (ts[i := ANode x [m] [l, r]])) k"
    using i i' len ub by (simp only: cont_node length_ins_at length_split_at length_list_update) (auto simp: nth_split_at nth_list_update one)
qed

section \<open>Dividing a node\<close>

lemma bounds_divide:
  assumes "mid < length ks"
  shows "j \<le> mid \<Longrightarrow> lo_at lo (take mid ks) j = lo_at lo ks j"
    "j \<le> mid \<Longrightarrow> hi_at (Some (ks ! mid)) (take mid ks) j = hi_at hi ks j"
    "lo_at (Some (ks ! mid)) (drop (Suc mid) ks) j = lo_at lo ks (Suc mid + j)"
    "hi_at hi (drop (Suc mid) ks) j = hi_at hi ks (Suc mid + j)"
  using assms by (auto simp: lo_at_def hi_at_def)

lemma wf_kids_divide:
  assumes wf: "wf_kids q lo hi ks ts" and mid: "0 < mid" "mid < length ks"
  shows "inside lo hi (ks ! mid)" "wf_kids q lo (Some (ks ! mid)) (take mid ks) (take (Suc mid) ts)"
    "wf_kids q (Some (ks ! mid)) hi (drop (Suc mid) ks) (drop (Suc mid) ts)"
proof -
  have len: "length ts = Suc (length ks)" and srt: "sorted_keys ks" and w: "\<And>k. k \<in> set ks \<Longrightarrow> within lo hi k"
    and ch: "\<And>i. i < length ts \<Longrightarrow> wf_tree q (lo_at lo ks i) (hi_at hi ks i) (ts ! i)"
    using wf by (auto simp: wf_kids_def)
  have below: "ks ! j < ks ! mid" if "j < mid" for j using srt that mid by (auto simp: sorted_wrt_iff_nth_less)
  have above: "ks ! mid < ks ! j" if "mid < j" "j < length ks" for j using srt that by (auto simp: sorted_wrt_iff_nth_less)
  have "0 < length ks" using mid by linarith
  then have "within lo hi (ks ! 0)" "within lo hi (ks ! mid)" using w mid(2) by (blast intro: nth_mem)+
  then show "inside lo hi (ks ! mid)" using below [OF mid(1)] by (auto simp: inside_def within_def)
  have "sorted_keys (take mid ks @ drop mid ks)" using srt by simp
  then have s1: "sorted_keys (take mid ks)" unfolding sorted_wrt_append by blast
  have "sorted_keys (take (Suc mid) ks @ drop (Suc mid) ks)" using srt by simp
  then have s2: "sorted_keys (drop (Suc mid) ks)" unfolding sorted_wrt_append by blast
  have "within lo (Some (ks ! mid)) k" if k: "k \<in> set (take mid ks)" for k
  proof -
    obtain j where "j < length (take mid ks)" "k = take mid ks ! j" using k unfolding in_set_conv_nth by blast
    then show ?thesis using below [of j] w [OF in_set_takeD [OF k]] by (auto simp: within_def)
  qed
  then show "wf_kids q lo (Some (ks ! mid)) (take mid ks) (take (Suc mid) ts)"
    using len mid s1 ch unfolding wf_kids_def by (simp add: bounds_divide(1) bounds_divide(2) [where hi = hi])
  have "within (Some (ks ! mid)) hi k" if k: "k \<in> set (drop (Suc mid) ks)" for k
  proof -
    obtain j where "j < length (drop (Suc mid) ks)" "k = drop (Suc mid) ks ! j" using k unfolding in_set_conv_nth by blast
    then show ?thesis using above [of "Suc mid + j"] w [OF in_set_dropD [OF k]]
      by (auto simp: within_def less_diff_conv add.commute)
  qed
  then show "wf_kids q (Some (ks ! mid)) hi (drop (Suc mid) ks) (drop (Suc mid) ts)"
    using len mid s2 ch unfolding wf_kids_def by (simp add: bounds_divide(3) [where lo = lo] bounds_divide(4))
qed

lemma cont_divide:
  assumes wf: "wf_kids q lo hi ks ts" and mid: "mid < length ks"
  shows "cont (ANode x [ks ! mid] [ANode a (take mid ks) (take (Suc mid) ts), ANode c (drop (Suc mid) ks) (drop (Suc mid) ts)]) =
     cont (ANode b ks ts)"
proof
  fix k
  have len: "length ts = Suc (length ks)" and srt: "sorted_keys ks" using wf by (auto simp: wf_kids_def)
  have one: "upper_bound [ks ! mid] k = (if ks ! mid \<le> k then 1 else 0)" by (simp add: upper_bound_def)
  have "sorted_keys (take mid ks @ drop mid ks)" using srt by simp
  then have s1: "sorted_keys (take mid ks)" unfolding sorted_wrt_append by blast
  have "sorted_keys (take (Suc mid) ks @ drop (Suc mid) ks)" using srt by simp
  then have s2: "sorted_keys (drop (Suc mid) ks)" unfolding sorted_wrt_append by blast
  have l2: "length (drop (Suc mid) ts) = Suc (length (drop (Suc mid) ks))"
    "length (take (Suc mid) ts) = Suc (length (take mid ks))" using len mid by auto
  show "cont (ANode x [ks ! mid] [ANode a (take mid ks) (take (Suc mid) ts), ANode c (drop (Suc mid) ks) (drop (Suc mid) ts)]) k =
      cont (ANode b ks ts) k"
  proof (cases "ks ! mid \<le> k")
    case True
    have "x \<le> k" if "x \<in> set (take (Suc mid) ks)" for x
    proof -
      obtain j where "j < length (take (Suc mid) ks)" "x = take (Suc mid) ks ! j" using \<open>x \<in> _\<close> unfolding in_set_conv_nth by blast
      then have "x \<le> ks ! mid" using srt mid by (cases "j = mid") (auto simp: sorted_wrt_iff_nth_less less_imp_le)
      then show ?thesis using True by simp
    qed
    then have "filter (\<lambda>x. x \<le> k) (take (Suc mid) ks) = take (Suc mid) ks" by simp
    moreover have "filter (\<lambda>x. x \<le> k) (take (Suc mid) ks @ drop (Suc mid) ks) =
      filter (\<lambda>x. x \<le> k) (take (Suc mid) ks) @ filter (\<lambda>x. x \<le> k) (drop (Suc mid) ks)" by (rule filter_append)
    ultimately have "upper_bound ks k = Suc mid + upper_bound (drop (Suc mid) ks) k"
      using srt s2 mid by (simp add: upper_bound_count)
    moreover have "upper_bound (drop (Suc mid) ks) k \<le> length ks - Suc mid" using upper_bound_le [of "drop (Suc mid) ks" k] by simp
    ultimately show ?thesis
      using True len mid by (simp only: cont_node l2) (simp add: cont_node one l2 del: cont.simps)
  next
    case False
    have "\<not> x \<le> k" if "x \<in> set (drop mid ks)" for x
    proof -
      obtain j where "j < length (drop mid ks)" "x = drop mid ks ! j" using \<open>x \<in> _\<close> unfolding in_set_conv_nth by blast
      then have "ks ! mid \<le> x" using srt mid by (cases "j = 0") (auto simp: sorted_wrt_iff_nth_less less_imp_le)
      then show ?thesis using False by auto
    qed
    then have "filter (\<lambda>x. x \<le> k) (drop mid ks) = []" by (simp add: filter_empty_conv)
    moreover have "filter (\<lambda>x. x \<le> k) (take mid ks @ drop mid ks) =
      filter (\<lambda>x. x \<le> k) (take mid ks) @ filter (\<lambda>x. x \<le> k) (drop mid ks)" by (rule filter_append)
    ultimately have "upper_bound ks k = upper_bound (take mid ks) k"
      using srt s1 mid by (simp add: upper_bound_count)
    moreover have "upper_bound (take mid ks) k \<le> mid" using upper_bound_le [of "take mid ks" k] by simp
    ultimately show ?thesis
      using False len mid by (simp only: cont_node l2) (simp add: cont_node one l2 del: cont.simps)
  qed
qed

section \<open>Dividing a leaf\<close>

lemma keyed_divide:
  assumes srt: "sorted_keys (entry_keys es)" and mid: "mid < length es"
  shows "map_of (keyed es) k = (if key_bytes (es ! mid) \<le> k then map_of (keyed (drop mid es)) k else map_of (keyed (take mid es)) k)"
proof -
  have "keyed es = keyed (take mid es) @ keyed (drop mid es)" by (simp add: keyed_def flip: map_append)
  then have eq: "map_of (keyed es) k = (map_of (keyed (drop mid es)) ++ map_of (keyed (take mid es))) k" by simp
  have lt: "key_bytes (es ! i) < key_bytes (es ! j)" if "i < j" "j < length es" for i j
    using srt that by (auto simp: sorted_wrt_iff_nth_less)
  show ?thesis
  proof (cases "key_bytes (es ! mid) \<le> k")
    case True
    have "k \<notin> key_bytes ` set (take mid es)"
    proof
      assume "k \<in> key_bytes ` set (take mid es)"
      then obtain j where "j < mid" "k = key_bytes (es ! j)" using mid by (auto simp: in_set_conv_nth)
      then show False using lt [of j mid] mid True by auto
    qed
    then have "map_of (keyed (take mid es)) k = None" by (simp only: keyed_None not_False_eq_True)
    then show ?thesis using eq True by (simp add: map_add_def)
  next
    case False
    have "k \<notin> key_bytes ` set (drop mid es)"
    proof
      assume "k \<in> key_bytes ` set (drop mid es)"
      then obtain j where "j < length es - mid" "k = key_bytes (es ! (mid + j))" by (auto simp: in_set_conv_nth)
      then show False using lt [of mid "mid + j"] False by (cases "j = 0") (auto simp: less_diff_conv add.commute)
    qed
    then have "map_of (keyed (drop mid es)) k = None" by (simp only: keyed_None not_False_eq_True)
    then show ?thesis using eq False by (simp add: map_add_def split: option.splits)
  qed
qed

end
