(* ===== verification/Tree_Steps.thy ===== *)
theory Tree_Steps
  imports Tree_Shape
begin

text \<open>
  What a step of the tree code may change.  \<open>evolves B n c c'\<close>: blocks outside \<open>B\<close> that were
  allocated before keep their contents, nothing is released, and the two counters grow by at most
  \<open>n\<close>.  Each store operation has one rule in these terms, and the rules compose.
\<close>

section \<open>Evolution of the tree context\<close>

definition evolves :: "u64 set \<Rightarrow> nat \<Rightarrow> tctx \<Rightarrow> tctx \<Rightarrow> bool" where
  "evolves B n c c' = (kept (B \<union> - allocated (store c)) (store c) (store c') \<and> alloc_ok (store c')
     \<and> allocated (store c) \<subseteq> allocated (store c') \<and> last_chain_blocks (store c') = last_chain_blocks (store c)
     \<and> unat (next_block_nr (store c')) \<le> unat (next_block_nr (store c)) + n
     \<and> unat (next_bset_seq c) \<le> unat (next_bset_seq c') \<and> unat (next_bset_seq c') \<le> unat (next_bset_seq c) + n)"

text \<open>A consistent allocator with room for \<open>n\<close> more blocks and sequence numbers.\<close>

definition sane :: "nat \<Rightarrow> tctx \<Rightarrow> bool" where
  "sane n c = (alloc_ok (store c) \<and> unat (next_block_nr (store c)) + n \<le> 2 ^ 52 \<and> unat (next_bset_seq c) + n \<le> 2 ^ 52)"

lemma sane_le: "sane n c \<Longrightarrow> m \<le> n \<Longrightarrow> sane m c"
  by (simp add: sane_def)

lemma evolves_sane: "sane (n + m) c \<Longrightarrow> evolves B n c c' \<Longrightarrow> sane m c'"
  by (simp add: sane_def evolves_def)

lemma evolves_seq: "evolves B n c c' \<Longrightarrow> next_bset_seq c \<le> next_bset_seq c'"
  by (simp add: evolves_def word_le_nat_alt)

lemma evolves_chain: "evolves B n c c' \<Longrightarrow> last_chain_blocks (store c') = last_chain_blocks (store c)"
  by (simp add: evolves_def)

lemma evolves_allocated: "evolves B n c c' \<Longrightarrow> b \<in> allocated (store c) \<Longrightarrow> b \<in> allocated (store c')"
  by (auto simp: evolves_def)

lemma evolves_alloc_ok: "evolves B n c c' \<Longrightarrow> alloc_ok (store c')"
  by (simp add: evolves_def)

lemma evolves_trans:
  assumes "evolves B n c c'" "evolves B' m c' c''" "B' \<subseteq> B \<union> - allocated (store c)"
  shows "evolves B (n + m) c c''"
proof -
  have "kept ((B \<union> - allocated (store c)) \<union> (B' \<union> - allocated (store c'))) (store c) (store c'')"
    using assms(1,2) unfolding evolves_def by (blast intro: kept_trans)
  moreover have "(B \<union> - allocated (store c)) \<union> (B' \<union> - allocated (store c')) \<subseteq> B \<union> - allocated (store c)"
    using assms unfolding evolves_def by blast
  ultimately have "kept (B \<union> - allocated (store c)) (store c) (store c'')" by (rule kept_mono)
  then show ?thesis using assms(1,2) unfolding evolves_def by auto
qed

lemma evolves_refl: "alloc_ok (store c) \<Longrightarrow> evolves B n c c"
  by (simp add: evolves_def)

lemma evolves_le: "evolves B n c c' \<Longrightarrow> n \<le> m \<Longrightarrow> B \<subseteq> B' \<Longrightarrow> evolves B' m c c'"
  unfolding evolves_def by (auto intro: kept_mono)

lemma evolves_quiet: "alloc_ok (store c) \<Longrightarrow> quiet c c' \<Longrightarrow> evolves B n c c'"
  using faulted_fields [of "store c" "store c'"]
  by (auto simp: evolves_def quiet_def kept_faulted allocated_def alloc_ok_def)

lemma evolves_node:
  "evolves B n c c' \<Longrightarrow> alloc_ok (store c) \<Longrightarrow> b \<in> allocated (store c) \<Longrightarrow> b \<notin> B \<Longrightarrow>
     node_at (store c) b = Some x \<Longrightarrow> node_at (store c') b = Some x"
  unfolding evolves_def by (blast intro: kept_node allocated_blk_ok)

lemma evolves_data:
  "evolves B n c c' \<Longrightarrow> alloc_ok (store c) \<Longrightarrow> b \<in> allocated (store c) \<Longrightarrow> b \<notin> B \<Longrightarrow>
     data_at (store c) b = Some x \<Longrightarrow> data_at (store c') b = Some x"
  unfolding evolves_def by (blast intro: kept_data allocated_blk_ok)

section \<open>Rules for the store operations\<close>

lemma runs_alloc:
  assumes "sane (Suc n) c"
    and "\<And>nr c'. evolves {} 1 c c' \<Longrightarrow> sane n c' \<Longrightarrow> nr \<notin> allocated (store c) \<Longrightarrow> nr \<in> allocated (store c') \<Longrightarrow>
      nr \<notin> set (last_chain_blocks (store c)) \<Longrightarrow> (\<And>b. node_at (store c') b = node_at (store c) b) \<Longrightarrow>
      next_bset_seq c' = next_bset_seq c \<Longrightarrow> crc32 (store c') = crc32 (store c) \<Longrightarrow> Q nr c'"
  shows "runs (on_store alloc) c Q"
proof -
  have "alloc_ok (store c)" "unat (next_block_nr (store c)) < 2 ^ 52" using assms(1) by (auto simp: sane_def)
  then obtain nr s' where s: "alloc (store c) = (Inr nr, s')" "nr \<notin> allocated (store c)"
    "allocated s' = insert nr (allocated (store c))" "alloc_ok s'" "nr \<notin> set (last_chain_blocks (store c))"
    "node_cache s' = node_cache (store c)" "data_cache s' = data_cache (store c)" "device s' = device (store c)"
    "last_chain_blocks s' = last_chain_blocks (store c)" "persistent s' = persistent (store c)" "crc32 s' = crc32 (store c)"
    "unat (next_block_nr s') \<le> unat (next_block_nr (store c)) + 1"
    using alloc_fresh by metis
  let ?c = "c\<lparr>store := s'\<rparr>"
  have ev: "evolves {} 1 c ?c"
    using s by (auto simp: evolves_def intro: kept_cong)
  have "Q nr ?c"
    using s ev evolves_sane [of 1 n c "{}" ?c] assms(1) by (intro assms(2)) (auto intro: node_at_cong)
  then show ?thesis using s(1) by (simp add: on_store_def runs_on_part) (simp add: runs_def)
qed

lemma runs_write:
  assumes "sane n c" "b \<in> allocated (store c)" "sized_node nd"
    and "\<And>c'. evolves {b} 0 c c' \<Longrightarrow> sane n c' \<Longrightarrow> node_at (store c') b = Some (stamped (store c) nd) \<Longrightarrow>
      next_bset_seq c' = next_bset_seq c \<Longrightarrow> crc32 (store c') = crc32 (store c) \<Longrightarrow> Q () c'"
  shows "runs (on_store (write_node b nd)) c Q"
proof -
  have ok: "alloc_ok (store c)" using assms(1) by (simp add: sane_def)
  then obtain s' where s: "write_node b nd (store c) = (Inr (), s')" "kept {b} (store c) s'" "node_at s' b = Some (stamped (store c) nd)"
    "next_block_nr s' = next_block_nr (store c)" "free_list s' = free_list (store c)"
    "last_chain_blocks s' = last_chain_blocks (store c)"
    using write_node_ok [OF allocated_blk_ok [OF _ assms(2)] assms(3)] by metis
  let ?c = "c\<lparr>store := s'\<rparr>"
  have ev: "evolves {b} 0 c ?c"
    using s ok unfolding evolves_def by (auto simp: allocated_def alloc_ok_def intro: kept_mono)
  have "Q () ?c"
    using s ev evolves_sane [of 0 n c "{b}" ?c] assms(1) by (intro assms(4)) (auto simp: kept_def)
  then show ?thesis using s(1) by (simp add: on_store_def runs_on_part) (simp add: runs_def)
qed

lemma runs_mut:
  assumes "sane n c" "node_at (store c) b = Some nd" "f nd = Some (r, nd')"
    and "\<And>c'. evolves {b} 0 c c' \<Longrightarrow> sane n c' \<Longrightarrow> node_at (store c') b = Some nd' \<Longrightarrow>
      next_bset_seq c' = next_bset_seq c \<Longrightarrow> crc32 (store c') = crc32 (store c) \<Longrightarrow> Q r c'"
  shows "runs (on_store (with_node_mut b f)) c Q"
proof -
  have ok: "alloc_ok (store c)" using assms(1) by (simp add: sane_def)
  obtain s' where s: "with_node_mut b f (store c) = (Inr r, s')" "kept {b} (store c) s'" "node_at s' b = Some nd'"
    "next_block_nr s' = next_block_nr (store c)" "free_list s' = free_list (store c)"
    "last_chain_blocks s' = last_chain_blocks (store c)"
    using with_node_mut_ok [of "store c" b nd f r nd', OF assms(2,3)] by metis
  let ?c = "c\<lparr>store := s'\<rparr>"
  have ev: "evolves {b} 0 c ?c"
    using s ok unfolding evolves_def by (auto simp: allocated_def alloc_ok_def intro: kept_mono)
  have "Q r ?c"
    using s ev evolves_sane [of 0 n c "{b}" ?c] assms(1) by (intro assms(4)) (auto simp: kept_def)
  then show ?thesis using s(1) by (simp add: on_store_def runs_on_part) (simp add: runs_def)
qed

lemma runs_set_seq:
  assumes "sane n c" "unat (next_bset_seq c) \<le> unat q" "unat q \<le> unat (next_bset_seq c) + m" "m \<le> n"
    and "\<And>c'. evolves {} m c c' \<Longrightarrow> sane (n - m) c' \<Longrightarrow> store c' = store c \<Longrightarrow> next_bset_seq c' = q \<Longrightarrow> Q () c'"
  shows "runs (set_seq q) c Q"
proof -
  have "evolves {} m c (c\<lparr>next_bset_seq := q\<rparr>)" using assms(1-3) by (simp add: evolves_def sane_def)
  then show ?thesis unfolding set_seq_def runs_modify using assms by (intro assms(5)) (auto simp: sane_def)
qed

lemma runs_alloc_seq:
  assumes "sane (Suc n) c"
    and "\<And>c'. evolves {} 1 c c' \<Longrightarrow> sane n c' \<Longrightarrow> store c' = store c \<Longrightarrow> next_bset_seq c' = next_bset_seq c + 1 \<Longrightarrow>
      next_bset_seq c < next_bset_seq c + 1 \<Longrightarrow> Q (next_bset_seq c) c'"
  shows "runs alloc_seq c Q"
proof -
  have q: "unat (next_bset_seq c + 1) = unat (next_bset_seq c) + 1"
    using assms(1) unat_Suc_small [of "next_bset_seq c"] by (auto simp: sane_def)
  have "evolves {} 1 c (c\<lparr>next_bset_seq := next_bset_seq c + 1\<rparr>)"
    using assms(1) q by (simp add: evolves_def sane_def)
  then have "Q (next_bset_seq c) (c\<lparr>next_bset_seq := next_bset_seq c + 1\<rparr>)"
    using q assms(1) by (intro assms(2)) (auto simp: sane_def word_less_nat_alt)
  then show ?thesis by (simp add: alloc_seq_def runs_def)
qed

section \<open>Trees in a context\<close>

definition owned :: "tctx \<Rightarrow> u64 set" where
  "owned c = allocated (store c) - set (last_chain_blocks (store c))"

definition tree_ok :: "tctx \<Rightarrow> nat \<Rightarrow> bytes option \<Rightarrow> bytes option \<Rightarrow> atree \<Rightarrow> bool" where
  "tree_ok c L lo hi t = (rep (store c) L t \<and> wf_tree (next_bset_seq c) lo hi t \<and> distinct (blocks t)
     \<and> set (blocks t) \<subseteq> owned c)"

lemma evolves_owned: "evolves B n c c' \<Longrightarrow> b \<in> owned c \<Longrightarrow> b \<in> owned c'"
  by (auto simp: owned_def evolves_def)

lemma rep_evolves:
  assumes "evolves B n c c'" "alloc_ok (store c)" "set (blocks t) \<subseteq> allocated (store c)" "set (blocks t) \<inter> B = {}" "rep (store c) L t"
  shows "rep (store c') L t"
  using assms(5) by (rule rep_mono) (use assms(1-4) in \<open>blast intro: evolves_node\<close>)

lemma tree_ok_evolves:
  assumes "evolves B n c c'" "alloc_ok (store c)" "set (blocks t) \<inter> B = {}" "tree_ok c L lo hi t"
  shows "tree_ok c' L lo hi t"
proof -
  have sub: "set (blocks t) \<subseteq> owned c" using assms(4) by (simp add: tree_ok_def)
  then have "set (blocks t) \<subseteq> allocated (store c)" by (auto simp: owned_def)
  then have "rep (store c') L t" using rep_evolves [OF assms(1,2) _ assms(3)] assms(4) by (simp add: tree_ok_def)
  then show ?thesis
    using assms(4) wf_tree_mono [OF _ evolves_seq [OF assms(1)]] evolves_owned [OF assms(1)] sub
    unfolding tree_ok_def by blast
qed

section \<open>Steps from an origin\<close>

text \<open>The same rules for a sequence of steps that started in \<open>c0\<close>: each extends the evolution from
  \<open>c0\<close> and consumes room.  A proof about an operation obtains the steps one after the other and then
  evaluates the operation along them.\<close>

lemma runs_result: "runs m s P \<Longrightarrow> \<exists>r s'. m s = (Inr r, s') \<and> P r s'"
  by (erule runsE) blast

lemma step_read:
  assumes "evolves B m c0 c" "sane n c" "node_at (store c) b = Some nd"
  shows "\<exists>c'. read_node b c = (Inr nd, c') \<and> evolves B m c0 c' \<and> sane n c' \<and> quiet c c'
     \<and> evolves {} 0 c c' \<and> next_bset_seq c' = next_bset_seq c \<and> owned c' = owned c
     \<and> node_at (store c') = node_at (store c)"
proof -
  have r: "runs (read_node b) c (\<lambda>r c'. r = nd \<and> quiet c c')" by (rule runs_read [OF assms(3)]) simp
  obtain c' where c': "read_node b c = (Inr nd, c')" "quiet c c'" using runs_result [OF r] by auto
  have ev: "evolves {} 0 c c'" using assms(1) c'(2) by (blast intro: evolves_quiet evolves_alloc_ok)
  have f: "faulted (store c) (store c')" "next_bset_seq c' = next_bset_seq c" using c'(2) by (simp_all add: quiet_def)
  have "evolves B m c0 c'" using evolves_trans [OF assms(1) ev] by simp
  moreover have "sane n c'" using evolves_sane [OF _ ev] assms(2) by simp
  moreover have "owned c' = owned c" using faulted_fields [OF f(1)] by (simp add: owned_def allocated_def)
  moreover have "node_at (store c') = node_at (store c)" using faulted_node_at [OF f(1)] by (rule ext)
  ultimately show ?thesis using c' ev f(2) by blast
qed

lemma step_alloc:
  assumes "evolves B m c0 c" "sane (Suc n) c"
  shows "\<exists>nb c'. on_store alloc c = (Inr nb, c') \<and> evolves B (Suc m) c0 c' \<and> sane n c' \<and> evolves {} 1 c c'
     \<and> nb \<notin> allocated (store c0) \<and> nb \<notin> allocated (store c) \<and> nb \<in> owned c'
     \<and> next_bset_seq c' = next_bset_seq c \<and> node_at (store c') = node_at (store c)"
proof -
  have r: "runs (on_store alloc) c (\<lambda>nb c'. evolves {} 1 c c' \<and> sane n c' \<and> nb \<notin> allocated (store c) \<and> nb \<in> allocated (store c')
       \<and> nb \<notin> set (last_chain_blocks (store c)) \<and> node_at (store c') = node_at (store c)
       \<and> next_bset_seq c' = next_bset_seq c)"
    by (rule runs_alloc [OF assms(2)]) (simp add: fun_eq_iff)
  obtain nb c' where c': "on_store alloc c = (Inr nb, c')" "evolves {} 1 c c'" "sane n c'" "nb \<notin> allocated (store c)"
    "nb \<in> allocated (store c')" "nb \<notin> set (last_chain_blocks (store c))" "node_at (store c') = node_at (store c)"
    "next_bset_seq c' = next_bset_seq c" using runs_result [OF r] by auto
  have "evolves B (Suc m) c0 c'" using evolves_trans [OF assms(1) c'(2)] by simp
  moreover have "nb \<notin> allocated (store c0)" using c'(4) evolves_allocated [OF assms(1)] by blast
  moreover have "nb \<in> owned c'" using c'(5,6) evolves_chain [OF c'(2)] by (simp add: owned_def)
  ultimately show ?thesis using c' by blast
qed

lemma step_write:
  assumes "evolves B m c0 c" "sane n c" "b \<in> owned c" "b \<in> B \<or> b \<notin> allocated (store c0)" "sized_node nd"
  shows "\<exists>c'. on_store (write_node b nd) c = (Inr (), c') \<and> evolves B m c0 c' \<and> sane n c' \<and> evolves {b} 0 c c'
     \<and> node_at (store c') b = Some (stamped (store c) nd) \<and> next_bset_seq c' = next_bset_seq c"
proof -
  have "b \<in> allocated (store c)" using assms(3) by (simp add: owned_def)
  then have r: "runs (on_store (write_node b nd)) c (\<lambda>_ c'. evolves {b} 0 c c' \<and> sane n c'
       \<and> node_at (store c') b = Some (stamped (store c) nd) \<and> next_bset_seq c' = next_bset_seq c)"
    by (rule runs_write [OF assms(2) _ assms(5)]) simp
  obtain c' where c': "on_store (write_node b nd) c = (Inr (), c')" "evolves {b} 0 c c'" "sane n c'"
    "node_at (store c') b = Some (stamped (store c) nd)" "next_bset_seq c' = next_bset_seq c" using runs_result [OF r] by auto
  have "evolves B m c0 c'" using evolves_trans [OF assms(1) c'(2)] assms(4) by auto
  then show ?thesis using c' by blast
qed

lemma step_mut:
  assumes "evolves B m c0 c" "sane n c" "node_at (store c) b = Some nd" "b \<in> B \<or> b \<notin> allocated (store c0)" "f nd = Some (r, nd')"
  shows "\<exists>c'. on_store (with_node_mut b f) c = (Inr r, c') \<and> evolves B m c0 c' \<and> sane n c'
     \<and> evolves {b} 0 c c' \<and> node_at (store c') b = Some nd' \<and> next_bset_seq c' = next_bset_seq c"
proof -
  have r: "runs (on_store (with_node_mut b f)) c (\<lambda>x c'. x = r \<and> evolves {b} 0 c c' \<and> sane n c'
       \<and> node_at (store c') b = Some nd' \<and> next_bset_seq c' = next_bset_seq c)"
    by (rule runs_mut [of n c b nd f r nd', OF assms(2,3,5)]) simp
  obtain c' where c': "on_store (with_node_mut b f) c = (Inr r, c')" "evolves {b} 0 c c'" "sane n c'"
    "node_at (store c') b = Some nd'" "next_bset_seq c' = next_bset_seq c" using runs_result [OF r] by auto
  have "evolves B m c0 c'" using evolves_trans [OF assms(1) c'(2)] assms(4) by auto
  then show ?thesis using c' by blast
qed

lemma step_set_seq:
  assumes "evolves B m c0 c" "sane (Suc n) c" "unat (next_bset_seq c) \<le> unat q" "unat q \<le> unat (next_bset_seq c) + 1"
  shows "\<exists>c'. set_seq q c = (Inr (), c') \<and> evolves B (Suc m) c0 c' \<and> sane n c' \<and> evolves {} 1 c c'
     \<and> next_bset_seq c' = q \<and> store c' = store c \<and> owned c' = owned c"
proof -
  have r: "runs (set_seq q) c (\<lambda>_ c'. evolves {} 1 c c' \<and> sane n c' \<and> next_bset_seq c' = q \<and> store c' = store c)"
    by (rule runs_set_seq [OF assms(2-4)]) simp_all
  obtain c' where c': "set_seq q c = (Inr (), c')" "evolves {} 1 c c'" "sane n c'" "next_bset_seq c' = q" "store c' = store c"
    using runs_result [OF r] by auto
  have "evolves B (Suc m) c0 c'" using evolves_trans [OF assms(1) c'(2)] by simp
  moreover have "owned c' = owned c" by (simp add: c'(5) owned_def)
  ultimately show ?thesis using c' by blast
qed

lemma step_alloc_seq:
  assumes "evolves B m c0 c" "sane (Suc n) c"
  shows "\<exists>c'. alloc_seq c = (Inr (next_bset_seq c), c') \<and> evolves B (Suc m) c0 c' \<and> sane n c'
     \<and> evolves {} 1 c c' \<and> next_bset_seq c' = next_bset_seq c + 1 \<and> next_bset_seq c < next_bset_seq c'
     \<and> store c' = store c \<and> owned c' = owned c"
proof -
  have r: "runs alloc_seq c (\<lambda>r c'. r = next_bset_seq c \<and> evolves {} 1 c c' \<and> sane n c'
       \<and> next_bset_seq c' = next_bset_seq c + 1 \<and> next_bset_seq c < next_bset_seq c + 1 \<and> store c' = store c)"
    by (rule runs_alloc_seq [OF assms(2)]) simp
  obtain c' where c': "alloc_seq c = (Inr (next_bset_seq c), c')" "evolves {} 1 c c'" "sane n c'"
    "next_bset_seq c' = next_bset_seq c + 1" "next_bset_seq c < next_bset_seq c + 1" "store c' = store c"
    using runs_result [OF r] by auto
  have "evolves B (Suc m) c0 c'" using evolves_trans [OF assms(1) c'(2)] by simp
  moreover have "owned c' = owned c" "next_bset_seq c < next_bset_seq c'" using c'(4-6) by (simp_all add: owned_def)
  ultimately show ?thesis using c' by blast
qed

end
