(* ===== verification/Leaf_Insert.thy ===== *)
theory Leaf_Insert
  imports Tree_Steps
begin

text \<open>
  Insertion into a leaf: the write itself, the division of a full leaf into two halves, and the
  vocabulary in which the result of an insertion is stated.
\<close>

section \<open>Leaves\<close>

definition touched :: "write_mode \<Rightarrow> u64 set \<Rightarrow> u64 set" where
  "touched mode B = (case mode of InPlace \<Rightarrow> B | Cow \<Rightarrow> {})"

lemma touched_simps [simp]: "touched InPlace B = B" "touched Cow B = {}"
  by (simp_all add: touched_def)

lemma touched_mono: "A \<subseteq> B \<Longrightarrow> touched mode A \<subseteq> touched mode B"
  by (cases mode) auto

lemma touched_subset: "touched mode B \<subseteq> B"
  by (cases mode) auto

lemma leaf_nkeys: "layout n bs \<Longrightarrow> level n = 0 \<Longrightarrow> nkeys n = bsets_total bs"
  by (simp add: nkeys_def lay_total)

lemma tree_ok_leafE:
  assumes "tree_ok c L lo hi (ALeaf b bs)"
  obtains n where "L = 0" "node_at (store c) b = Some n" "level n = 0" "layout n bs" "leaf_ok (next_bset_seq c) bs"
    "\<forall>k \<in> dom (bs_map bs). within lo hi k" "b \<in> owned c"
  using assms by (auto simp: tree_ok_def)

lemma tree_ok_leafI:
  "node_at (store c) b = Some n \<Longrightarrow> level n = 0 \<Longrightarrow> layout n bs \<Longrightarrow> leaf_ok (next_bset_seq c) bs \<Longrightarrow>
     (\<And>k. k \<in> dom (bs_map bs) \<Longrightarrow> within lo hi k) \<Longrightarrow> b \<in> owned c \<Longrightarrow> tree_ok c 0 lo hi (ALeaf b bs)"
  by (auto simp: tree_ok_def)

lemma leaf_write_ok:
  assumes t: "tree_ok c 0 lo hi (ALeaf b bs)" and k: "within lo hi k" "ok_key k" "build_leaf_entry k kind v = Some e"
    and s: "sane 2 c" and room: "bsets_total bs < 29 \<or> (\<exists>n. node_at (store c) b = Some n \<and> leaf_absorbs n k)"
  shows "runs (insert_leaf ins b k v kind mode) c (\<lambda>b' c'. \<exists>bs'. tree_ok c' 0 lo hi (ALeaf b' bs')
     \<and> bs_map bs' = (bs_map bs)(k \<mapsto> e) \<and> (b' = b \<or> b' \<notin> allocated (store c)) \<and> evolves (touched mode {b}) 2 c c')"
proof -
  obtain n where n: "node_at (store c) b = Some n" "level n = 0" "layout n bs" "leaf_ok (next_bset_seq c) bs"
    "\<forall>k \<in> dom (bs_map bs). within lo hi k" "b \<in> owned c"
    using tree_ok_leafE [OF t] .
  have q: "unat (next_bset_seq c) < 2 ^ 52" using s by (simp add: sane_def)
  have fits: "\<not> (\<not> leaf_absorbs n k \<and> MAX_ENTRIES \<le> nkeys n)" "\<not> leaf_absorbs n k \<Longrightarrow> bsets_total bs < 29"
    using room n(1) leaf_nkeys [OF n(3,2)] by auto
  obtain n' q' bs' where w: "apply_write k v kind n (leaf_absorbs n k) (next_bset_seq c) = Some (n', q')" "level n' = 0"
    "layout n' bs'" "leaf_ok q' bs'" "bs_map bs' = (bs_map bs)(k \<mapsto> e)"
    "unat (next_bset_seq c) \<le> unat q'" "unat q' \<le> unat (next_bset_seq c) + 1"
    using apply_write_ok [OF n(3,2,4) q k(3,2) fits(2)] .
  have dom: "within lo hi j" if "j \<in> dom (bs_map bs')" for j using that w(5) n(5) k(1) by auto
  have ev0: "evolves (touched mode {b}) 0 c c" using s by (intro evolves_refl) (simp add: sane_def)
  obtain c1 where c1: "read_node b c = (Inr n, c1)" "evolves (touched mode {b}) 0 c c1" "sane 2 c1"
    "next_bset_seq c1 = next_bset_seq c" "owned c1 = owned c" "node_at (store c1) = node_at (store c)"
    using step_read [OF ev0 s n(1)] by blast
  show ?thesis
  proof (cases mode)
    case InPlace
    let ?f = "\<lambda>l. map_option (\<lambda>(l', q'). (q', l')) (apply_write k v kind l (leaf_absorbs n k) (next_bset_seq c))"
    have fn: "?f n = Some (q', n')" and nn: "node_at (store c1) b = Some n" and bb: "b \<in> touched mode {b} \<or> b \<notin> allocated (store c)"
      using w(1) n(1) c1(6) InPlace by auto
    obtain c2 where c2: "on_store (with_node_mut b ?f) c1 = (Inr q', c2)"
      "evolves (touched mode {b}) 0 c c2" "sane 2 c2" "evolves {b} 0 c1 c2" "node_at (store c2) b = Some n'" "next_bset_seq c2 = next_bset_seq c1"
      using step_mut [where f = ?f and r = q' and nd' = n', OF c1(2,3) nn bb fn] by blast
    obtain c3 where c3: "set_seq q' c2 = (Inr (), c3)" "evolves (touched mode {b}) 1 c c3" "next_bset_seq c3 = q'" "store c3 = store c2"
      using step_set_seq [OF c2(2), of 1 q'] c2(3,6) c1(4) w(6,7) by (auto simp: numeral_2_eq_2)
    have "tree_ok c3 0 lo hi (ALeaf b bs')"
      using c2(5) c3 w dom evolves_owned [OF c3(2) n(6)] by (intro tree_ok_leafI [of _ _ n']) auto
    then show ?thesis
      using w(5) evolves_le [OF c3(2)] InPlace fits(1) c1(4)
      by (intro runsI [of _ _ b c3]) (auto simp: insert_leaf_def bindM_Inr c1(1) c2(1) c3(1) Let_def)
  next
    case Cow
    obtain nb c2 where c2: "on_store alloc c1 = (Inr nb, c2)" "evolves (touched mode {b}) 1 c c2" "sane 1 c2"
      "nb \<notin> allocated (store c)" "nb \<in> owned c2" "next_bset_seq c2 = next_bset_seq c1" "node_at (store c2) = node_at (store c1)"
      using step_alloc [OF c1(2), of 1] c1(3) by (auto simp: numeral_2_eq_2)
    obtain c3 where c3: "read_node b c2 = (Inr n, c3)" "evolves (touched mode {b}) 1 c c3" "sane 1 c3"
      "next_bset_seq c3 = next_bset_seq c2" "owned c3 = owned c2"
      using step_read [OF c2(2,3), of b n] n(1) c1(6) c2(7) by auto
    obtain c4 where c4: "set_seq q' c3 = (Inr (), c4)" "evolves (touched mode {b}) 2 c c4" "sane 0 c4" "next_bset_seq c4 = q'" "owned c4 = owned c3"
      using step_set_seq [OF c3(2), of 0 q'] c3(3,4) c2(6) c1(4) w(6,7) by (auto simp: numeral_2_eq_2)
    obtain c5 where c5: "on_store (write_node nb n') c4 = (Inr (), c5)" "evolves (touched mode {b}) 2 c c5" "evolves {nb} 0 c4 c5"
      "node_at (store c5) nb = Some (stamped (store c4) n')" "next_bset_seq c5 = next_bset_seq c4"
      using step_write [OF c4(2,3), of nb n'] c4(5) c3(5) c2(4,5) layout_sized [OF w(3)] by auto
    have "nb \<in> owned c5" using c2(5) c3(5) c4(5) evolves_owned [OF c5(3)] by simp
    then have "tree_ok c5 0 lo hi (ALeaf nb bs')"
      using c5(4,5) c4(4) w dom by (intro tree_ok_leafI [of _ _ "stamped (store c4) n'"]) auto
    then show ?thesis
      using w(1,5) c5(2) c2(4) Cow fits(1) c3(4) c2(6) c1(4)
      by (intro runsI [of _ _ nb c5]) (auto simp: insert_leaf_def bindM_Inr c1(1) c2(1) c3(1) c4(1) c5(1) Let_def)
  qed
qed

section \<open>Splitting a leaf\<close>

lemma some_big_bset:
  assumes "length bs \<le> 4" "29 \<le> bsets_total bs"
  shows "\<exists>b \<in> set bs. 8 \<le> length (snd b)"
proof (rule ccontr)
  assume "\<not> ?thesis"
  then have "\<forall>b \<in> set bs. length (snd b) \<le> 7" by auto
  then have "bsets_total bs \<le> 7 * length bs"
    by (induction bs) (auto simp: bsets_total_def)
  then show False using assms by linarith
qed

lemma canonical_ok:
  assumes ev: "evolves B m c0 c" "sane (Suc n) c" and nd: "layout nd bs" "level nd = 0" "leaf_ok (next_bset_seq c) bs"
    and full: "29 \<le> bsets_total bs"
  shows "\<exists>can h es c'. (if bset_count nd > 1 then bindM alloc_seq (\<lambda>q. expect (compact_leaf_in_place nd q)) else ret nd) c = (Inr can, c')
     \<and> evolves B (Suc m) c0 c' \<and> sane n c' \<and> layout can [(h, es)] \<and> level can = 0 \<and> leaf_ok (next_bset_seq c') [(h, es)]
     \<and> bs_map [(h, es)] = bs_map bs \<and> 8 \<le> length es \<and> length es \<le> 29"
proof -
  have len: "length bs \<le> 4" "bset_count nd = length bs" "bsets_total bs \<le> 29" using nd(1) by (auto simp: layout_def)
  have good: "good_bsets bs" using nd(3) by (simp add: leaf_ok_def)
  obtain b where b: "b \<in> set bs" "8 \<le> length (snd b)" using some_big_bset [OF len(1) full] by blast
  show ?thesis
  proof (cases "bset_count nd > 1")
    case True
    obtain c' where c': "alloc_seq c = (Inr (next_bset_seq c), c')" "evolves B (Suc m) c0 c'" "sane n c'"
      "next_bset_seq c < next_bset_seq c'"
      using step_alloc_seq [OF ev] by blast
    obtain can h where can: "compact_leaf_in_place nd (next_bset_seq c) = Some can" "level can = 0"
      "layout can [(h, merged_list bs)]" "bh_seq h = next_bset_seq c"
      "wo_flag h \<longleftrightarrow> (\<exists>e \<in> set (merged_list bs). kind_enum e = Whiteout)"
      using compact_ok [OF nd(1) good] .
    have "leaf_ok (next_bset_seq c') [(h, merged_list bs)]"
      using c'(4) can(4,5) by (intro leaf_ok_single) auto
    then show ?thesis
      using True c' can bs_map_single [of h bs] merged_list_ge [OF good b(1)] b(2) merged_list_le [of bs] len(3)
      by (intro exI [of _ can] exI [of _ h] exI [of _ "merged_list bs"] exI [of _ c']) (simp add: bindM_Inr)
  next
    case False
    have "bs \<noteq> []" using full by (auto simp: bsets_total_def)
    then obtain h es where bs: "bs = [(h, es)]" using False len(2) by (cases bs) auto
    then show ?thesis
      using False ev nd full len(3) evolves_le [OF ev(1)] sane_le [OF ev(2)]
      by (intro exI [of _ nd] exI [of _ h] exI [of _ es] exI [of _ c]) (auto simp: bsets_total_def)
  qed
qed

lemma leaf_part:
  assumes "leaf_ok q [(h, es)]" "bh_seq h' = bh_seq h" "bh_flags h' = bh_flags h" "set es' \<subseteq> set es" "sorted_keys (entry_keys es')"
  shows "leaf_ok q [(h', es')]"
  using assms by (intro leaf_ok_single) (auto simp: leaf_ok_def flags_ok_def)

text \<open>The two halves of a divided leaf, as trees.\<close>

lemma halves_ok:
  assumes lay: "layout can [(h, es)]" "level can = 0" and ok: "leaf_ok q [(h, es)]"
    and dom: "\<forall>k \<in> dom (bs_map [(h, es)]). within lo hi k" and len: "8 \<le> length es" "length es \<le> 29"
  defines "mid \<equiv> length es div 2" and "m \<equiv> key_bytes (es ! (length es div 2))"
  obtains hl hr where "layout (set_nkeys mid can) [(hl, take mid es)]"
    "layout (set_nkeys (length es - mid) (set_bset_entries 0 (bsplice 0 (bslice mid (length es - mid) es) es) can)) [(hr, drop mid es)]"
    "leaf_ok q [(hl, take mid es)]" "leaf_ok q [(hr, drop mid es)]" "inside lo hi m" "ok_key m"
    "\<forall>k \<in> dom (bs_map [(hl, take mid es)]). within lo (Some m) k" "\<forall>k \<in> dom (bs_map [(hr, drop mid es)]). within (Some m) hi k"
    "\<forall>k. bs_map [(h, es)] k = (if m \<le> k then bs_map [(hr, drop mid es)] k else bs_map [(hl, take mid es)] k)"
proof -
  have mid: "0 < mid" "mid < length es" using len by (auto simp: mid_def)
  have srt: "sorted_keys (entry_keys es)" using ok by (simp add: leaf_ok_def good_bsets_def)
  have lt: "key_bytes (es ! i) < key_bytes (es ! j)" if "i < j" "j < length es" for i j
    using srt that by (auto simp: sorted_wrt_iff_nth_less)
  have m: "m = key_bytes (es ! mid)" by (simp add: m_def mid_def)
  have w: "within lo hi (key_bytes e)" if "e \<in> set es" for e using dom that by (auto simp: dom_keyed)
  have sz: "\<forall>e \<in> set es. sized_entry e" using lay_ok [OF lay(1)] by (simp add: ok_bset_def)
  obtain hl where hl: "bh_seq hl = bh_seq h" "bh_flags hl = bh_flags h" "layout (set_nkeys mid can) [(hl, take mid es)]"
    using leaf_halves(1) [OF lay, of mid] mid by auto
  obtain hr where hr: "bh_seq hr = bh_seq h" "bh_flags hr = bh_flags h"
    "layout (set_nkeys (length es - mid) (set_bset_entries 0 (bsplice 0 (bslice mid (length es - mid) es) es) can)) [(hr, drop mid es)]"
    using leaf_halves(2) [OF lay, of mid] mid by auto
  have "sorted_keys (entry_keys (take mid es @ drop mid es))" using srt by simp
  then have s: "sorted_keys (entry_keys (take mid es))" "sorted_keys (entry_keys (drop mid es))"
    unfolding map_append sorted_wrt_append by blast+
  have "es ! 0 \<in> set es" using len by (intro nth_mem) linarith
  then have "inside lo hi m"
    using w [OF nth_mem [OF mid(2)]] w [of "es ! 0"] lt [OF mid] len by (auto simp: inside_def within_def m split: option.splits)
  moreover have "ok_key m" using sized_key sz nth_mem [OF mid(2)] by (auto simp: m)
  moreover have "within lo (Some m) (key_bytes e)" if e: "e \<in> set (take mid es)" for e
  proof -
    obtain j where "j < length (take mid es)" "e = take mid es ! j" using e unfolding in_set_conv_nth by blast
    then show ?thesis using lt [of j mid] mid w [OF in_set_takeD [OF e]] by (auto simp: within_def m)
  qed
  moreover have "within (Some m) hi (key_bytes e)" if e: "e \<in> set (drop mid es)" for e
  proof -
    obtain j where j: "j < length (drop mid es)" "e = drop mid es ! j" using e unfolding in_set_conv_nth by blast
    then have "m \<le> key_bytes e" using lt [of mid "mid + j"] by (cases "j = 0") (auto simp: m less_diff_conv add.commute)
    then show ?thesis using w [OF in_set_dropD [OF e]] by (auto simp: within_def)
  qed
  ultimately show thesis
    using that [OF hl(3) hr(3)] leaf_part [OF ok hl(1,2) set_take_subset s(1)] leaf_part [OF ok hr(1,2) set_drop_subset s(2)]
      keyed_divide [OF srt mid(2)] by (simp add: dom_keyed m)
qed

lemma split_leaf_ok:
  assumes ev: "evolves B m c0 c" "sane (Suc (Suc (Suc (Suc n)))) c" and nd: "layout nd bs" "level nd = 0" "leaf_ok (next_bset_seq c) bs"
    and dom: "\<forall>k \<in> dom (bs_map bs). within lo hi k" and full: "29 \<le> bsets_total bs"
  shows "\<exists>root rt l r c' med x lbs rbs. split_leaf_node nd c = (Inr (root, rt, l, r), c') \<and> evolves B (Suc (Suc (Suc (Suc m)))) c0 c' \<and> sane n c'
     \<and> level root = 1 \<and> slots root [med, x] [0, 0] \<and> inside lo hi med \<and> rt \<in> owned c'
     \<and> distinct [rt, l, r] \<and> {rt, l, r} \<inter> allocated (store c0) = {}
     \<and> tree_ok c' 0 lo (Some med) (ALeaf l lbs) \<and> tree_ok c' 0 (Some med) hi (ALeaf r rbs)
     \<and> bsets_total lbs < 29 \<and> bsets_total rbs < 29
     \<and> (\<forall>k. bs_map bs k = (if med \<le> k then bs_map rbs k else bs_map lbs k))"
proof -
  obtain can h es c1 where c1: "(if bset_count nd > 1 then bindM alloc_seq (\<lambda>q. expect (compact_leaf_in_place nd q)) else ret nd) c = (Inr can, c1)"
    "evolves B (Suc m) c0 c1" "sane (Suc (Suc (Suc n))) c1" and can: "layout can [(h, es)]" "level can = 0" "leaf_ok (next_bset_seq c1) [(h, es)]"
    "bs_map [(h, es)] = bs_map bs" "8 \<le> length es" "length es \<le> 29"
    using canonical_ok [OF ev nd full] by blast
  let ?mid = "length es div 2" let ?m = "key_bytes (es ! ?mid)"
  let ?left = "set_nkeys ?mid can"
  let ?right = "set_nkeys (length es - ?mid) (set_bset_entries 0 (bsplice 0 (bslice ?mid (length es - ?mid) es) es) can)"
  obtain hl hr where hv: "layout ?left [(hl, take ?mid es)]" "layout ?right [(hr, drop ?mid es)]"
    "leaf_ok (next_bset_seq c1) [(hl, take ?mid es)]" "leaf_ok (next_bset_seq c1) [(hr, drop ?mid es)]" "inside lo hi ?m" "ok_key ?m"
    "\<forall>k \<in> dom (bs_map [(hl, take ?mid es)]). within lo (Some ?m) k" "\<forall>k \<in> dom (bs_map [(hr, drop ?mid es)]). within (Some ?m) hi k"
    "\<forall>k. bs_map [(h, es)] k = (if ?m \<le> k then bs_map [(hr, drop ?mid es)] k else bs_map [(hl, take ?mid es)] k)"
    using halves_ok [OF can(1,2,3) _ can(5,6), of lo hi] dom can(4) by auto
  obtain l c2 where c2: "on_store alloc c1 = (Inr l, c2)" "evolves B (Suc (Suc m)) c0 c2" "sane (Suc (Suc n)) c2"
    "l \<notin> allocated (store c0)" "l \<in> owned c2" "next_bset_seq c2 = next_bset_seq c1"
    using step_alloc [OF c1(2,3)] by blast
  obtain c3 where c3: "on_store (write_node l ?left) c2 = (Inr (), c3)" "evolves B (Suc (Suc m)) c0 c3" "sane (Suc (Suc n)) c3"
    "evolves {l} 0 c2 c3" "node_at (store c3) l = Some (stamped (store c2) ?left)" "next_bset_seq c3 = next_bset_seq c2"
    using step_write [OF c2(2,3,5) _ layout_sized [OF hv(1)]] c2(4) by blast
  have tl: "tree_ok c3 0 lo (Some ?m) (ALeaf l [(hl, take ?mid es)])"
    using c3 c2(5,6) hv can(2) evolves_owned [OF c3(4)] by (intro tree_ok_leafI [of _ _ "stamped (store c2) ?left"]) auto
  have l3: "l \<in> allocated (store c3)" using evolves_owned [OF c3(4) c2(5)] by (simp add: owned_def)
  obtain r c4 where c4: "on_store alloc c3 = (Inr r, c4)" "evolves B (Suc (Suc (Suc m))) c0 c4" "sane (Suc n) c4" "evolves {} 1 c3 c4"
    "r \<notin> allocated (store c0)" "r \<notin> allocated (store c3)" "r \<in> owned c4" "next_bset_seq c4 = next_bset_seq c3"
    using step_alloc [OF c3(2,3)] by blast
  obtain c5 where c5: "on_store (write_node r ?right) c4 = (Inr (), c5)" "evolves B (Suc (Suc (Suc m))) c0 c5" "sane (Suc n) c5"
    "evolves {r} 0 c4 c5" "node_at (store c5) r = Some (stamped (store c4) ?right)" "next_bset_seq c5 = next_bset_seq c4"
    using step_write [OF c4(2,3,7) _ layout_sized [OF hv(2)]] c4(5) by blast
  have rl: "r \<noteq> l" using l3 c4(6) by auto
  have tr5: "tree_ok c5 0 (Some ?m) hi (ALeaf r [(hr, drop ?mid es)])"
    using c5 c4(7,8) c3(6) c2(6) hv can(2) evolves_owned [OF c5(4)] by (intro tree_ok_leafI [of _ _ "stamped (store c4) ?right"]) auto
  have tl4: "tree_ok c4 0 lo (Some ?m) (ALeaf l [(hl, take ?mid es)])"
    using tree_ok_evolves [OF c4(4) evolves_alloc_ok [OF c3(2)] _ tl] by simp
  have tl5: "tree_ok c5 0 lo (Some ?m) (ALeaf l [(hl, take ?mid es)])"
    using tree_ok_evolves [OF c5(4) evolves_alloc_ok [OF c4(2)] _ tl4] rl by simp
  have in5: "l \<in> allocated (store c5)" "r \<in> allocated (store c5)"
    using tl5 tr5 by (auto simp: tree_ok_def owned_def)
  obtain rt c6 where c6: "on_store alloc c5 = (Inr rt, c6)" "evolves B (Suc (Suc (Suc (Suc m)))) c0 c6" "sane n c6" "evolves {} 1 c5 c6"
    "rt \<notin> allocated (store c0)" "rt \<notin> allocated (store c5)" "rt \<in> owned c6"
    using step_alloc [OF c5(2,3)] by blast
  have t6: "tree_ok c6 0 lo (Some ?m) (ALeaf l [(hl, take ?mid es)])" "tree_ok c6 0 (Some ?m) hi (ALeaf r [(hr, drop ?mid es)])"
    using tree_ok_evolves [OF c6(4) evolves_alloc_ok [OF c5(2)] _ tl5] tree_ok_evolves [OF c6(4) evolves_alloc_ok [OF c5(2)] _ tr5] by simp_all
  obtain root x where root: "new_parent 1 (generation can) ?m = Some root" "level root = 1" "slots root [?m, x] [0, 0]"
    using new_parent_ok [OF _ hv(6), of 1] by auto
  have es: "bset_entries can 0 = es" "nkeys can = length es" "entry can ?mid = es ! ?mid"
    using lay_entries [OF can(1), of 0] leaf_nkeys [OF can(1,2)] by (simp_all add: bsets_total_def entry_def entry_at_def)
  have "split_leaf_node nd c = (Inr (root, rt, l, r), c6)"
    unfolding split_leaf_node_def Let_def
      bindM_Inr [of "if bset_count nd > 1 then bindM alloc_seq (\<lambda>q. expect (compact_leaf_in_place nd q)) else ret nd" c, OF c1(1)] by (simp add: bindM_Inr c2(1) c3(1) c4(1) c5(1) c6(1) es root(1))
  moreover have "bsets_total [(hl, take ?mid es)] < 29" "bsets_total [(hr, drop ?mid es)] < 29"
    using can(5,6) by (auto simp: bsets_total_def)
  moreover have "distinct [rt, l, r]" "{rt, l, r} \<inter> allocated (store c0) = {}" using rl in5 c6(5,6) c2(4) c4(5) by auto
  ultimately show ?thesis
    using c6 root(2,3) hv(5,9) t6 can(4)
    by (intro exI [of _ root] exI [of _ rt] exI [of _ l] exI [of _ r] exI [of _ c6] exI [of _ ?m] exI [of _ x]
        exI [of _ "[(hl, take ?mid es)]"] exI [of _ "[(hr, drop ?mid es)]"]) simp
qed

section \<open>What an insertion returns\<close>

definition grown :: "bytes option \<Rightarrow> bytes option \<Rightarrow> nat \<Rightarrow> nat \<Rightarrow> atree \<Rightarrow> bool" where
  "grown lo hi L L' t = (L' = L \<or> L' = Suc L \<and> (\<exists>b m l r. t = ANode b [m] [l, r] \<and> inside lo hi m))"

definition inserted :: "write_mode \<Rightarrow> tctx \<Rightarrow> bytes \<Rightarrow> disk_entry \<Rightarrow> bytes option \<Rightarrow> bytes option \<Rightarrow> nat \<Rightarrow> atree \<Rightarrow> nat \<Rightarrow>
    u64 \<Rightarrow> tctx \<Rightarrow> bool" where
  "inserted mode c k e lo hi L t n b' c' = (\<exists>t' L'. blk t' = b' \<and> tree_ok c' L' lo hi t' \<and> grown lo hi L L' t'
     \<and> cont t' = (cont t)(k \<mapsto> e) \<and> set (blocks t') \<subseteq> set (blocks t) \<union> - allocated (store c)
     \<and> evolves (touched mode (set (blocks t))) n c c')"

lemma insertedI:
  "blk t' = b' \<Longrightarrow> tree_ok c' L' lo hi t' \<Longrightarrow> grown lo hi L L' t' \<Longrightarrow> cont t' = (cont t)(k \<mapsto> e) \<Longrightarrow>
     set (blocks t') \<subseteq> set (blocks t) \<union> - allocated (store c) \<Longrightarrow> evolves (touched mode (set (blocks t))) n c c' \<Longrightarrow>
     inserted mode c k e lo hi L t n b' c'"
  by (auto simp: inserted_def)

lemma tree_ok_nodeI:
  assumes "node_at (store c) b = Some n" "level n = of_nat (Suc L)" "Suc L < 256" "slots n (ks @ [x]) (map blk ts)"
    "wf_kids (next_bset_seq c) lo hi ks ts" "0 < length ks" "length ks \<le> 27" "\<And>t. t \<in> set ts \<Longrightarrow> rep (store c) L t"
    "distinct (b # concat (map blocks ts))" "b \<in> owned c" "\<And>t. t \<in> set ts \<Longrightarrow> set (blocks t) \<subseteq> owned c"
  shows "tree_ok c (Suc L) lo hi (ANode b ks ts)"
  using assms unfolding tree_ok_def wf_tree_ANode by (auto simp: internal_def)

lemma tree_ok_nodeE:
  assumes "tree_ok c L lo hi (ANode b ks ts)"
  obtains n x L' where "L = Suc L'" "L < 256" "node_at (store c) b = Some n" "level n = of_nat L" "0 < level n"
    "slots n (ks @ [x]) (map blk ts)" "wf_kids (next_bset_seq c) lo hi ks ts" "0 < length ks" "length ks \<le> 27"
    "\<And>t. t \<in> set ts \<Longrightarrow> rep (store c) L' t"
    "distinct (b # concat (map blocks ts))" "b \<in> owned c" "\<And>t. t \<in> set ts \<Longrightarrow> set (blocks t) \<subseteq> owned c"
proof -
  have r: "rep (store c) L (ANode b ks ts)" and w: "wf_tree (next_bset_seq c) lo hi (ANode b ks ts)"
    and d: "distinct (b # concat (map blocks ts))" "set (b # concat (map blocks ts)) \<subseteq> owned c"
    using assms by (auto simp: tree_ok_def)
  obtain n x L' where n: "L = Suc L'" "L < 256" "node_at (store c) b = Some n" "level n = of_nat L" "0 < level n"
    "slots n (ks @ [x]) (map blk ts)" "\<And>t. t \<in> set ts \<Longrightarrow> rep (store c) L' t"
    using rep_nodeE [OF r] by metis
  show thesis
    using that [OF n(1-6)] w n(7) d unfolding wf_tree_ANode by auto
qed

lemma tree_ok_child:
  assumes "wf_kids (next_bset_seq c) lo hi ks ts" "\<And>t. t \<in> set ts \<Longrightarrow> rep (store c) L t"
    "distinct (concat (map blocks ts))" "\<And>t. t \<in> set ts \<Longrightarrow> set (blocks t) \<subseteq> owned c" "i < length ts"
  shows "tree_ok c L (lo_at lo ks i) (hi_at hi ks i) (ts ! i)"
proof -
  have t: "ts ! i \<in> set ts" using assms(5) by simp
  have "distinct (blocks (ts ! i))" using assms(3) t by (simp add: distinct_concat_iff)
  then show ?thesis using assms t by (auto simp: tree_ok_def wf_kids_def)
qed

text \<open>Replacing one subtree by others whose blocks it owned or that are new.\<close>

lemma distinct_replace:
  assumes "distinct (concat (map f xs))" "i < length xs" "distinct (concat (map f ys))"
    "set (concat (map f ys)) \<subseteq> set (f (xs ! i)) \<union> F" "F \<inter> set (concat (map f xs)) = {}"
  shows "distinct (concat (map f (take i xs @ ys @ drop (Suc i) xs)))"
proof -
  define A D Y where "A = concat (map f (take i xs))" and "D = concat (map f (drop (Suc i) xs))" and "Y = concat (map f ys)"
  have "map f xs = map f (take i xs @ xs ! i # drop (Suc i) xs)" using id_take_nth_drop [OF assms(2)] by simp
  then have "concat (map f xs) = A @ f (xs ! i) @ D" by (simp add: A_def D_def)
  then have "distinct (A @ Y @ D)"
    using assms(1,3-5) unfolding Y_def [symmetric] by auto
  then show ?thesis by (simp add: A_def D_def Y_def)
qed

lemma update_append: "i < length xs \<Longrightarrow> xs[i := y] = take i xs @ [y] @ drop (Suc i) xs"
  by (simp add: upd_conv_take_nth_drop)

lemma split_at_append: "split_at i l r xs = take i xs @ [l, r] @ drop (Suc i) xs"
  by (simp add: split_at_def)

end
