(* ===== verification/Tree_Insert.thy ===== *)
theory Tree_Insert
  imports Leaf_Insert
begin

text \<open>
  Insertion into a tree.  From a well-formed tree, \<open>insert_rec\<close> returns a well-formed tree with the
  key bound to the new entry, in both write modes; in copy-on-write mode no block of the old tree
  changes.
\<close>

section \<open>Inserting into a leaf that may split\<close>

lemma small_leaf_insert:
  assumes t: "tree_ok c 0 lo hi (ALeaf b bs)" and k: "within lo hi k" "ok_key k" "build_leaf_entry k kind v = Some e"
    and s: "sane 2 c" and room: "bsets_total bs < 29"
  shows "\<exists>nb c' bs'. insert_rec (Suc fuel) k v kind mode b c = (Inr nb, c') \<and> tree_ok c' 0 lo hi (ALeaf nb bs')
     \<and> bs_map bs' = (bs_map bs)(k \<mapsto> e) \<and> (nb = b \<or> nb \<notin> allocated (store c)) \<and> evolves (touched mode {b}) 2 c c'"
proof -
  obtain n where n: "node_at (store c) b = Some n" "level n = 0" using tree_ok_leafE [OF t] by metis
  have ok: "alloc_ok (store c)" using s by (simp add: sane_def)
  obtain c1 where c1: "read_node b c = (Inr n, c1)" "sane 2 c1" "evolves {} 0 c c1"
    using step_read [OF evolves_refl [OF ok, of "{}" 0] s n(1)] by blast
  have t1: "tree_ok c1 0 lo hi (ALeaf b bs)" using tree_ok_evolves [OF c1(3) ok _ t] by simp
  obtain nb c2 bs' where c2: "insert_leaf (insert_rec fuel k v kind mode) b k v kind mode c1 = (Inr nb, c2)" "tree_ok c2 0 lo hi (ALeaf nb bs')"
    "bs_map bs' = (bs_map bs)(k \<mapsto> e)" "nb = b \<or> nb \<notin> allocated (store c1)" "evolves (touched mode {b}) 2 c1 c2"
    using runs_result [OF leaf_write_ok [OF t1 k c1(2), of "insert_rec fuel k v kind mode" mode]] room by auto
  have "evolves (touched mode {b}) 2 c c2"
    using evolves_trans [OF evolves_le [OF c1(3), of 0 "touched mode {b}"] c2(5)] by (simp add: numeral_2_eq_2)
  moreover have "nb = b \<or> nb \<notin> allocated (store c)" using c2(4) evolves_allocated [OF c1(3)] by blast
  ultimately show ?thesis using n(2) c1(1) c2(1-3) by (auto simp: bindM_Inr)
qed

lemma set_children_ok:
  assumes "slots root [m, x] [0, 0]"
  shows "slots (set_child_block 1 r (set_child_block 0 l root)) [m, x] [l, r]"
  using slots_set_child [OF slots_set_child [OF assms, of 0 l], of 1 r] by simp

lemma insert_leaf_split_ok:
  assumes t: "tree_ok c 0 lo hi (ALeaf b bs)" and k: "within lo hi k" "ok_key k" "build_leaf_entry k kind v = Some e"
    and s: "sane 6 c" and n: "node_at (store c) b = Some n" and full: "\<not> leaf_absorbs n k" "29 \<le> bsets_total bs"
  shows "runs (insert_leaf (insert_rec (Suc fuel) k v kind mode) b k v kind mode) c (inserted mode c k e lo hi 0 (ALeaf b bs) 6)"
proof -
  let ?B = "touched mode {b}"
  have lf: "level n = 0" "layout n bs" "leaf_ok (next_bset_seq c) bs" "\<forall>k \<in> dom (bs_map bs). within lo hi k"
    using tree_ok_leafE [OF t] n by auto
  have ok: "alloc_ok (store c)" using s by (simp add: sane_def)
  obtain c1 where c1: "read_node b c = (Inr n, c1)" "evolves ?B 0 c c1" "sane 6 c1" "next_bset_seq c1 = next_bset_seq c"
    using step_read [OF evolves_refl [OF ok, of ?B 0] s n] by blast
  have s1: "sane (Suc (Suc (Suc (Suc 2)))) c1" "leaf_ok (next_bset_seq c1) bs" using c1(3,4) lf(3) by (simp_all add: eval_nat_numeral)
  obtain root rt l r c2 m x lbs rbs where c2: "split_leaf_node n c1 = (Inr (root, rt, l, r), c2)" "evolves ?B 4 c c2" "sane 2 c2"
    "level root = 1" "slots root [m, x] [0, 0]" "inside lo hi m" "rt \<in> owned c2" "distinct [rt, l, r]" "{rt, l, r} \<inter> allocated (store c) = {}"
    "tree_ok c2 0 lo (Some m) (ALeaf l lbs)" "tree_ok c2 0 (Some m) hi (ALeaf r rbs)" "bsets_total lbs < 29" "bsets_total rbs < 29"
    "\<forall>k. bs_map bs k = (if m \<le> k then bs_map rbs k else bs_map lbs k)"
    using split_leaf_ok [OF c1(2) s1(1) lf(2,1) s1(2) lf(4) full(2)] by (auto simp: eval_nat_numeral)
  let ?ts = "[ALeaf l lbs, ALeaf r rbs]" and ?i = "upper_bound [m] k" and ?rb = "set_child_block 1 r (set_child_block 0 l root)"
  have i: "?i = (if m \<le> k then 1 else 0)" by (simp add: upper_bound_def)
  have il: "?i < length ?ts" using i by simp
  have rb: "slots ?rb ([m] @ [x]) (map blk ?ts)" "level ?rb = 1" using set_children_ok [OF c2(5)] c2(4) by simp_all
  have w: "wf_tree (next_bset_seq c2) lo (Some m) (ALeaf l lbs)" "wf_tree (next_bset_seq c2) (Some m) hi (ALeaf r rbs)"
    using c2(10,11) unfolding tree_ok_def by blast+
  have kids: "wf_kids q lo hi [m] ?ts" if "next_bset_seq c2 \<le> q" for q
    using w [THEN wf_tree_mono, OF that] c2(6) by (auto simp: wf_kids_def inside_def lo_at_def hi_at_def less_Suc_eq)
  have bound: "within (lo_at lo [m] ?i) (hi_at hi [m] ?i) k" using route_within [of "[m]" lo hi k] k(1) by simp
  obtain cb cbs where child: "?ts ! ?i = ALeaf cb cbs" "cb \<in> {l, r}" "bsets_total cbs < 29"
    "tree_ok c2 0 (lo_at lo [m] ?i) (hi_at hi [m] ?i) (ALeaf cb cbs)"
    using c2(10-13) i by (cases "m \<le> k") (auto simp: lo_at_def hi_at_def)
  obtain nd where nd: "node_at (store c2) cb = Some nd" "level nd = 0" using tree_ok_leafE [OF child(4)] by metis
  obtain c3 where c3: "read_node cb c2 = (Inr nd, c3)" "evolves ?B 4 c c3" "sane 2 c3" "evolves {} 0 c2 c3" "owned c3 = owned c2"
    using step_read [OF c2(2,3) nd(1)] by blast
  note ok2 = evolves_alloc_ok [OF c2(2)] and ok3 = evolves_alloc_ok [OF c3(2)]
  have t3: "tree_ok c3 0 (lo_at lo [m] ?i) (hi_at hi [m] ?i) (ALeaf cb cbs)" using tree_ok_evolves [OF c3(4) ok2 _ child(4)] by simp
  obtain nb c4 nbs where c4: "insert_rec (Suc fuel) k v kind mode cb c3 = (Inr nb, c4)"
    "tree_ok c4 0 (lo_at lo [m] ?i) (hi_at hi [m] ?i) (ALeaf nb nbs)" "bs_map nbs = (bs_map cbs)(k \<mapsto> e)"
    "nb = cb \<or> nb \<notin> allocated (store c3)" "evolves (touched mode {cb}) 2 c3 c4"
    using small_leaf_insert [OF t3 bound k(2,3) c3(3) child(3)] by blast
  have fr: "cb \<notin> allocated (store c)" using child(2) c2(9) by auto
  have ev4: "evolves ?B 6 c c4" using evolves_trans [OF c3(2) c4(5)] fr touched_subset [of mode "{cb}"] by auto
  have s4: "sane 0 c4" using evolves_sane [OF _ c4(5), of 0] c3(3) by simp
  obtain nd' where nd': "node_at (store c4) nb = Some nd'" "level nd' = 0" using tree_ok_leafE [OF c4(2)] by metis
  obtain c5 where c5: "read_node nb c4 = (Inr nd', c5)" "evolves ?B 6 c c5" "sane 0 c5" "evolves {} 0 c4 c5" "owned c5 = owned c4"
    using step_read [OF ev4 s4 nd'(1)] by blast
  define ts' where "ts' = ?ts[?i := ALeaf nb nbs]"
  let ?n = "set_child_block ?i nb ?rb"
  have fin: "slots ?n ([m] @ [x]) (map blk ts')" "level ?n = 1"
    using slots_set_child [OF rb(1), of ?i nb] rb(2) i by (auto simp: ts'_def split: if_splits)
  have rt5: "rt \<in> owned c5" using c2(7) c3(5) evolves_owned [OF c4(5)] c5(5) by simp
  obtain c6 where c6: "on_store (write_node rt ?n) c5 = (Inr (), c6)" "evolves ?B 6 c c6" "evolves {rt} 0 c5 c6"
    "node_at (store c6) rt = Some (stamped (store c5) ?n)"
    using step_write [OF c5(2,3) rt5 _ slots_sized [OF fin(1)]] c2(9) by blast
  obtain sb sbs lo' hi' where sib: "set ts' = {ALeaf nb nbs, ALeaf sb sbs}" "{cb, sb} = {l, r}" "cb \<noteq> sb"
    "concat (map blocks ts') \<in> {[nb, sb], [sb, nb]}" "tree_ok c2 0 lo' hi' (ALeaf sb sbs)"
  proof (cases "m \<le> k")
    case True
    then show ?thesis using that [of r rbs] that [of l lbs] c2(8,10) child(1) i by (auto simp: ts'_def insert_commute)
  next
    case False
    then show ?thesis using that [of r rbs] c2(8,11) child(1) i by (auto simp: ts'_def)
  qed
  have neq: "sb \<noteq> rt" "sb \<noteq> cb" "nb \<noteq> rt" "nb \<noteq> sb"
  proof -
    have "sb \<in> allocated (store c3)" "rt \<in> allocated (store c3)" using sib(5) c2(7) c3(5) by (auto simp: tree_ok_def owned_def)
    moreover have "sb \<in> {l, r}" using sib(2) by auto
    ultimately show "sb \<noteq> rt" "sb \<noteq> cb" "nb \<noteq> rt" "nb \<noteq> sb" using c4(4) child(2) c2(8) sib(3) by auto
  qed
  have "tree_ok c3 0 lo' hi' (ALeaf sb sbs)" using tree_ok_evolves [OF c3(4) ok2 _ sib(5)] by simp
  moreover have "set (blocks (ALeaf sb sbs)) \<inter> touched mode {cb} = {}" using neq(2) by (cases mode) auto
  ultimately have "tree_ok c4 0 lo' hi' (ALeaf sb sbs)" using tree_ok_evolves [OF c4(5) ok3] by blast
  then have "tree_ok c5 0 lo' hi' (ALeaf sb sbs)" using tree_ok_evolves [OF c5(4) evolves_alloc_ok [OF ev4]] by simp
  then have ts6: "tree_ok c6 0 lo' hi' (ALeaf sb sbs)"
    using tree_ok_evolves [OF c6(3) evolves_alloc_ok [OF c5(2)]] neq(1) by simp
  have "tree_ok c5 0 (lo_at lo [m] ?i) (hi_at hi [m] ?i) (ALeaf nb nbs)"
    using tree_ok_evolves [OF c5(4) evolves_alloc_ok [OF ev4] _ c4(2)] by simp
  then have tn6: "tree_ok c6 0 (lo_at lo [m] ?i) (hi_at hi [m] ?i) (ALeaf nb nbs)"
    using tree_ok_evolves [OF c6(3) evolves_alloc_ok [OF c5(2)]] neq(3) by simp
  have q6: "next_bset_seq c2 \<le> next_bset_seq c6"
    using evolves_seq [OF c3(4)] evolves_seq [OF c4(5)] evolves_seq [OF c5(4)] evolves_seq [OF c6(3)] by order
  have "tree_ok c6 (Suc 0) lo hi (ANode rt [m] ts')"
  proof (rule tree_ok_nodeI [OF c6(4)])
    show "wf_kids (next_bset_seq c6) lo hi [m] ts'"
      using wf_kids_update [OF kids [OF q6], of ?i] tn6 unfolding tree_ok_def ts'_def by blast
    show "rep (store c6) 0 t" "set (blocks t) \<subseteq> owned c6" if "t \<in> set ts'" for t
      using that tn6 ts6 unfolding sib(1) tree_ok_def by blast+
    have "distinct (rt # ys)" if "ys \<in> {[nb, sb], [sb, nb]}" for ys using that neq by auto
    then show "distinct (rt # concat (map blocks ts'))" using sib(4) .
    show "slots (stamped (store c5) ?n) ([m] @ [x]) (map blk ts')" using fin(1) by (simp add: slots_def)
  qed (use fin(2) evolves_owned [OF c6(3) rt5] in auto)
  moreover have "cont (ANode rt [m] ts') = (cont (ALeaf b bs))(k \<mapsto> e)"
  proof -
    have "cont (ALeaf nb nbs) = (cont (?ts ! ?i))(k \<mapsto> e)" using c4(3) child(1) by (simp add: fun_eq_iff)
    then have "cont (ANode rt [m] ts') = (cont (ANode rt [m] ?ts))(k \<mapsto> e)"
      unfolding ts'_def by (intro cont_update) simp_all
    moreover have "cont (ANode rt [m] ?ts) = cont (ALeaf b bs)"
      using c2(14) by (simp add: fun_eq_iff upper_bound_def)
    ultimately show ?thesis by (simp only:)
  qed
  moreover have "nb \<notin> allocated (store c)" using c4(4) fr evolves_allocated [OF c3(2)] by blast
  then have "set (blocks (ANode rt [m] ts')) \<subseteq> set (blocks (ALeaf b bs)) \<union> - allocated (store c)"
    using sib(1,2) c2(9) by auto
  moreover have "\<exists>u w. ts' = [u, w]" using i by (cases "m \<le> k") (simp_all add: ts'_def)
  then have "grown lo hi 0 (Suc 0) (ANode rt [m] ts')" using c2(6) by (auto simp: grown_def)
  ultimately have ins: "inserted mode c k e lo hi 0 (ALeaf b bs) 6 rt c6"
    using c6(2) by (intro insertedI [of "ANode rt [m] ts'"]) simp_all
  have rb': "route ?rb k = ?i" "child_block ?rb ?i = cb"
    using node_children(1,2) [OF rb(1)] rb(2) il child(1) by auto
  have "\<not> (\<not> (\<not> leaf_absorbs n k \<and> MAX_ENTRIES \<le> nkeys n))" using full leaf_nkeys [OF lf(2,1)] by simp
  then have "insert_leaf (insert_rec (Suc fuel) k v kind mode) b k v kind mode c = (Inr rt, c6)"
    unfolding insert_leaf_def Let_def
    by (simp add: bindM_Inr c1(1) c2(1) rb' c3(1) c4(1) c5(1) c6(1) nd(2) nd'(2) del: insert_rec.simps One_nat_def)
  then show ?thesis using ins by (rule runsI)
qed

section \<open>Splitting an internal node\<close>

lemma level_less: "m < n \<Longrightarrow> n < 256 \<Longrightarrow> (of_nat m :: u8) < of_nat n"
  by (simp add: word_less_nat_alt unat_of_nat_small)

lemma level_pos: "0 < n \<Longrightarrow> n < 256 \<Longrightarrow> (0 :: u8) < of_nat n"
  using level_less [of 0 n] by simp

text \<open>The children of a node in a context: nodes of one level, disjoint, on owned blocks.\<close>

definition kids_ok :: "tctx \<Rightarrow> nat \<Rightarrow> bytes option \<Rightarrow> bytes option \<Rightarrow> bytes list \<Rightarrow> atree list \<Rightarrow> bool" where
  "kids_ok c L lo hi ks ts = (wf_kids (next_bset_seq c) lo hi ks ts \<and> (\<forall>t \<in> set ts. rep (store c) L t)
     \<and> distinct (concat (map blocks ts)) \<and> (\<forall>t \<in> set ts. set (blocks t) \<subseteq> owned c))"

lemma kids_okD:
  assumes "kids_ok c L lo hi ks ts"
  shows "wf_kids (next_bset_seq c) lo hi ks ts" "length ts = Suc (length ks)" "sorted_keys ks" "\<And>t. t \<in> set ts \<Longrightarrow> rep (store c) L t"
    "distinct (concat (map blocks ts))" "\<And>t. t \<in> set ts \<Longrightarrow> set (blocks t) \<subseteq> owned c"
  using assms by (auto simp: kids_ok_def wf_kids_def)

lemma kids_ok_evolves:
  assumes "evolves B n c c'" "alloc_ok (store c)" "set (concat (map blocks ts)) \<inter> B = {}" "kids_ok c L lo hi ks ts"
  shows "kids_ok c' L lo hi ks ts"
proof -
  have "rep (store c') L t" if t: "t \<in> set ts" for t
    using rep_evolves [OF assms(1,2) _ _ kids_okD(4) [OF assms(4) t]] kids_okD(6) [OF assms(4) t] assms(3) t by (auto simp: owned_def)
  then show ?thesis
    using assms(4) wf_kids_mono [OF _ evolves_seq [OF assms(1)]] evolves_owned [OF assms(1)] unfolding kids_ok_def by blast
qed

lemma tree_ok_kids:
  assumes "node_at (store c) b = Some n" "level n = of_nat (Suc L)" "Suc L < 256" "slots n (ks @ [x]) (map blk ts)"
    "kids_ok c L lo hi ks ts" "0 < length ks" "length ks \<le> 27" "b \<in> owned c" "b \<notin> set (concat (map blocks ts))"
  shows "tree_ok c (Suc L) lo hi (ANode b ks ts)"
  using assms kids_okD [OF assms(5)] by (intro tree_ok_nodeI [of c b n L ks x]) auto

lemma kids_take:
  assumes "kids_ok c L lo hi ks ts" "0 < mid" "mid < length ks"
  shows "kids_ok c L lo (Some (ks ! mid)) (take mid ks) (take (Suc mid) ts)"
    "kids_ok c L (Some (ks ! mid)) hi (drop (Suc mid) ks) (drop (Suc mid) ts)"
proof -
  note k = kids_okD [OF assms(1)] and w = wf_kids_divide [OF kids_okD(1) [OF assms(1)] assms(2,3)]
  have "concat (map blocks (take (Suc mid) ts @ drop (Suc mid) ts)) = concat (map blocks (take (Suc mid) ts)) @ concat (map blocks (drop (Suc mid) ts))"
    by (simp only: map_append concat_append)
  then have d: "distinct (concat (map blocks (take (Suc mid) ts)))" "distinct (concat (map blocks (drop (Suc mid) ts)))"
    using k(5) by simp_all
  show "kids_ok c L lo (Some (ks ! mid)) (take mid ks) (take (Suc mid) ts)"
    using w(2) d(1) k(4,6) unfolding kids_ok_def by (blast dest: in_set_takeD)
  show "kids_ok c L (Some (ks ! mid)) hi (drop (Suc mid) ks) (drop (Suc mid) ts)"
    using w(3) d(2) k(4,6) unfolding kids_ok_def by (blast dest: in_set_dropD)
qed

lemma split_internal_ok:
  assumes s: "sane (Suc (Suc (Suc n))) c" and nd: "slots nd (ks @ [x]) (map blk ts)" "level nd = of_nat (Suc L)" "0 < level nd" "Suc (Suc L) < 256"
    and kids: "kids_ok c L lo hi ks ts" and len: "4 \<le> length ks" "length ks \<le> 28"
  defines "mid \<equiv> length ks div 2"
  shows "\<exists>root rt l r c' y. split_internal_node nd c = (Inr (root, rt, l, r), c') \<and> evolves {} 3 c c' \<and> sane n c'
     \<and> level root = of_nat (Suc (Suc L)) \<and> slots root [ks ! mid, y] [0, 0] \<and> rt \<in> owned c'
     \<and> distinct [rt, l, r] \<and> {rt, l, r} \<inter> allocated (store c) = {}
     \<and> tree_ok c' (Suc L) lo (Some (ks ! mid)) (ANode l (take mid ks) (take (Suc mid) ts))
     \<and> tree_ok c' (Suc L) (Some (ks ! mid)) hi (ANode r (drop (Suc mid) ks) (drop (Suc mid) ts))"
proof -
  have mid: "0 < mid" "mid < length ks" "nkeys nd = length ks" "Suc mid < length ks"
    using len slots_nkeys [OF nd(1,3)] by (auto simp: mid_def)
  have tsl: "length ts = Suc (length ks)" using kids_okD(2) [OF kids] .
  let ?m = "ks ! mid" and ?left = "set_nkeys mid nd"
  have left: "slots ?left (take mid ks @ [?m]) (map blk (take (Suc mid) ts))" "level ?left = of_nat (Suc L)"
    using slots_shrink [OF nd(1,3), of mid] mid nd(2) by (simp_all add: take_Suc_conv_app_nth take_map)
  obtain right y' where right: "split_right nd (length ks) mid = Some right" "level right = level nd"
    "slots right (drop (Suc mid) ks @ [y']) (map blk (drop (Suc mid) ts))"
    using split_right_ok [OF nd(1,3) _ mid(2)] mid by (auto simp: drop_map)
  have okm: "ok_key ?m" using slots_keys [OF nd(1)] mid(2) by simp
  have al: "set (blocks t) \<subseteq> allocated (store c)" if "t \<in> set ts" for t using kids_okD(6) [OF kids that] by (auto simp: owned_def)
  have ok: "alloc_ok (store c)" using s by (simp add: sane_def)
  obtain l c1 where c1: "on_store alloc c = (Inr l, c1)" "evolves {} 1 c c1" "sane (Suc (Suc n)) c1" "l \<notin> allocated (store c)" "l \<in> owned c1"
    using step_alloc [OF evolves_refl [OF ok, of "{}" 0] s] by auto
  obtain c2 where c2: "on_store (write_node l ?left) c1 = (Inr (), c2)" "evolves {} 1 c c2" "sane (Suc (Suc n)) c2" "evolves {l} 0 c1 c2"
    "node_at (store c2) l = Some (stamped (store c1) ?left)"
    using step_write [OF c1(2,3,5) _ slots_sized [OF left(1)]] c1(4) by blast
  have l2: "l \<in> owned c2" using evolves_owned [OF c2(4) c1(5)] .
  obtain r c3 where c3: "on_store alloc c2 = (Inr r, c3)" "evolves {} (Suc 1) c c3" "sane (Suc n) c3" "evolves {} 1 c2 c3"
    "r \<notin> allocated (store c)" "r \<notin> allocated (store c2)" "r \<in> owned c3"
    using step_alloc [OF c2(2,3)] by blast
  obtain c4 where c4: "on_store (write_node r right) c3 = (Inr (), c4)" "evolves {} (Suc 1) c c4" "sane (Suc n) c4" "evolves {r} 0 c3 c4"
    "node_at (store c4) r = Some (stamped (store c3) right)"
    using step_write [OF c3(2,3,7) _ slots_sized [OF right(3)]] c3(5) by blast
  obtain rt c5 where c5: "on_store alloc c4 = (Inr rt, c5)" "evolves {} (Suc (Suc 1)) c c5" "sane n c5" "evolves {} 1 c4 c5"
    "rt \<notin> allocated (store c)" "rt \<notin> allocated (store c4)" "rt \<in> owned c5"
    using step_alloc [OF c4(2,3)] by blast
  have rl: "r \<noteq> l" using c3(6) l2 by (auto simp: owned_def)
  have own: "l \<in> owned c4" "r \<in> owned c4" using evolves_owned [OF c4(4)] evolves_owned [OF c3(4) l2] c3(7) by blast+
  have "node_at (store c3) l = Some (stamped (store c1) ?left)"
    using evolves_node [OF c3(4) evolves_alloc_ok [OF c2(2)] _ _ c2(5)] l2 by (simp add: owned_def)
  then have n4: "node_at (store c4) l = Some (stamped (store c1) ?left)"
    using evolves_node [OF c4(4) evolves_alloc_ok [OF c3(2)]] evolves_owned [OF c3(4) l2] rl by (simp add: owned_def)
  have n5: "node_at (store c5) l = Some (stamped (store c1) ?left)" "node_at (store c5) r = Some (stamped (store c3) right)"
    using evolves_node [OF c5(4) evolves_alloc_ok [OF c4(2)] _ _ n4] evolves_node [OF c5(4) evolves_alloc_ok [OF c4(2)] _ _ c4(5)] own
    by (auto simp: owned_def)
  have k5: "kids_ok c5 L lo hi ks ts" using kids_ok_evolves [OF c5(2) ok _ kids] by simp
  have st: "slots (stamped s n) a b = slots n a b" for s n a b by (simp add: slots_def)
  have "tree_ok c5 (Suc L) lo (Some ?m) (ANode l (take mid ks) (take (Suc mid) ts))"
  proof (rule tree_ok_kids [OF n5(1) _ _ _ kids_take(1) [OF k5 mid(1,2)]])
    show "l \<notin> set (concat (map blocks (take (Suc mid) ts)))" using al c1(4) by (auto dest: in_set_takeD)
  qed (use left st nd(4) mid len evolves_owned [OF c5(4) own(1)] in auto)
  moreover have "tree_ok c5 (Suc L) (Some ?m) hi (ANode r (drop (Suc mid) ks) (drop (Suc mid) ts))"
  proof (rule tree_ok_kids [OF n5(2) _ _ _ kids_take(2) [OF k5 mid(1,2)]])
    show "r \<notin> set (concat (map blocks (drop (Suc mid) ts)))" using al c3(5) by (auto dest: in_set_dropD)
  qed (use right st nd(2,4) mid len evolves_owned [OF c5(4) own(2)] in auto)
  moreover obtain root y where root: "new_parent (level nd + 1) (generation nd) ?m = Some root" "level root = level nd + 1" "slots root [?m, y] [0, 0]"
  proof -
    have eq: "level nd + 1 = of_nat (Suc (Suc L))" using nd(2) by simp
    have "0 < level nd + 1" unfolding eq using nd(4) by (intro level_pos) simp_all
    then show ?thesis using new_parent_ok [OF _ okm] that by blast
  qed
  moreover have ek: "key_bytes (entry nd mid) = ?m" using slots_entry [OF nd(1), of mid] mid(2) by (simp add: nth_append)
  moreover have "split_internal_node nd c = (Inr (root, rt, l, r), c5)"
    unfolding split_internal_node_def Let_def
    by (simp add: bindM_Inr mid(3) mid_def [symmetric] ek c1(1) c2(1) c3(1) c4(1) c5(1) right(1) root(1))
  moreover have "distinct [rt, l, r]" using rl own c5(6) by (auto simp: owned_def)
  ultimately show ?thesis using c5 c1(4) c3(5) nd(2) by (auto simp: numeral_3_eq_3)
qed

section \<open>Promoting a separator\<close>

lemma tree_ok_pair:
  assumes "node_at (store c) b = Some n" "level n = of_nat (Suc L)" "Suc L < 256" "slots n [m, x] [blk l, blk r]" "inside lo hi m"
    and l: "tree_ok c L lo (Some m) l" and r: "tree_ok c L (Some m) hi r" and "b \<in> owned c" "distinct (b # blocks l @ blocks r)"
  shows "tree_ok c (Suc L) lo hi (ANode b [m] [l, r])"
proof (rule tree_ok_nodeI [OF assms(1-3)])
  show "wf_kids (next_bset_seq c) lo hi [m] [l, r]"
    using l r assms(5) unfolding tree_ok_def wf_kids_def inside_def by (simp add: lo_at_def hi_at_def less_Suc_eq all_conj_distrib)
  show "rep (store c) L t" "set (blocks t) \<subseteq> owned c" if "t \<in> set [l, r]" for t using that l r unfolding tree_ok_def by auto
qed (use assms(4,8,9) in simp_all)

lemma promoted_slots:
  assumes p: "slots p (ks @ [x]) (map blk ts)" "0 < level p" and len: "length ks \<le> 27" "i \<le> length ks" "ok_key m"
  obtains n y where "promoted p i m (blk l) (blk r) = Some n" "level n = level p"
    "slots n (ins_at i m ks @ [y]) (map blk (split_at i l r ts))"
proof -
  have "length (ks @ [x]) = Suc (length ks)" "length ks < 28" using len by auto
  then obtain n y where "promoted p i m (blk l) (blk r) = Some n" "level n = level p"
    "slots n (take i (ks @ [x]) @ m # take (length ks - i) (drop i (ks @ [x])) @ [y]) (take i (map blk ts) @ blk l # blk r # drop (Suc i) (map blk ts))"
    using promoted_ok [OF p _ _ len(2,3)] by metis
  then show thesis using that len by (simp add: ins_at_def split_at_def take_map drop_map)
qed

lemma promote_ok:
  assumes s: "sane 4 c" and p: "slots p (ks @ [x]) (map blk ts)" "level p = of_nat (Suc L)" "0 < level p" "Suc (Suc L) < 256"
    and kids: "kids_ok c L lo hi (ins_at i m ks) (split_at i l r ts)" and len: "length ks \<le> 27" "i \<le> length ks" "ok_key m"
  shows "\<exists>t' L' c'. promote_to_parent p i m (blk l) (blk r) c = (Inr (blk t'), c') \<and> tree_ok c' L' lo hi t'
     \<and> grown lo hi (Suc L) L' t' \<and> cont t' = cont (ANode b (ins_at i m ks) (split_at i l r ts))
     \<and> set (blocks t') \<subseteq> set (concat (map blocks (split_at i l r ts))) \<union> - allocated (store c) \<and> evolves {} 4 c c'"
proof -
  let ?ks = "ins_at i m ks" and ?ts = "split_at i l r ts"
  obtain n y where n: "promoted p i m (blk l) (blk r) = Some n" "level n = level p" "slots n (?ks @ [y]) (map blk ?ts)"
    using promoted_slots [OF p(1,3) len] .
  have nk: "nkeys n = Suc (length ks)" using slots_nkeys [OF n(3)] n(2) p(3) len by simp
  have al: "set (blocks t) \<subseteq> allocated (store c)" if "t \<in> set ?ts" for t using kids_okD(6) [OF kids that] by (auto simp: owned_def)
  have ok: "alloc_ok (store c)" using s by (simp add: sane_def)
  have st: "slots (stamped s n) a b = slots n a b" for s n a b by (simp add: slots_def)
  have s': "sane (Suc 3) c" using s by (simp add: eval_nat_numeral)
  obtain nb c1 where c1: "on_store alloc c = (Inr nb, c1)" "evolves {} 1 c c1" "sane 3 c1" "nb \<notin> allocated (store c)" "nb \<in> owned c1"
    using step_alloc [OF evolves_refl [OF ok, of "{}" 0] s'] by auto
  have k1: "kids_ok c1 L lo hi ?ks ?ts" using kids_ok_evolves [OF c1(2) ok _ kids] by simp
  show ?thesis
  proof (cases "Suc (length ks) \<le> 27")
    case True
    obtain c2 where c2: "on_store (write_node nb n) c1 = (Inr (), c2)" "evolves {} 1 c c2" "evolves {nb} 0 c1 c2"
      "node_at (store c2) nb = Some (stamped (store c1) n)"
      using step_write [OF c1(2,3,5) _ slots_sized [OF n(3)]] c1(4) by blast
    have k2: "kids_ok c2 L lo hi ?ks ?ts" using kids_ok_evolves [OF c2(2) ok _ kids] by simp
    have "nb \<notin> set (concat (map blocks ?ts))" using al c1(4) by (simp only: set_concat set_map) blast
    then have "tree_ok c2 (Suc L) lo hi (ANode nb ?ks ?ts)"
      using n p(2,4) st True len(2) evolves_owned [OF c2(3) c1(5)] by (intro tree_ok_kids [OF c2(4) _ _ _ k2]) auto
    moreover have "promote_to_parent p i m (blk l) (blk r) c = (Inr nb, c2)"
      using True by (simp add: promote_to_parent_def bindM_Inr c1(1) n(1) nk c2(1))
    ultimately show ?thesis
      using c1(4) evolves_le [OF c2(2), of 4 "{}"]
      by (intro exI [of _ "ANode nb ?ks ?ts"] exI [of _ "Suc L"] exI [of _ c2]) (auto simp: grown_def)
  next
    case False
    have len': "4 \<le> length ?ks" "length ?ks \<le> 28" using False len by simp_all
    have lv: "level n = of_nat (Suc L)" "0 < level n" using n(2) p(2,3) by simp_all
    have s1: "sane (Suc (Suc (Suc 0))) c1" using c1(3) by (simp add: eval_nat_numeral)
    define mid where "mid = length ?ks div 2"
    let ?m = "?ks ! mid" and ?A = "\<lambda>b. ANode b (take mid ?ks) (take (Suc mid) ?ts)" and ?Z = "\<lambda>b. ANode b (drop (Suc mid) ?ks) (drop (Suc mid) ?ts)"
    obtain root rt a z c2 w where c2: "split_internal_node n c1 = (Inr (root, rt, a, z), c2)" "evolves {} 3 c1 c2" "sane 0 c2"
      "level root = of_nat (Suc (Suc L))" "slots root [?m, w] [0, 0]" "rt \<in> owned c2" "distinct [rt, a, z]" "{rt, a, z} \<inter> allocated (store c1) = {}"
      "tree_ok c2 (Suc L) lo (Some ?m) (?A a)" "tree_ok c2 (Suc L) (Some ?m) hi (?Z z)"
      using split_internal_ok [OF s1 n(3) lv p(4) k1 len'] unfolding mid_def [symmetric]
      by (elim exE conjE) iprover
    have ev2: "evolves {} 4 c c2" using evolves_trans [OF c1(2) c2(2)] by (simp add: eval_nat_numeral)
    let ?n = "set_child_block 1 z (set_child_block 0 a root)"
    have fin: "slots ?n ([?m] @ [w]) (map blk [?A a, ?Z z])" "level ?n = of_nat (Suc (Suc L))"
      using set_children_ok [OF c2(5)] c2(4) by simp_all
    have fresh: "{rt, a, z} \<inter> allocated (store c) = {}" using c2(8) evolves_allocated [OF c1(2)] by blast
    obtain c3 where c3: "on_store (write_node rt ?n) c2 = (Inr (), c3)" "evolves {} 4 c c3" "evolves {rt} 0 c2 c3"
      "node_at (store c3) rt = Some (stamped (store c2) ?n)"
      using step_write [OF ev2 c2(3,6) _ slots_sized [OF fin(1)]] fresh by blast
    have mid: "0 < mid" "mid < length ?ks" using len' by (auto simp: mid_def)
    note wf = wf_kids_divide [OF kids_okD(1) [OF kids] mid]
    have sub: "set (concat (map blocks (take (Suc mid) ?ts))) \<subseteq> allocated (store c)" "set (concat (map blocks (drop (Suc mid) ?ts))) \<subseteq> allocated (store c)"
      using al by (auto dest!: in_set_takeD in_set_dropD)
    have "concat (map blocks (take (Suc mid) ?ts @ drop (Suc mid) ?ts)) = concat (map blocks (take (Suc mid) ?ts)) @ concat (map blocks (drop (Suc mid) ?ts))"
      by (simp only: map_append concat_append)
    then have dis: "distinct (concat (map blocks (take (Suc mid) ?ts)) @ concat (map blocks (drop (Suc mid) ?ts)))"
      using kids_okD(5) [OF kids] by (simp only: append_take_drop_id)
    have dist: "distinct (rt # concat (map blocks [?A a, ?Z z]))"
      using dis sub fresh c2(7) by auto
    have t3: "tree_ok c3 (Suc L) lo (Some ?m) (?A a)" "tree_ok c3 (Suc L) (Some ?m) hi (?Z z)"
      using tree_ok_evolves [OF c3(3) evolves_alloc_ok [OF ev2] _ c2(9)] tree_ok_evolves [OF c3(3) evolves_alloc_ok [OF ev2] _ c2(10)] dist by auto
    have "tree_ok c3 (Suc (Suc L)) lo hi (ANode rt [?m] [?A a, ?Z z])"
      by (rule tree_ok_pair [OF c3(4) _ p(4) _ wf(1) t3 evolves_owned [OF c3(3) c2(6)]]) (use fin dist st in simp_all)
    moreover have "cont (ANode rt [?m] [?A a, ?Z z]) = cont (ANode b ?ks ?ts)"
      using cont_divide [OF kids_okD(1) [OF kids] mid(2)] .
    moreover have "promote_to_parent p i m (blk l) (blk r) c = (Inr rt, c3)"
      using False by (simp add: promote_to_parent_def bindM_Inr c1(1) n(1) nk c2(1) c3(1) del: One_nat_def)
    moreover have "set (blocks (ANode rt [?m] [?A a, ?Z z])) \<subseteq> set (concat (map blocks ?ts)) \<union> - allocated (store c)"
      using fresh by (auto dest: in_set_takeD in_set_dropD)
    moreover have "grown lo hi (Suc L) (Suc (Suc L)) (ANode rt [?m] [?A a, ?Z z])" using wf(1) by (auto simp: grown_def)
    ultimately show ?thesis
      using c3(2) by (intro exI [of _ "ANode rt [?m] [?A a, ?Z z]"] exI [of _ "Suc (Suc L)"] exI [of _ c3]) simp
  qed
qed

section \<open>Replacing a child in a context\<close>

lemma sibling_disjoint:
  assumes "distinct (concat (map f xs))" "i < length xs" "t \<in> set (take i xs @ drop (Suc i) xs)"
  shows "set (f t) \<inter> set (f (xs ! i)) = {}"
proof -
  have "map f xs = map f (take i xs @ xs ! i # drop (Suc i) xs)" using id_take_nth_drop [OF assms(2)] by simp
  then have "distinct (concat (map f (take i xs)) @ f (xs ! i) @ concat (map f (drop (Suc i) xs)))" using assms(1) by simp
  moreover have "set (f t) \<subseteq> set (concat (map f (take i xs))) \<union> set (concat (map f (drop (Suc i) xs)))" using assms(3) by auto
  ultimately show ?thesis by (auto simp only: distinct_append set_append)
qed

lemma kids_ok_replace:
  assumes kids: "kids_ok c L lo hi ks ts" "i < length ts" and ev: "evolves B n c c'" "alloc_ok (store c)" "B \<subseteq> set (blocks (ts ! i))"
    and wf: "wf_kids (next_bset_seq c') lo hi ks' (take i ts @ ys @ drop (Suc i) ts)"
    and ys: "\<And>y. y \<in> set ys \<Longrightarrow> rep (store c') L y" "\<And>y. y \<in> set ys \<Longrightarrow> set (blocks y) \<subseteq> owned c'"
      "distinct (concat (map blocks ys))" "set (concat (map blocks ys)) \<subseteq> set (blocks (ts ! i)) \<union> - allocated (store c)"
  shows "kids_ok c' L lo hi ks' (take i ts @ ys @ drop (Suc i) ts)"
proof -
  note k = kids_okD [OF kids(1)]
  have sib: "rep (store c') L t" "set (blocks t) \<subseteq> owned c'" if t: "t \<in> set (take i ts @ drop (Suc i) ts)" for t
  proof -
    have ts: "t \<in> set ts" using t by (auto dest: in_set_takeD in_set_dropD)
    have "set (blocks t) \<inter> B = {}" using sibling_disjoint [OF k(5) kids(2) t] ev(3) by blast
    moreover have "set (blocks t) \<subseteq> allocated (store c)" using k(6) [OF ts] by (auto simp: owned_def)
    ultimately show "rep (store c') L t" using rep_evolves [OF ev(1,2)] k(4) [OF ts] by blast
    show "set (blocks t) \<subseteq> owned c'" using k(6) [OF ts] evolves_owned [OF ev(1)] by blast
  qed
  have "- allocated (store c) \<inter> set (concat (map blocks ts)) = {}" using k(6) by (auto simp: owned_def)
  then have "distinct (concat (map blocks (take i ts @ ys @ drop (Suc i) ts)))"
    using distinct_replace [OF k(5) kids(2) ys(3,4)] by simp
  moreover have "rep (store c') L t \<and> set (blocks t) \<subseteq> owned c'" if "t \<in> set (take i ts @ ys @ drop (Suc i) ts)" for t
    using that sib [of t] ys(1,2) [of t] by (simp only: set_append Un_iff) blast
  ultimately show ?thesis using wf unfolding kids_ok_def by blast
qed

lemma blocks_replace:
  "i < length ts \<Longrightarrow> set (concat (map blocks ys)) \<subseteq> set (blocks (ts ! i)) \<union> F \<Longrightarrow>
     set (concat (map blocks (take i ts @ ys @ drop (Suc i) ts))) \<subseteq> set (concat (map blocks ts)) \<union> F"
  by (auto dest!: in_set_takeD in_set_dropD intro: nth_mem)

lemma rep_root: "rep s L t \<Longrightarrow> \<exists>n. node_at s (blk t) = Some n \<and> level n = of_nat L"
  by (cases t) auto

section \<open>Inserting below an internal node\<close>

lemma insert_below_ok:
  assumes t: "tree_ok c (Suc L) lo hi (ANode b ks ts)" and k: "within lo hi k" and lv: "Suc (Suc L) < 256" and s: "sane (n + 4) c"
    and i: "i = upper_bound ks k"
    and ins: "\<And>c'. tree_ok c' L (lo_at lo ks i) (hi_at hi ks i) (ts ! i) \<Longrightarrow> within (lo_at lo ks i) (hi_at hi ks i) k \<Longrightarrow> sane n c' \<Longrightarrow>
      runs (ins (blk (ts ! i))) c' (inserted mode c' k e (lo_at lo ks i) (hi_at hi ks i) L (ts ! i) n)"
  obtains nd x c1 ch c2 c3 ch' c4 t' L' where "read_node b c = (Inr nd, c1)" "read_node (blk (ts ! i)) c1 = (Inr ch, c2)"
    "ins (blk (ts ! i)) c2 = (Inr (blk t'), c3)" "read_node (blk t') c3 = (Inr ch', c4)"
    "level ch = of_nat L" "level ch' = of_nat L'" "slots nd (ks @ [x]) (map blk ts)" "level nd = of_nat (Suc L)" "0 < level nd"
    "node_at (store c4) b = Some nd" "node_at (store c4) (blk t') = Some ch'" "b \<in> owned c4" "b \<notin> set (blocks t')" "i < length ts"
    "kids_ok c L lo hi ks ts" "tree_ok c4 L' (lo_at lo ks i) (hi_at hi ks i) t'" "grown (lo_at lo ks i) (hi_at hi ks i) L L' t'"
    "cont t' = (cont (ts ! i))(k \<mapsto> e)" "set (blocks t') \<subseteq> set (blocks (ts ! i)) \<union> - allocated (store c)"
    "evolves (touched mode (set (blocks (ts ! i)))) n c c4" "sane 4 c4" "b \<notin> set (concat (map blocks ts))"
proof -
  note finish = that
  obtain nd x where nd: "node_at (store c) b = Some nd" "level nd = of_nat (Suc L)" "0 < level nd" "slots nd (ks @ [x]) (map blk ts)"
    "wf_kids (next_bset_seq c) lo hi ks ts" "length ks \<le> 27" "\<And>t. t \<in> set ts \<Longrightarrow> rep (store c) L t"
    "distinct (b # concat (map blocks ts))" "b \<in> owned c" "\<And>t. t \<in> set ts \<Longrightarrow> set (blocks t) \<subseteq> owned c"
    using tree_ok_nodeE [OF t] by (metis Suc_inject)
  have kids: "kids_ok c L lo hi ks ts" using nd by (simp add: kids_ok_def)
  have il: "i < length ts" using kids_okD(2) [OF kids] i by (simp add: less_Suc_eq_le)
  have ok: "alloc_ok (store c)" using s by (simp add: sane_def)
  let ?lo = "lo_at lo ks i" and ?hi = "hi_at hi ks i" and ?t = "ts ! i"
  let ?B = "touched mode (set (blocks ?t))"
  have tc: "tree_ok c L ?lo ?hi ?t" using nd(8) by (intro tree_ok_child nd(5,7,10) il) simp_all
  obtain c1 where c1: "read_node b c = (Inr nd, c1)" "evolves ?B 0 c c1" "sane (n + 4) c1" "evolves {} 0 c c1"
    "node_at (store c1) = node_at (store c)"
    using step_read [OF evolves_refl [OF ok, of ?B 0] s nd(1)] by blast
  obtain ch where ch: "node_at (store c1) (blk ?t) = Some ch" "level ch = of_nat L"
    using rep_root tc c1(5) unfolding tree_ok_def by metis
  obtain c2 where c2: "read_node (blk ?t) c1 = (Inr ch, c2)" "evolves ?B 0 c c2" "sane (n + 4) c2" "evolves {} 0 c1 c2"
    using step_read [OF c1(2,3) ch(1)] by blast
  have t2: "tree_ok c2 L ?lo ?hi ?t"
    using tree_ok_evolves [OF c2(4) evolves_alloc_ok [OF c1(2)] _ tree_ok_evolves [OF c1(4) ok _ tc]] by simp
  have kin: "within ?lo ?hi k" using route_within [OF kids_okD(3) [OF kids] k] i by simp
  obtain c3 t' L' where c3: "ins (blk ?t) c2 = (Inr (blk t'), c3)" "tree_ok c3 L' ?lo ?hi t'" "grown ?lo ?hi L L' t'"
    "cont t' = (cont ?t)(k \<mapsto> e)" "set (blocks t') \<subseteq> set (blocks ?t) \<union> - allocated (store c2)" "evolves ?B n c2 c3"
    using runs_result [OF ins [OF t2 kin sane_le [OF c2(3)]]] unfolding inserted_def by (metis le_add1)
  have ev3: "evolves ?B n c c3" using evolves_trans [OF c2(2) c3(6)] by simp
  have s3: "sane 4 c3" using evolves_sane [OF c2(3) c3(6)] .
  obtain ch' where ch': "node_at (store c3) (blk t') = Some ch'" "level ch' = of_nat L'"
    using rep_root c3(2) unfolding tree_ok_def by metis
  obtain c4 where c4: "read_node (blk t') c3 = (Inr ch', c4)" "evolves ?B n c c4" "sane 4 c4" "evolves {} 0 c3 c4"
    "node_at (store c4) = node_at (store c3)"
    using step_read [OF ev3 s3 ch'(1)] by blast
  have fresh: "set (blocks t') \<subseteq> set (blocks ?t) \<union> - allocated (store c)" using c3(5) evolves_allocated [OF c2(2)] by blast
  have bt: "b \<notin> set (blocks ?t)" "b \<notin> set (concat (map blocks ts))" using nd(8) il by auto
  have bb: "b \<notin> ?B" "b \<in> allocated (store c)" using bt(1) touched_subset [of mode "set (blocks ?t)"] nd(9) by (auto simp: owned_def)
  have n4: "node_at (store c4) b = Some nd" using evolves_node [OF c4(2) ok bb(2,1) nd(1)] .
  have nb4: "node_at (store c4) (blk t') = Some ch'" using ch'(1) c4(5) by simp
  have b': "b \<notin> set (blocks t')" using fresh bt(1) bb(2) by blast
  have t4: "tree_ok c4 L' ?lo ?hi t'" using tree_ok_evolves [OF c4(4) evolves_alloc_ok [OF ev3] _ c3(2)] by simp
  show thesis
    by (rule finish [OF c1(1) c2(1) c3(1) c4(1) ch(2) ch'(2) nd(4,2,3) n4 nb4 evolves_owned [OF c4(2) nd(9)] b' il kids t4 c3(3,4) fresh c4(2,3) bt(2)])
qed

lemma insert_internal_ok:
  assumes t: "tree_ok c (Suc L) lo hi (ANode b ks ts)" and k: "within lo hi k" and lv: "Suc (Suc L) < 256" and s: "sane (n + 4) c"
    and ins: "\<And>i c'. tree_ok c' L (lo_at lo ks i) (hi_at hi ks i) (ts ! i) \<Longrightarrow> within (lo_at lo ks i) (hi_at hi ks i) k \<Longrightarrow> sane n c' \<Longrightarrow>
      i < length ts \<Longrightarrow> runs (ins (blk (ts ! i))) c' (inserted mode c' k e (lo_at lo ks i) (hi_at hi ks i) L (ts ! i) n)"
  shows "runs (insert_internal ins b k) c (inserted mode c k e lo hi (Suc L) (ANode b ks ts) (n + 4))"
proof -
  define i where "i = upper_bound ks k"
  have lts: "length ts = Suc (length ks)" and len: "length ks \<le> 27" and len0: "0 < length ks" and srt: "sorted_keys ks"
    using t by (auto simp: tree_ok_def)
  have il: "i < length ts" using lts by (simp add: i_def less_Suc_eq_le)
  obtain nd x c1 ch c2 c3 ch' c4 t' L' where st: "read_node b c = (Inr nd, c1)" "read_node (blk (ts ! i)) c1 = (Inr ch, c2)"
    "ins (blk (ts ! i)) c2 = (Inr (blk t'), c3)" "read_node (blk t') c3 = (Inr ch', c4)"
    "level ch = of_nat L" "level ch' = of_nat L'" and nd: "slots nd (ks @ [x]) (map blk ts)" "level nd = of_nat (Suc L)" "0 < level nd"
    and c4: "node_at (store c4) b = Some nd" "node_at (store c4) (blk t') = Some ch'" "b \<in> owned c4" "b \<notin> set (blocks t')" "i < length ts"
    "kids_ok c L lo hi ks ts" "tree_ok c4 L' (lo_at lo ks i) (hi_at hi ks i) t'" "grown (lo_at lo ks i) (hi_at hi ks i) L L' t'"
    "cont t' = (cont (ts ! i))(k \<mapsto> e)" "set (blocks t') \<subseteq> set (blocks (ts ! i)) \<union> - allocated (store c)"
    "evolves (touched mode (set (blocks (ts ! i)))) n c c4" "sane 4 c4" "b \<notin> set (concat (map blocks ts))"
    by (rule insert_below_ok [where ins = ins and mode = mode and e = e, OF t k lv s i_def ins [OF _ _ _ il]])
  let ?lo = "lo_at lo ks i" and ?hi = "hi_at hi ks i" and ?T = "touched mode (set (blocks (ANode b ks ts)))"
  have ok: "alloc_ok (store c)" using s by (simp add: sane_def)
  have sub: "touched mode (set (blocks (ts ! i))) \<subseteq> ?T" using il by (intro touched_mono) auto
  note ev4 = evolves_le [OF c4(11) order_refl sub] and nc = node_children [OF nd(1,3) srt]
  have route: "route nd k = i" "child_block nd i = blk (ts ! i)" using nc(1,2) il lts by (auto simp: i_def)
  have wf4: "wf_kids (next_bset_seq c4) lo hi ks ts" using wf_kids_mono [OF kids_okD(1) [OF c4(6)] evolves_seq [OF c4(11)]] .
  from c4(8) consider (same) "L' = L" | (split) tb m l r where "L' = Suc L" "t' = ANode tb [m] [l, r]" "inside ?lo ?hi m"
    by (auto simp: grown_def)
  then show ?thesis
  proof cases
    case same
    let ?ts = "ts[i := t']"
    have up: "?ts = take i ts @ [t'] @ drop (Suc i) ts" using il by (rule update_append)
    have kids4: "kids_ok c4 L lo hi ks ?ts"
      unfolding up
    proof (rule kids_ok_replace [OF c4(6) il c4(11) ok touched_subset])
      show "wf_kids (next_bset_seq c4) lo hi ks (take i ts @ [t'] @ drop (Suc i) ts)"
        using wf_kids_update [OF wf4] c4(7) unfolding up [symmetric] tree_ok_def by blast
    qed (use c4(7,10) same in \<open>auto simp: tree_ok_def\<close>)
    have blks: "set (concat (map blocks ?ts)) \<subseteq> set (concat (map blocks ts)) \<union> - allocated (store c)"
      unfolding up using blocks_replace [OF il, of "[t']"] c4(10) by simp
    have cont: "cont (ANode b' ks ?ts) = (cont (ANode b ks ts))(k \<mapsto> e)" for b'
      unfolding i_def using cont_update [OF lts] c4(9) i_def by simp
    have ngt: "\<not> level ch' > level ch" using st(5,6) same by simp
    have grow: "grown lo hi (Suc L) (Suc L) u" for u by (simp add: grown_def)
    show ?thesis
    proof (cases "blk t' = blk (ts ! i)")
      case True
      have "map blk ?ts = map blk ts" using True il by (simp add: map_update list_update_same_conv)
      moreover have "b \<notin> set (concat (map blocks ?ts))" using blks c4(13) t by (auto simp: tree_ok_def owned_def)
      ultimately have "tree_ok c4 (Suc L) lo hi (ANode b ks ?ts)"
        using nd c4(3) lv len len0 by (intro tree_ok_kids [OF c4(1) nd(2) _ _ kids4]) auto
      then have "inserted mode c k e lo hi (Suc L) (ANode b ks ts) (n + 4) b c4"
        using cont grow blks evolves_le [OF ev4, of "n + 4" ?T] by (intro insertedI [of "ANode b ks ?ts"]) auto
      moreover have "insert_internal ins b k c = (Inr b, c4)"
        using True ngt by (simp add: insert_internal_def bindM_Inr st(1-3) st(4) [unfolded True] route Let_def)
      ultimately show ?thesis by (intro runsI)
    next
      case False
      have s4: "sane (Suc 3) c4" using c4(12) by (simp add: eval_nat_numeral)
      obtain nb c5 where c5: "on_store alloc c4 = (Inr nb, c5)" "evolves ?T (Suc n) c c5" "sane 3 c5" "nb \<notin> allocated (store c)" "nb \<notin> allocated (store c4)"
        "nb \<in> owned c5" "evolves {} 1 c4 c5" "node_at (store c5) = node_at (store c4)"
        using step_alloc [OF ev4 s4] by blast
      have n5: "node_at (store c5) b = Some nd" using c4(1) c5(8) by simp
      obtain c6 where c6: "read_node b c5 = (Inr nd, c6)" "evolves ?T (Suc n) c c6" "sane 3 c6" "owned c6 = owned c5" "evolves {} 0 c5 c6"
        using step_read [OF c5(2,3) n5] by blast
      let ?n = "set_child_block i (blk t') nd"
      have fin: "slots ?n (ks @ [x]) (map blk ?ts)" "level ?n = of_nat (Suc L)"
        using slots_set_child [OF nd(1), of i "blk t'"] il lts nd(2) by (simp_all add: map_update)
      have nb6: "nb \<in> owned c6" using c5(6) c6(4) by simp
      obtain c7 where c7: "on_store (write_node nb ?n) c6 = (Inr (), c7)" "evolves ?T (Suc n) c c7" "evolves {nb} 0 c6 c7"
        "node_at (store c7) nb = Some (stamped (store c6) ?n)"
        using step_write [OF c6(2,3) nb6 _ slots_sized [OF fin(1)]] c5(4) by blast
      have al: "set (concat (map blocks ?ts)) \<subseteq> allocated (store c4)" using kids_okD(6) [OF kids4] by (auto simp: owned_def)
      then have nbt: "nb \<notin> set (concat (map blocks ?ts))" using c5(5) by blast
      have "kids_ok c5 L lo hi ks ?ts" using kids_ok_evolves [OF c5(7) evolves_alloc_ok [OF ev4] _ kids4] by simp
      then have "kids_ok c6 L lo hi ks ?ts" using kids_ok_evolves [OF c6(5) evolves_alloc_ok [OF c5(2)]] by simp
      then have kids7: "kids_ok c7 L lo hi ks ?ts" using kids_ok_evolves [OF c7(3) evolves_alloc_ok [OF c6(2)]] nbt by auto
      have "tree_ok c7 (Suc L) lo hi (ANode nb ks ?ts)"
        using fin lv len len0 nbt evolves_owned [OF c7(3) nb6]
        by (intro tree_ok_kids [OF c7(4) _ _ _ kids7]) (auto simp: slots_def)
      then have "inserted mode c k e lo hi (Suc L) (ANode b ks ts) (n + 4) nb c7"
        using cont grow blks c5(4) evolves_le [OF c7(2), of "n + 4" ?T] by (intro insertedI [of "ANode nb ks ?ts"]) auto
      moreover have "insert_internal ins b k c = (Inr nb, c7)"
        using False ngt by (simp add: insert_internal_def bindM_Inr st(1-4) route Let_def c5(1) c6(1) c7(1))
      ultimately show ?thesis by (intro runsI)
    qed
  next
    case split
    let ?ts = "split_at i l r ts" and ?ks = "ins_at i m ks"
    have t4: "tree_ok c4 (Suc L) ?lo ?hi (ANode tb [m] [l, r])" using c4(7) split by simp
    obtain y where y: "slots ch' ([m] @ [y]) (map blk [l, r])" "0 < level ch'" "wf_kids (next_bset_seq c4) ?lo ?hi [m] [l, r]"
      "\<And>u. u \<in> set [l, r] \<Longrightarrow> rep (store c4) L u" "distinct (tb # concat (map blocks [l, r]))" "\<And>u. u \<in> set [l, r] \<Longrightarrow> set (blocks u) \<subseteq> owned c4"
      using tree_ok_nodeE [OF t4] c4(2) split(2) by (metis Suc_inject blk.simps(2) option.inject)
    have ch: "key_bytes (entry ch' 0) = m" "child_block ch' 0 = blk l" "child_block ch' 1 = blk r"
      using node_children(2) [OF y(1,2), of 0] node_children(2) [OF y(1,2), of 1] node_children(5) [OF y(1,2), of 0] by simp_all
    have w: "wf_tree (next_bset_seq c4) ?lo (Some m) l" "wf_tree (next_bset_seq c4) (Some m) ?hi r"
      using y(3) by (auto simp: wf_kids_def lo_at_def hi_at_def less_Suc_eq all_conj_distrib)
    have kids4: "kids_ok c4 L lo hi ?ks ?ts"
      unfolding split_at_append
    proof (rule kids_ok_replace [OF c4(6) il c4(11) ok touched_subset])
      show "wf_kids (next_bset_seq c4) lo hi ?ks (take i ts @ [l, r] @ drop (Suc i) ts)"
        using wf_kids_split [OF wf4 il split(3) w] unfolding split_at_append .
    qed (use y c4(10) split(2) in auto)
    have blks: "set (concat (map blocks ?ts)) \<subseteq> set (concat (map blocks ts)) \<union> - allocated (store c)"
      unfolding split_at_append using c4(10) split(2) by (intro blocks_replace [OF il]) simp
    obtain c5 where c5: "read_node (blk t') c4 = (Inr ch', c5)" "evolves ?T n c c5" "sane 4 c5" "evolves {} 0 c4 c5" "node_at (store c5) = node_at (store c4)"
      using step_read [OF ev4 c4(12,2)] by blast
    have n5: "node_at (store c5) b = Some nd" using c4(1) c5(5) by simp
    obtain c6 where c6: "read_node b c5 = (Inr nd, c6)" "evolves ?T n c c6" "sane 4 c6" "evolves {} 0 c5 c6"
      using step_read [OF c5(2,3) n5] by blast
    have "kids_ok c5 L lo hi ?ks ?ts" using kids_ok_evolves [OF c5(4) evolves_alloc_ok [OF ev4] _ kids4] by simp
    then have kids6: "kids_ok c6 L lo hi ?ks ?ts" using kids_ok_evolves [OF c6(4) evolves_alloc_ok [OF c5(2)]] by simp
    have im: "i \<le> length ks" "ok_key m" using il lts slots_keys [OF y(1), of m] by simp_all
    obtain u L'' c7 where c7: "promote_to_parent nd i m (blk l) (blk r) c6 = (Inr (blk u), c7)" "tree_ok c7 L'' lo hi u"
      "grown lo hi (Suc L) L'' u" "cont u = cont (ANode b ?ks ?ts)"
      "set (blocks u) \<subseteq> set (concat (map blocks ?ts)) \<union> - allocated (store c6)" "evolves {} 4 c6 c7"
      using promote_ok [OF c6(3) nd lv kids6 len im] by blast
    have "cont u = (cont (ANode b ks ts))(k \<mapsto> e)"
      using c7(4) cont_split [OF kids_okD(1) [OF c4(6)] il split(3), of b l r b tb] cont_update [OF lts, of t' k e b b] c4(9) split(2)
      by (simp add: i_def del: cont.simps)
    moreover have "set (blocks u) \<subseteq> set (blocks (ANode b ks ts)) \<union> - allocated (store c)"
      using c7(5) blks evolves_allocated [OF c6(2)] by auto
    moreover have "evolves ?T (n + 4) c c7" using evolves_trans [OF c6(2) c7(6)] by simp
    ultimately have "inserted mode c k e lo hi (Suc L) (ANode b ks ts) (n + 4) (blk u) c7"
      using c7(2,3) by (intro insertedI) simp_all
    moreover have "level ch' > level ch" using st(5,6) split(1) level_less [of L "Suc L"] lv by simp
    then have "insert_internal ins b k c = (Inr (blk u), c7)"
      using ch by (simp add: insert_internal_def split_child_def bindM_Inr st(1-4) route Let_def c5(1) c6(1) c7(1) del: One_nat_def)
    ultimately show ?thesis by (intro runsI)
  qed
qed

section \<open>Insertion\<close>

definition ins_cost :: "nat \<Rightarrow> nat" where
  "ins_cost L = 6 + 4 * L"

lemma inserted_after_read:
  assumes "evolves {} 0 c c1" "inserted mode c1 k e lo hi L t n b' c'"
  shows "inserted mode c k e lo hi L t n b' c'"
proof -
  obtain t' L' where t': "blk t' = b'" "tree_ok c' L' lo hi t'" "grown lo hi L L' t'" "cont t' = (cont t)(k \<mapsto> e)"
    "set (blocks t') \<subseteq> set (blocks t) \<union> - allocated (store c1)" "evolves (touched mode (set (blocks t))) n c1 c'"
    using assms(2) by (auto simp: inserted_def)
  have "evolves (touched mode (set (blocks t))) n c c'"
    using evolves_trans [OF evolves_le [OF assms(1), of 0 "touched mode (set (blocks t))"] t'(6)] by simp
  then show ?thesis using t'(1-5) evolves_allocated [OF assms(1)] by (intro insertedI [of t']) auto
qed

lemma insert_leaf_ok:
  assumes t: "tree_ok c 0 lo hi (ALeaf b bs)" and k: "within lo hi k" "ok_key k" "build_leaf_entry k kind v = Some e" and s: "sane 6 c"
  shows "runs (insert_leaf (insert_rec (Suc fuel) k v kind mode) b k v kind mode) c (inserted mode c k e lo hi 0 (ALeaf b bs) 6)"
proof -
  obtain n where n: "node_at (store c) b = Some n" using tree_ok_leafE [OF t] by metis
  show ?thesis
  proof (cases "bsets_total bs < 29 \<or> leaf_absorbs n k")
    case True
    have "runs (insert_leaf (insert_rec (Suc fuel) k v kind mode) b k v kind mode) c (\<lambda>b' c'. \<exists>bs'. tree_ok c' 0 lo hi (ALeaf b' bs')
       \<and> bs_map bs' = (bs_map bs)(k \<mapsto> e) \<and> (b' = b \<or> b' \<notin> allocated (store c)) \<and> evolves (touched mode {b}) 2 c c')"
      using leaf_write_ok [OF t k sane_le [OF s]] True n by auto
    then show ?thesis
    proof (rule runs_mono)
      fix b' c' assume "\<exists>bs'. tree_ok c' 0 lo hi (ALeaf b' bs') \<and> bs_map bs' = (bs_map bs)(k \<mapsto> e)
        \<and> (b' = b \<or> b' \<notin> allocated (store c)) \<and> evolves (touched mode {b}) 2 c c'"
      then obtain bs' where bs': "tree_ok c' 0 lo hi (ALeaf b' bs')" "bs_map bs' = (bs_map bs)(k \<mapsto> e)"
        "b' = b \<or> b' \<notin> allocated (store c)" "evolves (touched mode {b}) 2 c c'" by blast
      have "cont (ALeaf b' bs') = (cont (ALeaf b bs))(k \<mapsto> e)" using bs'(2) by (simp add: fun_eq_iff)
      then show "inserted mode c k e lo hi 0 (ALeaf b bs) 6 b' c'"
        using bs' evolves_le [OF bs'(4)] by (intro insertedI [of "ALeaf b' bs'"]) (auto simp: grown_def)
    qed
  next
    case False
    then show ?thesis using insert_leaf_split_ok [OF t k s n] by simp
  qed
qed

text \<open>The fuel of \<open>TREE_FUEL\<close> covers every tree: the walk takes one step per level and one more for
  the half of a leaf that split.\<close>

lemma insert_rec_ok:
  assumes "tree_ok c L lo hi t" "within lo hi k" "ok_key k" "build_leaf_entry k kind v = Some e" "Suc L < 256" "L + 2 \<le> fuel"
    "sane (ins_cost L) c"
  shows "runs (insert_rec fuel k v kind mode (blk t)) c (inserted mode c k e lo hi L t (ins_cost L))"
  using assms
proof (induction L arbitrary: fuel c lo hi t)
  case 0
  obtain b bs where t: "t = ALeaf b bs" using 0(1) by (cases t) (auto simp: tree_ok_def)
  obtain f where f: "fuel = Suc (Suc f)" using 0(6) by (cases fuel; cases "fuel - 1") auto
  obtain n where n: "node_at (store c) b = Some n" "level n = 0" using tree_ok_leafE 0(1) t by metis
  have s: "sane 6 c" using 0(7) by (simp add: ins_cost_def)
  have ok: "alloc_ok (store c)" using s by (simp add: sane_def)
  obtain c1 where c1: "read_node b c = (Inr n, c1)" "sane 6 c1" "evolves {} 0 c c1"
    using step_read [OF evolves_refl [OF ok, of "{}" 0] s n(1)] by blast
  have "tree_ok c1 0 lo hi (ALeaf b bs)" using tree_ok_evolves [OF c1(3) ok _ 0(1) [unfolded t]] by simp
  then have r: "runs (insert_leaf (insert_rec (Suc f) k v kind mode) b k v kind mode) c1 (inserted mode c1 k e lo hi 0 (ALeaf b bs) 6)"
    using insert_leaf_ok [OF _ 0(2-4) c1(2)] by blast
  obtain b' c' where "insert_leaf (insert_rec (Suc f) k v kind mode) b k v kind mode c1 = (Inr b', c')" "inserted mode c1 k e lo hi 0 (ALeaf b bs) 6 b' c'"
    using runs_result [OF r] by blast
  then show ?case
    using inserted_after_read [OF c1(3)] n(2) c1(1) by (intro runsI [of _ _ b' c']) (simp_all add: t f bindM_Inr ins_cost_def)
next
  case (Suc L)
  obtain b ks ts where t: "t = ANode b ks ts" using Suc(2) by (cases t) (auto simp: tree_ok_def)
  obtain f where f: "fuel = Suc f" "L + 2 \<le> f" using Suc(7) by (cases fuel) auto
  obtain n where n: "node_at (store c) b = Some n" "0 < level n" using tree_ok_nodeE Suc(2) t by metis
  have s: "sane (ins_cost L + 4) c" using Suc(8) by (simp add: ins_cost_def)
  have ok: "alloc_ok (store c)" using s by (simp add: sane_def)
  obtain c1 where c1: "read_node b c = (Inr n, c1)" "sane (ins_cost L + 4) c1" "evolves {} 0 c c1"
    using step_read [OF evolves_refl [OF ok, of "{}" 0] s n(1)] by blast
  have t1: "tree_ok c1 (Suc L) lo hi (ANode b ks ts)" using tree_ok_evolves [OF c1(3) ok _ Suc(2) [unfolded t]] by simp
  have r: "runs (insert_internal (insert_rec f k v kind mode) b k) c1 (inserted mode c1 k e lo hi (Suc L) (ANode b ks ts) (ins_cost L + 4))"
  proof (rule insert_internal_ok [OF t1 Suc(3,6) c1(2)])
    fix i c' assume "tree_ok c' L (lo_at lo ks i) (hi_at hi ks i) (ts ! i)" "within (lo_at lo ks i) (hi_at hi ks i) k" "sane (ins_cost L) c'"
    then show "runs (insert_rec f k v kind mode (blk (ts ! i))) c' (inserted mode c' k e (lo_at lo ks i) (hi_at hi ks i) L (ts ! i) (ins_cost L))"
      using Suc.IH [of c' "lo_at lo ks i" "hi_at hi ks i" "ts ! i" f] Suc(4,5,6) f(2) by simp
  qed
  obtain b' c' where "insert_internal (insert_rec f k v kind mode) b k c1 = (Inr b', c')"
    "inserted mode c1 k e lo hi (Suc L) (ANode b ks ts) (ins_cost L + 4) b' c'"
    using runs_result [OF r] by blast
  then show ?case
    using inserted_after_read [OF c1(3)] n(2) c1(1)
    by (intro runsI [of _ _ b' c']) (auto simp: t f bindM_Inr ins_cost_def)
qed

end
