(* ===== verification/Tree_Flip.thy ===== *)
theory Tree_Flip
  imports Tree_Insert
begin

text \<open>
  Flipping the kind of a stored entry (\<open>flip_kind_in_place\<close>), which is how a key of the current
  snapshot is deleted; and the height bound that makes the fuel of every walk sufficient.
\<close>

section \<open>Height\<close>

lemma many_blocks: "rep s L t \<Longrightarrow> wf_tree q lo hi t \<Longrightarrow> 2 ^ L \<le> length (blocks t)"
proof (induction t arbitrary: L lo hi)
  case (ANode b ks ts)
  obtain L' where L: "L = Suc L'" using ANode.prems(1) by (cases L) auto
  have two: "1 < length ts" using ANode.prems(2) by auto
  have each: "2 ^ L' \<le> length (blocks (ts ! i))" if i: "i < length ts" for i
    using ANode.IH [OF nth_mem [OF i], of L' "lo_at lo ks i" "hi_at hi ks i"] ANode.prems i L by auto
  obtain u w r where ts: "ts = u # w # r" using two by (cases ts; cases "tl ts") auto
  have "2 ^ L' \<le> length (blocks u)" "2 ^ L' \<le> length (blocks w)" using each [of 0] each [of 1] ts by auto
  then show ?case by (simp add: L ts)
qed simp

lemma height_bound:
  assumes "tree_ok c L lo hi t" "alloc_ok (store c)"
  shows "L \<le> 52"
proof -
  let ?A = "allocated (store c)"
  have sub: "set (blocks t) \<subseteq> ?A" "distinct (blocks t)" using assms(1) by (auto simp: tree_ok_def owned_def)
  have "unat ` ?A \<subseteq> {..<2 ^ 52}"
    using assms(2) by (auto simp: allocated_def alloc_ok_def word_less_nat_alt)
  then have "card (unat ` ?A) \<le> 2 ^ 52" using card_mono [of "{..<(2::nat) ^ 52}" "unat ` ?A"] by simp
  moreover have "card (unat ` set (blocks t)) = length (blocks t)"
    using card_image [of unat "set (blocks t)"] distinct_card [OF sub(2)] by (simp add: inj_on_def word_unat_eq_iff)
  moreover have "card (unat ` set (blocks t)) \<le> card (unat ` ?A)"
    using sub(1) by (intro card_mono) (auto intro: finite_imageI)
  moreover have "2 ^ L \<le> length (blocks t)" using many_blocks assms(1) by (auto simp: tree_ok_def)
  ultimately have "(2::nat) ^ L \<le> 2 ^ 52" by linarith
  then show ?thesis by (rule power_le_imp_le_exp [rotated]) simp
qed

section \<open>Flipping an entry\<close>

definition flipped :: "write_mode \<Rightarrow> tctx \<Rightarrow> (bytes \<rightharpoonup> disk_entry) \<Rightarrow> bytes option \<Rightarrow> bytes option \<Rightarrow> nat \<Rightarrow> atree \<Rightarrow> u64 \<Rightarrow> tctx \<Rightarrow> bool" where
  "flipped mode c m lo hi L t b' c' = (\<exists>t'. blk t' = b' \<and> tree_ok c' L lo hi t' \<and> cont t' = m
     \<and> set (blocks t') \<subseteq> set (blocks t) \<union> - allocated (store c) \<and> evolves (touched mode (set (blocks t))) (Suc L) c c'
     \<and> (mode = InPlace \<longrightarrow> b' = blk t))"

lemma flippedI:
  "blk t' = b' \<Longrightarrow> tree_ok c' L lo hi t' \<Longrightarrow> cont t' = m \<Longrightarrow> set (blocks t') \<subseteq> set (blocks t) \<union> - allocated (store c) \<Longrightarrow>
     evolves (touched mode (set (blocks t))) (Suc L) c c' \<Longrightarrow> (mode = InPlace \<Longrightarrow> b' = blk t) \<Longrightarrow> flipped mode c m lo hi L t b' c'"
  by (auto simp: flipped_def)

lemma flip_leaf_tree_ok:
  assumes t: "tree_ok c 0 lo hi (ALeaf b bs)" and e: "bs_map bs k = Some e" and nk: "nk \<noteq> Whiteout" and s: "sane 1 c"
  shows "runs (flip_kind_in_place (Suc fuel) b k nk mode) c (flipped mode c ((bs_map bs)(k \<mapsto> set_kind nk e)) lo hi 0 (ALeaf b bs))"
proof -
  let ?B = "touched mode {b}"
  obtain n where n: "node_at (store c) b = Some n" "level n = 0" "layout n bs" "leaf_ok (next_bset_seq c) bs"
    "\<forall>k \<in> dom (bs_map bs). within lo hi k" "b \<in> owned c"
    using tree_ok_leafE [OF t] .
  obtain n' bs' where w: "flip_leaf k nk n = Some n'" "level n' = 0" "layout n' bs'" "leaf_ok (next_bset_seq c) bs'"
    "bs_map bs' = (bs_map bs)(k \<mapsto> set_kind nk e)"
    using flip_leaf_ok [OF n(3,2,4) e nk] .
  have dom: "within lo hi j" if "j \<in> dom (bs_map bs')" for j using that w(5) n(5) e by (auto split: if_splits)
  have ok: "alloc_ok (store c)" using s by (simp add: sane_def)
  obtain c1 where c1: "read_node b c = (Inr n, c1)" "evolves ?B 0 c c1" "sane 1 c1"
    "next_bset_seq c1 = next_bset_seq c" "owned c1 = owned c" "node_at (store c1) = node_at (store c)"
    using step_read [OF evolves_refl [OF ok, of ?B 0] s n(1)] by blast
  show ?thesis
  proof (cases mode)
    case InPlace
    let ?f = "\<lambda>l. map_option (\<lambda>l'. ((), l')) (flip_leaf k nk l)"
    have fn: "?f n = Some ((), n')" and nn: "node_at (store c1) b = Some n" and bb: "b \<in> ?B \<or> b \<notin> allocated (store c)"
      using w(1) n(1) c1(6) InPlace by auto
    obtain c2 where c2: "on_store (with_node_mut b ?f) c1 = (Inr (), c2)" "evolves ?B 0 c c2" "node_at (store c2) b = Some n'"
      "next_bset_seq c2 = next_bset_seq c1"
      using step_mut [where f = ?f and r = "()" and nd' = n', OF c1(2,3) nn bb fn] by blast
    have "tree_ok c2 0 lo hi (ALeaf b bs')"
      using c2 c1(4) w dom evolves_owned [OF c2(2) n(6)] by (intro tree_ok_leafI [of _ _ n']) auto
    moreover have "cont (ALeaf b bs') = (bs_map bs)(k \<mapsto> set_kind nk e)" using w(5) by (simp add: fun_eq_iff)
    ultimately show ?thesis
      using evolves_le [OF c2(2), of 1 ?B] InPlace n(2)
      by (intro runsI [of _ _ b c2]) (auto simp: bindM_Inr c1(1) c2(1) flipped_def intro!: exI [of _ "ALeaf b bs'"])
  next
    case Cow
    obtain nb c2 where c2: "on_store alloc c1 = (Inr nb, c2)" "evolves ?B 1 c c2" "sane 0 c2"
      "nb \<notin> allocated (store c)" "nb \<in> owned c2" "next_bset_seq c2 = next_bset_seq c1" "node_at (store c2) = node_at (store c1)"
      using step_alloc [OF c1(2), of 0] c1(3) by auto
    obtain c3 where c3: "read_node b c2 = (Inr n, c3)" "evolves ?B 1 c c3" "sane 0 c3"
      "next_bset_seq c3 = next_bset_seq c2" "owned c3 = owned c2"
      using step_read [OF c2(2,3), of b n] n(1) c1(6) c2(7) by auto
    have nb3: "nb \<in> owned c3" using c2(5) c3(5) by simp
    obtain c4 where c4: "on_store (write_node nb n') c3 = (Inr (), c4)" "evolves ?B 1 c c4" "evolves {nb} 0 c3 c4"
      "node_at (store c4) nb = Some (stamped (store c3) n')" "next_bset_seq c4 = next_bset_seq c3"
      using step_write [OF c3(2,3) nb3 _ layout_sized [OF w(3)]] c2(4) by blast
    have "tree_ok c4 0 lo hi (ALeaf nb bs')"
      using c4 c3(4) c2(6) c1(4) w dom evolves_owned [OF c4(3) nb3] by (intro tree_ok_leafI [of _ _ "stamped (store c3) n'"]) auto
    moreover have "cont (ALeaf nb bs') = (bs_map bs)(k \<mapsto> set_kind nk e)" using w(5) by (simp add: fun_eq_iff)
    ultimately show ?thesis
      using c4(2) c2(4) Cow n(2) w(1)
      by (intro runsI [of _ _ nb c4]) (auto simp: bindM_Inr c1(1) c2(1) c3(1) c4(1) flipped_def intro!: exI [of _ "ALeaf nb bs'"])
  qed
qed

lemma tree_ok_SucE:
  assumes "tree_ok c (Suc L) lo hi (ANode b ks ts)"
  obtains nd x where "node_at (store c) b = Some nd" "level nd = of_nat (Suc L)" "0 < level nd" "slots nd (ks @ [x]) (map blk ts)"
    "0 < length ks" "length ks \<le> 27" "Suc L < 256" "kids_ok c L lo hi ks ts" "b \<in> owned c" "b \<notin> set (concat (map blocks ts))"
proof -
  obtain nd x where nd: "node_at (store c) b = Some nd" "level nd = of_nat (Suc L)" "slots nd (ks @ [x]) (map blk ts)"
    using assms by (auto simp: tree_ok_def internal_def)
  have lv: "Suc L < 256" and len: "0 < length ks" "length ks \<le> 27" and kids: "kids_ok c L lo hi ks ts"
    and own: "b \<in> owned c" "b \<notin> set (concat (map blocks ts))"
    using assms unfolding tree_ok_def wf_tree_ANode kids_ok_def by auto
  have "0 < level nd" unfolding nd(2) using lv by (intro level_pos) simp_all
  then show thesis using that nd lv len kids own by blast
qed

lemma kids_ok_child: "kids_ok c L lo hi ks ts \<Longrightarrow> i < length ts \<Longrightarrow> tree_ok c L (lo_at lo ks i) (hi_at hi ks i) (ts ! i)"
  by (intro tree_ok_child) (simp_all add: kids_okD)

lemma flip_ok:
  assumes "tree_ok c L lo hi t" "cont t k = Some e" "nk \<noteq> Whiteout" "L < fuel" "sane (Suc L) c"
  shows "runs (flip_kind_in_place fuel (blk t) k nk mode) c (flipped mode c ((cont t)(k \<mapsto> set_kind nk e)) lo hi L t)"
  using assms
proof (induction L arbitrary: fuel c lo hi t)
  case 0
  obtain b bs where t: "t = ALeaf b bs" using 0(1) by (cases t) (auto simp: tree_ok_def)
  obtain f where f: "fuel = Suc f" using 0(4) by (cases fuel) auto
  have "cont (ALeaf b bs) = bs_map bs" by (simp add: fun_eq_iff)
  then show ?case using flip_leaf_tree_ok [of c lo hi b bs k e nk f mode] 0 by (simp add: t f fun_upd_def del: flip_kind_in_place.simps cont.simps)
next
  case (Suc L)
  obtain b ks ts where t: "t = ANode b ks ts" using Suc(2) by (cases t) (auto simp: tree_ok_def)
  obtain f where f: "fuel = Suc f" "L < f" using Suc(5) by (cases fuel) auto
  obtain nd x where nd: "node_at (store c) b = Some nd" "level nd = of_nat (Suc L)" "0 < level nd" "slots nd (ks @ [x]) (map blk ts)"
    "0 < length ks" "length ks \<le> 27" "Suc L < 256" and kids: "kids_ok c L lo hi ks ts" and own: "b \<in> owned c" "b \<notin> set (concat (map blocks ts))"
    using tree_ok_SucE [OF Suc(2) [unfolded t]] .
  note srt = kids_okD(3) [OF kids] and lts = kids_okD(2) [OF kids]
  define i where "i = upper_bound ks k"
  have il: "i < length ts" using lts by (simp add: i_def less_Suc_eq_le)
  have e: "cont (ts ! i) k = Some e" using Suc(3) lts by (simp add: t i_def cont_node del: cont.simps)
  have route: "route nd k = i" "child_block nd i = blk (ts ! i)" using node_children(1,2) [OF nd(4,3) srt] il lts by (auto simp: i_def)
  let ?lo = "lo_at lo ks i" and ?hi = "hi_at hi ks i" and ?B = "touched mode (set (blocks (ts ! i)))" and ?T = "touched mode (set (blocks t))"
  have sub: "?B \<subseteq> ?T" using il by (intro touched_mono) (auto simp: t)
  have ok: "alloc_ok (store c)" using Suc(6) by (simp add: sane_def)
  have tc: "tree_ok c L ?lo ?hi (ts ! i)" using kids_ok_child [OF kids il] .
  obtain c1 where c1: "read_node b c = (Inr nd, c1)" "evolves {} 0 c c1" "sane (Suc (Suc L)) c1" "node_at (store c1) = node_at (store c)"
    using step_read [OF evolves_refl [OF ok, of "{}" 0] Suc(6) nd(1)] by blast
  obtain c2 where c2: "read_node b c1 = (Inr nd, c2)" "evolves {} 0 c c2" "sane (Suc (Suc L)) c2" "node_at (store c2) = node_at (store c1)"
    using step_read [OF c1(2,3), of b nd] nd(1) c1(4) by auto
  have t2: "tree_ok c2 L ?lo ?hi (ts ! i)" using tree_ok_evolves [OF c2(2) ok _ tc] by simp
  have r: "runs (flip_kind_in_place f (blk (ts ! i)) k nk mode) c2 (flipped mode c2 ((cont (ts ! i))(k \<mapsto> set_kind nk e)) ?lo ?hi L (ts ! i))"
    by (rule Suc.IH [OF t2 e Suc(4) f(2) sane_le [OF c2(3)]]) simp
  obtain t' c3 where c3: "flip_kind_in_place f (blk (ts ! i)) k nk mode c2 = (Inr (blk t'), c3)" "tree_ok c3 L ?lo ?hi t'"
    "cont t' = (cont (ts ! i))(k \<mapsto> set_kind nk e)" "set (blocks t') \<subseteq> set (blocks (ts ! i)) \<union> - allocated (store c2)"
    "evolves ?B (Suc L) c2 c3" "mode = InPlace \<longrightarrow> blk t' = blk (ts ! i)"
    using runs_result [OF r] unfolding flipped_def by blast
  have ev3: "evolves ?B (Suc L) c c3" using evolves_trans [OF evolves_le [OF c2(2), of 0 ?B] c3(5)] by simp
  have fresh: "set (blocks t') \<subseteq> set (blocks (ts ! i)) \<union> - allocated (store c)" using c3(4) evolves_allocated [OF c2(2)] by blast
  have s3: "sane (Suc 0) c3" using evolves_sane [OF _ c3(5), of "Suc 0"] c2(3) by simp
  let ?ts = "ts[i := t']"
  have up: "?ts = take i ts @ [t'] @ drop (Suc i) ts" using il by (rule update_append)
  have kids3: "kids_ok c3 L lo hi ks ?ts"
    unfolding up
  proof (rule kids_ok_replace [OF kids il ev3 ok touched_subset])
    show "wf_kids (next_bset_seq c3) lo hi ks (take i ts @ [t'] @ drop (Suc i) ts)"
      using wf_kids_update [OF wf_kids_mono [OF kids_okD(1) [OF kids] evolves_seq [OF ev3]]] c3(2) unfolding up [symmetric] tree_ok_def by blast
  qed (use c3(2) fresh in \<open>auto simp: tree_ok_def\<close>)
  have blks: "set (concat (map blocks ?ts)) \<subseteq> set (concat (map blocks ts)) \<union> - allocated (store c)"
    unfolding up using blocks_replace [OF il, of "[t']"] fresh by simp
  have blks': "set (blocks (ANode b' ks ?ts)) \<subseteq> set (blocks t) \<union> - allocated (store c)" if "b' = b \<or> b' \<notin> allocated (store c)" for b'
    using blks that by (simp add: t) blast
  have cont: "cont (ANode b' ks ?ts) = (cont t)(k \<mapsto> set_kind nk e)" for b'
    unfolding t i_def using cont_update [OF lts] c3(3) i_def by simp
  have bb: "b \<notin> ?B" "b \<in> allocated (store c)" "b \<notin> set (concat (map blocks ?ts))"
    using own il touched_subset [of mode "set (blocks (ts ! i))"] blks by (auto simp: owned_def)
  have n3: "node_at (store c3) b = Some nd" using evolves_node [OF ev3 ok bb(2,1) nd(1)] .
  note evT = evolves_le [OF ev3 order_refl sub]
  show ?case
  proof (cases mode)
    case InPlace
    have "map blk ?ts = map blk ts" using c3(6) InPlace il by (simp add: map_update list_update_same_conv)
    then have "tree_ok c3 (Suc L) lo hi (ANode b ks ?ts)"
      using nd evolves_owned [OF ev3 own(1)] bb(3) by (intro tree_ok_kids [OF n3 nd(2) _ _ kids3]) auto
    moreover have "flip_kind_in_place fuel b k nk mode c = (Inr b, c3)"
      using nd(3) InPlace by (auto simp: f(1) bindM_Inr c1(1) c2(1) c3(1) [unfolded InPlace] route)
    ultimately show ?thesis
      using evolves_le [OF evT, of "Suc (Suc L)" ?T] cont blks' [of b]
      by (intro runsI [of _ _ b c3] flippedI [of "ANode b ks ?ts"]) (simp_all add: t fun_upd_def del: cont.simps blocks.simps)
  next
    case Cow
    obtain nb c4 where c4: "on_store alloc c3 = (Inr nb, c4)" "evolves ?T (Suc (Suc L)) c c4" "sane 0 c4" "evolves {} 1 c3 c4"
      "nb \<notin> allocated (store c)" "nb \<notin> allocated (store c3)" "nb \<in> owned c4" "node_at (store c4) = node_at (store c3)"
      using step_alloc [OF evT s3] by blast
    obtain c5 where c5: "read_node b c4 = (Inr nd, c5)" "evolves ?T (Suc (Suc L)) c c5" "sane 0 c5" "evolves {} 0 c4 c5" "owned c5 = owned c4"
      using step_read [OF c4(2,3), of b nd] n3 c4(8) by auto
    let ?n = "set_child_block i (blk t') nd"
    have fin: "slots ?n (ks @ [x]) (map blk ?ts)" "level ?n = of_nat (Suc L)"
      using slots_set_child [OF nd(4), of i "blk t'"] il lts nd(2) by (simp_all add: map_update)
    have nb5: "nb \<in> owned c5" using c4(7) c5(5) by simp
    obtain c6 where c6: "on_store (write_node nb ?n) c5 = (Inr (), c6)" "evolves ?T (Suc (Suc L)) c c6" "evolves {nb} 0 c5 c6"
      "node_at (store c6) nb = Some (stamped (store c5) ?n)"
      using step_write [OF c5(2,3) nb5 _ slots_sized [OF fin(1)]] c4(5) by blast
    have "set (concat (map blocks ?ts)) \<subseteq> allocated (store c3)" using kids_okD(6) [OF kids3] by (auto simp: owned_def)
    then have nbt: "nb \<notin> set (concat (map blocks ?ts))" using c4(6) by blast
    have "kids_ok c4 L lo hi ks ?ts" using kids_ok_evolves [OF c4(4) evolves_alloc_ok [OF ev3] _ kids3] by simp
    then have "kids_ok c5 L lo hi ks ?ts" using kids_ok_evolves [OF c5(4) evolves_alloc_ok [OF c4(2)]] by simp
    then have kids6: "kids_ok c6 L lo hi ks ?ts" using kids_ok_evolves [OF c6(3) evolves_alloc_ok [OF c5(2)]] nbt by auto
    have "tree_ok c6 (Suc L) lo hi (ANode nb ks ?ts)"
      using fin nd(5-7) nbt evolves_owned [OF c6(3) nb5]
      by (intro tree_ok_kids [OF c6(4) _ _ _ kids6]) (auto simp: slots_def)
    moreover have "flip_kind_in_place fuel b k nk mode c = (Inr nb, c6)"
      using nd(3) Cow by (auto simp: f(1) bindM_Inr c1(1) c2(1) c3(1) [unfolded Cow] route c4(1) c5(1) c6(1))
    ultimately show ?thesis
      using c6(2) c4(5) cont blks' [of nb] Cow
      by (intro runsI [of _ _ nb c6] flippedI [of "ANode nb ks ?ts"]) (simp_all add: t fun_upd_def del: cont.simps blocks.simps)
  qed
qed

end
