(* ===== verification/Btree_Map.thy ===== *)
theory Btree_Map
  imports Tree_Flip
begin

text \<open>
  The B-tree as a map.  \<open>holds c r B m\<close> says that the tree rooted at block \<open>r\<close> occupies the blocks
  \<open>B\<close> and stores the map \<open>m\<close> from sortable keys (logical key and big-endian snapshot id) to a kind
  and a value.  Lookups, scans, insertions and deletions are stated on that map.
\<close>

section \<open>The abstract map\<close>

type_synonym kvmap = "bytes \<rightharpoonup> entry_kind \<times> bytes"

definition logical_of :: "bytes \<Rightarrow> bytes" where
  "logical_of k = take (length k - SNAP_ID_BYTES) k"

definition snap_of :: "bytes \<Rightarrow> snap_id" where
  "snap_of k = u32_of_be (drop (length k - SNAP_ID_BYTES) k)"

lemma sortable_parts [simp]: "logical_of (l @ u32_be s) = l" "snap_of (l @ u32_be s) = s"
  by (simp_all add: logical_of_def snap_of_def word_bytes_roundtrip)

lemma sortable_eta: "4 \<le> length k \<Longrightarrow> k = logical_of k @ u32_be (snap_of k)"
  by (simp add: logical_of_def snap_of_def u32_be_of_be)

lemma entry_parts:
  assumes "sized_entry e"
  shows "logical_key_bytes e = logical_of (key_bytes e)" "entry_snap_id e = snap_of (key_bytes e)"
proof -
  have l: "unat (de_key_len e) \<le> 28" "length (de_key e) = 32" using assms by (auto simp: sized_entry_def)
  then have k: "length (key_bytes e) = unat (de_key_len e) + 4" by (simp add: key_bytes_def)
  show "logical_key_bytes e = logical_of (key_bytes e)"
    using k by (simp add: logical_key_bytes_def logical_of_def) (simp add: key_bytes_def)
  show "entry_snap_id e = snap_of (key_bytes e)"
    using k by (simp add: entry_snap_id_def snap_of_def bslice_def) (simp add: key_bytes_def drop_take)
qed

definition kv :: "disk_entry \<Rightarrow> entry_kind \<times> bytes" where
  "kv e = (kind_enum e, entry_value e)"

definition tree_view :: "(bytes \<rightharpoonup> disk_entry) \<Rightarrow> kvmap" where
  "tree_view m k = map_option kv (m k)"

lemma tree_view_upd: "tree_view (m(k \<mapsto> e)) = (tree_view m)(k \<mapsto> kv e)"
  by (auto simp: tree_view_def fun_eq_iff)

definition holds :: "tctx \<Rightarrow> u64 \<Rightarrow> u64 set \<Rightarrow> kvmap \<Rightarrow> bool" where
  "holds c r B m = (\<exists>L t. blk t = r \<and> tree_ok c L None None t \<and> tree_view (cont t) = m \<and> set (blocks t) = B)"

lemma holdsE:
  assumes "holds c r B m"
  obtains L t where "blk t = r" "tree_ok c L None None t" "tree_view (cont t) = m" "set (blocks t) = B"
  using assms by (auto simp: holds_def)

lemma holds_evolves:
  assumes "holds c r B m" "evolves W n c c'" "alloc_ok (store c)" "B \<inter> W = {}"
  shows "holds c' r B m"
  using assms tree_ok_evolves [OF assms(2,3)] unfolding holds_def by blast

lemma holds_quiet: "holds c r B m \<Longrightarrow> quiet c c' \<Longrightarrow> alloc_ok (store c) \<Longrightarrow> holds c' r B m"
  using holds_evolves [OF _ evolves_quiet [of c c' "{}" 0]] by simp

lemma holds_owned: "holds c r B m \<Longrightarrow> B \<subseteq> owned c"
  by (auto simp: holds_def tree_ok_def)

lemma rep_sized: "rep s L t \<Longrightarrow> e \<in> set (entries t) \<Longrightarrow> sized_entry e"
proof (induction t arbitrary: L)
  case (ALeaf b bs)
  then show ?case using merged_list_sized by auto
qed auto

lemma tree_entry:
  assumes "wf_tree q lo hi t" "rep s L t"
  shows "cont t k = Some e \<longleftrightarrow> e \<in> set (entries t) \<and> key_bytes e = k"
proof
  assume "cont t k = Some e"
  then have "map_of (keyed (entries t)) k = Some e" using entries_cont [OF assms(1)] by simp
  then show "e \<in> set (entries t) \<and> key_bytes e = k" using keyed_SomeD by auto
next
  assume e: "e \<in> set (entries t) \<and> key_bytes e = k"
  then have "(k, e) \<in> set (keyed (entries t))" by (auto simp: keyed_def)
  then have "map_of (keyed (entries t)) k = Some e"
    using sorted_distinct [OF entries_sorted [OF assms(1)]] by (intro map_of_is_SomeI) (simp_all only: keyed_simps)
  then show "cont t k = Some e" using entries_cont [OF assms(1)] by simp
qed

lemma holds_ok_key:
  assumes "holds c r B m" "k \<in> dom m"
  shows "ok_key k"
proof -
  obtain L t where t: "tree_ok c L None None t" "tree_view (cont t) = m" using holdsE [OF assms(1)] by metis
  then obtain e where "cont t k = Some e" using assms(2) by (auto simp: tree_view_def)
  then show ?thesis using tree_entry rep_sized sized_key t(1) unfolding tree_ok_def by metis
qed

section \<open>Point lookup\<close>

lemma find_raw_holds:
  assumes "holds c r B m" "alloc_ok (store c)"
  shows "runs (find_raw TREE_FUEL r k) c (\<lambda>res c'. res = map_option prod.swap (m k) \<and> quiet c c')"
proof -
  obtain L t where t: "blk t = r" "tree_ok c L None None t" "tree_view (cont t) = m" using holdsE [OF assms(1)] by metis
  have "L < TREE_FUEL" using height_bound [OF t(2) assms(2)] by (simp add: TREE_FUEL_def)
  then have "runs (find_raw TREE_FUEL r k) c (\<lambda>r c'. r = map_option entry_result (cont t k) \<and> quiet c c')"
    using find_raw_ok [of c L t "next_bset_seq c" None None] t(1,2) by (simp add: tree_ok_def)
  moreover have "map_option entry_result (cont t k) = map_option prod.swap (m k)"
    by (cases "cont t k") (simp_all add: t(3) [symmetric] tree_view_def entry_result_def kv_def)
  ultimately show ?thesis by simp
qed

text \<open>What a reader sees of one key: the value of a live entry.\<close>

definition live :: "(entry_kind \<times> bytes) option \<Rightarrow> bytes option" where
  "live x = (case x of Some (Live, v) \<Rightarrow> Some v | _ \<Rightarrow> None)"

lemma live_simps [simp]: "live None = None" "live (Some (Live, v)) = Some v" "kd \<noteq> Live \<Longrightarrow> live (Some (kd, v)) = None"
  by (auto simp: live_def split: entry_kind.splits)

lemma live_value_swap: "live_value (map_option prod.swap x) = live x"
  by (auto simp: live_value_def live_def split: option.splits prod.splits entry_kind.splits)

lemma find_val_holds:
  assumes "holds c r B m" "alloc_ok (store c)"
  shows "runs (find_val r k) c (\<lambda>res c'. res = live (m k) \<and> quiet c c')"
  unfolding find_val_def runs_bind
  by (rule runs_mono [OF find_raw_holds [OF assms]]) (simp add: live_value_swap)

section \<open>Range scans\<close>

definition keys_in :: "kvmap \<Rightarrow> bytes \<Rightarrow> bytes \<Rightarrow> bytes list" where
  "keys_in m start en = sorted_list_of_set {k \<in> dom m. start \<le> k \<and> k < en}"

definition row :: "kvmap \<Rightarrow> bytes \<Rightarrow> all_snap_row" where
  "row m k = (logical_of k, snap_of k, fst (the (m k)), snd (the (m k)))"

definition scan_rows :: "kvmap \<Rightarrow> bytes \<Rightarrow> bytes \<Rightarrow> all_snap_row list" where
  "scan_rows m start en = map (row m) (keys_in m start en)"

lemma entries_keys_in:
  assumes "wf_tree q lo hi t" "rep s L t"
  shows "entry_keys (filter (in_range start en) (entries t)) = keys_in (tree_view (cont t)) start en"
    and "finite (dom (tree_view (cont t)))"
proof -
  have dom: "dom (tree_view (cont t)) = key_bytes ` set (entries t)"
    using tree_entry [OF assms] by (auto simp: tree_view_def dom_def image_iff)
  then show "finite (dom (tree_view (cont t)))" by simp
  have "sorted_wrt (<) (filter (\<lambda>k. start \<le> k \<and> k < en) (entry_keys (entries t)))"
    using entries_sorted [OF assms(1)] by (rule sorted_wrt_filter)
  then have srt: "sorted_keys (entry_keys (filter (in_range start en) (entries t)))" by (simp add: filter_map comp_def)
  have eq: "set (entry_keys (filter (in_range start en) (entries t))) = {k \<in> dom (tree_view (cont t)). start \<le> k \<and> k < en}"
    unfolding dom by auto
  have "sorted_list_of_set (set (entry_keys (filter (in_range start en) (entries t)))) = entry_keys (filter (in_range start en) (entries t))"
    using srt by (intro sorted_list_of_set.idem_if_sorted_distinct) (simp_all only: strict_sorted_iff)
  then show "entry_keys (filter (in_range start en) (entries t)) = keys_in (tree_view (cont t)) start en"
    unfolding keys_in_def eq by simp
qed

lemma rows_eq:
  assumes "wf_tree q lo hi t" "rep s L t"
  shows "map all_row (filter (in_range start en) (entries t)) = scan_rows (tree_view (cont t)) start en"
proof -
  have "all_row e = row (tree_view (cont t)) (key_bytes e)" if e: "e \<in> set (entries t)" for e
  proof -
    have "cont t (key_bytes e) = Some e" using tree_entry [OF assms] e by simp
    then show ?thesis using entry_parts [OF rep_sized [OF assms(2) e]] by (simp add: row_def tree_view_def kv_def all_row_def)
  qed
  then have "map all_row (filter (in_range start en) (entries t)) = map (row (tree_view (cont t))) (entry_keys (filter (in_range start en) (entries t)))"
    by simp
  then show ?thesis unfolding scan_rows_def entries_keys_in(1) [OF assms] .
qed

lemma range_scan_all_holds:
  assumes "holds c r B m" "alloc_ok (store c)"
  shows "runs (range_scan_all TREE_FUEL r start en) c (\<lambda>rows c'. rows = scan_rows m start en \<and> quiet c c')"
proof -
  obtain L t where t: "blk t = r" "tree_ok c L None None t" "tree_view (cont t) = m" using holdsE [OF assms(1)] by metis
  have "L < TREE_FUEL" using height_bound [OF t(2) assms(2)] by (simp add: TREE_FUEL_def)
  moreover have w: "rep (store c) L t" "wf_tree (next_bset_seq c) None None t" using t(2) by (auto simp: tree_ok_def)
  ultimately show ?thesis using range_scan_all_ok [OF w, of TREE_FUEL start en] rows_eq [OF w(2,1), of start en] t(1,3) by simp
qed

definition live_rows :: "all_snap_row list \<Rightarrow> (bytes \<times> bytes) list" where
  "live_rows rows = map (\<lambda>(l, s, kd, v). (l, v)) (filter (\<lambda>(l, s, kd, v). kd = Live) rows)"

lemma range_scan_holds:
  assumes "holds c r B m" "alloc_ok (store c)"
  shows "runs (range_scan TREE_FUEL r start en) c (\<lambda>rows c'. rows = live_rows (scan_rows m start en) \<and> quiet c c')"
proof -
  obtain L t where t: "blk t = r" "tree_ok c L None None t" "tree_view (cont t) = m" using holdsE [OF assms(1)] by metis
  have "L < TREE_FUEL" using height_bound [OF t(2) assms(2)] by (simp add: TREE_FUEL_def)
  moreover have w: "rep (store c) L t" "wf_tree (next_bset_seq c) None None t" using t(2) by (auto simp: tree_ok_def)
  moreover have "map live_row (filter (\<lambda>e. kind_enum e = Live) es) = live_rows (map all_row es)" for es
    by (induction es) (auto simp: live_rows_def live_row_def all_row_def)
  then have "map live_row (filter (\<lambda>e. kind_enum e = Live) (filter (in_range start en) (entries t))) = live_rows (scan_rows m start en)"
    using rows_eq [OF w(2,1), of start en] t(3) by (simp del: filter_filter)
  ultimately show ?thesis using range_scan_ok [OF w, of TREE_FUEL start en] t(1) by (simp del: filter_filter)
qed

section \<open>Updates\<close>

text \<open>Blocks and sequence numbers one insertion may consume, for a tree of the maximal height.\<close>

definition OP_COST :: nat where "OP_COST = 214"

lemma insert_holds:
  assumes h: "holds c r B m" and k: "ok_key k" and s: "sane (OP_COST + n) c"
  shows "runs (insert_rec TREE_FUEL k v kind mode r) c (\<lambda>r' c'. \<exists>B'. holds c' r' B' (m(k \<mapsto> (kind, take 96 v)))
     \<and> B' \<subseteq> B \<union> - allocated (store c) \<and> evolves (touched mode B) OP_COST c c' \<and> sane n c')"
proof -
  obtain L t where t: "blk t = r" "tree_ok c L None None t" "tree_view (cont t) = m" "set (blocks t) = B" using holdsE [OF h] by metis
  have ok: "alloc_ok (store c)" using s by (simp add: sane_def)
  have L: "L \<le> 52" using height_bound [OF t(2) ok] .
  then have cost: "ins_cost L \<le> OP_COST" by (simp add: ins_cost_def OP_COST_def)
  obtain e where e: "build_leaf_entry k kind v = Some e" "kind_enum e = kind" "entry_value e = take 96 v"
    using build_leaf_entry_ok [OF k, of kind v] by metis
  have "runs (insert_rec TREE_FUEL k v kind mode (blk t)) c (inserted mode c k e None None L t (ins_cost L))"
    using L cost sane_le [OF s] by (intro insert_rec_ok [OF t(2) _ k e(1)]) (auto simp: within_def TREE_FUEL_def)
  then show ?thesis
    unfolding t(1)
  proof (rule runs_mono)
    fix r' c' assume "inserted mode c k e None None L t (ins_cost L) r' c'"
    then obtain t' L' where t': "blk t' = r'" "tree_ok c' L' None None t'" "cont t' = (cont t)(k \<mapsto> e)"
      "set (blocks t') \<subseteq> set (blocks t) \<union> - allocated (store c)" "evolves (touched mode (set (blocks t))) (ins_cost L) c c'"
      by (auto simp: inserted_def)
    have "holds c' r' (set (blocks t')) (m(k \<mapsto> (kind, take 96 v)))"
      using t'(1-3) t(3) e(2,3) unfolding holds_def by (metis kv_def tree_view_upd)
    moreover have ev: "evolves (touched mode B) OP_COST c c'" using evolves_le [OF t'(5) cost] t(4) by simp
    moreover have "sane n c'" using evolves_sane [OF s ev] .
    ultimately show "\<exists>B'. holds c' r' B' (m(k \<mapsto> (kind, take 96 v))) \<and> B' \<subseteq> B \<union> - allocated (store c)
       \<and> evolves (touched mode B) OP_COST c c' \<and> sane n c'"
      using t'(4) t(4) by blast
  qed
qed

lemma flip_holds:
  assumes h: "holds c r B m" and k: "m k = Some (kd, v)" "nk \<noteq> Whiteout" and s: "sane (OP_COST + n) c"
  shows "runs (flip_kind_in_place TREE_FUEL r k nk mode) c (\<lambda>r' c'. \<exists>B'. holds c' r' B' (m(k \<mapsto> (nk, v)))
     \<and> B' \<subseteq> B \<union> - allocated (store c) \<and> evolves (touched mode B) OP_COST c c' \<and> sane n c')"
proof -
  obtain L t where t: "blk t = r" "tree_ok c L None None t" "tree_view (cont t) = m" "set (blocks t) = B" using holdsE [OF h] by metis
  have ok: "alloc_ok (store c)" using s by (simp add: sane_def)
  have L: "L \<le> 52" using height_bound [OF t(2) ok] .
  obtain e where e: "cont t k = Some e" "entry_value e = v" using k(1) by (auto simp: t(3) [symmetric] tree_view_def kv_def)
  have "runs (flip_kind_in_place TREE_FUEL (blk t) k nk mode) c (flipped mode c ((cont t)(k \<mapsto> set_kind nk e)) None None L t)"
    using L sane_le [OF s] by (intro flip_ok [OF t(2) e(1) k(2)]) (auto simp: TREE_FUEL_def OP_COST_def)
  then show ?thesis
    unfolding t(1)
  proof (rule runs_mono)
    fix r' c' assume "flipped mode c ((cont t)(k \<mapsto> set_kind nk e)) None None L t r' c'"
    then obtain t' where t': "blk t' = r'" "tree_ok c' L None None t'" "cont t' = (cont t)(k \<mapsto> set_kind nk e)"
      "set (blocks t') \<subseteq> set (blocks t) \<union> - allocated (store c)" "evolves (touched mode (set (blocks t))) (Suc L) c c'"
      by (auto simp: flipped_def)
    have "kv (set_kind nk e) = (nk, v)" using e(2) by (simp add: kv_def)
    then have "holds c' r' (set (blocks t')) (m(k \<mapsto> (nk, v)))"
      using t'(1-3) t(3) unfolding holds_def by (metis tree_view_upd)
    moreover have ev: "evolves (touched mode B) OP_COST c c'" using evolves_le [OF t'(5), of OP_COST] L t(4) by (simp add: OP_COST_def)
    moreover have "sane n c'" using evolves_sane [OF s ev] .
    ultimately show "\<exists>B'. holds c' r' B' (m(k \<mapsto> (nk, v))) \<and> B' \<subseteq> B \<union> - allocated (store c)
       \<and> evolves (touched mode B) OP_COST c c' \<and> sane n c'"
      using t'(4) t(4) by blast
  qed
qed

end
