(* ===== verification/Snap_View.thy ===== *)
theory Snap_View
  imports Btree_Map
begin

text \<open>
  Snapshot visibility.  A key is read through a chain of snapshots, nearest first; the chain of an
  ancestor walk is ascending because a child snapshot has a smaller id than its parent.
  \<open>find_visible_with_snap\<close> and the group-by loop of \<open>range_scan_visible\<close> work on one ascending scan;
  here they are shown equal to the walk along the chain.
\<close>

section \<open>The reference walk\<close>

fun visible :: "kvmap \<Rightarrow> bytes \<Rightarrow> snap_id list \<Rightarrow> (bytes \<times> snap_id) option" where
  "visible m l [] = None"
| "visible m l (s # ss) =
     (case m (l @ u32_be s) of None \<Rightarrow> visible m l ss | Some (kd, v) \<Rightarrow> if kd = Live then Some (v, s) else None)"

definition decide :: "kvmap \<Rightarrow> bytes list \<Rightarrow> (bytes \<times> snap_id) option" where
  "decide m ks = (case ks of [] \<Rightarrow> None | k # _ \<Rightarrow> if fst (the (m k)) = Live then Some (snd (the (m k)), snap_of k) else None)"

lemma visible_decide: "visible m l chain = decide m (map (\<lambda>s. l @ u32_be s) (filter (\<lambda>s. l @ u32_be s \<in> dom m) chain))"
proof (induction chain)
  case (Cons s ss)
  then show ?case by (cases "m (l @ u32_be s)") (auto simp: decide_def dom_def)
qed (simp add: decide_def)

lemma visible_cong: "(\<And>s. s \<in> set chain \<Longrightarrow> m (l @ u32_be s) = m' (l @ u32_be s)) \<Longrightarrow> visible m l chain = visible m' l chain"
  by (induction chain) (auto split: option.splits)

lemma visible_snap: "visible m l chain = Some (v, s) \<Longrightarrow> s \<in> set chain \<and> m (l @ u32_be s) = Some (Live, v)"
  by (induction chain) (auto split: option.splits if_splits)

lemma first_visible_decide:
  "first_visible l chain (map (row m) ks) = decide m (filter (\<lambda>k. logical_of k = l \<and> snap_of k \<in> set chain) ks)"
proof (induction ks)
  case (Cons k ks)
  obtain kd v where kd: "the (m k) = (kd, v)" by (cases "the (m k)")
  then have "row m k = (logical_of k, snap_of k, kd, v)" by (simp add: row_def)
  then show ?case using Cons kd by (simp add: decide_def)
qed (simp add: decide_def)

lemma u32_be_bounds: "u32_be 0 = replicate 4 0" "u32_be (- 1) = replicate 4 255"
proof -
  have four: "(4 :: nat) = Suc (Suc (Suc (Suc 0)))" by simp
  have z: "be_bytes 0 x = []" for x by (simp add: be_bytes_def)
  have "be_bytes 4 0 = replicate 4 0" "be_bytes 4 4294967295 = replicate 4 255"
    unfolding four be_bytes_Suc z by simp_all
  moreover have "unat (- 1 :: u32) = 4294967295" by (simp add: unsigned_minus_1_eq_mask mask_eq_exp_minus_1)
  ultimately show "u32_be 0 = replicate 4 0" "u32_be (- 1) = replicate 4 255" by (simp_all add: u32_be_def)
qed

lemma scan_window:
  assumes "ok_key k" "logical_of k = l"
  shows "l @ replicate 4 0 \<le> k" "k < l @ replicate 4 255 @ [0]"
proof -
  have k: "k = l @ u32_be (snap_of k)" using sortable_eta [of k] assms by (simp add: ok_key_def)
  have "\<not> u32_be (snap_of k) < u32_be 0" by simp
  then have "\<not> k < l @ replicate 4 0" by (subst k) (simp add: u32_be_bounds)
  then show "l @ replicate 4 0 \<le> k" by (simp add: not_less)
  have "u32_be (snap_of k) < u32_be (- 1) \<or> u32_be (snap_of k) = u32_be (- 1)"
    unfolding u32_be_less word_bytes_inj using word_n1_ge [of "snap_of k"] by (simp add: order_le_less)
  then have "u32_be (snap_of k) @ [] < u32_be (- 1) @ [0]"
    by (subst less_append_same_length) auto
  then show "k < l @ replicate 4 255 @ [0]" by (subst k) (simp add: u32_be_bounds)
qed

lemma window_chain:
  assumes fin: "finite (dom m)" and ok: "\<And>k. k \<in> dom m \<Longrightarrow> ok_key k" and srt: "sorted_keys chain"
    and win: "\<And>k. k \<in> dom m \<Longrightarrow> logical_of k = l \<Longrightarrow> start \<le> k \<and> k < en"
  shows "filter (\<lambda>k. logical_of k = l \<and> snap_of k \<in> set chain) (keys_in m start en) =
     map (\<lambda>s. l @ u32_be s) (filter (\<lambda>s. l @ u32_be s \<in> dom m) chain)"
proof (rule strict_sorted_equal)
  let ?D = "{k \<in> dom m. start \<le> k \<and> k < en}"
  have f: "finite ?D" using fin by simp
  show "sorted_keys (filter (\<lambda>k. logical_of k = l \<and> snap_of k \<in> set chain) (keys_in m start en))"
    unfolding keys_in_def by (intro sorted_wrt_filter strict_sorted_list_of_set)
  have "sorted_wrt (\<lambda>x y. l @ u32_be x < l @ u32_be y) (filter (\<lambda>s. l @ u32_be s \<in> dom m) chain)"
    using sorted_wrt_filter [OF srt] by simp
  then show "sorted_keys (map (\<lambda>s. l @ u32_be s) (filter (\<lambda>s. l @ u32_be s \<in> dom m) chain))" by (simp add: sorted_wrt_map)
  have eta: "k = l @ u32_be (snap_of k)" if "k \<in> dom m" "logical_of k = l" for k
    using sortable_eta [of k] ok [OF that(1)] that(2) by (simp add: ok_key_def)
  have "k \<in> ?D" if "k \<in> dom m" "logical_of k = l" for k using win [OF that] that by simp
  then have "set (filter (\<lambda>k. logical_of k = l \<and> snap_of k \<in> set chain) (keys_in m start en)) =
      {k \<in> dom m. logical_of k = l \<and> snap_of k \<in> set chain}"
    unfolding keys_in_def set_filter sorted_list_of_set(1) [OF f] by blast
  also have "\<dots> = (\<lambda>s. l @ u32_be s) ` {s \<in> set chain. l @ u32_be s \<in> dom m}"
  proof (intro set_eqI iffI)
    fix k assume k: "k \<in> {k \<in> dom m. logical_of k = l \<and> snap_of k \<in> set chain}"
    then have "k = l @ u32_be (snap_of k)" using eta by blast
    then show "k \<in> (\<lambda>s. l @ u32_be s) ` {s \<in> set chain. l @ u32_be s \<in> dom m}" using k by (intro image_eqI [of _ _ "snap_of k"]) auto
  qed auto
  finally show "set (filter (\<lambda>k. logical_of k = l \<and> snap_of k \<in> set chain) (keys_in m start en)) =
      set (map (\<lambda>s. l @ u32_be s) (filter (\<lambda>s. l @ u32_be s \<in> dom m) chain))" by simp
qed

lemma holds_finite: "holds c r B m \<Longrightarrow> finite (dom m)"
  by (erule holdsE) (metis entries_keys_in(2) tree_ok_def)

lemma find_visible_holds:
  assumes h: "holds c r B m" and ok: "alloc_ok (store c)" and l: "length l \<le> 28" and srt: "sorted_keys chain"
  shows "runs (find_visible_with_snap r l chain) c (\<lambda>res c'. res = visible m l chain \<and> quiet c c')"
proof -
  have "first_visible l chain (scan_rows m (l @ replicate 4 0) (l @ replicate 4 255 @ [0])) = visible m l chain"
    unfolding scan_rows_def first_visible_decide visible_decide
    by (intro arg_cong [OF window_chain [OF holds_finite [OF h] holds_ok_key [OF h] srt]] conjI scan_window) (simp_all add: holds_ok_key [OF h])
  then show ?thesis
    using l runs_mono [OF range_scan_all_holds [OF h ok, of "l @ replicate 4 0" "l @ replicate 4 255 @ [0]"]]
    unfolding find_visible_with_snap_def by simp
qed

section \<open>Visible range scans\<close>

definition emit :: "(bytes \<Rightarrow> snap_id \<Rightarrow> bytes \<Rightarrow> 'r) \<Rightarrow> bytes \<Rightarrow> (bytes \<times> snap_id) option \<Rightarrow> 'r list" where
  "emit mk l x = (case x of None \<Rightarrow> [] | Some (v, s) \<Rightarrow> [mk l s v])"

text \<open>One group: after the first row on the chain the rest of the group is skipped.\<close>

lemma visible_rows_skip:
  "visible_rows chain mk (Some l) True (map (row m) ks) =
     visible_rows chain mk None False (map (row m) (dropWhile (\<lambda>k. logical_of k = l) ks))"
proof (induction ks)
  case (Cons k ks)
  obtain kd v where "row m k = (logical_of k, snap_of k, kd, v)" by (cases "the (m k)") (simp add: row_def)
  then show ?case using Cons by auto
qed simp

lemma visible_rows_group:
  "visible_rows chain mk (Some l) False (map (row m) ks) =
     emit mk l (decide m (filter (\<lambda>k. snap_of k \<in> chain) (takeWhile (\<lambda>k. logical_of k = l) ks)))
     @ visible_rows chain mk None False (map (row m) (dropWhile (\<lambda>k. logical_of k = l) ks))"
proof (induction ks)
  case (Cons k ks)
  obtain kd v where kd: "the (m k) = (kd, v)" by (cases "the (m k)")
  then have "row m k = (logical_of k, snap_of k, kd, v)" by (simp add: row_def)
  then show ?case using Cons kd visible_rows_skip [of chain mk l m ks] by (auto simp: decide_def emit_def)
qed (simp add: decide_def emit_def)

lemma visible_rows_start: "visible_rows chain mk None False (map (row m) (k # ks)) = visible_rows chain mk (Some (logical_of k)) False (map (row m) (k # ks))"
  by (cases "the (m k)") (simp add: row_def)

text \<open>Rows of one logical key are contiguous: the groups of the loop are the logical keys.\<close>

definition contiguous :: "bytes list \<Rightarrow> bool" where
  "contiguous ks = distinct (remdups_adj (map logical_of ks))"

lemma remdups_group:
  "remdups_adj (map logical_of (k # ks)) =
     logical_of k # remdups_adj (map logical_of (dropWhile (\<lambda>j. logical_of j = logical_of k) ks))"
proof (induction ks)
  case (Cons j ks)
  then show ?case by (cases "logical_of j = logical_of k") simp_all
qed simp

lemma filter_group:
  assumes "\<forall>j \<in> set R. logical_of j \<noteq> l" "\<forall>j \<in> set T. logical_of j = l"
  shows "filter (\<lambda>j. logical_of j = l \<and> snap_of j \<in> C) (T @ R) = filter (\<lambda>j. snap_of j \<in> C) T"
    and "x \<noteq> l \<Longrightarrow> filter (\<lambda>j. logical_of j = x \<and> snap_of j \<in> C) (T @ R) = filter (\<lambda>j. logical_of j = x \<and> snap_of j \<in> C) R"
proof -
  have "filter (\<lambda>j. logical_of j = l \<and> snap_of j \<in> C) R = []" using assms(1) by (auto simp: filter_empty_conv)
  moreover have "filter (\<lambda>j. logical_of j = l \<and> snap_of j \<in> C) T = filter (\<lambda>j. snap_of j \<in> C) T"
    by (rule filter_cong [OF refl]) (use assms(2) in blast)
  ultimately show "filter (\<lambda>j. logical_of j = l \<and> snap_of j \<in> C) (T @ R) = filter (\<lambda>j. snap_of j \<in> C) T"
    by (simp only: filter_append append_Nil2)
  assume "x \<noteq> l"
  then have "filter (\<lambda>j. logical_of j = x \<and> snap_of j \<in> C) T = []" using assms(2) by (auto simp: filter_empty_conv)
  then show "filter (\<lambda>j. logical_of j = x \<and> snap_of j \<in> C) (T @ R) = filter (\<lambda>j. logical_of j = x \<and> snap_of j \<in> C) R"
    by (simp only: filter_append append_Nil)
qed

lemma visible_rows_groups:
  "contiguous ks \<Longrightarrow> visible_rows chain mk None False (map (row m) ks) =
     concat (map (\<lambda>l. emit mk l (decide m (filter (\<lambda>k. logical_of k = l \<and> snap_of k \<in> chain) ks))) (remdups_adj (map logical_of ks)))"
proof (induction "length ks" arbitrary: ks rule: less_induct)
  case less
  show ?case
  proof (cases ks)
    case (Cons k ks')
    let ?P = "\<lambda>j. logical_of j = logical_of k"
    obtain T R where TR: "T = takeWhile ?P ks" "R = dropWhile ?P ks" by blast
    have split: "ks = T @ R" by (simp add: TR)
    have rd: "remdups_adj (map logical_of ks) = logical_of k # remdups_adj (map logical_of R)"
      unfolding TR Cons by (simp add: remdups_group del: list.map)
    then have "contiguous R" "logical_of k \<notin> logical_of ` set R" using less.prems by (auto simp: contiguous_def)
    then have R: "contiguous R" "\<forall>j \<in> set R. logical_of j \<noteq> logical_of k" by (simp, metis imageI)
    have T: "\<forall>j \<in> set T. ?P j" unfolding TR by (auto dest: set_takeWhileD)
    note f = filter_group [OF R(2) T, folded split]
    have "length R < length ks" using Cons length_dropWhile_le [of ?P ks'] unfolding TR by (simp add: le_imp_less_Suc)
    then have IH: "visible_rows chain mk None False (map (row m) R) =
        concat (map (\<lambda>l. emit mk l (decide m (filter (\<lambda>k. logical_of k = l \<and> snap_of k \<in> chain) R))) (remdups_adj (map logical_of R)))"
      using less.hyps R(1) by blast
    have gs: "map (\<lambda>l. emit mk l (decide m (filter (\<lambda>k. logical_of k = l \<and> snap_of k \<in> chain) R))) (remdups_adj (map logical_of R)) =
        map (\<lambda>l. emit mk l (decide m (filter (\<lambda>k. logical_of k = l \<and> snap_of k \<in> chain) ks))) (remdups_adj (map logical_of R))"
    proof (rule map_cong [OF refl])
      fix l assume "l \<in> set (remdups_adj (map logical_of R))"
      then have n: "l \<noteq> logical_of k" using R(2) by auto
      show "emit mk l (decide m (filter (\<lambda>k. logical_of k = l \<and> snap_of k \<in> chain) R)) =
          emit mk l (decide m (filter (\<lambda>k. logical_of k = l \<and> snap_of k \<in> chain) ks))" unfolding f(2) [OF n] by (rule refl)
    qed
    have "visible_rows chain mk None False (map (row m) ks) = emit mk (logical_of k) (decide m (filter (\<lambda>j. snap_of j \<in> chain) T)) @
        visible_rows chain mk None False (map (row m) R)"
      using visible_rows_start [of chain mk m k ks'] visible_rows_group [of chain mk "logical_of k" m ks] Cons unfolding TR by simp
    then show ?thesis unfolding rd IH gs by (simp only: list.map concat.simps f(1))
  qed simp
qed

text \<open>When is that so?  Two logical keys of which one extends the other must differ from the snapshot
  suffix in the first extra byte.\<close>

definition apart :: "bytes set \<Rightarrow> bool" where
  "apart K = (\<forall>k \<in> K. \<forall>k' \<in> K. \<forall>y. logical_of k' = logical_of k @ y \<and> y \<noteq> [] \<longrightarrow>
     hd y \<noteq> 255 \<and> hd (u32_be (snap_of k)) = 255 \<and> hd (u32_be (snap_of k')) = 255)"

lemma apartD:
  "apart K \<Longrightarrow> k \<in> K \<Longrightarrow> k' \<in> K \<Longrightarrow> logical_of k' = logical_of k @ y \<Longrightarrow> y \<noteq> [] \<Longrightarrow>
     hd y \<noteq> 255 \<and> hd (u32_be (snap_of k)) = 255 \<and> hd (u32_be (snap_of k')) = 255"
  unfolding apart_def by blast

lemma between_prefix: "l @ a < h \<Longrightarrow> h < l @ b \<Longrightarrow> \<exists>z. h = l @ z \<and> a < z \<and> z < b" for l :: bytes
proof (induction l arbitrary: h)
  case (Cons x l)
  then obtain y h' where h: "h = y # h'" by (cases h) auto
  with Cons.prems have "x = y" "l @ a < h'" "h' < l @ b" by auto
  then show ?case using Cons.IH [of h'] h by auto
qed simp

lemma hd_between: "a < z \<Longrightarrow> z < b \<Longrightarrow> a \<noteq> [] \<Longrightarrow> hd a = hd b \<Longrightarrow> z \<noteq> [] \<and> hd z = hd a" for a :: bytes
  by (cases a; cases z; cases b) auto

lemma logical_between:
  assumes K: "apart K" "k \<in> K" "h \<in> K" "x \<in> K" and ok: "ok_key k" "ok_key h" "ok_key x"
    and lt: "k < h" "h < x" and eq: "logical_of x = logical_of k"
  shows "logical_of h = logical_of k"
proof (rule ccontr)
  assume ne: "logical_of h \<noteq> logical_of k"
  define l a b where "l = logical_of k" and "a = u32_be (snap_of k)" and "b = u32_be (snap_of x)"
  have k: "k = l @ a" "x = l @ b" "h = logical_of h @ u32_be (snap_of h)"
    using sortable_eta [of k] sortable_eta [of x] sortable_eta [of h] ok eq by (simp_all add: l_def a_def b_def ok_key_def)
  have "length a = 4" by (simp add: a_def)
  then have len: "a \<noteq> []" by auto
  obtain z where z: "h = l @ z" "a < z" "z < b" using between_prefix [of l a h b] lt k by auto
  have "l @ z = logical_of h @ u32_be (snap_of h)" using z(1) k(3) by simp
  then consider y where "logical_of h = l @ y" "z = y @ u32_be (snap_of h)" | y where "l = logical_of h @ y" "u32_be (snap_of h) = y @ z"
    unfolding append_eq_append_conv2 by metis
  then show False
  proof cases
    case 1
    then have y: "y \<noteq> []" using ne l_def by auto
    then have "hd y \<noteq> 255" "hd a = 255" "hd b = 255"
      using apartD [OF K(1,2,3), of y] apartD [OF K(1,4,3), of y] 1(1) eq by (simp_all add: l_def a_def b_def)
    then show False using hd_between [OF z(2,3)] 1(2) y len by auto
  next
    case 2
    then have y: "y \<noteq> []" using ne l_def by auto
    then have "hd y \<noteq> 255" "hd (u32_be (snap_of h)) = 255" using apartD [OF K(1,3,2), of y] 2(1) by (simp_all add: l_def)
    then show False using 2(2) y by simp
  qed
qed

lemma apart_subset: "apart K \<Longrightarrow> K' \<subseteq> K \<Longrightarrow> apart K'"
  unfolding apart_def by blast

lemma apart_contiguous:
  "sorted_keys ks \<Longrightarrow> \<forall>k \<in> set ks. ok_key k \<Longrightarrow> apart (set ks) \<Longrightarrow> contiguous ks"
proof (induction "length ks" arbitrary: ks rule: less_induct)
  case less
  show ?case
  proof (cases ks)
    case (Cons k ks')
    let ?P = "\<lambda>j. logical_of j = logical_of k"
    obtain R where R: "R = dropWhile ?P ks'" by blast
    have sub: "set R \<subseteq> set ks'" unfolding R by (auto dest: set_dropWhileD)
    have srt: "sorted_keys R" using less.prems(1) unfolding R Cons by (simp add: sorted_wrt_dropWhile)
    have "length R < length ks" using Cons length_dropWhile_le [of ?P ks'] unfolding R by (simp add: le_imp_less_Suc)
    then have "contiguous R"
      using less.hyps srt sub less.prems(2) apart_subset [OF less.prems(3), of "set R"] unfolding Cons by auto
    moreover have "logical_of x \<noteq> logical_of k" if x: "x \<in> set R" for x
    proof
      assume eq: "logical_of x = logical_of k"
      have "R \<noteq> []" using x by auto
      then have h: "hd R \<in> set R" "\<not> ?P (hd R)" using hd_dropWhile [of ?P ks'] unfolding R by auto
      then have "hd R < x" using srt x eq by (cases R) auto
      moreover have "k < hd R" using less.prems(1) h(1) sub unfolding Cons by auto
      ultimately show False
        using logical_between [OF less.prems(3), of k "hd R" x] less.prems(2) h x sub eq unfolding Cons by auto
    qed
    then have "logical_of k \<notin> logical_of ` set R" by (metis imageE)
    ultimately show ?thesis unfolding contiguous_def Cons remdups_group R [symmetric] by simp
  qed (simp add: contiguous_def)
qed

text \<open>The scan lists, for every logical key of the window, what the walk along the chain sees.\<close>

definition visible_list :: "(bytes \<Rightarrow> snap_id \<Rightarrow> bytes \<Rightarrow> 'r) \<Rightarrow> kvmap \<Rightarrow> snap_id list \<Rightarrow> bytes list \<Rightarrow> 'r list" where
  "visible_list mk m chain ls = concat (map (\<lambda>l. emit mk l (visible m l chain)) ls)"

lemma visible_window:
  assumes fin: "finite (dom m)" and ok: "\<And>k. k \<in> dom m \<Longrightarrow> ok_key k" and srt: "sorted_keys chain"
    and win: "\<And>k. k \<in> dom m \<Longrightarrow> (start \<le> k \<and> k < en) = W (logical_of k)"
    and ap: "apart {k \<in> dom m. W (logical_of k)}"
  shows "\<exists>ls. visible_rows (set chain) mk None False (scan_rows m start en) = visible_list mk m chain ls
     \<and> distinct ls \<and> set ls = {l. W l \<and> l \<in> logical_of ` dom m}"
proof -
  let ?ks = "keys_in m start en" let ?ls = "remdups_adj (map logical_of (keys_in m start en))"
  have set: "set ?ks = {k \<in> dom m. W (logical_of k)}" using fin win by (auto simp: keys_in_def)
  have "contiguous ?ks" using ap ok set by (intro apart_contiguous) (auto simp: keys_in_def)
  moreover have "filter (\<lambda>k. logical_of k = l \<and> snap_of k \<in> set chain) ?ks = map (\<lambda>s. l @ u32_be s) (filter (\<lambda>s. l @ u32_be s \<in> dom m) chain)"
    if "l \<in> set ?ls" for l
    using that set by (intro window_chain [OF fin ok srt]) (auto simp: win)
  then have "map (\<lambda>l. emit mk l (decide m (filter (\<lambda>k. logical_of k = l \<and> snap_of k \<in> set chain) ?ks))) ?ls =
      map (\<lambda>l. emit mk l (visible m l chain)) ?ls"
    by (intro map_cong refl) (simp add: visible_decide)
  ultimately have "visible_rows (set chain) mk None False (scan_rows m start en) = visible_list mk m chain ?ls" "distinct ?ls"
    unfolding scan_rows_def visible_list_def by (simp_all only: visible_rows_groups contiguous_def)
  moreover have "set ?ls = {l. W l \<and> l \<in> logical_of ` dom m}" using set by auto
  ultimately show ?thesis by blast
qed

end
