(* ===== verification/Snap_Kv.thy ===== *)
theory Snap_Kv
  imports Snap_View
begin

text \<open>
  The snapshot-aware key-value interface.  \<open>Btree\<close> (direct, in-place writes) and \<open>Tx\<close>
  (transaction-scoped, copy-on-write) offer the same operations: look a key up along a chain, put a
  versioned entry, flip an entry to \<open>Deleted\<close>, and delete a key as seen along a chain.  The locale
  \<open>snap_kv\<close> states what both promise; what a client derives from it (deletion, scripts of operations,
  their log) is proved once and interpreted for both.
\<close>

section \<open>Operations on the abstract map\<close>

definition put_map :: "bytes \<Rightarrow> snap_id \<Rightarrow> entry_kind \<Rightarrow> bytes \<Rightarrow> kvmap \<Rightarrow> kvmap" where
  "put_map l snap kd v m = m(l @ u32_be snap \<mapsto> (kd, take 96 v))"

definition mark_map :: "bytes \<Rightarrow> snap_id \<Rightarrow> kvmap \<Rightarrow> kvmap" where
  "mark_map l snap m = m(l @ u32_be snap \<mapsto> (Deleted, snd (the (m (l @ u32_be snap)))))"

definition delete_map :: "bytes \<Rightarrow> snap_id \<Rightarrow> snap_id list \<Rightarrow> kvmap \<Rightarrow> kvmap" where
  "delete_map l snap chain m =
     (case visible m l chain of
        None \<Rightarrow> m
      | Some (_, s) \<Rightarrow> if s = snap then mark_map l snap m else put_map l snap Whiteout [] m)"

lemma sortable_inj: "l @ u32_be s = l' @ u32_be s' \<longleftrightarrow> l = l' \<and> s = s'"
  by (metis sortable_parts)

lemma visible_put_other [simp]: "l' \<noteq> l \<or> snap \<notin> set chain \<Longrightarrow> visible (put_map l snap kd v m) l' chain = visible m l' chain"
  unfolding put_map_def by (rule visible_cong) (auto simp: sortable_inj)

lemma visible_mark_other [simp]: "l' \<noteq> l \<or> snap \<notin> set chain \<Longrightarrow> visible (mark_map l snap m) l' chain = visible m l' chain"
  unfolding mark_map_def by (rule visible_cong) (auto simp: sortable_inj)

lemma visible_delete_other: "l' \<noteq> l \<or> snap \<notin> set chain \<Longrightarrow> visible (delete_map l snap ch m) l' chain = visible m l' chain"
  unfolding delete_map_def by (auto split: option.splits)

lemma visible_put_head: "visible (put_map l snap kd v m) l (snap # ss) = (if kd = Live then Some (take 96 v, snap) else None)"
  by (simp add: put_map_def)

text \<open>Deleting at the newest snapshot of the chain hides the key, whichever branch is taken.\<close>

lemma visible_delete_head: "visible (delete_map l snap (snap # ss) m) l (snap # ss) = None"
proof (cases "visible m l (snap # ss)")
  case None
  then show ?thesis by (simp only: delete_map_def option.case)
next
  case (Some r)
  obtain v s where r: "r = (v, s)" by (cases r)
  have "visible (mark_map l snap m) l (snap # ss) = None" by (simp add: mark_map_def)
  moreover have "visible (put_map l snap Whiteout [] m) l (snap # ss) = None" by (simp add: put_map_def)
  ultimately show ?thesis unfolding delete_map_def Some r by (simp del: visible.simps)
qed

text \<open>What a chain walk can see of an entry: the value of a tombstone is never read.\<close>

definition erase :: "kvmap \<Rightarrow> kvmap" where
  "erase m k = map_option (\<lambda>(kd, v). (kd, if kd = Live then v else [])) (m k)"

lemma visible_erase: "visible (erase m) l chain = visible m l chain"
  by (induction chain) (auto simp: erase_def split: option.splits)

lemma erase_visible: "erase m = erase m' \<Longrightarrow> visible m l chain = visible m' l chain"
  by (metis visible_erase)

lemma erase_upd: "erase (m(k \<mapsto> (kd, v))) = (erase m)(k \<mapsto> (kd, if kd = Live then v else []))"
  by (auto simp: erase_def)

section \<open>Scripts of operations and their log\<close>

datatype kvop = KPut bytes snap_id entry_kind bytes | KDel bytes snap_id "snap_id list"

fun op_ok :: "kvop \<Rightarrow> bool" where
  "op_ok (KPut l snap kd v) = (length l \<le> 28)"
| "op_ok (KDel l snap chain) = (length l \<le> 28 \<and> sorted_keys chain)"

fun apply_op :: "kvop \<Rightarrow> kvmap \<Rightarrow> kvmap" where
  "apply_op (KPut l snap kd v) m = put_map l snap kd v m"
| "apply_op (KDel l snap chain) m = delete_map l snap chain m"

definition log_put :: "bytes \<Rightarrow> snap_id \<Rightarrow> entry_kind \<Rightarrow> bytes \<Rightarrow> log_record" where
  "log_put l snap kd v = \<lparr>lr_key = l @ u32_be snap, lr_kind = kd, lr_value = v\<rparr>"

fun op_log :: "kvop \<Rightarrow> kvmap \<Rightarrow> log_record list" where
  "op_log (KPut l snap kd v) m = [log_put l snap kd v]"
| "op_log (KDel l snap chain) m =
     (case visible m l chain of
        None \<Rightarrow> []
      | Some (_, s) \<Rightarrow> [log_put l snap (if s = snap then Deleted else Whiteout) []])"

fun script_log :: "kvop list \<Rightarrow> kvmap \<Rightarrow> log_record list" where
  "script_log [] m = []"
| "script_log (x # xs) m = op_log x m @ script_log xs (apply_op x m)"

definition replay_map :: "log_record \<Rightarrow> kvmap \<Rightarrow> kvmap" where
  "replay_map r m = m(lr_key r \<mapsto> (lr_kind r, take 96 (lr_value r)))"

lemma erase_replay: "erase m = erase m' \<Longrightarrow> erase (replay_map r m) = erase (replay_map r m')"
  by (simp add: replay_map_def erase_upd)

lemma erase_replays: "erase m = erase m' \<Longrightarrow> erase (fold replay_map rs m) = erase (fold replay_map rs m')"
proof (induction rs arbitrary: m m')
  case (Cons r rs)
  show ?case using Cons.IH [OF erase_replay [OF Cons.prems]] by simp
qed simp

lemma replay_op: "erase (fold replay_map (op_log x m) m) = erase (apply_op x m)"
  by (cases x)
    (auto simp: replay_map_def log_put_def put_map_def delete_map_def mark_map_def erase_upd split: option.splits)

text \<open>Replaying the log of a script, on any map that reads the same, reproduces what a reader sees.\<close>

lemma replay_script: "erase m = erase m' \<Longrightarrow> erase (fold replay_map (script_log xs m) m') = erase (fold apply_op xs m)"
proof (induction xs arbitrary: m m')
  case (Cons x xs)
  have "erase (fold replay_map (op_log x m) m') = erase (apply_op x m)"
    using erase_replays [OF Cons.prems] replay_op [of x m] by metis
  then show ?case using Cons.IH [of "apply_op x m" "fold replay_map (op_log x m) m'"] by simp
qed simp

definition exec_op ::
  "(bytes \<Rightarrow> snap_id \<Rightarrow> entry_kind \<Rightarrow> bytes \<Rightarrow> ('s, error, unit) st) \<Rightarrow>
   (bytes \<Rightarrow> snap_id \<Rightarrow> snap_id list \<Rightarrow> ('s, error, bool) st) \<Rightarrow> kvop \<Rightarrow> ('s, error, unit) st" where
  "exec_op put del x =
     (case x of KPut l snap kd v \<Rightarrow> put l snap kd v
      | KDel l snap chain \<Rightarrow> bindM (del l snap chain) (\<lambda>_. ret ()))"

definition logs :: "log_record list \<Rightarrow> log_record list \<times> bool \<Rightarrow> log_record list \<times> bool" where
  "logs rs j = (if snd j then fst j @ rs else fst j, snd j)"

lemma logs_nil [simp]: "logs [] j = j" "logs rs (logs qs j) = logs (qs @ rs) j"
  by (cases j, simp_all add: logs_def)

section \<open>The interface\<close>

locale snap_kv =
  fixes stored :: "'s \<Rightarrow> kvmap \<Rightarrow> bool"
    and room :: "nat \<Rightarrow> 's \<Rightarrow> bool"
    and journal :: "'s \<Rightarrow> log_record list \<times> bool"
    and look :: "bytes \<Rightarrow> snap_id list \<Rightarrow> ('s, error, (bytes \<times> snap_id) option) st"
    and mark :: "bytes \<Rightarrow> snap_id \<Rightarrow> ('s, error, unit) st"
    and put :: "bytes \<Rightarrow> snap_id \<Rightarrow> entry_kind \<Rightarrow> bytes \<Rightarrow> ('s, error, unit) st"
    and del :: "bytes \<Rightarrow> snap_id \<Rightarrow> snap_id list \<Rightarrow> ('s, error, bool) st"
  assumes look_law: "stored s m \<Longrightarrow> room n s \<Longrightarrow> length l \<le> 28 \<Longrightarrow> sorted_keys chain \<Longrightarrow>
      runs (look l chain) s (\<lambda>r s'. r = visible m l chain \<and> stored s' m \<and> room n s' \<and> journal s' = journal s)"
    and mark_law: "stored s m \<Longrightarrow> room (Suc n) s \<Longrightarrow> length l \<le> 28 \<Longrightarrow> l @ u32_be snap \<in> dom m \<Longrightarrow>
      runs (mark l snap) s (\<lambda>_ s'. stored s' (mark_map l snap m) \<and> room n s'
        \<and> journal s' = logs [log_put l snap Deleted []] (journal s))"
    and put_law: "stored s m \<Longrightarrow> room (Suc n) s \<Longrightarrow> length l \<le> 28 \<Longrightarrow>
      runs (put l snap kd v) s (\<lambda>_ s'. stored s' (put_map l snap kd v m) \<and> room n s'
        \<and> journal s' = logs [log_put l snap kd v] (journal s))"
    and del_eq: "del l snap chain = bindM (look l chain) (\<lambda>r.
      case r of None \<Rightarrow> ret False
      | Some (_, s) \<Rightarrow> if s = snap then bindM (mark l snap) (\<lambda>_. ret True)
          else bindM (put l snap Whiteout []) (\<lambda>_. ret True))"
    and room_mono: "room n s \<Longrightarrow> k \<le> n \<Longrightarrow> room k s"
begin

lemma del_law:
  assumes "stored s m" "room (Suc n) s" "length l \<le> 28" "sorted_keys chain"
  shows "runs (del l snap chain) s (\<lambda>r s'. r = (visible m l chain \<noteq> None) \<and> stored s' (delete_map l snap chain m) \<and> room n s'
     \<and> journal s' = logs (op_log (KDel l snap chain) m) (journal s))"
  unfolding del_eq runs_bind
proof (rule runs_mono [OF look_law [OF assms]])
  fix r s' assume r: "r = visible m l chain \<and> stored s' m \<and> room (Suc n) s' \<and> journal s' = journal s"
  show "runs (case r of None \<Rightarrow> ret False
      | Some (_, s) \<Rightarrow> if s = snap then bindM (mark l snap) (\<lambda>_. ret True) else bindM (put l snap Whiteout []) (\<lambda>_. ret True)) s'
     (\<lambda>r s'. r = (visible m l chain \<noteq> None) \<and> stored s' (delete_map l snap chain m) \<and> room n s'
       \<and> journal s' = logs (op_log (KDel l snap chain) m) (journal s))"
  proof (cases r)
    case None
    then show ?thesis using r room_mono [of "Suc n" s' n] by (simp add: delete_map_def)
  next
    case (Some p)
    obtain v x where p: "p = (v, x)" by (cases p)
    have vis: "visible m l chain = Some (v, x)" using r Some p by simp
    show ?thesis
    proof (cases "x = snap")
      case True
      then have d: "l @ u32_be snap \<in> dom m" using visible_snap [OF vis] by auto
      show ?thesis using r True vis runs_mono [OF mark_law [of s' m n, OF _ _ assms(3) d]] by (simp add: Some p delete_map_def)
    next
      case False
      then show ?thesis using r vis runs_mono [OF put_law [of s' m n, OF _ _ assms(3), of snap Whiteout "[]"]]
        by (simp add: Some p delete_map_def)
    qed
  qed
qed

lemma exec_law:
  assumes "stored s m" "room (Suc n) s" "op_ok x"
  shows "runs (exec_op put del x) s (\<lambda>_ s'. stored s' (apply_op x m) \<and> room n s' \<and> journal s' = logs (op_log x m) (journal s))"
proof (cases x)
  case (KPut l snap kd v)
  then show ?thesis using put_law [OF assms(1,2)] assms(3) by (simp add: exec_op_def)
next
  case (KDel l snap chain)
  then show ?thesis using assms(3) runs_mono [OF del_law [OF assms(1,2), of l chain snap]] by (simp add: exec_op_def)
qed

lemma script_law:
  "stored s m \<Longrightarrow> room (length xs + n) s \<Longrightarrow> \<forall>x \<in> set xs. op_ok x \<Longrightarrow>
    runs (forM xs (exec_op put del)) s (\<lambda>_ s'. stored s' (fold apply_op xs m) \<and> room n s'
      \<and> journal s' = logs (script_log xs m) (journal s))"
proof (induction xs arbitrary: s m)
  case (Cons x xs)
  show ?case
    unfolding forM.simps runs_bind
  proof (rule runs_mono [OF exec_law [of s m "length xs + n" x]])
    fix u s' assume s': "stored s' (apply_op x m) \<and> room (length xs + n) s' \<and> journal s' = logs (op_log x m) (journal s)"
    show "runs (forM xs (exec_op put del)) s' (\<lambda>_ s'. stored s' (fold apply_op (x # xs) m) \<and> room n s'
      \<and> journal s' = logs (script_log (x # xs) m) (journal s))"
      using Cons.prems s' by (intro runs_mono [OF Cons.IH [of s' "apply_op x m"]]) auto
  qed (use Cons.prems in auto)
qed simp

end

end
