(* ===== verification/Btree_Api.thy ===== *)
theory Btree_Api
  imports Snap_Kv
begin

text \<open>
  The methods of \<open>Btree\<close> and \<open>Tx\<close> as implementations of the key-value interface.  A volume is a tree
  together with data blocks that the tree does not use; every operation keeps those data blocks.
  \<open>transaction\<close> runs a closure on a pending copy-on-write root and either swaps the root or leaves the
  tree and the log as they were.
\<close>

section \<open>Volumes\<close>

definition data_kept :: "(u64 \<rightharpoonup> bytes) \<Rightarrow> u64 set \<Rightarrow> tctx \<Rightarrow> bool" where
  "data_kept D B c = (\<forall>b x. D b = Some x \<longrightarrow> b \<in> owned c \<and> b \<notin> B \<and> data_at (store c) b = Some x)"

definition volume :: "tctx \<Rightarrow> u64 \<Rightarrow> kvmap \<Rightarrow> (u64 \<rightharpoonup> bytes) \<Rightarrow> bool" where
  "volume c r m D = (\<exists>B. holds c r B m \<and> data_kept D B c)"

lemma touched_sub: "touched mode B \<subseteq> B"
  by (cases mode) auto

lemma data_kept_evolves:
  assumes "data_kept D B c" "evolves (touched mode B) n c c'" "alloc_ok (store c)" "B' \<subseteq> B \<union> - allocated (store c)"
  shows "data_kept D B' c'"
  unfolding data_kept_def
proof (intro allI impI)
  fix b x assume "D b = Some x"
  then have b: "b \<in> owned c" "b \<notin> B" "data_at (store c) b = Some x" using assms(1) by (auto simp: data_kept_def)
  then have a: "b \<in> allocated (store c)" "b \<notin> touched mode B" using touched_sub by (auto simp: owned_def)
  show "b \<in> owned c' \<and> b \<notin> B' \<and> data_at (store c') b = Some x"
    using b a assms(4) evolves_owned [OF assms(2) b(1)] evolves_data [OF assms(2,3) a b(3)] by auto
qed

lemma quiet_alloc_ok: "quiet c c' \<Longrightarrow> alloc_ok (store c) \<Longrightarrow> alloc_ok (store c')"
  using evolves_alloc_ok [OF evolves_quiet] by blast

lemma quiet_sane: "quiet c c' \<Longrightarrow> sane n c \<Longrightarrow> sane n c'"
  using evolves_sane [of 0 n c "{}" c'] evolves_quiet [of c c' "{}" 0] by (simp add: sane_def)

lemma volume_quiet: "volume c r m D \<Longrightarrow> quiet c c' \<Longrightarrow> alloc_ok (store c) \<Longrightarrow> volume c' r m D"
  using data_kept_evolves [of D _ c Cow 0 c'] evolves_quiet [of c c' "{}" 0] holds_quiet unfolding volume_def by fastforce

lemma volume_insert:
  assumes "volume c r m D" "ok_key k" "sane (OP_COST + n) c"
  shows "runs (insert_rec TREE_FUEL k v kind mode r) c (\<lambda>r' c'. volume c' r' (m(k \<mapsto> (kind, take 96 v))) D \<and> sane n c'
     \<and> (\<exists>B. evolves (touched mode B) OP_COST c c'))"
proof -
  obtain B where B: "holds c r B m" "data_kept D B c" using assms(1) by (auto simp: volume_def)
  have ok: "alloc_ok (store c)" using assms(3) by (simp add: sane_def)
  show ?thesis
    by (rule runs_mono [OF insert_holds [OF B(1) assms(2,3)]])
      (use data_kept_evolves [OF B(2) _ ok] in \<open>unfold volume_def, blast\<close>)
qed

lemma volume_flip:
  assumes "volume c r m D" "m k = Some (kd, v)" "nk \<noteq> Whiteout" "sane (OP_COST + n) c"
  shows "runs (flip_kind_in_place TREE_FUEL r k nk mode) c (\<lambda>r' c'. volume c' r' (m(k \<mapsto> (nk, v))) D \<and> sane n c'
     \<and> (\<exists>B. evolves (touched mode B) OP_COST c c'))"
proof -
  obtain B where B: "holds c r B m" "data_kept D B c" using assms(1) by (auto simp: volume_def)
  have ok: "alloc_ok (store c)" using assms(4) by (simp add: sane_def)
  show ?thesis
    by (rule runs_mono [OF flip_holds [OF B(1) assms(2,3,4)]])
      (use data_kept_evolves [OF B(2) _ ok] in \<open>unfold volume_def, blast\<close>)
qed

lemma volume_look:
  assumes "volume c r m D" "alloc_ok (store c)" "length l \<le> 28" "sorted_keys chain"
  shows "runs (find_visible_with_snap r l chain) c (\<lambda>res c'. res = visible m l chain \<and> quiet c c')"
  using assms find_visible_holds unfolding volume_def by blast

lemma volume_frame: "volume c r m D \<Longrightarrow> evolves {} n c c' \<Longrightarrow> alloc_ok (store c) \<Longrightarrow> volume c' r m D"
  using data_kept_evolves [of D _ c Cow n c'] holds_evolves unfolding volume_def by fastforce

lemma bindM_assoc: "bindM (bindM m f) g = bindM m (\<lambda>x. bindM (f x) g)"
  by (simp add: bindM_def fun_eq_iff split: prod.splits sum.splits)

lemma ok_sortable: "length l \<le> 28 \<Longrightarrow> ok_key (l @ u32_be s)"
  by (simp add: ok_key_def)

lemma sortable_key_ok: "length l \<le> 28 \<Longrightarrow> sortable_key l s = Some (l @ u32_be s)"
  by (simp add: sortable_key_def)

section \<open>The direct methods\<close>

definition stored :: "(u64 \<rightharpoonup> bytes) \<Rightarrow> btree \<Rightarrow> kvmap \<Rightarrow> bool" where
  "stored D t m = volume (ctx t) (root_block t) m D"

definition room :: "nat \<Rightarrow> btree \<Rightarrow> bool" where
  "room n t = sane (n * OP_COST) (ctx t)"

definition journal_of :: "btree \<Rightarrow> log_record list \<times> bool" where
  "journal_of t = (log t, logging t)"

definition mark_at :: "bytes \<Rightarrow> snap_id \<Rightarrow> unit btree_st" where
  "mark_at key snap =
     bindM (expect (sortable_key key snap)) (\<lambda>sk.
     bindM (on_root (\<lambda>r. flip_kind_in_place TREE_FUEL r sk Deleted InPlace)) (\<lambda>new_root.
     bindM (modify (\<lambda>t. t\<lparr>root_block := new_root\<rparr>)) (\<lambda>_.
     push_log sk Deleted [])))"

lemma on_root_runs: "runs (on_root f) t P = runs (f (root_block t)) (ctx t) (\<lambda>r c. P r (t\<lparr>ctx := c\<rparr>))"
  by (simp add: on_root_def on_tree_def runs_on_part)

lemma stored_ctx [simp]:
  "stored D (t\<lparr>ctx := c, root_block := r\<rparr>) m = volume c r m D" "stored D (t\<lparr>ctx := c\<rparr>) m = volume c (root_block t) m D"
  "stored D (t\<lparr>log := ls\<rparr>) m = stored D t m" "room n (t\<lparr>log := ls\<rparr>) = room n t"
  "room n (t\<lparr>ctx := c, root_block := r\<rparr>) = sane (n * OP_COST) c" "room n (t\<lparr>ctx := c\<rparr>) = sane (n * OP_COST) c"
  by (simp_all add: stored_def room_def)

lemma push_log_runs:
  "runs (push_log k kd v) t (\<lambda>_ t'. stored D t' m = stored D t m \<and> room n t' = room n t
     \<and> ctx t' = ctx t \<and> root_block t' = root_block t
     \<and> journal_of t' = logs [\<lparr>lr_key = k, lr_kind = kd, lr_value = v\<rparr>] (journal_of t))"
  by (auto simp: push_log_def stored_def room_def journal_of_def logs_def)

lemma room_alloc_ok: "room n t \<Longrightarrow> alloc_ok (store (ctx t))"
  by (simp add: room_def sane_def)

lemma room_le: "room n t \<Longrightarrow> k \<le> n \<Longrightarrow> room k t"
  by (auto simp: room_def intro: sane_le mult_le_mono1)

lemma room_Suc: "room (Suc n) t = sane (OP_COST + n * OP_COST) (ctx t)"
  by (simp add: room_def)

lemma look_stored:
  assumes "stored D t m" "room n t" "length l \<le> 28" "sorted_keys chain"
  shows "runs (btree_find_visible_with_snap l chain) t (\<lambda>r t'. r = visible m l chain \<and> stored D t' m \<and> room n t' \<and> journal_of t' = journal_of t)"
  unfolding btree_find_visible_with_snap_def on_root_runs
  using assms room_alloc_ok [OF assms(2)]
  by (intro runs_mono [OF volume_look [of "ctx t" "root_block t" m D l chain]])
    (auto simp: stored_def room_def journal_of_def intro: volume_quiet quiet_sane)

lemma mark_stored:
  assumes "stored D t m" "room (Suc n) t" "length l \<le> 28" "l @ u32_be snap \<in> dom m"
  shows "runs (mark_at l snap) t (\<lambda>_ t'. stored D t' (mark_map l snap m) \<and> room n t'
     \<and> journal_of t' = logs [log_put l snap Deleted []] (journal_of t))"
proof -
  obtain kd v where kv: "m (l @ u32_be snap) = Some (kd, v)" using assms(4) by auto
  have "runs (flip_kind_in_place TREE_FUEL (root_block t) (l @ u32_be snap) Deleted InPlace) (ctx t)
      (\<lambda>r' c'. volume c' r' (mark_map l snap m) D \<and> sane (n * OP_COST) c' \<and> (\<exists>B. evolves (touched InPlace B) OP_COST (ctx t) c'))"
    using volume_flip [of "ctx t" "root_block t" m D, OF _ kv, of Deleted "n * OP_COST" InPlace] assms(1,2) kv
    by (simp add: stored_def room_def mark_map_def)
  then show ?thesis
    unfolding mark_at_def sortable_key_ok [OF assms(3)] expect_Some bindM_ret runs_bind on_root_runs runs_modify
    by (rule runs_mono) (rule runs_mono [OF push_log_runs], auto simp: log_put_def journal_of_def)
qed

lemma put_stored:
  assumes "stored D t m" "room (Suc n) t" "length l \<le> 28"
  shows "runs (insert_with_kind l snap kd v) t (\<lambda>_ t'. stored D t' (put_map l snap kd v m) \<and> room n t'
     \<and> journal_of t' = logs [log_put l snap kd v] (journal_of t))"
proof -
  have "runs (insert_rec TREE_FUEL (l @ u32_be snap) v kd InPlace (root_block t)) (ctx t)
      (\<lambda>r' c'. volume c' r' (put_map l snap kd v m) D \<and> sane (n * OP_COST) c' \<and> (\<exists>B. evolves (touched InPlace B) OP_COST (ctx t) c'))"
    using volume_insert [of "ctx t" "root_block t" m D, OF _ ok_sortable [OF assms(3)], of "n * OP_COST" snap v kd InPlace] assms(1,2)
    by (simp add: stored_def room_def put_map_def)
  then show ?thesis
    unfolding insert_with_kind_def sortable_key_ok [OF assms(3)] expect_Some bindM_ret runs_bind on_root_runs runs_modify
    by (rule runs_mono) (rule runs_mono [OF push_log_runs], auto simp: log_put_def journal_of_def)
qed

interpretation direct: snap_kv "stored D" room journal_of btree_find_visible_with_snap mark_at insert_with_kind delete_at
  for D
proof unfold_locales
  show "delete_at l snap chain = bindM (btree_find_visible_with_snap l chain) (\<lambda>r.
      case r of None \<Rightarrow> ret False
      | Some (_, s) \<Rightarrow> if s = snap then bindM (mark_at l snap) (\<lambda>_. ret True)
          else bindM (insert_with_kind l snap Whiteout []) (\<lambda>_. ret True))" for l snap chain
    unfolding delete_at_def mark_at_def bindM_assoc ..
qed (rule look_stored mark_stored put_stored room_le; assumption)+

section \<open>The transaction-scoped methods\<close>

text \<open>Inside a transaction the pending root stores the map being built, and the committed root still
  stores the map the transaction started from.\<close>

definition tx_stored :: "(u64 \<rightharpoonup> bytes) \<Rightarrow> u64 \<Rightarrow> kvmap \<Rightarrow> tx \<Rightarrow> kvmap \<Rightarrow> bool" where
  "tx_stored D r0 m0 x m = (volume (ctx (tx_btree x)) (pending_root x) m D \<and> volume (ctx (tx_btree x)) r0 m0 D
     \<and> root_block (tx_btree x) = r0)"

definition tx_room :: "nat \<Rightarrow> tx \<Rightarrow> bool" where
  "tx_room n x = room n (tx_btree x)"

definition tx_journal :: "tx \<Rightarrow> log_record list \<times> bool" where
  "tx_journal x = journal_of (tx_btree x)"

definition tx_mark_at :: "bytes \<Rightarrow> snap_id \<Rightarrow> unit tx_st" where
  "tx_mark_at key snap =
     bindM (expect (sortable_key key snap)) (\<lambda>sk.
     bindM (on_pending (\<lambda>r. flip_kind_in_place TREE_FUEL r sk Deleted Cow)) (\<lambda>new_root.
     bindM (modify (\<lambda>x. x\<lparr>pending_root := new_root\<rparr>)) (\<lambda>_.
     tx_push_log sk Deleted [])))"

lemma on_pending_runs: "runs (on_pending f) x P =
    runs (f (pending_root x)) (ctx (tx_btree x)) (\<lambda>r c. P r (x\<lparr>tx_btree := (tx_btree x)\<lparr>ctx := c\<rparr>\<rparr>))"
  by (simp add: on_pending_def on_tree_def runs_on_part)

lemma tx_push_log_runs:
  "runs (tx_push_log k kd v) x (\<lambda>_ x'. tx_stored D r0 m0 x' m = tx_stored D r0 m0 x m \<and> tx_room n x' = tx_room n x
     \<and> tx_journal x' = logs [\<lparr>lr_key = k, lr_kind = kd, lr_value = v\<rparr>] (tx_journal x))"
  by (auto simp: tx_push_log_def runs_on_part push_log_def tx_stored_def tx_room_def tx_journal_def room_def journal_of_def logs_def)

lemma tx_look_stored:
  assumes "tx_stored D r0 m0 x m" "tx_room n x" "length l \<le> 28" "sorted_keys chain"
  shows "runs (tx_find_visible_with_snap l chain) x (\<lambda>r x'. r = visible m l chain \<and> tx_stored D r0 m0 x' m \<and> tx_room n x' \<and> tx_journal x' = tx_journal x)"
  unfolding tx_find_visible_with_snap_def on_pending_runs
  using assms room_alloc_ok [OF assms(2) [unfolded tx_room_def]]
  by (intro runs_mono [OF volume_look [of "ctx (tx_btree x)" "pending_root x" m D l chain]])
    (auto simp: tx_stored_def tx_room_def room_def tx_journal_def journal_of_def intro: volume_quiet quiet_sane)

lemma tx_step:
  assumes "runs (f (pending_root x)) (ctx (tx_btree x)) (\<lambda>r' c'. volume c' r' m' D \<and> sane (n * OP_COST) c'
      \<and> (\<exists>B. evolves (touched Cow B) OP_COST (ctx (tx_btree x)) c'))"
    and "tx_stored D r0 m0 x m" "tx_room (Suc n) x"
  shows "runs (bindM (on_pending f) (\<lambda>new_root. bindM (modify (\<lambda>x. x\<lparr>pending_root := new_root\<rparr>)) (\<lambda>_. tx_push_log k kd v))) x
     (\<lambda>_ x'. tx_stored D r0 m0 x' m' \<and> tx_room n x' \<and> tx_journal x' = logs [\<lparr>lr_key = k, lr_kind = kd, lr_value = v\<rparr>] (tx_journal x))"
proof -
  have ok: "alloc_ok (store (ctx (tx_btree x)))" using room_alloc_ok assms(3) by (auto simp: tx_room_def)
  show ?thesis
    unfolding runs_bind on_pending_runs runs_modify
  proof (rule runs_mono [OF assms(1)])
    fix r' c' assume c: "volume c' r' m' D \<and> sane (n * OP_COST) c' \<and> (\<exists>B. evolves (touched Cow B) OP_COST (ctx (tx_btree x)) c')"
    then have "volume c' r0 m0 D" using assms(2) volume_frame [OF _ _ ok] by (auto simp: tx_stored_def)
    with c assms(2) show "runs (tx_push_log k kd v) (x\<lparr>tx_btree := (tx_btree x)\<lparr>ctx := c'\<rparr>, pending_root := r'\<rparr>)
       (\<lambda>_ x'. tx_stored D r0 m0 x' m' \<and> tx_room n x' \<and> tx_journal x' = logs [\<lparr>lr_key = k, lr_kind = kd, lr_value = v\<rparr>] (tx_journal x))"
      by (intro runs_mono [OF tx_push_log_runs]) (auto simp: tx_stored_def tx_room_def room_def tx_journal_def journal_of_def)
  qed
qed

lemma tx_mark_stored:
  assumes "tx_stored D r0 m0 x m" "tx_room (Suc n) x" "length l \<le> 28" "l @ u32_be snap \<in> dom m"
  shows "runs (tx_mark_at l snap) x (\<lambda>_ x'. tx_stored D r0 m0 x' (mark_map l snap m) \<and> tx_room n x'
     \<and> tx_journal x' = logs [log_put l snap Deleted []] (tx_journal x))"
proof -
  obtain kd v where kv: "m (l @ u32_be snap) = Some (kd, v)" using assms(4) by auto
  have "runs (flip_kind_in_place TREE_FUEL (pending_root x) (l @ u32_be snap) Deleted Cow) (ctx (tx_btree x))
      (\<lambda>r' c'. volume c' r' (mark_map l snap m) D \<and> sane (n * OP_COST) c' \<and> (\<exists>B. evolves (touched Cow B) OP_COST (ctx (tx_btree x)) c'))"
    using volume_flip [of "ctx (tx_btree x)" "pending_root x" m D, OF _ kv, of Deleted "n * OP_COST" Cow] assms(1,2) kv
    by (simp add: tx_stored_def tx_room_def room_def mark_map_def)
  then show ?thesis
    unfolding tx_mark_at_def sortable_key_ok [OF assms(3)] expect_Some bindM_ret log_put_def by (rule tx_step [OF _ assms(1,2)])
qed

lemma tx_put_stored:
  assumes "tx_stored D r0 m0 x m" "tx_room (Suc n) x" "length l \<le> 28"
  shows "runs (tx_insert_with_kind l snap kd v) x (\<lambda>_ x'. tx_stored D r0 m0 x' (put_map l snap kd v m) \<and> tx_room n x'
     \<and> tx_journal x' = logs [log_put l snap kd v] (tx_journal x))"
proof -
  have "runs (insert_rec TREE_FUEL (l @ u32_be snap) v kd Cow (pending_root x)) (ctx (tx_btree x))
      (\<lambda>r' c'. volume c' r' (put_map l snap kd v m) D \<and> sane (n * OP_COST) c' \<and> (\<exists>B. evolves (touched Cow B) OP_COST (ctx (tx_btree x)) c'))"
    using volume_insert [of "ctx (tx_btree x)" "pending_root x" m D, OF _ ok_sortable [OF assms(3)], of "n * OP_COST" snap v kd Cow] assms(1,2)
    by (simp add: tx_stored_def tx_room_def room_def put_map_def)
  then show ?thesis
    unfolding tx_insert_with_kind_def sortable_key_ok [OF assms(3)] expect_Some bindM_ret log_put_def by (rule tx_step [OF _ assms(1,2)])
qed

interpretation scoped: snap_kv "tx_stored D r0 m0" tx_room tx_journal tx_find_visible_with_snap tx_mark_at tx_insert_with_kind tx_delete_at
  for D r0 m0
proof unfold_locales
  show "tx_delete_at l snap chain = bindM (tx_find_visible_with_snap l chain) (\<lambda>r.
      case r of None \<Rightarrow> ret False
      | Some (_, s) \<Rightarrow> if s = snap then bindM (tx_mark_at l snap) (\<lambda>_. ret True)
          else bindM (tx_insert_with_kind l snap Whiteout []) (\<lambda>_. ret True))" for l snap chain
    unfolding tx_delete_at_def tx_mark_at_def bindM_assoc ..
  show "tx_room n s \<Longrightarrow> k \<le> n \<Longrightarrow> tx_room k s" for n k s unfolding tx_room_def by (rule room_le)
qed (rule tx_look_stored tx_mark_stored tx_put_stored; assumption)+

end
