(* ===== verification/Transactions.thy ===== *)
theory Transactions
  imports Btree_Api "HOL-Library.Sublist"
begin

text \<open>
  What clients of the tree rely on: a fresh tree is the empty map, lookups and scans read the map,
  a transaction commits all of its script or nothing, and the log of a script replays to what a
  reader of the original tree sees.
\<close>

section \<open>A fresh tree\<close>

lemma initialize_ok:
  assumes "alloc_ok st" "unat (next_block_nr st) + Suc k \<le> 2 ^ 52" "Suc (Suc k) \<le> 2 ^ 52"
  shows "\<exists>t. initialize_with st = Some t \<and> stored Map.empty t Map.empty \<and> sane k (ctx t) \<and> journal_of t = ([], True)"
proof -
  let ?h = "\<lparr>bh_seq = 0, bh_nkeys = 0, bh_flags = 0, bh_pad = 0\<rparr> :: bset_header"
  define c0 where "c0 = \<lparr>store = st, next_bset_seq = 1\<rparr>"
  have s0: "sane (Suc k) c0" using assms by (simp add: sane_def c0_def)
  obtain n where n: "start_new_bset 0 (node_new 0) = Some n" "level n = 0" "layout n [(?h, [])]"
    using layout_start_new_bset [of "node_new 0" "[]" 0] by auto
  have "runs (bindM (on_store alloc) (\<lambda>nr. bindM (on_store (write_node nr n)) (\<lambda>_. ret nr))) c0
      (\<lambda>nr c. nr \<in> owned c \<and> sane k c \<and> node_at (store c) nr = Some (stamped st n) \<and> next_bset_seq c = 1)"
    unfolding runs_bind
  proof (rule runs_alloc [OF s0])
    fix nr c1 assume c1: "evolves {} 1 c0 c1" "sane k c1" "nr \<notin> allocated (store c0)" "nr \<in> allocated (store c1)"
      "nr \<notin> set (last_chain_blocks (store c0))" "next_bset_seq c1 = next_bset_seq c0" "crc32 (store c1) = crc32 (store c0)"
    show "runs (on_store (write_node nr n)) c1 (\<lambda>_ c. runs (ret nr) c (\<lambda>nr c. nr \<in> owned c \<and> sane k c
        \<and> node_at (store c) nr = Some (stamped st n) \<and> next_bset_seq c = 1))"
    proof (rule runs_write [OF c1(2,4) layout_sized [OF n(3)]])
      fix c2 assume c2: "evolves {nr} 0 c1 c2" "sane k c2" "node_at (store c2) nr = Some (stamped (store c1) n)"
        "next_bset_seq c2 = next_bset_seq c1" "crc32 (store c2) = crc32 (store c1)"
      have "stamped (store c1) n = stamped st n" using c1(7) by (simp add: stamped_def c0_def)
      moreover have "nr \<in> owned c2"
        using c1(4,5) evolves_chain [OF c1(1)] evolves_owned [OF c2(1)] by (simp add: owned_def)
      ultimately show "runs (ret nr) c2 (\<lambda>nr c. nr \<in> owned c \<and> sane k c
        \<and> node_at (store c) nr = Some (stamped st n) \<and> next_bset_seq c = 1)" using c1(6) c2 by (simp add: c0_def)
    qed
  qed
  then obtain nr c1 c2 where c: "on_store alloc c0 = (Inr nr, c1)" "on_store (write_node nr n) c1 = (Inr (), c2)"
    "nr \<in> owned c2" "sane k c2" "node_at (store c2) nr = Some (stamped st n)" "next_bset_seq c2 = 1"
    by (auto simp: runs_def bindM_def split: prod.splits sum.splits)
  have st: "alloc st = (Inr nr, store c1)" "c2 = \<lparr>store = snd (write_node nr n (store c1)), next_bset_seq = 1\<rparr>"
    using c(1,2,6) by (auto simp: on_store_def on_part_def c0_def split: prod.splits)
  let ?t = "\<lparr>root_block = nr, ctx = c2, log = [], logging = True\<rparr>"
  have "tree_ok c2 0 None None (ALeaf nr [(?h, [])])"
    using n c(3,5,6) by (auto simp: tree_ok_def leaf_ok_def good_bsets_def flags_ok_def stamped_def)
  then have "holds c2 nr {nr} Map.empty"
    unfolding holds_def by (intro exI [of _ 0] exI [of _ "ALeaf nr [(?h, [])]"]) (auto simp: tree_view_def)
  then have "stored Map.empty ?t Map.empty" by (auto simp: stored_def volume_def data_kept_def)
  moreover have "initialize_with st = Some ?t" unfolding initialize_with_def st(1) n(1) st(2) by simp
  ultimately show ?thesis using c(4) by (auto simp: journal_of_def)
qed

lemma fresh_ok:
  assumes "n \<le> 2 ^ 44"
  shows "\<exists>t. btree_new crc = Some t \<and> stored Map.empty t Map.empty \<and> room n t \<and> journal_of t = ([], True)"
proof -
  have "alloc_ok (in_memory crc)" "next_block_nr (in_memory crc) = 65" by (simp_all add: in_memory_def with_device_def alloc_ok_def storage_values)
  then show ?thesis
    using assms initialize_ok [of "in_memory crc" "n * OP_COST"] by (auto simp: btree_new_def room_def OP_COST_def)
qed

lemma fresh_sample:
  obtains t where "btree_new (\<lambda>_. 7) = Some t" "stored Map.empty t Map.empty" "\<And>n. n \<le> 100 \<Longrightarrow> room n t" "logging t" "log t = []"
proof -
  obtain t where t: "btree_new (\<lambda>_. 7) = Some t" "stored Map.empty t Map.empty" "room 100 t" "logging t" "log t = []"
    using fresh_ok [of 100 "\<lambda>_. 7"] by (auto simp: journal_of_def)
  then show thesis using that room_le by blast
qed

section \<open>Lookups and scans\<close>

lemma find_stored:
  assumes "stored D t m" "room n t" "length l \<le> 28"
  shows "runs (find_at l snap) t (\<lambda>r t'. r = live (m (l @ u32_be snap)) \<and> stored D t' m \<and> room n t' \<and> journal_of t' = journal_of t)"
proof -
  have ok: "alloc_ok (store (ctx t))" by (rule room_alloc_ok [OF assms(2)])
  obtain B where B: "holds (ctx t) (root_block t) B m" "data_kept D B (ctx t)" using assms(1) by (auto simp: stored_def volume_def)
  show ?thesis
    unfolding find_at_def sortable_key_ok [OF assms(3)] expect_Some bindM_ret on_root_runs
    using assms ok by (intro runs_mono [OF find_val_holds [OF B(1) ok]])
      (auto simp: stored_def room_def journal_of_def intro: volume_quiet quiet_sane)
qed

lemma range_scan_all_stored:
  assumes "stored D t m" "room n t" "length start \<le> 28" "length en \<le> 28"
  shows "runs (btree_range_scan_all start en) t (\<lambda>rows t'. rows = scan_rows m (start @ replicate 4 0) (en @ replicate 4 0)
     \<and> stored D t' m \<and> room n t' \<and> journal_of t' = journal_of t)"
proof -
  have ok: "alloc_ok (store (ctx t))" by (rule room_alloc_ok [OF assms(2)])
  obtain B where B: "holds (ctx t) (root_block t) B m" using assms(1) by (auto simp: stored_def volume_def)
  have sb: "scan_bound start = Some (start @ replicate 4 0)" "scan_bound en = Some (en @ replicate 4 0)"
    using assms(3,4) by (simp_all add: scan_bound_def)
  show ?thesis
    unfolding btree_range_scan_all_def sb expect_Some bindM_ret on_root_runs
    using assms ok by (intro runs_mono [OF range_scan_all_holds [OF B ok]])
      (auto simp: stored_def room_def journal_of_def intro: volume_quiet quiet_sane)
qed

text \<open>Which logical keys a scan covers: the comparison is on the prefix as long as the bound.\<close>

definition in_window :: "bytes \<Rightarrow> bytes \<Rightarrow> bytes \<Rightarrow> bool" where
  "in_window start en l = (start \<le> take (length start) l \<and> take (length en) l < en)"

lemma zeros_le: "n \<le> length xs \<Longrightarrow> replicate n 0 \<le> (xs :: bytes)"
proof (induction n arbitrary: xs)
  case (Suc n)
  then obtain x xs' where "xs = x # xs'" "n \<le> length xs'" by (cases xs) auto
  then show ?case using Suc.IH [of xs'] by (cases "x = 0") (auto simp: word_neq_0_conv)
qed simp

lemma bound_less:
  fixes s :: bytes
  assumes "\<not> strict_prefix l s" "length x = 4"
  shows "l @ x < s @ replicate 4 0 \<longleftrightarrow> take (length s) l < s"
proof (cases "length s \<le> length l")
  case True
  define l1 l2 where "l1 = take (length s) l" and "l2 = drop (length s) l"
  have l: "l = l1 @ l2" "length l1 = length s" using True by (simp_all add: l1_def l2_def)
  have "\<not> l2 @ x < replicate 4 0" using zeros_le [of 4 "l2 @ x"] assms(2) by (simp add: not_less)
  then have "l @ x < s @ replicate 4 0 \<longleftrightarrow> l1 < s" using l by (simp only: append_assoc less_append_same_length) simp
  then show ?thesis by (simp add: l1_def)
next
  case False
  define s1 s2 where "s1 = take (length l) s" and "s2 = drop (length l) s"
  have s: "s = s1 @ s2" "length l = length s1" using False by (simp_all add: s1_def s2_def)
  have "s2 \<noteq> []" using False s by auto
  then have ne: "l \<noteq> s1" using assms(1) s(1) by (auto simp: strict_prefix_def prefix_def)
  have "l @ x < s @ replicate 4 0 \<longleftrightarrow> l < s1" using s(2) ne by (simp only: s(1) append_assoc less_append_same_length) simp
  moreover have "l @ [] < s1 @ s2 \<longleftrightarrow> l < s1" using s(2) ne by (simp only: less_append_same_length) simp
  ultimately show ?thesis using False s(1) by simp
qed

lemma window_logical:
  assumes "ok_key k" "\<not> strict_prefix (logical_of k) start" "\<not> strict_prefix (logical_of k) en"
  shows "(start @ replicate 4 0 \<le> k \<and> k < en @ replicate 4 0) = in_window start en (logical_of k)"
proof -
  have k: "k = logical_of k @ u32_be (snap_of k)" using sortable_eta [of k] assms(1) by (simp add: ok_key_def)
  have "k < b @ replicate 4 0 \<longleftrightarrow> take (length b) (logical_of k) < b" if "\<not> strict_prefix (logical_of k) b" for b
    by (subst k) (simp only: bound_less [OF that] length_word_bytes)
  then show ?thesis using assms(2,3) unfolding in_window_def by (metis not_le)
qed

definition separated :: "kvmap \<Rightarrow> bytes \<Rightarrow> bytes \<Rightarrow> bool" where
  "separated m start en = (apart {k \<in> dom m. in_window start en (logical_of k)}
     \<and> (\<forall>k \<in> dom m. \<not> strict_prefix (logical_of k) start \<and> \<not> strict_prefix (logical_of k) en))"

lemma visible_scan_stored:
  assumes "stored D t m" "room n t" "length start \<le> 28" "length en \<le> 28" "sorted_keys chain" "separated m start en"
  shows "runs (btree_range_scan_all start en) t (\<lambda>raw t'. (\<exists>ls. visible_rows (set chain) mk None False raw = visible_list mk m chain ls
      \<and> distinct ls \<and> set ls = {l. in_window start en l \<and> l \<in> logical_of ` dom m})
     \<and> stored D t' m \<and> room n t' \<and> journal_of t' = journal_of t)"
proof (rule runs_mono [OF range_scan_all_stored [OF assms(1-4)]])
  fix raw t' assume r: "raw = scan_rows m (start @ replicate 4 0) (en @ replicate 4 0) \<and> stored D t' m \<and> room n t' \<and> journal_of t' = journal_of t"
  obtain c B where h: "holds c (root_block t) B m" using assms(1) by (auto simp: stored_def volume_def)
  have "\<exists>ls. visible_rows (set chain) mk None False (scan_rows m (start @ replicate 4 0) (en @ replicate 4 0)) = visible_list mk m chain ls
      \<and> distinct ls \<and> set ls = {l. in_window start en l \<and> l \<in> logical_of ` dom m}"
    using assms(6) holds_ok_key [OF h]
    by (intro visible_window [OF holds_finite [OF h] holds_ok_key [OF h] assms(5)]) (auto simp: separated_def window_logical)
  then show "(\<exists>ls. visible_rows (set chain) mk None False raw = visible_list mk m chain ls
      \<and> distinct ls \<and> set ls = {l. in_window start en l \<and> l \<in> logical_of ` dom m})
     \<and> stored D t' m \<and> room n t' \<and> journal_of t' = journal_of t" using r by simp
qed

lemma visible_in_dom: "visible m l chain = Some (v, s) \<Longrightarrow> l \<in> logical_of ` dom m"
  using visible_snap [of m l chain v s] by (metis domI image_eqI sortable_parts(1))

lemma visible_list_rows:
  assumes "distinct ls" "set ls = {l. W l \<and> l \<in> logical_of ` dom m}"
  shows "distinct (map fst (visible_list (\<lambda>l s v. (l, s, v)) m chain ls))"
    and "(l, s, v) \<in> set (visible_list (\<lambda>l s v. (l, s, v)) m chain ls) \<longleftrightarrow> W l \<and> visible m l chain = Some (v, s)"
proof -
  have "distinct ls \<Longrightarrow> distinct (map fst (visible_list (\<lambda>l s v. (l, s, v)) m chain ls))"
  proof (induction ls)
    case (Cons l ls)
    then show ?case by (auto simp: visible_list_def emit_def split: option.splits)
  qed (simp add: visible_list_def)
  then show "distinct (map fst (visible_list (\<lambda>l s v. (l, s, v)) m chain ls))" using assms(1) .
  show "(l, s, v) \<in> set (visible_list (\<lambda>l s v. (l, s, v)) m chain ls) \<longleftrightarrow> W l \<and> visible m l chain = Some (v, s)"
    using assms(2) visible_in_dom [of m l chain v s] by (auto simp: visible_list_def emit_def split: option.splits)
qed

section \<open>Transactions\<close>

lemma transaction_script:
  assumes "stored D t m" "room (length xs + n) t" "\<forall>x \<in> set xs. op_ok x"
  shows "\<exists>x'. forM xs (exec_op tx_insert_with_kind tx_delete_at) \<lparr>tx_btree = t, pending_root = root_block t\<rparr> = (Inr (), x')
     \<and> tx_stored D (root_block t) m x' (fold apply_op xs m) \<and> tx_room n x' \<and> tx_journal x' = logs (script_log xs m) (journal_of t)"
proof -
  let ?x = "\<lparr>tx_btree = t, pending_root = root_block t\<rparr>"
  have "tx_stored D (root_block t) m ?x m" "tx_room (length xs + n) ?x"
    using assms(1,2) by (simp_all add: tx_stored_def stored_def tx_room_def)
  from runs_result [OF scoped.script_law [OF this assms(3)]] show ?thesis by (auto simp: tx_journal_def)
qed

section \<open>Replay\<close>

lemma replay_record_runs:
  assumes "stored D t m" "room (Suc n) t" "length l \<le> 28" "lr_key r = l @ u32_be snap"
  shows "runs (replay_record r) t (\<lambda>_ t'. stored D t' (replay_map r m) \<and> room n t' \<and> journal_of t' = journal_of t)"
proof -
  let ?t = "t\<lparr>logging := False\<rparr>"
  have "stored D ?t m" "room (Suc n) ?t" using assms by (simp_all add: stored_def room_def)
  from runs_result [OF put_stored [OF this assms(3), of snap "lr_kind r" "lr_value r"]]
  obtain t' where t': "insert_with_kind l snap (lr_kind r) (lr_value r) ?t = (Inr (), t')"
    "stored D t' (put_map l snap (lr_kind r) (lr_value r) m)" "room n t'" "log t' = log t"
    by (auto simp: journal_of_def logs_def)
  have "replay_record r t = (Inr (), t'\<lparr>logging := logging t\<rparr>)"
    using assms(4) t'(1) by (simp add: replay_record_def Let_def without_logging_def word_bytes_roundtrip)
  then show ?thesis using t'(2-4) assms(4)
    by (simp add: runs_def stored_def room_def journal_of_def put_map_def replay_map_def)
qed

definition log_ok :: "log_record \<Rightarrow> bool" where
  "log_ok r = (\<exists>l snap. lr_key r = l @ u32_be snap \<and> length l \<le> 28)"

lemma replay_runs:
  "stored D t m \<Longrightarrow> room (length rs + n) t \<Longrightarrow> \<forall>r \<in> set rs. log_ok r \<Longrightarrow>
     runs (forM rs replay_record) t (\<lambda>_ t'. stored D t' (fold replay_map rs m) \<and> room n t' \<and> journal_of t' = journal_of t)"
proof (induction rs arbitrary: t m)
  case (Cons r rs)
  obtain l snap where r: "lr_key r = l @ u32_be snap" "length l \<le> 28" using Cons.prems(3) by (auto simp: log_ok_def)
  show ?case
    unfolding forM.simps runs_bind
  proof (rule runs_mono [OF replay_record_runs [of D t m "length rs + n", OF Cons.prems(1) _ r(2,1)]])
    show "room (Suc (length rs + n)) t" using Cons.prems(2) by simp
    fix u t' assume t': "stored D t' (replay_map r m) \<and> room (length rs + n) t' \<and> journal_of t' = journal_of t"
    then show "runs (forM rs replay_record) t' (\<lambda>_ t'. stored D t' (fold replay_map (r # rs) m) \<and> room n t' \<and> journal_of t' = journal_of t)"
      using Cons.prems(3) by (intro runs_mono [OF Cons.IH [of t' "replay_map r m"]]) auto
  qed
qed simp

lemma script_log_ok: "\<forall>x \<in> set xs. op_ok x \<Longrightarrow> (\<forall>r \<in> set (script_log xs m). log_ok r) \<and> length (script_log xs m) \<le> length xs"
proof (induction xs arbitrary: m)
  case (Cons x xs)
  have "(\<forall>r \<in> set (op_log x m). log_ok r) \<and> length (op_log x m) \<le> 1"
    using Cons.prems by (cases x) (auto simp: log_ok_def log_put_def split: option.splits)
  then show ?case using Cons.IH [of "apply_op x m"] Cons.prems by fastforce
qed simp

section \<open>The properties of the tree\<close>

text \<open>C1. Refinement: on a tree that stores the map \<open>m\<close>, \<open>insert_with_kind\<close> succeeds for every logical key
  of at most 28 bytes, whatever splits it causes, and leaves a tree that stores \<open>m\<close> updated at the
  versioned key with the kind and the first 96 bytes of the value; data blocks outside the tree keep
  their contents and the log gains exactly the record of the write.\<close>

theorem insert_refines_map:
  assumes "stored D t m" "room (Suc n) t" "length l \<le> 28"
  shows "\<exists>t'. insert_with_kind l snap kd v t = (Inr (), t') \<and> stored D t' (m(l @ u32_be snap \<mapsto> (kd, take 96 v))) \<and> room n t'
     \<and> log t' = (if logging t then log t @ [\<lparr>lr_key = l @ u32_be snap, lr_kind = kd, lr_value = v\<rparr>] else log t)"
  using runs_result [OF put_stored [OF assms, of snap kd v]] by (auto simp: put_map_def journal_of_def logs_def log_put_def)

theorem insert_refines_map_witness:
  "\<exists>t t'. btree_new (\<lambda>_. 7) = Some t \<and> insert_with_kind [1, 2] ROOT_SNAP Live [9] t = (Inr (), t')
     \<and> stored Map.empty t' [[1, 2] @ u32_be ROOT_SNAP \<mapsto> (Live, [9])]"
proof -
  obtain t where t: "btree_new (\<lambda>_. 7) = Some t" "stored Map.empty t Map.empty" "room (Suc 0) t" using fresh_sample by force
  show ?thesis using insert_refines_map [OF t(2,3), of "[1, 2]" ROOT_SNAP Live "[9]"] t(1) by auto
qed

text \<open>C10. End to end from an empty tree: a script of up to \<open>2 ^ 44\<close> insertions and snapshot-aware
  deletions runs to the end, and afterwards \<open>find_visible_with_snap\<close> answers, for every key and every
  ascending chain, what the abstract map says.\<close>

theorem script_then_lookup:
  assumes "length xs \<le> 2 ^ 44" "\<forall>x \<in> set xs. op_ok x" "length l \<le> 28" "sorted_keys chain"
  shows "\<exists>t t' t''. btree_new crc = Some t \<and> forM xs (exec_op insert_with_kind delete_at) t = (Inr (), t')
     \<and> btree_find_visible_with_snap l chain t' = (Inr (visible (fold apply_op xs Map.empty) l chain), t'')"
proof -
  obtain t where t: "btree_new crc = Some t" "stored Map.empty t Map.empty" "room (length xs + 0) t" using fresh_ok [OF assms(1)] by auto
  obtain t' where t': "forM xs (exec_op insert_with_kind delete_at) t = (Inr (), t')"
    "stored Map.empty t' (fold apply_op xs Map.empty)" "room 0 t'"
    using runs_result [OF direct.script_law [OF t(2,3) assms(2)]] by auto
  show ?thesis using runs_result [OF look_stored [OF t'(2,3) assms(3,4)]] t(1) t'(1) by auto
qed

theorem script_then_lookup_witness:
  "\<exists>t t' t''. btree_new (\<lambda>_. 7) = Some t
     \<and> forM [KPut [1] 9 Live [5], KPut [2] 9 Live [6], KDel [1] 8 [8, 9]] (exec_op insert_with_kind delete_at) t = (Inr (), t')
     \<and> btree_find_visible_with_snap [2] [8, 9] t' = (Inr (Some ([6], 9)), t'')"
proof -
  let ?xs = "[KPut [1] 9 Live [5], KPut [2] 9 Live [6], KDel [1] 8 [8, 9]]"
  have "\<forall>x \<in> set ?xs. op_ok x" by simp
  moreover have "visible (fold apply_op ?xs Map.empty) [2] [8, 9] = Some ([6], 9)"
    by (simp add: delete_map_def put_map_def sortable_inj)
  ultimately show ?thesis using script_then_lookup [of ?xs "[2]" "[8, 9]" "\<lambda>_. 7"] by auto
qed

text \<open>C2. A committed transaction applies its whole script: the tree afterwards stores the map with all
  operations applied, and the log has grown by exactly the records of the script, in order.\<close>

theorem transaction_commits:
  assumes "stored D t m" "room (length xs + n) t" "\<forall>x \<in> set xs. op_ok x" "logging t"
  shows "\<exists>t'. transaction (forM xs (exec_op tx_insert_with_kind tx_delete_at)) t = (Inr (), t')
     \<and> stored D t' (fold apply_op xs m) \<and> room n t' \<and> log t' = log t @ script_log xs m"
proof -
  obtain x' where x: "forM xs (exec_op tx_insert_with_kind tx_delete_at) \<lparr>tx_btree = t, pending_root = root_block t\<rparr> = (Inr (), x')"
    "tx_stored D (root_block t) m x' (fold apply_op xs m)" "tx_room n x'" "tx_journal x' = logs (script_log xs m) (journal_of t)"
    using transaction_script [OF assms(1-3)] by auto
  then show ?thesis
    using assms(4) by (auto simp: transaction_def Let_def tx_stored_def stored_def tx_room_def room_def tx_journal_def journal_of_def logs_def)
qed

theorem transaction_commits_witness:
  "\<exists>t t'. btree_new (\<lambda>_. 7) = Some t
     \<and> transaction (forM [KPut [1] 9 Live [5], KDel [1] 9 [9]] (exec_op tx_insert_with_kind tx_delete_at)) t = (Inr (), t')
     \<and> stored Map.empty t' [[1] @ u32_be 9 \<mapsto> (Deleted, [5])]"
proof -
  let ?xs = "[KPut [1] 9 Live [5], KDel [1] 9 [9]]"
  obtain t where t: "btree_new (\<lambda>_. 7) = Some t" "stored Map.empty t Map.empty" "room (length ?xs + 0) t" "logging t"
    using fresh_sample by force
  have "fold apply_op ?xs Map.empty = [[1] @ u32_be 9 \<mapsto> (Deleted, [5])]"
    by (simp add: delete_map_def put_map_def mark_map_def)
  then show ?thesis using transaction_commits [OF t(2,3) _ t(4)] t(1) by auto
qed

text \<open>C3. An aborted transaction leaves no trace: when the closure ends with an error after any script of
  writes, the tree has the same root, stores the same map with the same data blocks, and the log is the
  one from before.\<close>

theorem transaction_aborts:
  assumes "stored D t m" "room (length xs + n) t" "\<forall>x \<in> set xs. op_ok x"
  shows "\<exists>t'. transaction (bindM (forM xs (exec_op tx_insert_with_kind tx_delete_at)) (\<lambda>_. raise (Err e))) t = (Inl (Err e), t')
     \<and> stored D t' m \<and> room n t' \<and> root_block t' = root_block t \<and> log t' = log t \<and> logging t' = logging t"
proof -
  obtain x' where x: "forM xs (exec_op tx_insert_with_kind tx_delete_at) \<lparr>tx_btree = t, pending_root = root_block t\<rparr> = (Inr (), x')"
    "tx_stored D (root_block t) m x' (fold apply_op xs m)" "tx_room n x'" "tx_journal x' = logs (script_log xs m) (journal_of t)"
    using transaction_script [OF assms] by auto
  then show ?thesis
    by (auto simp: transaction_def Let_def bindM_Inr logs_def tx_stored_def stored_def tx_room_def room_def tx_journal_def journal_of_def)
qed

theorem transaction_aborts_witness:
  "\<exists>t t'. btree_new (\<lambda>_. 7) = Some t
     \<and> transaction (bindM (forM [KPut [1] 9 Live [5]] (exec_op tx_insert_with_kind tx_delete_at)) (\<lambda>_. raise (Err (BlockNotFound 3)))) t
         = (Inl (Err (BlockNotFound 3)), t')
     \<and> stored Map.empty t' Map.empty"
proof -
  let ?xs = "[KPut [1] 9 Live [5]]"
  obtain t where t: "btree_new (\<lambda>_. 7) = Some t" "stored Map.empty t Map.empty" "room (length ?xs + 0) t"
    using fresh_sample by force
  show ?thesis using transaction_aborts [OF t(2,3)] t(1) by auto
qed

text \<open>C9. Replay: the log that a script of direct writes leaves behind, replayed with \<open>replay_record\<close> on a
  tree that reads the same as the original did, gives a tree on which every lookup along every chain
  answers as on the written tree, and adds nothing to that tree's own log.\<close>

theorem replay_reproduces:
  assumes "stored D t m" "room (length xs + n) t" "\<forall>x \<in> set xs. op_ok x" "logging t" "log t = []"
    and "stored E u m'" "room (length xs + k) u" "erase m' = erase m"
  shows "\<exists>t' u' m''. forM xs (exec_op insert_with_kind delete_at) t = (Inr (), t')
     \<and> forM (log t') replay_record u = (Inr (), u') \<and> stored E u' m'' \<and> log u' = log u
     \<and> (\<forall>l chain. visible m'' l chain = visible (fold apply_op xs m) l chain)"
proof -
  obtain t' where t': "forM xs (exec_op insert_with_kind delete_at) t = (Inr (), t')" "log t' = script_log xs m"
    using runs_result [OF direct.script_law [OF assms(1-3)]] assms(4,5) by (auto simp: journal_of_def logs_def)
  have "room (length (script_log xs m) + 0) u" using room_le [OF assms(7)] script_log_ok [OF assms(3), of m] by auto
  from runs_result [OF replay_runs [OF assms(6) this]] script_log_ok [OF assms(3), of m]
  obtain u' where u': "forM (script_log xs m) replay_record u = (Inr (), u')" "stored E u' (fold replay_map (script_log xs m) m')"
    "log u' = log u" by (auto simp: journal_of_def)
  have "erase (fold replay_map (script_log xs m) m') = erase (fold apply_op xs m)"
    by (rule replay_script) (simp add: assms(8))
  from erase_visible [OF this] show ?thesis using t' u' by metis
qed

theorem replay_reproduces_witness:
  "\<exists>t t' u' m''. btree_new (\<lambda>_. 7) = Some t
     \<and> forM [KPut [1] 9 Live [5], KDel [1] 9 [9]] (exec_op insert_with_kind delete_at) t = (Inr (), t')
     \<and> forM (log t') replay_record t = (Inr (), u') \<and> stored Map.empty u' m'' \<and> visible m'' [1] [9] = None"
proof -
  let ?xs = "[KPut [1] 9 Live [5], KDel [1] 9 [9]]"
  obtain t where t: "btree_new (\<lambda>_. 7) = Some t" "stored Map.empty t Map.empty" "room (length ?xs + 0) t" "logging t" "log t = []"
    using fresh_sample by force
  have v: "visible (fold apply_op ?xs Map.empty) [1] [9] = None" by (simp add: delete_map_def put_map_def mark_map_def)
  have "\<forall>x \<in> set ?xs. op_ok x" by simp
  from replay_reproduces [OF t(2,3) this t(4,5) t(2,3) refl] v t(1) show ?thesis by metis
qed

text \<open>C11. Equivalence: \<open>find_visible_with_snap\<close>, which makes one ascending scan over the snapshots of the
  key and stops at the first on the chain, returns what the walk from the nearest snapshot to the
  farthest returns; it changes neither the stored map nor the data blocks.\<close>

theorem find_visible_is_chain_walk:
  assumes "stored D t m" "room n t" "length l \<le> 28" "sorted_keys chain"
  shows "\<exists>t'. btree_find_visible_with_snap l chain t = (Inr (visible m l chain), t') \<and> stored D t' m \<and> room n t' \<and> log t' = log t"
  using runs_result [OF look_stored [OF assms]] by (auto simp: journal_of_def)

theorem find_visible_is_chain_walk_witness:
  "\<exists>t t'. btree_new (\<lambda>_. 7) = Some t \<and> btree_find_visible_with_snap [1] [8, 9] t = (Inr None, t') \<and> stored Map.empty t' Map.empty"
proof -
  obtain t where t: "btree_new (\<lambda>_. 7) = Some t" "stored Map.empty t Map.empty" "room 0 t" using fresh_sample by force
  show ?thesis using find_visible_is_chain_walk [OF t(2,3), of "[1]" "[8, 9]"] t(1) by auto
qed

text \<open>C23. Exact lookup and scan over all versions: \<open>find_at\<close> returns the value of the live entry of the
  versioned key and nothing for a tombstone or an absent key; \<open>range_scan_all\<close> lists the entries between
  the two byte bounds, each once, in ascending key order.\<close>

theorem find_and_scan_read_map:
  assumes "stored D t m" "room n t" "length l \<le> 28" "length start \<le> 28" "length en \<le> 28"
  shows "\<exists>t' rows t''. find_at l snap t = (Inr (live (m (l @ u32_be snap))), t')
     \<and> btree_range_scan_all start en t' = (Inr rows, t'') \<and> stored D t'' m
     \<and> rows = map (row m) (sorted_list_of_set {k \<in> dom m. start @ replicate 4 0 \<le> k \<and> k < en @ replicate 4 0})"
proof -
  obtain t' where t': "find_at l snap t = (Inr (live (m (l @ u32_be snap))), t')" "stored D t' m" "room n t'"
    using runs_result [OF find_stored [OF assms(1-3), of snap]] by auto
  show ?thesis
    using runs_result [OF range_scan_all_stored [OF t'(2,3) assms(4,5)]] t'(1) by (auto simp: scan_rows_def keys_in_def)
qed

theorem find_and_scan_read_map_witness:
  "\<exists>t t' t'' t3. btree_new (\<lambda>_. 7) = Some t \<and> insert_with_kind [1] 9 Live [5] t = (Inr (), t')
     \<and> find_at [1] 9 t' = (Inr (Some [5]), t'') \<and> btree_range_scan_all [0] [3] t'' = (Inr [([1], 9, Live, [5])], t3)"
proof -
  obtain t where t: "btree_new (\<lambda>_. 7) = Some t" "stored Map.empty t Map.empty" "room (Suc 0) t" using fresh_sample by force
  let ?m = "[[1] @ u32_be 9 \<mapsto> (Live, [5])] :: kvmap"
  obtain t' where t': "insert_with_kind [1] 9 Live [5] t = (Inr (), t')" "stored Map.empty t' ?m" "room 0 t'"
    using runs_result [OF put_stored [OF t(2,3), of "[1]" 9 Live "[5]"]] by (auto simp: put_map_def)
  have "{k \<in> dom ?m. [0] @ replicate 4 0 \<le> k \<and> k < [3] @ replicate 4 0} = {[1] @ u32_be 9}" by (auto simp: word_less_nat_alt)
  then have "map (row ?m) (sorted_list_of_set {k \<in> dom ?m. [0] @ replicate 4 0 \<le> k \<and> k < [3] @ replicate 4 0}) = [([1], 9, Live, [5])]"
    using sortable_parts [of "[1]" 9] by (simp add: row_def)
  then show ?thesis
    using find_and_scan_read_map [OF t'(2,3), of "[1]" "[0]" "[3]" 9] t(1) t'(1) by (auto simp: live_simps)
qed

text \<open>C12. Visible range scans: when the snapshot suffixes and the extra bytes of longer keys cannot be
  confused (\<open>separated\<close>), \<open>range_scan_visible_with_snap\<close> lists each logical key of the window at most once,
  and it lists exactly those that the chain walk sees, with the value and the snapshot it sees.\<close>

theorem range_scan_visible_exact:
  assumes "stored D t m" "room n t" "length start \<le> 28" "length en \<le> 28" "sorted_keys chain" "separated m start en"
  shows "\<exists>rows t'. range_scan_visible_with_snap start en chain t = (Inr rows, t') \<and> stored D t' m \<and> distinct (map fst rows)
     \<and> (\<forall>l s v. (l, s, v) \<in> set rows \<longleftrightarrow> in_window start en l \<and> visible m l chain = Some (v, s))"
proof -
  from runs_result [OF visible_scan_stored [OF assms, of "\<lambda>l s v. (l, s, v)"]]
  obtain raw t' ls where r: "btree_range_scan_all start en t = (Inr raw, t')" "stored D t' m"
    "visible_rows (set chain) (\<lambda>l s v. (l, s, v)) None False raw = visible_list (\<lambda>l s v. (l, s, v)) m chain ls"
    "distinct ls" "set ls = {l. in_window start en l \<and> l \<in> logical_of ` dom m}"
    by auto
  have "range_scan_visible_with_snap start en chain t = (Inr (visible_list (\<lambda>l s v. (l, s, v)) m chain ls), t')"
    by (simp add: range_scan_visible_with_snap_def bindM_Inr r(1) r(3))
  then show ?thesis using visible_list_rows [OF r(4,5), where chain = chain] r(2) by blast
qed

theorem range_scan_visible_exact_witness:
  "\<exists>t t' rows t''. btree_new (\<lambda>_. 7) = Some t \<and> insert_with_kind [1, 4] 9 Live [5] t = (Inr (), t')
     \<and> range_scan_visible_with_snap [1] [2] [8, 9] t' = (Inr rows, t'') \<and> ([1, 4], 9, [5]) \<in> set rows"
proof -
  obtain t where t: "btree_new (\<lambda>_. 7) = Some t" "stored Map.empty t Map.empty" "room (Suc 0) t" using fresh_sample by force
  let ?m = "[[1, 4] @ u32_be 9 \<mapsto> (Live, [5])] :: kvmap"
  obtain t' where t': "insert_with_kind [1, 4] 9 Live [5] t = (Inr (), t')" "stored Map.empty t' ?m" "room 0 t'"
    using runs_result [OF put_stored [OF t(2,3), of "[1, 4]" 9 Live "[5]"]] by (auto simp: put_map_def)
  have l: "logical_of ([1, 4] @ u32_be 9) = [1, 4]" by (rule sortable_parts)
  have "separated ?m [1] [2]" using l by (auto simp: separated_def apart_def strict_prefix_def prefix_def)
  moreover have "in_window [1] [2] [1, 4]" by (simp add: in_window_def)
  moreover have "visible ?m [1, 4] [8, 9] = Some ([5], 9)" using sortable_inj [of "[1, 4]" 8 "[1, 4]" 9] by simp
  moreover have "sorted_keys [8, 9 :: u32]" by simp
  ultimately show ?thesis using range_scan_visible_exact [OF t'(2,3), of "[1]" "[2]" "[8, 9]"] t(1) t'(1) by fastforce
qed

text \<open>C13. Deletion: \<open>delete_at\<close> at the newest snapshot of the chain reports whether the key was visible; the
  key is then invisible along that chain, every other logical key reads as before along every chain,
  and every chain without that snapshot (a reader of another snapshot) reads the key as before.\<close>

theorem delete_hides_key:
  assumes "stored D t m" "room (Suc n) t" "length l \<le> 28" "sorted_keys (snap # ss)"
  shows "\<exists>t' m'. delete_at l snap (snap # ss) t = (Inr (visible m l (snap # ss) \<noteq> None), t') \<and> stored D t' m' \<and> room n t'
     \<and> visible m' l (snap # ss) = None
     \<and> (\<forall>l' chain. l' \<noteq> l \<or> snap \<notin> set chain \<longrightarrow> visible m' l' chain = visible m l' chain)"
  using runs_result [OF direct.del_law [OF assms, of snap]] visible_delete_head [of l snap ss m]
    visible_delete_other [of _ l snap _ "snap # ss" m] by blast

theorem delete_hides_key_witness:
  "\<exists>t t1 t2 m'. btree_new (\<lambda>_. 7) = Some t \<and> insert_with_kind [1] 9 Live [5] t = (Inr (), t1)
     \<and> delete_at [1] 8 [8, 9] t1 = (Inr True, t2) \<and> stored Map.empty t2 m'
     \<and> visible m' [1] [8, 9] = None \<and> visible m' [1] [9] = Some ([5], 9)"
proof -
  obtain t where t: "btree_new (\<lambda>_. 7) = Some t" "stored Map.empty t Map.empty" "room (Suc (Suc 0)) t" using fresh_sample by force
  let ?m = "put_map [1] 9 Live [5] Map.empty"
  obtain t1 where t1: "insert_with_kind [1] 9 Live [5] t = (Inr (), t1)" "stored Map.empty t1 ?m" "room (Suc 0) t1"
    using runs_result [OF put_stored [OF t(2,3), of "[1]" 9 Live "[5]"]] by auto
  have v: "visible ?m [1] [8, 9] = Some ([5], 9)" "visible ?m [1] [9] = Some ([5], 9)" by (simp_all add: put_map_def sortable_inj)
  have p: "length [1 :: u8] \<le> 28" "sorted_keys [8, 9 :: u32]" "(8 :: u32) \<notin> set [9]" by simp_all
  obtain t2 m' where t2: "delete_at [1] 8 [8, 9] t1 = (Inr True, t2)" "stored Map.empty t2 m'" "visible m' [1] [8, 9] = None"
    "visible m' [1] [9] = visible ?m [1] [9]"
    using delete_hides_key [OF t1(2,3) p(1,2)] p(3) unfolding v(1) by (auto simp del: visible.simps)
  show ?thesis using t(1) t1(1) t2 unfolding v(2) by blast
qed

text \<open>C14. Copy on write: a write through a transaction's root produces a new root that stores the updated
  map, while the old root and every other root in the store still stores its map; nothing that was
  allocated is overwritten.\<close>

theorem cow_keeps_old_roots:
  assumes "volume c r m D" "ok_key k" "sane (OP_COST + n) c"
  shows "\<exists>r' c'. insert_rec TREE_FUEL k v kd Cow r c = (Inr r', c') \<and> volume c' r' (m(k \<mapsto> (kd, take 96 v))) D
     \<and> (\<forall>r0 m0 D0. volume c r0 m0 D0 \<longrightarrow> volume c' r0 m0 D0)
     \<and> (\<forall>b \<in> allocated (store c). \<forall>x. node_at (store c) b = Some x \<longrightarrow> node_at (store c') b = Some x)"
proof -
  have ok: "alloc_ok (store c)" using assms(3) by (simp add: sane_def)
  obtain r' c' where c: "insert_rec TREE_FUEL k v kd Cow r c = (Inr r', c')" "volume c' r' (m(k \<mapsto> (kd, take 96 v))) D"
    "evolves {} OP_COST c c'"
    using runs_result [OF volume_insert [OF assms, of v kd Cow]] by auto
  show ?thesis using c(1,2) volume_frame [OF _ c(3) ok] evolves_node [OF c(3) ok] by blast
qed

theorem cow_keeps_old_roots_witness:
  "\<exists>t r' c'. btree_new (\<lambda>_. 7) = Some t
     \<and> insert_rec TREE_FUEL ([1] @ u32_be 9) [5] Live Cow (root_block t) (ctx t) = (Inr r', c')
     \<and> volume c' r' [[1] @ u32_be 9 \<mapsto> (Live, [5])] Map.empty \<and> volume c' (root_block t) Map.empty Map.empty"
proof -
  obtain t where t: "btree_new (\<lambda>_. 7) = Some t" "stored Map.empty t Map.empty" "room (Suc 0) t" using fresh_sample by force
  then have v: "volume (ctx t) (root_block t) Map.empty Map.empty" "sane (OP_COST + 0) (ctx t)" by (simp_all add: stored_def room_def)
  have "ok_key ([1] @ u32_be 9)" by (rule ok_sortable) simp
  from cow_keeps_old_roots [OF v(1) this v(2), of "[5]" Live] v(1) t(1) show ?thesis by auto
qed

end
