(* ===== verification/Tree_Depth.thy ===== *)
theory Tree_Depth
  imports Transactions
begin

text \<open>
  The recursion depth of the tree walks.  The source recurses from the root to a leaf without a bound; the model gives
  each walk a number of nested calls.  \<open>agrees\<close> orders computations by how often they run out of it, more nested
  calls only ever replace running out by a result, and on the tree of a stored map 54 of them are enough: with that
  many or more every walk returns the same result.
\<close>

section \<open>Running out of nested calls\<close>

definition agrees :: "('s, 'e, 'a) st \<Rightarrow> ('s, 'e, 'a) st \<Rightarrow> bool" where
  "agrees m m' = (\<forall>s. fst (m s) \<noteq> Inl Diverge \<longrightarrow> m' s = m s)"

named_theorems agrees_intros

lemma agrees_refl [agrees_intros]: "agrees m m"
  by (simp add: agrees_def)

lemma agrees_raise [simp]: "agrees (raise Diverge) m"
  by (simp add: agrees_def raise_def)

lemma agrees_bind [agrees_intros]:
  assumes "agrees m m'" "\<And>x. agrees (f x) (f' x)"
  shows "agrees (bindM m f) (bindM m' f')"
  unfolding agrees_def
proof (intro allI impI)
  fix s assume d: "fst (bindM m f s) \<noteq> Inl Diverge"
  then have "fst (m s) \<noteq> Inl Diverge" by (auto simp: bindM_def split: prod.splits sum.splits)
  then have "m' s = m s" using assms(1) by (simp add: agrees_def)
  then show "bindM m' f' s = bindM m f s"
    using d assms(2) by (auto simp: bindM_def agrees_def split: prod.splits sum.splits)
qed

lemma agrees_if [agrees_intros]: "agrees a a' \<Longrightarrow> agrees b b' \<Longrightarrow> agrees (if P then a else b) (if P then a' else b')"
  by simp

lemma agrees_mode [agrees_intros]:
  "agrees a a' \<Longrightarrow> agrees b b' \<Longrightarrow> agrees (case w of InPlace \<Rightarrow> a | Cow \<Rightarrow> b) (case w of InPlace \<Rightarrow> a' | Cow \<Rightarrow> b')"
  by (cases w) simp_all

lemma agrees_option [agrees_intros]:
  "agrees a a' \<Longrightarrow> (\<And>x. agrees (b x) (b' x)) \<Longrightarrow> agrees (case w of None \<Rightarrow> a | Some x \<Rightarrow> b x) (case w of None \<Rightarrow> a' | Some x \<Rightarrow> b' x)"
  by (cases w) simp_all

lemma agrees_prod [agrees_intros]:
  "(\<And>x y. agrees (a x y) (a' x y)) \<Longrightarrow> agrees (case w of (x, y) \<Rightarrow> a x y) (case w of (x, y) \<Rightarrow> a' x y)"
  by (cases w) simp

lemma agrees_run_plan [agrees_intros]:
  assumes "\<And>c. agrees (scan c) (scan' c)"
  shows "agrees (run_plan scan en plan) (run_plan scan' en plan)"
proof (induction plan)
  case (Cons p plan)
  show ?case using Cons.IH assms by (cases p) (simp, intro agrees_intros)
qed (simp add: agrees_refl)

lemma agrees_insert_leaf [agrees_intros]:
  "(\<And>b. agrees (ins b) (ins' b)) \<Longrightarrow> agrees (insert_leaf ins block_nr key val kind mode) (insert_leaf ins' block_nr key val kind mode)"
  unfolding insert_leaf_def Let_def by (intro agrees_intros)

lemma agrees_insert_internal [agrees_intros]:
  "(\<And>b. agrees (ins b) (ins' b)) \<Longrightarrow> agrees (insert_internal ins block_nr key) (insert_internal ins' block_nr key)"
  unfolding insert_internal_def Let_def by (intro agrees_intros)

section \<open>More nested calls change no result\<close>

lemma find_raw_agrees: "fuel \<le> fuel' \<Longrightarrow> agrees (find_raw fuel b k) (find_raw fuel' b k)"
proof (induction fuel arbitrary: fuel' b)
  case (Suc fuel)
  then show ?case by (cases fuel') (simp_all, intro agrees_intros, simp)
qed simp

lemma range_scan_all_agrees: "fuel \<le> fuel' \<Longrightarrow> agrees (range_scan_all fuel b start en) (range_scan_all fuel' b start en)"
proof (induction fuel arbitrary: fuel' b)
  case (Suc fuel)
  then show ?case by (cases fuel') (simp_all, intro agrees_intros, simp)
qed simp

lemma flip_agrees: "fuel \<le> fuel' \<Longrightarrow> agrees (flip_kind_in_place fuel b k nk mode) (flip_kind_in_place fuel' b k nk mode)"
proof (induction fuel arbitrary: fuel' b)
  case (Suc fuel)
  then show ?case by (cases fuel') (simp_all, intro agrees_intros, simp)
qed simp

lemma insert_agrees: "fuel \<le> fuel' \<Longrightarrow> agrees (insert_rec fuel k v kind mode b) (insert_rec fuel' k v kind mode b)"
proof (induction fuel arbitrary: fuel' b)
  case (Suc fuel)
  then show ?case by (cases fuel') (simp_all, intro agrees_intros, simp)
qed simp

text \<open>A walk that returns with 54 nested calls returns the same with every larger number, in particular with the
  number the model uses.\<close>

lemma enough:
  assumes a: "\<And>fuel fuel'. fuel \<le> fuel' \<Longrightarrow> agrees (W fuel) (W fuel')" and r: "runs (W 54) c P" and q: "runs (W TREE_FUEL) c Q"
  shows "\<exists>r c'. (\<forall>fuel \<ge> 54. W fuel c = (Inr r, c')) \<and> Q r c'"
proof -
  obtain r c' where rc: "W 54 c = (Inr r, c')" using runs_result [OF r] by blast
  have eq: "W fuel c = (Inr r, c')" if "54 \<le> fuel" for fuel using a [OF that] rc by (simp add: agrees_def)
  moreover have "Q r c'" using q eq [of TREE_FUEL] by (simp add: runs_def TREE_FUEL_def)
  ultimately show ?thesis by blast
qed

section \<open>Property\<close>

text \<open>C24. Depth: the tree of a stored map has at most 53 levels, since every level doubles the number of blocks and block
  numbers stay below \<open>2 ^ 52\<close>.  So lookup, scan, insertion and change of kind return, and whatever number of nested
  calls they are allowed, from 54 on they return the same: the value and the rows of the map, and a tree
  that stores the updated map.  The bound of the model is never what ends a walk.\<close>

theorem walk_depth:
  assumes "stored D t m" "room 1 t" "ok_key k"
  shows "(\<exists>nd. node_at (store (ctx t)) (root_block t) = Some nd \<and> unat (level nd) \<le> 52)
    \<and> (\<exists>c'. \<forall>fuel \<ge> 54. find_raw fuel (root_block t) k (ctx t) = (Inr (map_option prod.swap (m k)), c'))
    \<and> (\<exists>c'. \<forall>fuel \<ge> 54. range_scan_all fuel (root_block t) start en (ctx t) = (Inr (scan_rows m start en), c'))
    \<and> (\<exists>r' c'. (\<forall>fuel \<ge> 54. insert_rec fuel k v kind mode (root_block t) (ctx t) = (Inr r', c')) \<and> volume c' r' (m(k \<mapsto> (kind, take 96 v))) D)
    \<and> (\<forall>kd v'. m k = Some (kd, v') \<longrightarrow> nk \<noteq> Whiteout \<longrightarrow>
        (\<exists>r' c'. (\<forall>fuel \<ge> 54. flip_kind_in_place fuel (root_block t) k nk mode (ctx t) = (Inr r', c')) \<and> volume c' r' (m(k \<mapsto> (nk, v'))) D))"
proof -
  let ?c = "ctx t" let ?r = "root_block t"
  have v: "volume ?c ?r m D" using assms(1) by (simp add: stored_def)
  have sane: "sane (OP_COST + 0) ?c" and ok: "alloc_ok (store ?c)" using assms(2) by (simp_all add: room_def sane_def)
  obtain B where h: "holds ?c ?r B m" using v by (auto simp: volume_def)
  obtain L a where a: "blk a = ?r" "tree_ok ?c L None None a" "tree_view (cont a) = m" using holdsE [OF h] by metis
  have L: "L \<le> 52" using height_bound [OF a(2) ok] .
  have tr: "rep (store ?c) L a" "wf_tree (next_bset_seq ?c) None None a" using a(2) by (simp_all add: tree_ok_def)
  have cost: "ins_cost L \<le> OP_COST" "Suc L \<le> OP_COST" using L by (simp_all add: ins_cost_def OP_COST_def)
  obtain e where e: "build_leaf_entry k kind v = Some e" using build_leaf_entry_ok [OF assms(3), of kind v] by metis
  have find: "\<exists>res c'. (\<forall>fuel \<ge> 54. find_raw fuel ?r k ?c = (Inr res, c')) \<and> (res = map_option prod.swap (m k) \<and> quiet ?c c')"
    using find_raw_ok [OF tr, of 54 k] L a(1) by (intro enough find_raw_agrees find_raw_holds [OF h ok]) simp_all
  have scan: "\<exists>res c'. (\<forall>fuel \<ge> 54. range_scan_all fuel ?r start en ?c = (Inr res, c')) \<and> (res = scan_rows m start en \<and> quiet ?c c')"
    using range_scan_all_ok [OF tr, of 54 start en] L a(1) by (intro enough range_scan_all_agrees range_scan_all_holds [OF h ok]) simp_all
  have ins: "\<exists>r' c'. (\<forall>fuel \<ge> 54. insert_rec fuel k v kind mode ?r ?c = (Inr r', c'))
      \<and> (volume c' r' (m(k \<mapsto> (kind, take 96 v))) D \<and> sane 0 c' \<and> (\<exists>B. evolves (touched mode B) OP_COST ?c c'))"
    using insert_rec_ok [OF a(2) _ assms(3) e, of 54 mode] L a(1) cost(1) sane_le [OF sane]
    by (intro enough insert_agrees volume_insert [OF v assms(3) sane]) (simp_all add: within_def)
  have flip: "\<exists>r' c'. (\<forall>fuel \<ge> 54. flip_kind_in_place fuel ?r k nk mode ?c = (Inr r', c'))
      \<and> (volume c' r' (m(k \<mapsto> (nk, v'))) D \<and> sane 0 c' \<and> (\<exists>B. evolves (touched mode B) OP_COST ?c c'))"
    if k: "m k = Some (kd, v')" "nk \<noteq> Whiteout" for kd v'
  proof -
    obtain e' where "cont a k = Some e'" using k(1) a(3) by (auto simp: tree_view_def)
    from flip_ok [OF a(2) this k(2), of 54 mode] show ?thesis
      using L a(1) cost(2) sane_le [OF sane] by (intro enough flip_agrees volume_flip [OF v k sane]) simp_all
  qed
  have "\<exists>nd. node_at (store ?c) ?r = Some nd \<and> unat (level nd) \<le> 52"
    using tr(1) a(1) L by (cases a) (auto simp: unat_of_nat_small)
  then show ?thesis using find scan ins flip by blast
qed

theorem walk_depth_witness:
  "\<exists>t c' r c''. btree_new (\<lambda>_. 7) = Some t \<and> find_raw 54 (root_block t) [1, 0, 0, 0, 9] (ctx t) = (Inr None, c')
     \<and> find_raw 1000 (root_block t) [1, 0, 0, 0, 9] (ctx t) = (Inr None, c')
     \<and> insert_rec 54 [1, 0, 0, 0, 9] [5] Live InPlace (root_block t) (ctx t) = (Inr r, c'')
     \<and> insert_rec 1000 [1, 0, 0, 0, 9] [5] Live InPlace (root_block t) (ctx t) = (Inr r, c'')"
proof -
  obtain t where t: "btree_new (\<lambda>_. 7) = Some t" "stored Map.empty t Map.empty" "room 1 t" using fresh_sample by force
  have "ok_key [1, 0, 0, 0, 9]" by (simp add: ok_key_def)
  from walk_depth [OF t(2,3) this, of "[]" "[]" "[5]" Live InPlace Live] t(1) show ?thesis by fastforce
qed

end
