(* ===== verification/Checkpoint.thy ===== *)
theory Checkpoint
  imports Btree_Api
begin

text \<open>
  Checkpoints.  The flush walk moves every node that was edited in place to a fresh block and leaves the
  clean ones where they are; afterwards the device alone, without the caches, holds the tree.
\<close>

section \<open>What the device holds\<close>

definition cold :: "block_store \<Rightarrow> block_store" where
  "cold s = s\<lparr>node_cache := Map.empty, data_cache := Map.empty\<rparr>"

lemma node_at_cold: "node_at (cold s) b = (case fetch_node b s of Inr n \<Rightarrow> Some n | Inl _ \<Rightarrow> None)"
  using fetch_node_cong [of "cold s" s b] by (simp add: node_at_def cold_def)

lemma data_at_cold: "data_at (cold s) b = dev_block (device s) b"
  by (simp add: data_at_def cold_def dev_block_def split: sum.splits)

text \<open>The walk reaches every node that is not on the device: a clean cached node is, below a node that is
  not cached everything is.\<close>

fun backed :: "block_store \<Rightarrow> nat \<Rightarrow> atree \<Rightarrow> bool" where
  "backed s L (ALeaf b bs) = (is_dirty s b \<or> rep (cold s) L (ALeaf b bs))"
| "backed s L (ANode b ks ts) =
     (if node_cache s b = None then rep (cold s) L (ANode b ks ts)
      else (is_dirty s b \<or> (\<exists>n. node_at (cold s) b = Some n \<and> level n = of_nat L \<and> internal n ks (map blk ts)))
        \<and> (\<forall>t \<in> set ts. backed s (L - 1) t))"

lemma rep_backed: "rep (cold s) L t \<Longrightarrow> backed s L t"
  by (induction t arbitrary: L) auto

lemma backed_cong:
  assumes "\<And>b. b \<in> set (blocks t) \<Longrightarrow> is_dirty s' b = is_dirty s b"
    and "\<And>b. b \<in> set (blocks t) \<Longrightarrow> node_cache s b \<noteq> None \<Longrightarrow> node_cache s' b \<noteq> None"
    and "\<And>b n. b \<in> set (blocks t) \<Longrightarrow> node_at (cold s) b = Some n \<Longrightarrow> node_at (cold s') b = Some n"
  shows "backed s L t \<Longrightarrow> backed s' L t"
  using assms
proof (induction t arbitrary: L)
  case (ALeaf b bs)
  then show ?case by auto
next
  case (ANode b ks ts)
  have cold: "rep (cold s) L (ANode b ks ts) \<Longrightarrow> rep (cold s') L (ANode b ks ts)" by (erule rep_mono) (rule ANode.prems(4))
  show ?case
  proof (cases "node_cache s b")
    case None
    then show ?thesis using ANode.prems(1) by (intro rep_backed cold) simp
  next
    case (Some cn)
    have ch: "backed s' (L - 1) t" if t: "t \<in> set ts" for t
    proof (rule ANode.IH [OF t])
      have sub: "x \<in> set (blocks (ANode b ks ts))" if "x \<in> set (blocks t)" for x using that t by auto
      show "backed s (L - 1) t" using ANode.prems(1) Some t by simp
      show "x \<in> set (blocks t) \<Longrightarrow> is_dirty s' x = is_dirty s x"
        "x \<in> set (blocks t) \<Longrightarrow> node_cache s x \<noteq> None \<Longrightarrow> node_cache s' x \<noteq> None"
        "x \<in> set (blocks t) \<Longrightarrow> node_at (cold s) x = Some n \<Longrightarrow> node_at (cold s') x = Some n" for x n
        using ANode.prems(2-4) sub by blast+
    qed
    have b: "b \<in> set (blocks (ANode b ks ts))" by simp
    show ?thesis
      using ANode.prems(1) ANode.prems(2) [OF b] ANode.prems(3) [OF b] ANode.prems(4) [OF b] ch Some by auto
  qed
qed

text \<open>Steps that write to newly allocated blocks only.\<close>

definition lays :: "nat \<Rightarrow> block_store \<Rightarrow> block_store \<Rightarrow> bool" where
  "lays n s s' = (alloc_ok s' \<and> allocated s \<subseteq> allocated s' \<and> last_chain_blocks s' = last_chain_blocks s \<and> crc32 s' = crc32 s
     \<and> persistent s' = persistent s \<and> dev_kind (device s') = dev_kind (device s)
     \<and> unat (next_block_nr s') \<le> unat (next_block_nr s) + n
     \<and> (\<forall>b \<in> allocated s' - allocated s. b \<notin> set (last_chain_blocks s))
     \<and> (\<forall>b. b \<notin> allocated s' - allocated s \<longrightarrow> node_cache s' b = node_cache s b \<and> data_cache s' b = data_cache s b)
     \<and> (\<forall>b x. b \<notin> allocated s' - allocated s \<longrightarrow> blk_ok b \<longrightarrow> dev_block (device s) b = Some x \<longrightarrow> dev_block (device s') b = Some x)
     \<and> (\<forall>off len x. off + len \<le> 65 * 4096 \<longrightarrow> read_at len off (device s) = Inr x \<longrightarrow> read_at len off (device s') = Inr x))"

lemma lays_refl: "alloc_ok s \<Longrightarrow> lays n s s"
  by (simp add: lays_def)

lemma lays_le: "lays n s s' \<Longrightarrow> n \<le> m \<Longrightarrow> lays m s s'"
  by (simp add: lays_def)

lemma lays_trans:
  assumes "lays n s s'" "lays m s' s''"
  shows "lays (n + m) s s''"
proof -
  have sub: "allocated s \<subseteq> allocated s'" "allocated s' \<subseteq> allocated s''" using assms by (simp_all add: lays_def)
  have b: "b \<notin> allocated s' - allocated s" "b \<notin> allocated s'' - allocated s'" if "b \<notin> allocated s'' - allocated s" for b
    using that sub by auto
  show ?thesis unfolding lays_def
    using assms sub b unfolding lays_def by (auto; metis)
qed

lemma lays_fetch:
  assumes "lays n s s'" "b \<notin> allocated s' - allocated s" "blk_ok b" "fetch_node b s = Inr nd"
  shows "fetch_node b s' = Inr nd"
proof -
  obtain bs where r: "read_at 4096 (block_off b) (device s) = Inr bs"
    using assms(4) by (auto simp: fetch_node_def split: sum.splits)
  then have "dev_block (device s') b = Some bs" using assms(1-3) unfolding lays_def by (simp add: dev_block_def)
  then have "read_at 4096 (block_off b) (device s') = Inr bs" by (simp add: dev_block_def split: sum.splits)
  then show ?thesis using r assms(1,4) by (simp add: fetch_node_def Let_def lays_def)
qed

lemma lays_node_at:
  assumes "lays n s s'" "alloc_ok s" "b \<in> allocated s"
  shows "node_cache s' b = node_cache s b" "is_dirty s' b = is_dirty s b"
    "node_at (cold s) b = Some nd \<Longrightarrow> node_at (cold s') b = Some nd" "node_at s b = Some nd \<Longrightarrow> node_at s' b = Some nd"
proof -
  show c: "node_cache s' b = node_cache s b" using assms by (auto simp: lays_def)
  then show "is_dirty s' b = is_dirty s b" by (simp add: is_dirty_def)
  have f: "fetch_node b s = Inr nd \<Longrightarrow> fetch_node b s' = Inr nd" for nd
    using lays_fetch [OF assms(1) _ allocated_blk_ok [OF assms(2,3)]] assms(3) by simp
  show "node_at (cold s) b = Some nd \<Longrightarrow> node_at (cold s') b = Some nd"
    using f by (auto simp: node_at_cold split: sum.splits)
  show "node_at s b = Some nd \<Longrightarrow> node_at s' b = Some nd"
    using f c by (auto simp: node_at_def split: sum.splits option.splits)
qed

lemma lays_rep:
  assumes "lays n s s'" "alloc_ok s" "set (blocks t) \<subseteq> allocated s"
  shows "rep s L t \<Longrightarrow> rep s' L t" "rep (cold s) L t \<Longrightarrow> rep (cold s') L t"
  using lays_node_at(3,4) [OF assms(1,2)] assms(3) by (auto elim!: rep_mono)

lemma lays_backed:
  assumes "lays n s s'" "alloc_ok s" "set (blocks t) \<subseteq> allocated s" "backed s L t"
  shows "backed s' L t"
  by (rule backed_cong [OF _ _ _ assms(4)]) (use lays_node_at [OF assms(1,2)] assms(3) in auto)

section \<open>The flush walk\<close>

text \<open>Moving a node: a fresh block gets the stamped node and nothing else changes.\<close>

lemma relocate_ok:
  assumes ok: "alloc_ok s" and room: "unat (next_block_nr s) < 2 ^ 52" and nd: "sized_node nd"
  obtains nr s1 s' where "alloc s = (Inr nr, s1)" "write_node nr nd s1 = (Inr (), s')" "lays 1 s s'"
    "nr \<notin> allocated s" "allocated s' = insert nr (allocated s)" "node_at (cold s') nr = Some (stamped s nd)"
    "node_at s' nr = Some (stamped s nd)"
proof -
  obtain nr s1 where a: "alloc s = (Inr nr, s1)" "nr \<notin> allocated s" "allocated s1 = insert nr (allocated s)"
    "alloc_ok s1" "blk_ok nr" "65 \<le> nr" "nr \<notin> set (last_chain_blocks s)"
    "node_cache s1 = node_cache s" "data_cache s1 = data_cache s" "device s1 = device s"
    "last_chain_blocks s1 = last_chain_blocks s" "persistent s1 = persistent s" "crc32 s1 = crc32 s"
    "unat (next_block_nr s1) \<le> unat (next_block_nr s) + 1"
    using alloc_fresh [OF ok room] by metis
  obtain s' where w: "write_node nr nd s1 = (Inr (), s')" "kept {nr} s1 s'" "fetch_node nr s' = Inr (stamped s1 nd)"
    "next_block_nr s' = next_block_nr s1" "free_list s' = free_list s1" "last_chain_blocks s' = last_chain_blocks s1"
    "data_cache s' = data_cache s1" "node_cache s' = (node_cache s1)(nr \<mapsto> \<lparr>cn_node = stamped s1 nd, cn_dirty = False\<rparr>)"
    "device s' = write_at (node_bytes (stamped s1 nd)) (block_off nr) (device s1)"
    using write_node_ok [OF a(5) nd, of s1] by metis
  have al: "allocated s' = allocated s1" "alloc_ok s'" using w(4-6) a(4) by (simp_all add: allocated_def alloc_ok_def)
  have len: "length (node_bytes (stamped s1 nd)) = 4096" using nd by simp
  have st: "stamped s1 nd = stamped s nd" by (simp add: stamped_def a(13))
  have dev: "dev_block (device s') b = Some x" if "b \<noteq> nr" "blk_ok b" "dev_block (device s) b = Some x" for b x
    using read_block_write [OF a(5) that(2,1) len] that(3) by (auto simp: w(9) a(10) dev_block_def split: sum.splits)
  have "65 * 4096 \<le> block_off nr" using block_off_eq [OF a(5)] a(6) by (simp add: word_le_nat_alt)
  then have low: "read_at len off (device s') = Inr x" if "off + len \<le> 65 * 4096" "read_at len off (device s) = Inr x" for off len x
    using that read_write_disjoint [of off len "block_off nr" "node_bytes (stamped s1 nd)" "device s" x] by (simp add: w(9) a(10))
  have new: "allocated s' - allocated s = {nr}" using a(2,3) al(1) by auto
  have crc: "crc32 s' = crc32 s" "persistent s' = persistent s" using w(2) a(12,13) by (simp_all add: kept_def)
  have "lays 1 s s'" unfolding lays_def new
    using a(3,7-11,14) al w(4,6-9) crc low by (intro conjI allI impI dev) auto
  moreover have "node_at s' nr = Some (stamped s nd)" by (simp add: node_at_def w(8) st)
  ultimately show thesis using a w al st by (intro that [of nr s1 s']) (simp_all add: node_at_cold)
qed

text \<open>The same tree on other blocks.\<close>

fun alike :: "atree \<Rightarrow> atree \<Rightarrow> bool" where
  "alike (ALeaf b bs) (ALeaf b' bs') = (bs = bs')"
| "alike (ANode b ks ts) (ANode b' ks' ts') = (ks = ks' \<and> length ts = length ts' \<and> (\<forall>i < length ts. alike (ts ! i) (ts' ! i)))"
| "alike _ _ = False"

lemma alike_refl: "alike t t"
  by (induction t) auto

lemma alike_cont: "alike t t' \<Longrightarrow> cont t' = cont t"
proof (induction t arbitrary: t')
  case (ALeaf b bs)
  then show ?case by (cases t') (auto intro!: ext)
next
  case (ANode b ks ts)
  then obtain b' ts' where t': "t' = ANode b' ks ts'" "length ts = length ts'" "\<forall>i < length ts. alike (ts ! i) (ts' ! i)"
    by (cases t') auto
  have "cont (ts' ! i) = cont (ts ! i)" if "i < length ts" for i using ANode.IH [OF nth_mem [OF that]] t'(3) that by blast
  then show ?case using t'(1,2) by (auto simp: Let_def intro!: ext)
qed

lemma alike_wf: "alike t t' \<Longrightarrow> wf_tree q lo hi t \<Longrightarrow> wf_tree q lo hi t'"
proof (induction t arbitrary: t' lo hi)
  case (ALeaf b bs)
  then show ?case by (cases t') auto
next
  case (ANode b ks ts)
  then obtain b' ts' where t': "t' = ANode b' ks ts'" "length ts = length ts'" "\<forall>i < length ts. alike (ts ! i) (ts' ! i)"
    by (cases t') auto
  have "wf_tree q lo' hi' (ts' ! i)" if "i < length ts" "wf_tree q lo' hi' (ts ! i)" for i lo' hi'
    using ANode.IH [OF nth_mem [OF that(1)]] t'(3) that by blast
  then show ?case using t'(1,2) ANode.prems(2) by auto
qed

lemma set_children:
  assumes "slots n (ks @ [x]) cs" "length cs' = length cs"
  shows "slots (fold (\<lambda>(i, c) n. set_child_block i c n) (enumerate 0 cs') n) (ks @ [x]) cs'"
    "level (fold (\<lambda>(i, c) n. set_child_block i c n) (enumerate 0 cs') n) = level n"
proof -
  let ?f = "\<lambda>x. fst x :: nat" and ?g = "\<lambda>x :: nat \<times> u64. snd x"
  have len: "length cs = length (ks @ [x])" using slots_length [OF assms(1)] by simp
  have "fold (\<lambda>x C. C[fst x := snd x]) (enumerate 0 cs') cs = cs'"
  proof -
    have "fold (\<lambda>x C. C[fst x := snd x]) (enumerate k ys) (xs @ zs) = xs @ ys"
      if "length zs = length ys" "length xs = k" for xs ys zs :: "u64 list" and k
      using that
    proof (induction ys arbitrary: xs zs k)
      case (Cons y ys)
      then obtain z zs' where "zs = z # zs'" by (cases zs) auto
      then show ?case using Cons.IH [of zs' "xs @ [y]" "Suc k"] Cons.prems by (simp add: list_update_append)
    qed simp
    from this [of cs cs' "[]" 0] show ?thesis using assms(2) by simp
  qed
  moreover have "(\<lambda>(i, c) n. set_child_block i c n) = (\<lambda>x. set_child_block (fst x) (snd x))" by (simp add: fun_eq_iff)
  ultimately show "slots (fold (\<lambda>(i, c) n. set_child_block i c n) (enumerate 0 cs') n) (ks @ [x]) cs'"
    "level (fold (\<lambda>(i, c) n. set_child_block i c n) (enumerate 0 cs') n) = level n"
    using fill_children [OF assms(1), of "enumerate 0 cs'" ?f ?g] assms(2) len
    by (auto simp: in_set_enumerate_eq)
qed

text \<open>Blocks \<open>bs\<close> became \<open>bs'\<close>: the blocks \<open>X\<close> of \<open>bs\<close> were given up, new ones come fresh from the allocator.\<close>

definition moved :: "nat \<Rightarrow> block_store \<Rightarrow> block_store \<Rightarrow> u64 list \<Rightarrow> u64 list \<Rightarrow> u64 list \<Rightarrow> bool" where
  "moved n s s' bs bs' X = (lays n s s' \<and> distinct X \<and> set X \<subseteq> set bs \<and> set bs' \<inter> set X = {}
     \<and> set bs' \<subseteq> set bs \<union> (allocated s' - allocated s) \<and> distinct bs')"

lemma moved_refl: "alloc_ok s \<Longrightarrow> distinct bs \<Longrightarrow> moved n s s bs bs []"
  by (simp add: moved_def lays_refl)

lemma moved_allocated: "moved n s s' bs bs' X \<Longrightarrow> set bs \<subseteq> allocated s \<Longrightarrow> set bs' \<subseteq> allocated s'"
  by (auto simp: moved_def lays_def)

lemma moved_append:
  assumes "moved n s s1 as as' X" "moved m s1 s2 bs bs' Y" "set as \<inter> set bs = {}" "set as \<subseteq> allocated s" "set bs \<subseteq> allocated s"
  shows "moved (n + m) s s2 (as @ bs) (as' @ bs') (X @ Y)"
proof -
  have l: "lays n s s1" "lays m s1 s2" using assms(1,2) by (simp_all add: moved_def)
  have a: "allocated s \<subseteq> allocated s1" "allocated s1 \<subseteq> allocated s2" using l by (simp_all add: lays_def)
  note m = assms(1,2) [unfolded moved_def]
  have x: "distinct X" "set X \<subseteq> set as" "set as' \<inter> set X = {}" "set as' \<subseteq> set as \<union> (allocated s1 - allocated s)" "distinct as'"
    and y: "distinct Y" "set Y \<subseteq> set bs" "set bs' \<inter> set Y = {}" "set bs' \<subseteq> set bs \<union> (allocated s2 - allocated s1)" "distinct bs'"
    using m by simp_all
  have d: "set as' \<inter> set bs = {}" "set bs' \<inter> set as = {}" using x(4) y(4) a assms(3-5) by blast+
  have d': "set as' \<inter> set bs' = {}" using x(4) y(4) a assms(3-5) by blast
  have "set X \<inter> set Y = {}" using x(2) y(2) assms(3) by blast
  then have "distinct (X @ Y)" "distinct (as' @ bs')" using x(1,5) y(1,5) d' by simp_all
  moreover have "set (as' @ bs') \<inter> set (X @ Y) = {}" using x(2,3) y(2,3) d by auto
  moreover have "set (as' @ bs') \<subseteq> set (as @ bs) \<union> (allocated s2 - allocated s)" using x(4) y(4) a by auto
  moreover have "set (X @ Y) \<subseteq> set (as @ bs)" using x(2) y(2) by auto
  ultimately show ?thesis using lays_trans [OF l] unfolding moved_def by (intro conjI)
qed

definition flushable :: "tctx \<Rightarrow> nat \<Rightarrow> atree \<Rightarrow> bool" where
  "flushable c L t = (rep (store c) L t \<and> backed (store c) L t \<and> set (blocks t) \<subseteq> allocated (store c) \<and> distinct (blocks t)
     \<and> (\<exists>lo hi q. wf_tree q lo hi t))"

definition flushed :: "tctx \<Rightarrow> nat \<Rightarrow> atree \<Rightarrow> block_store \<Rightarrow> atree \<Rightarrow> u64 list \<Rightarrow> bool" where
  "flushed c L t s' t' X = (alike t t' \<and> rep (cold s') L t' \<and> rep s' L t' \<and> moved (length (blocks t)) (store c) s' (blocks t) (blocks t') X)"

lemma flushable_lays:
  assumes "flushable c L t" "lays n (store c) s'" "alloc_ok (store c)"
  shows "flushable (c\<lparr>store := s'\<rparr>) L t"
proof -
  have f: "set (blocks t) \<subseteq> allocated (store c)" "rep (store c) L t" "backed (store c) L t" using assms(1) by (simp_all add: flushable_def)
  have "set (blocks t) \<subseteq> allocated s'" using f(1) assms(2) by (auto simp: lays_def)
  then show ?thesis
    using assms(1) lays_rep(1) [OF assms(2,3) f(1,2)] lays_backed [OF assms(2,3) f(1,3)] by (simp add: flushable_def)
qed

lemma flush_children_ok:
  assumes "\<And>t c freed. t \<in> set ts \<Longrightarrow> flushable c L t \<Longrightarrow> alloc_ok (store c) \<Longrightarrow>
      unat (next_block_nr (store c)) + length (blocks t) \<le> 2 ^ 52 \<Longrightarrow>
      \<exists>s' t' X. fl (blk t) freed c = (Inr (blk t', freed @ X), c\<lparr>store := s'\<rparr>) \<and> flushed c L t s' t' X"
    and "\<forall>t \<in> set ts. flushable c L t" "alloc_ok (store c)" "distinct (concat (map blocks ts))"
    "unat (next_block_nr (store c)) + length (concat (map blocks ts)) \<le> 2 ^ 52"
  shows "\<exists>s' ts' X. flush_children fl (map blk ts) freed c = (Inr (map blk ts', freed @ X), c\<lparr>store := s'\<rparr>)
     \<and> length ts' = length ts \<and> (\<forall>i < length ts. alike (ts ! i) (ts' ! i)) \<and> (\<forall>t \<in> set ts'. rep (cold s') L t \<and> rep s' L t)
     \<and> moved (length (concat (map blocks ts))) (store c) s' (concat (map blocks ts)) (concat (map blocks ts')) X"
  using assms
proof (induction ts arbitrary: c freed)
  case Nil
  then show ?case by (intro exI [of _ "store c"] exI [of _ "[]"]) (simp add: moved_refl)
next
  case (Cons t ts)
  have sub: "set (blocks u) \<subseteq> allocated (store c)" if "u \<in> set (t # ts)" for u using Cons.prems(2) that by (auto simp: flushable_def)
  obtain s1 t' X where 1: "fl (blk t) freed c = (Inr (blk t', freed @ X), c\<lparr>store := s1\<rparr>)" "alike t t'" "rep (cold s1) L t'" "rep s1 L t'"
    "moved (length (blocks t)) (store c) s1 (blocks t) (blocks t') X"
    using Cons.prems(1) [of t c freed] Cons.prems(2-5) by (auto simp: flushed_def)
  let ?c = "c\<lparr>store := s1\<rparr>"
  have l1: "lays (length (blocks t)) (store c) s1" using 1(5) by (simp add: moved_def)
  then have ok: "alloc_ok s1" "unat (next_block_nr s1) \<le> unat (next_block_nr (store c)) + length (blocks t)"
    by (simp_all add: lays_def)
  have "\<forall>u \<in> set ts. flushable ?c L u" using flushable_lays [OF _ l1 Cons.prems(3)] Cons.prems(2) by simp
  then obtain s' ts' Y where 2: "flush_children fl (map blk ts) (freed @ X) ?c = (Inr (map blk ts', (freed @ X) @ Y), ?c\<lparr>store := s'\<rparr>)"
    "length ts' = length ts" "\<forall>i < length ts. alike (ts ! i) (ts' ! i)" "\<forall>t \<in> set ts'. rep (cold s') L t \<and> rep s' L t"
    "moved (length (concat (map blocks ts))) s1 s' (concat (map blocks ts)) (concat (map blocks ts')) Y"
    using Cons.IH [of ?c "freed @ X"] Cons.prems(1,4,5) ok by auto
  have mv: "moved (length (concat (map blocks (t # ts)))) (store c) s' (concat (map blocks (t # ts))) (concat (map blocks (t' # ts'))) (X @ Y)"
    using moved_append [OF 1(5) 2(5)] Cons.prems(4) sub by (force simp: add.commute)
  have "set (blocks t') \<subseteq> allocated s1" using moved_allocated [OF 1(5)] sub by simp
  then have "rep (cold s') L t'" "rep s' L t'" using lays_rep [OF _ ok(1)] 1(3,4) 2(5) by (auto simp: moved_def)
  then have "\<forall>u \<in> set (t' # ts'). rep (cold s') L u \<and> rep s' L u" using 2(4) by simp
  moreover have "\<forall>i < length (t # ts). alike ((t # ts) ! i) ((t' # ts') ! i)" using 1(2) 2(3) by (simp add: All_less_Suc2)
  ultimately show ?case using 1(1) 2(1,2) mv
    by (intro exI [of _ s'] exI [of _ "t' # ts'"] exI [of _ "X @ Y"]) (simp add: bindM_Inr)
qed

lemma moved_rot: "moved n s s' (as @ [b]) (as' @ [b']) X \<Longrightarrow> moved n s s' (b # as) (b' # as') X"
  unfolding moved_def by auto

lemma relocate_moved:
  assumes "alloc_ok s" "unat (next_block_nr s) < 2 ^ 52" "sized_node nd" "b \<in> allocated s"
  obtains nr s' where "\<And>c. store c = s \<Longrightarrow> bindM (on_store alloc) (\<lambda>new_block. bindM (on_store (write_node new_block nd)) (\<lambda>_. ret (new_block, freed))) c
      = (Inr (nr, freed), c\<lparr>store := s'\<rparr>)"
    "moved 1 s s' [b] [nr] [b]" "node_at (cold s') nr = Some (stamped s nd)" "node_at s' nr = Some (stamped s nd)"
proof -
  obtain nr s1 s' where r: "alloc s = (Inr nr, s1)" "write_node nr nd s1 = (Inr (), s')" "lays 1 s s'"
    "nr \<notin> allocated s" "allocated s' = insert nr (allocated s)" "node_at (cold s') nr = Some (stamped s nd)" "node_at s' nr = Some (stamped s nd)"
    using relocate_ok [OF assms(1-3)] by metis
  then have "moved 1 s s' [b] [nr] [b]" using assms(4) by (auto simp: moved_def)
  then show thesis using r by (intro that [of nr s']) (simp_all add: on_store_def on_part_def bindM_def)
qed

lemma cached_read:
  assumes "node_cache (store c) b = Some cn"
  shows "read_node b c = (Inr (cn_node cn), c)" "node_at (store c) b = Some (cn_node cn)" "is_dirty (store c) b = cn_dirty cn"
    "with_cached_node b f (store c) = Some (f (cn_node cn) (cn_dirty cn))"
  using assms by (simp_all add: read_node_def on_store_def on_part_def with_node_def node_at_def is_dirty_def with_cached_node_def)

lemma flush_leaf_ok:
  assumes fl: "flushable c L (ALeaf b bs)" and ok: "alloc_ok (store c)" and room: "unat (next_block_nr (store c)) < 2 ^ 52"
  shows "\<exists>s' t' X. checkpoint_flush (Suc fuel) b freed c = (Inr (blk t', freed @ X), c\<lparr>store := s'\<rparr>) \<and> flushed c L (ALeaf b bs) s' t' X"
proof -
  obtain n where n: "L = 0" "node_at (store c) b = Some n" "level n = 0" "layout n bs" using fl by (auto simp: flushable_def)
  have b: "b \<in> allocated (store c)" and bk: "is_dirty (store c) b \<or> rep (cold (store c)) L (ALeaf b bs)"
    using fl by (auto simp: flushable_def)
  have stay: ?thesis if "checkpoint_flush (Suc fuel) b freed c = (Inr (b, freed), c)" "\<not> is_dirty (store c) b"
    using that bk fl moved_refl [OF ok, of "[b]"]
    by (intro exI [of _ "store c"] exI [of _ "ALeaf b bs"] exI [of _ "[]"]) (simp add: flushed_def flushable_def)
  show ?thesis
  proof (cases "node_cache (store c) b")
    case None
    then show ?thesis by (intro stay) (simp_all add: with_cached_node_def is_dirty_def)
  next
    case (Some cn)
    note cr = cached_read [OF Some]
    have cn: "cn_node cn = n" using cr(2) n(2) by simp
    show ?thesis
    proof (cases "cn_dirty cn")
      case False
      then show ?thesis by (intro stay) (simp_all add: cr cn n(3))
    next
      case True
      obtain nr s' where r: "\<And>c'. store c' = store c \<Longrightarrow> bindM (on_store alloc) (\<lambda>new_block. bindM (on_store (write_node new_block n)) (\<lambda>_. ret (new_block, freed @ [b]))) c'
          = (Inr (nr, freed @ [b]), c'\<lparr>store := s'\<rparr>)"
        "moved 1 (store c) s' [b] [nr] [b]" "node_at (cold s') nr = Some (stamped (store c) n)" "node_at s' nr = Some (stamped (store c) n)"
        by (rule relocate_moved [OF ok room layout_sized [OF n(4)] b, of "freed @ [b]"]) (rule that)
      have "checkpoint_flush (Suc fuel) b freed c = (Inr (nr, freed @ [b]), c\<lparr>store := s'\<rparr>)"
        using r(1) [of c] True by (simp add: cr(1,4) cn n(3) bindM_Inr)
      then show ?thesis using r(2-4) n
        by (intro exI [of _ s'] exI [of _ "ALeaf nr bs"] exI [of _ "[b]"]) (simp add: flushed_def)
    qed
  qed
qed

lemma flush_inner_ok:
  assumes fl: "flushable c L (ANode b ks ts)" and ok: "alloc_ok (store c)"
    and room: "unat (next_block_nr (store c)) + length (blocks (ANode b ks ts)) \<le> 2 ^ 52"
    and IH: "\<And>t c freed. t \<in> set ts \<Longrightarrow> flushable c (L - 1) t \<Longrightarrow> alloc_ok (store c) \<Longrightarrow>
      unat (next_block_nr (store c)) + length (blocks t) \<le> 2 ^ 52 \<Longrightarrow>
      \<exists>s' t' X. checkpoint_flush fuel (blk t) freed c = (Inr (blk t', freed @ X), c\<lparr>store := s'\<rparr>) \<and> flushed c (L - 1) t s' t' X"
  shows "\<exists>s' t' X. checkpoint_flush (Suc fuel) b freed c = (Inr (blk t', freed @ X), c\<lparr>store := s'\<rparr>)
     \<and> flushed c L (ANode b ks ts) s' t' X"
proof (cases "node_cache (store c) b")
  case None
  then have "rep (cold (store c)) L (ANode b ks ts)" using fl by (simp add: flushable_def)
  moreover have "checkpoint_flush (Suc fuel) b freed c = (Inr (b, freed), c)" by (simp add: with_cached_node_def None)
  ultimately show ?thesis using moved_refl [OF ok] fl alike_refl
    by (intro exI [of _ "store c"] exI [of _ "ANode b ks ts"] exI [of _ "[]"]) (simp add: flushed_def flushable_def del: rep.simps alike.simps)
next
  case (Some cn)
  note cr = cached_read [OF Some]
  have rep: "rep (store c) L (ANode b ks ts)" and wf: "\<exists>lo hi q. wf_tree q lo hi (ANode b ks ts)"
    using fl unfolding flushable_def by blast+
  obtain n x L' where n: "L = Suc L'" "L < 256" "node_at (store c) b = Some n" "level n = of_nat L" "0 < level n" "level n \<noteq> 0"
    "slots n (ks @ [x]) (map blk ts)" "length ts = Suc (length ks)"
    by (rule rep_nodeE [OF rep]) (rule that)
  have cn: "cn_node cn = n" using cr(2) n(3) by simp
  have srt: "sorted_keys ks" using wf by auto
  have bs: "b \<in> allocated (store c)" "set (concat (map blocks ts)) \<subseteq> allocated (store c)" "distinct (b # concat (map blocks ts))"
    and bk: "cn_dirty cn \<or> (\<exists>n. node_at (cold (store c)) b = Some n \<and> level n = of_nat L \<and> internal n ks (map blk ts))" "\<forall>t \<in> set ts. backed (store c) (L - 1) t"
    using fl Some cr(3) n(3) by (auto simp: flushable_def)
  have ch: "\<forall>t \<in> set ts. flushable c (L - 1) t"
  proof
    fix t assume t: "t \<in> set ts"
    then have "set (blocks t) \<subseteq> allocated (store c)" "distinct (blocks t)" using bs(2,3) by (auto simp: distinct_concat_iff)
    moreover obtain i where "i < length ts" "t = ts ! i" using t by (auto simp: in_set_conv_nth)
    then have "\<exists>lo hi q. wf_tree q lo hi t" using wf by simp metis
    ultimately show "flushable c (L - 1) t" using t rep bk(2) by (auto simp: flushable_def)
  qed
  obtain s1 ts' X where f: "flush_children (checkpoint_flush fuel) (map blk ts) freed c = (Inr (map blk ts', freed @ X), c\<lparr>store := s1\<rparr>)"
    "length ts' = length ts" "\<forall>i < length ts. alike (ts ! i) (ts' ! i)" "\<forall>t \<in> set ts'. rep (cold s1) (L - 1) t \<and> rep s1 (L - 1) t"
    "moved (length (concat (map blocks ts))) (store c) s1 (concat (map blocks ts)) (concat (map blocks ts')) X"
    using flush_children_ok [OF IH ch ok, of freed] bs(3) room by auto
  have l1: "lays (length (concat (map blocks ts))) (store c) s1" using f(5) by (simp add: moved_def)
  then have ok1: "alloc_ok s1" "unat (next_block_nr s1) < 2 ^ 52" "b \<in> allocated s1" using room bs(1) by (auto simp: lays_def)
  have cb: "node_cache s1 b = Some cn" using lays_node_at(1) [OF l1 ok bs(1)] Some by simp
  have children: "children n = map blk ts" using node_children(4) [OF n(7,5) srt] .
  have walk: "checkpoint_flush (Suc fuel) b freed c =
      (if \<not> cn_dirty cn \<and> map blk ts' = map blk ts then (Inr (b, freed @ X), c\<lparr>store := s1\<rparr>)
       else bindM (on_store alloc) (\<lambda>new_block. bindM (on_store (write_node new_block
         (fold (\<lambda>(i, c) n. set_child_block i c n) (enumerate 0 (map blk ts')) n))) (\<lambda>_. ret (new_block, freed @ X @ [b]))) (c\<lparr>store := s1\<rparr>))"
    using n(6) f(1) cached_read(1) [of "c\<lparr>store := s1\<rparr>" b cn] cb by (simp add: cr(4) cn children bindM_Inr Let_def)
  show ?thesis
  proof (cases "\<not> cn_dirty cn \<and> map blk ts' = map blk ts")
    case True
    then obtain n' where n': "node_at (cold s1) b = Some n'" "level n' = of_nat L" "internal n' ks (map blk ts)" "node_at s1 b = Some n"
      using bk(1) n(3) lays_node_at(3,4) [OF l1 ok bs(1)] by blast
    have "internal n ks (map blk ts)" using n(7) by (auto simp: internal_def)
    then have "rep (cold s1) L (ANode b ks ts')" "rep s1 L (ANode b ks ts')" using n(1,2,4) n' f(4) True by simp_all
    moreover have "moved (length (concat (map blocks ts)) + 1) (store c) s1 (b # concat (map blocks ts)) (b # concat (map blocks ts')) X"
      using moved_rot [OF moved_append [OF f(5) moved_refl [OF ok1(1), of "[b]" 1]]] bs by simp
    ultimately show ?thesis using walk True f(2,3)
      by (intro exI [of _ s1] exI [of _ "ANode b ks ts'"] exI [of _ X]) (simp add: flushed_def del: rep.simps)
  next
    case False
    let ?n = "fold (\<lambda>(i, c) n. set_child_block i c n) (enumerate 0 (map blk ts')) n"
    have sc: "slots ?n (ks @ [x]) (map blk ts')" "level ?n = level n" using set_children [OF n(7), of "map blk ts'"] f(2) by simp_all
    obtain h es where "layout ?n [(h, es)]" using sc(1) by (auto simp: slots_def)
    then have sz: "sized_node ?n" by (rule layout_sized)
    obtain nr s' where r: "\<And>c'. store c' = s1 \<Longrightarrow> bindM (on_store alloc) (\<lambda>new_block. bindM (on_store (write_node new_block ?n)) (\<lambda>_. ret (new_block, freed @ X @ [b]))) c'
        = (Inr (nr, freed @ X @ [b]), c'\<lparr>store := s'\<rparr>)"
      "moved 1 s1 s' [b] [nr] [b]" "node_at (cold s') nr = Some (stamped s1 ?n)" "node_at s' nr = Some (stamped s1 ?n)"
      by (rule relocate_moved [OF ok1(1,2) sz ok1(3), of "freed @ X @ [b]"]) (rule that)
    have "set (concat (map blocks ts')) \<subseteq> allocated s1" using moved_allocated [OF f(5) bs(2)] .
    then have "\<And>t. t \<in> set ts' \<Longrightarrow> set (blocks t) \<subseteq> allocated s1" by auto
    moreover have "lays 1 s1 s'" using r(2) by (simp add: moved_def)
    ultimately have "\<forall>t \<in> set ts'. rep (cold s') (L - 1) t \<and> rep s' (L - 1) t" using f(4) lays_rep [OF _ ok1(1)] by blast
    moreover have "internal (stamped s1 ?n) ks (map blk ts')" using sc(1) by (auto simp: internal_def slots_def)
    ultimately have "rep (cold s') L (ANode nr ks ts')" "rep s' L (ANode nr ks ts')" using n(1,2,4) r(3,4) sc(2) by simp_all
    moreover have "moved (length (concat (map blocks ts)) + 1) (store c) s' (b # concat (map blocks ts)) (nr # concat (map blocks ts')) (X @ [b])"
      using moved_rot [OF moved_append [OF f(5) r(2)]] bs by simp
    moreover have "checkpoint_flush (Suc fuel) b freed c = (Inr (nr, freed @ X @ [b]), c\<lparr>store := s'\<rparr>)"
      using walk False r(1) [of "c\<lparr>store := s1\<rparr>"] by (simp only: if_False) simp
    ultimately show ?thesis using f(2,3)
      by (intro exI [of _ s'] exI [of _ "ANode nr ks ts'"] exI [of _ "X @ [b]"]) (simp add: flushed_def del: rep.simps checkpoint_flush.simps)
  qed
qed

lemma checkpoint_flush_ok:
  "flushable c L t \<Longrightarrow> alloc_ok (store c) \<Longrightarrow> unat (next_block_nr (store c)) + length (blocks t) \<le> 2 ^ 52 \<Longrightarrow> L < fuel \<Longrightarrow>
   \<exists>s' t' X. checkpoint_flush fuel (blk t) freed c = (Inr (blk t', freed @ X), c\<lparr>store := s'\<rparr>) \<and> flushed c L t s' t' X"
proof (induction t arbitrary: c L fuel freed)
  case (ALeaf b bs)
  then obtain fuel' where "fuel = Suc fuel'" by (cases fuel) auto
  then show ?case using flush_leaf_ok [OF ALeaf.prems(1,2)] ALeaf.prems(3) by simp
next
  case (ANode b ks ts)
  then obtain fuel' where fuel: "fuel = Suc fuel'" "L - 1 < fuel'" by (cases fuel) (auto simp: flushable_def)
  have "\<exists>s' t' X. checkpoint_flush (Suc fuel') b freed c = (Inr (blk t', freed @ X), c\<lparr>store := s'\<rparr>) \<and> flushed c L (ANode b ks ts) s' t' X"
    by (rule flush_inner_ok [OF ANode.prems(1-3) ANode.IH [OF _ _ _ _ fuel(2)]])
  then show ?case by (simp only: fuel(1) blk.simps)
qed

section \<open>Checkpoint\<close>

lemma cold_read:
  assumes "node_at (cold s) b = Some n" "\<And>x. dev_block (device s) b = Some x \<Longrightarrow> dev_block (device s') b = Some x" "crc32 s' = crc32 s"
  shows "node_at (cold s') b = Some n"
proof -
  obtain x where x: "read_at 4096 (block_off b) (device s) = Inr x" using assms(1) by (auto simp: node_at_cold fetch_node_def split: sum.splits)
  then have "read_at 4096 (block_off b) (device s') = Inr x" using assms(2) [of x] by (auto simp: dev_block_def split: sum.splits)
  then show ?thesis using assms(1,3) x by (simp add: node_at_cold fetch_node_def Let_def)
qed

text \<open>A volume whose tree the flush walk can make durable and whose data blocks are on the device.\<close>

definition backed_volume :: "(u64 \<rightharpoonup> bytes) \<Rightarrow> btree \<Rightarrow> kvmap \<Rightarrow> bool" where
  "backed_volume D t m = (\<exists>L a. blk a = root_block t \<and> tree_ok (ctx t) L None None a \<and> tree_view (cont a) = m
     \<and> data_kept D (set (blocks a)) (ctx t) \<and> backed (store (ctx t)) L a
     \<and> (\<forall>b x. D b = Some x \<longrightarrow> dev_block (device (store (ctx t))) b = Some x))"

lemma backed_stored: "backed_volume D t m \<Longrightarrow> stored D t m"
  unfolding backed_volume_def stored_def volume_def holds_def by blast

text \<open>The volume as a store without caches would see it.\<close>

definition on_device :: "(u64 \<rightharpoonup> bytes) \<Rightarrow> tctx \<Rightarrow> u64 \<Rightarrow> kvmap \<Rightarrow> bool" where
  "on_device D c r m = volume (c\<lparr>store := cold (store c)\<rparr>) r m D"

lemma volume_transfer:
  assumes "volume c r m D" "next_bset_seq c' = next_bset_seq c" "owned c \<subseteq> owned c'"
    and "\<And>b n. b \<in> owned c \<Longrightarrow> node_at (store c) b = Some n \<Longrightarrow> node_at (store c') b = Some n"
    and "\<And>b x. b \<in> owned c \<Longrightarrow> data_at (store c) b = Some x \<Longrightarrow> data_at (store c') b = Some x"
  shows "volume c' r m D"
proof -
  obtain L a where a: "blk a = r" "tree_ok c L None None a" "tree_view (cont a) = m" "data_kept D (set (blocks a)) c"
    using assms(1) by (auto simp: volume_def holds_def)
  have "rep (store c') L a" using a(2) assms(4) by (auto simp: tree_ok_def elim!: rep_mono)
  then have "tree_ok c' L None None a" using a(2) assms(2,3) by (auto simp: tree_ok_def)
  moreover have "data_kept D (set (blocks a)) c'" using a(4) assms(3,5) unfolding data_kept_def by blast
  ultimately show ?thesis using a(1,3) unfolding volume_def holds_def by blast
qed

text \<open>A volume that is on the device already.\<close>

definition durable_volume :: "(u64 \<rightharpoonup> bytes) \<Rightarrow> btree \<Rightarrow> kvmap \<Rightarrow> bool" where
  "durable_volume D t m = (\<exists>L a. blk a = root_block t \<and> tree_ok (ctx t) L None None a \<and> tree_view (cont a) = m
     \<and> data_kept D (set (blocks a)) (ctx t) \<and> rep (cold (store (ctx t))) L a
     \<and> (\<forall>b x. D b = Some x \<longrightarrow> dev_block (device (store (ctx t))) b = Some x))"

lemma durable_backed: "durable_volume D t m \<Longrightarrow> backed_volume D t m"
  unfolding durable_volume_def backed_volume_def using rep_backed by blast

lemma durable_on_device:
  assumes "durable_volume D t m"
  shows "on_device D (ctx t) (root_block t) m"
proof -
  obtain L a where a: "blk a = root_block t" "tree_ok (ctx t) L None None a" "tree_view (cont a) = m" "data_kept D (set (blocks a)) (ctx t)"
    "rep (cold (store (ctx t))) L a" "\<forall>b x. D b = Some x \<longrightarrow> dev_block (device (store (ctx t))) b = Some x"
    using assms by (auto simp: durable_volume_def)
  let ?c = "ctx t\<lparr>store := cold (store (ctx t))\<rparr>"
  have own: "owned ?c = owned (ctx t)" by (simp add: owned_def cold_def allocated_def)
  have "tree_ok ?c L None None a" using a(2,5) own by (simp add: tree_ok_def)
  moreover have "data_kept D (set (blocks a)) ?c" using a(4,6) own by (simp add: data_kept_def data_at_cold)
  ultimately show ?thesis using a(1,3) unfolding on_device_def volume_def holds_def by blast
qed

lemma durable_transfer:
  assumes "durable_volume D t m" "root_block t' = root_block t" "next_bset_seq (ctx t') = next_bset_seq (ctx t)" "owned (ctx t) \<subseteq> owned (ctx t')"
    and "\<And>b n. b \<in> owned (ctx t) \<Longrightarrow> node_at (store (ctx t)) b = Some n \<Longrightarrow> node_at (store (ctx t')) b = Some n"
    and "\<And>b x. b \<in> owned (ctx t) \<Longrightarrow> data_at (store (ctx t)) b = Some x \<Longrightarrow> data_at (store (ctx t')) b = Some x"
    and "\<And>b x. b \<in> owned (ctx t) \<Longrightarrow> dev_block (device (store (ctx t))) b = Some x \<Longrightarrow> dev_block (device (store (ctx t'))) b = Some x"
    and "crc32 (store (ctx t')) = crc32 (store (ctx t))"
  shows "durable_volume D t' m"
proof -
  obtain L a where a: "blk a = root_block t" "tree_ok (ctx t) L None None a" "tree_view (cont a) = m" "data_kept D (set (blocks a)) (ctx t)"
    "rep (cold (store (ctx t))) L a" "\<forall>b x. D b = Some x \<longrightarrow> dev_block (device (store (ctx t))) b = Some x"
    using assms(1) by (auto simp: durable_volume_def)
  have own: "b \<in> set (blocks a) \<Longrightarrow> b \<in> owned (ctx t)" for b using a(2) by (auto simp: tree_ok_def)
  have "rep (store (ctx t')) L a" using a(2) assms(5) own by (auto simp: tree_ok_def elim!: rep_mono)
  then have "tree_ok (ctx t') L None None a" using a(2) assms(3,4) by (auto simp: tree_ok_def)
  moreover have "data_kept D (set (blocks a)) (ctx t')" using a(4) assms(4,6) unfolding data_kept_def by blast
  moreover have "rep (cold (store (ctx t'))) L a"
    by (rule rep_mono [OF a(5)]) (rule cold_read [OF _ assms(7) assms(8)], use own in auto)
  moreover have "\<forall>b x. D b = Some x \<longrightarrow> dev_block (device (store (ctx t'))) b = Some x"
    using a(4,6) assms(7) unfolding data_kept_def by blast
  ultimately show ?thesis using a(1,3) assms(2) unfolding durable_volume_def by metis
qed

lemma frees_ok:
  assumes "alloc_ok (store (ctx t))" "distinct X" "set X \<subseteq> owned (ctx t)"
  shows "\<exists>s'. forM X (\<lambda>nr. on_tree (on_store (free nr))) t = (Inr (), t\<lparr>ctx := (ctx t)\<lparr>store := s'\<rparr>\<rparr>) \<and> alloc_ok s'
    \<and> allocated s' = allocated (store (ctx t)) - set X \<and> device s' = device (store (ctx t))
    \<and> next_block_nr s' = next_block_nr (store (ctx t)) \<and> last_chain_blocks s' = last_chain_blocks (store (ctx t))
    \<and> crc32 s' = crc32 (store (ctx t)) \<and> persistent s' = persistent (store (ctx t))
    \<and> (\<forall>b. b \<notin> set X \<longrightarrow> node_at s' b = node_at (store (ctx t)) b \<and> data_at s' b = data_at (store (ctx t)) b)"
  using assms
proof (induction X arbitrary: t)
  case Nil
  then show ?case by (intro exI [of _ "store (ctx t)"]) simp
next
  case (Cons nr X)
  let ?s = "store (ctx t)"
  have nr: "nr \<in> allocated ?s" "nr \<notin> set (last_chain_blocks ?s)" using Cons.prems(3) by (auto simp: owned_def)
  obtain s1 where s1: "free nr ?s = (Inr (), s1)" "alloc_ok s1" "allocated s1 = allocated ?s - {nr}" "device s1 = device ?s"
    "\<forall>b. b \<noteq> nr \<longrightarrow> node_at s1 b = node_at ?s b \<and> data_at s1 b = data_at ?s b"
    using free_releases [OF Cons.prems(1) nr] by metis
  then have fields: "next_block_nr s1 = next_block_nr ?s" "last_chain_blocks s1 = last_chain_blocks ?s" "crc32 s1 = crc32 ?s"
    "persistent s1 = persistent ?s" by (auto simp: free_def)
  let ?t = "t\<lparr>ctx := (ctx t)\<lparr>store := s1\<rparr>\<rparr>"
  have step: "on_tree (on_store (free nr)) t = (Inr (), ?t)" using s1(1) by (simp add: on_tree_def on_store_def on_part_def)
  have "set X \<subseteq> owned (ctx ?t)" using Cons.prems(2,3) s1(3) fields(2) by (auto simp: owned_def)
  then obtain s' where s': "forM X (\<lambda>nr. on_tree (on_store (free nr))) ?t = (Inr (), ?t\<lparr>ctx := (ctx ?t)\<lparr>store := s'\<rparr>\<rparr>)" "alloc_ok s'"
    "allocated s' = allocated s1 - set X" "device s' = device s1" "next_block_nr s' = next_block_nr s1"
    "last_chain_blocks s' = last_chain_blocks s1" "crc32 s' = crc32 s1" "persistent s' = persistent s1"
    "\<forall>b. b \<notin> set X \<longrightarrow> node_at s' b = node_at s1 b \<and> data_at s' b = data_at s1 b"
    using Cons.IH [of ?t] s1(2) Cons.prems(2) by auto
  then show ?case using s1 fields step by (intro exI [of _ s']) (auto simp: bindM_Inr)
qed

lemma blocks_bound: "distinct bs \<Longrightarrow> set bs \<subseteq> {b. b < next_block_nr s} \<Longrightarrow> length bs \<le> unat (next_block_nr s)"
proof -
  assume a: "distinct bs" "set bs \<subseteq> {b. b < next_block_nr s}"
  have "unat ` set bs \<subseteq> {..<unat (next_block_nr s)}" using a(2) by (auto simp: word_less_nat_alt)
  then have "card (unat ` set bs) \<le> unat (next_block_nr s)" using card_mono [of "{..<unat (next_block_nr s)}"] by simp
  moreover have "inj_on (unat :: u64 \<Rightarrow> nat) (set bs)" by (auto simp: inj_on_def word_unat_eq_iff)
  then have "card (unat ` set bs) = length bs" using a(1) by (simp add: card_image distinct_card)
  ultimately show ?thesis by simp
qed

text \<open>What \<open>checkpoint\<close> leaves as it was.\<close>

definition same_device_area :: "block_store \<Rightarrow> block_store \<Rightarrow> bool" where
  "same_device_area s s' = (crc32 s' = crc32 s \<and> persistent s' = persistent s \<and> dev_kind (device s') = dev_kind (device s)
     \<and> below 65 (device s) (device s'))"

lemma checkpoint_ok:
  assumes bv: "backed_volume D t m" and ok: "alloc_ok (store (ctx t))" and room: "2 * unat (next_block_nr (store (ctx t))) \<le> 2 ^ 52"
  shows "\<exists>c' r'. checkpoint t = (Inr (), t\<lparr>ctx := c', root_block := r'\<rparr>) \<and> durable_volume D (t\<lparr>ctx := c', root_block := r'\<rparr>) m
     \<and> alloc_ok (store c') \<and> next_bset_seq c' = next_bset_seq (ctx t) \<and> same_device_area (store (ctx t)) (store c')
     \<and> unat (next_block_nr (store c')) \<le> 2 * unat (next_block_nr (store (ctx t)))"
proof -
  let ?c = "ctx t" let ?s = "store ?c"
  obtain L a where a: "blk a = root_block t" "tree_ok ?c L None None a" "tree_view (cont a) = m"
    "data_kept D (set (blocks a)) ?c" "backed ?s L a" "\<And>b x. D b = Some x \<Longrightarrow> dev_block (device ?s) b = Some x"
    using bv by (auto simp: backed_volume_def)
  have tr: "rep ?s L a" "wf_tree (next_bset_seq ?c) None None a" "distinct (blocks a)" "set (blocks a) \<subseteq> owned ?c"
    using a(2) by (simp_all add: tree_ok_def)
  have sub: "set (blocks a) \<subseteq> allocated ?s" using tr(4) by (auto simp: owned_def)
  have len: "length (blocks a) \<le> unat (next_block_nr ?s)"
    using blocks_bound [OF tr(3)] sub by (auto simp: allocated_def)
  have L: "L < TREE_FUEL" using tr(1) by (cases a) (auto simp: TREE_FUEL_def)
  have "flushable ?c L a" using tr a(5) sub by (auto simp: flushable_def)
  then obtain s1 a' X where f: "checkpoint_flush TREE_FUEL (blk a) [] ?c = (Inr (blk a', X), ?c\<lparr>store := s1\<rparr>)" "alike a a'"
    "rep (cold s1) L a'" "rep s1 L a'" "moved (length (blocks a)) ?s s1 (blocks a) (blocks a') X"
    using checkpoint_flush_ok [OF _ ok _ L, of a "[]"] room len by (auto simp: flushed_def)
  have mv: "lays (length (blocks a)) ?s s1" "distinct X" "set X \<subseteq> set (blocks a)" "set (blocks a') \<inter> set X = {}"
    "set (blocks a') \<subseteq> set (blocks a) \<union> (allocated s1 - allocated ?s)" "distinct (blocks a')" using f(5) by (simp_all add: moved_def)
  let ?t1 = "t\<lparr>ctx := ?c\<lparr>store := s1\<rparr>, root_block := blk a'\<rparr>"
  have chain: "last_chain_blocks s1 = last_chain_blocks ?s" and al: "allocated ?s \<subseteq> allocated s1" "alloc_ok s1"
    and fresh: "\<forall>b \<in> allocated s1 - allocated ?s. b \<notin> set (last_chain_blocks ?s)"
    and nx: "unat (next_block_nr s1) \<le> unat (next_block_nr ?s) + length (blocks a)" using mv(1) by (simp_all add: lays_def)
  have own: "set (blocks a') \<subseteq> owned (ctx ?t1)" "owned ?c \<subseteq> owned (ctx ?t1)"
    using mv(5) tr(4) al(1) fresh chain by (auto simp: owned_def)
  have X: "set X \<subseteq> owned (ctx ?t1)" using mv(3) tr(4) own(2) by auto
  obtain s2 where s2: "forM X (\<lambda>nr. on_tree (on_store (free nr))) ?t1 = (Inr (), ?t1\<lparr>ctx := (ctx ?t1)\<lparr>store := s2\<rparr>\<rparr>)" "alloc_ok s2"
    "allocated s2 = allocated s1 - set X" "device s2 = device s1" "next_block_nr s2 = next_block_nr s1"
    "last_chain_blocks s2 = last_chain_blocks s1" "crc32 s2 = crc32 s1" "persistent s2 = persistent s1"
    "\<forall>b. b \<notin> set X \<longrightarrow> node_at s2 b = node_at s1 b \<and> data_at s2 b = data_at s1 b"
    using frees_ok [OF _ mv(2) X] al(2) by auto
  let ?c2 = "?c\<lparr>store := s2\<rparr>"
  have run: "checkpoint t = (Inr (), t\<lparr>ctx := ?c2, root_block := blk a'\<rparr>)"
    using f(1) s2(1) by (simp add: checkpoint_def on_root_def on_tree_def on_part_def a(1) bindM_def)
  have own2: "set (blocks a') \<subseteq> owned ?c2" using own(1) mv(4) s2(3,6) by (auto simp: owned_def)
  have cold2: "node_at (cold s2) = node_at (cold s1)"
    using fetch_node_cong [of s2 s1] s2(4,7) by (simp add: node_at_cold fun_eq_iff)
  have r2: "rep (cold s2) L a'" using f(3) cold2 by (auto elim!: rep_mono)
  have r2': "rep s2 L a'" using f(4) s2(9) mv(4) by (auto elim!: rep_mono)
  have wf: "wf_tree (next_bset_seq ?c) None None a'" by (rule alike_wf [OF f(2) tr(2)])
  have D: "b \<in> owned ?c2" "b \<notin> set (blocks a')" "data_at (cold s2) b = Some x" "data_at s2 b = Some x" if d: "D b = Some x" for b x
  proof -
    have b: "b \<in> owned ?c" "b \<notin> set (blocks a)" "data_at ?s b = Some x" using a(4) d by (auto simp: data_kept_def)
    then have ba: "b \<in> allocated ?s" "b \<notin> set X" using mv(3) by (auto simp: owned_def)
    show "b \<in> owned ?c2" using b(1) own(2) ba(2) s2(3,6) by (auto simp: owned_def)
    show "b \<notin> set (blocks a')" using mv(5) b(2) ba(1) by auto
    have dv: "dev_block (device s1) b = Some x" "data_cache s1 b = data_cache ?s b"
      using mv(1) ba(1) allocated_blk_ok [OF ok ba(1)] a(6) [OF d] by (auto simp: lays_def)
    then show "data_at (cold s2) b = Some x" by (simp add: data_at_cold s2(4))
    have "data_at s1 b = Some x" using b(3) dv by (auto simp: data_at_def dev_block_def split: option.splits sum.splits)
    then show "data_at s2 b = Some x" using s2(9) ba(2) by simp
  qed
  have "tree_ok ?c2 L None None a'" using r2' wf mv(6) own2 by (simp add: tree_ok_def)
  moreover have "data_kept D (set (blocks a')) ?c2" using D(1,2,4) by (simp add: data_kept_def)
  moreover have "\<forall>b x. D b = Some x \<longrightarrow> dev_block (device s2) b = Some x" using D(3) by (simp add: data_at_cold)
  ultimately have "durable_volume D (t\<lparr>ctx := ?c2, root_block := blk a'\<rparr>) m"
    unfolding durable_volume_def using r2 alike_cont [OF f(2)] a(3)
    by (intro exI [of _ L] exI [of _ a']) simp
  moreover have "same_device_area ?s s2"
    using mv(1) s2(4,7,8) by (simp add: same_device_area_def lays_def below_def)
  ultimately show ?thesis using run s2(2,5) nx len by (intro exI [of _ ?c2] exI [of _ "blk a'"]) simp
qed

end
