(* ===== verification/Fs_Format.thy ===== *)
theory Fs_Format
  imports Transactions
begin

text \<open>
  On-disk formats of \<open>fs.rs\<close>: the logical keys of inodes, directory entries, extents, snapshots,
  subvolumes and deleted inodes in the one B-tree, and the fixed-size values stored under them.
  The locale \<open>fixed_codec\<close> is the contract of \<open>as_bytes\<close> and \<open>read_from_bytes\<close> of a value struct.
\<close>

section \<open>Constants\<close>

definition ROOT_INO :: u64 where "ROOT_INO = 1"
definition FILE_KIND_REGULAR :: u8 where "FILE_KIND_REGULAR = 1"
definition FILE_KIND_DIR :: u8 where "FILE_KIND_DIR = 2"
definition FILE_KIND_SYMLINK :: u8 where "FILE_KIND_SYMLINK = 3"
definition KIND_INODE :: u8 where "KIND_INODE = 1"
definition KIND_DIRENT :: u8 where "KIND_DIRENT = 2"
definition KIND_EXTENT :: u8 where "KIND_EXTENT = 3"
definition KIND_SNAPSHOT :: u8 where "KIND_SNAPSHOT = 0xF0"
definition KIND_SUBVOL :: u8 where "KIND_SUBVOL = 0xF1"
definition KIND_DELETED_INODES :: u8 where "KIND_DELETED_INODES = 0xF2"
definition NO_PARENT_SNAP :: snap_id where "NO_PARENT_SNAP = 0"
definition DIRENT_PREFIX_LEN :: nat where "DIRENT_PREFIX_LEN = 9"
definition MAX_NAME_LEN :: nat where "MAX_NAME_LEN = MAX_LOGICAL_KEY_SIZE - DIRENT_PREFIX_LEN"

type_synonym subvol_id = u32

definition ROOT_SUBVOL :: subvol_id where "ROOT_SUBVOL = 1"
definition SUBVOL_FLAG_READONLY :: u32 where "SUBVOL_FLAG_READONLY = 1"

lemmas kind_defs = KIND_INODE_def KIND_DIRENT_def KIND_EXTENT_def KIND_SNAPSHOT_def KIND_SUBVOL_def KIND_DELETED_INODES_def

lemma name_len: "MAX_NAME_LEN = 19"
  by (simp add: MAX_NAME_LEN_def DIRENT_PREFIX_LEN_def layout_values)

section \<open>Keys\<close>

definition saturating_Suc :: "u64 \<Rightarrow> u64" where
  "saturating_Suc x = (if x = - 1 then x else x + 1)"

definition inode_key :: "u64 \<Rightarrow> bytes" where
  "inode_key ino = KIND_INODE # u64_be ino"

definition dirent_key :: "u64 \<Rightarrow> bytes \<Rightarrow> bytes option" where
  "dirent_key parent_ino name =
     (if length name \<le> MAX_NAME_LEN then Some (KIND_DIRENT # u64_be parent_ino @ name) else None)"

definition dirent_range :: "u64 \<Rightarrow> bytes \<times> bytes" where
  "dirent_range parent_ino = (KIND_DIRENT # u64_be parent_ino, KIND_DIRENT # u64_be (saturating_Suc parent_ino))"

definition extent_key :: "u64 \<Rightarrow> u64 \<Rightarrow> bytes" where
  "extent_key ino offset = KIND_EXTENT # u64_be ino @ u64_be offset"

definition extent_range :: "u64 \<Rightarrow> bytes \<times> bytes" where
  "extent_range ino = (extent_key ino 0, extent_key (saturating_Suc ino) 0)"

definition extent_offset_from_key :: "bytes \<Rightarrow> u64 option" where
  "extent_offset_from_key key = (if 17 \<le> length key then Some (u64_of_be (bslice 9 8 key)) else None)"

definition dirent_name_from_key :: "bytes \<Rightarrow> bytes option" where
  "dirent_name_from_key key = (if DIRENT_PREFIX_LEN \<le> length key then Some (drop DIRENT_PREFIX_LEN key) else None)"

definition snapshot_key :: "snap_id \<Rightarrow> bytes" where
  "snapshot_key snap = KIND_SNAPSHOT # u32_be snap"

definition subvol_key :: "subvol_id \<Rightarrow> bytes" where
  "subvol_key subvol = KIND_SUBVOL # u32_be subvol"

definition snapshot_range :: "bytes \<times> bytes" where
  "snapshot_range = (snapshot_key 0, [KIND_SNAPSHOT + 1])"

definition snapshot_id_from_key :: "bytes \<Rightarrow> snap_id option" where
  "snapshot_id_from_key key =
     (if length key = 5 \<and> key ! 0 = KIND_SNAPSHOT then Some (u32_of_be (drop 1 key)) else None)"

definition subvol_range :: "bytes \<times> bytes" where
  "subvol_range = (KIND_SUBVOL # replicate 4 0, [KIND_SUBVOL + 1])"

definition subvol_id_from_key :: "bytes \<Rightarrow> subvol_id option" where
  "subvol_id_from_key key =
     (if length key = 5 \<and> key ! 0 = KIND_SUBVOL then Some (u32_of_be (drop 1 key)) else None)"

definition deleted_inode_key :: "u64 \<Rightarrow> snap_id \<Rightarrow> bytes" where
  "deleted_inode_key ino snap = KIND_DELETED_INODES # u64_be ino @ u32_be snap"

definition deleted_inode_range :: "bytes \<times> bytes" where
  "deleted_inode_range = (deleted_inode_key 0 0, [KIND_DELETED_INODES + 1])"

definition deleted_inode_from_key :: "bytes \<Rightarrow> (u64 \<times> snap_id) option" where
  "deleted_inode_from_key key =
     (if length key = 13 \<and> key ! 0 = KIND_DELETED_INODES
      then Some (u64_of_be (bslice 1 8 key), u32_of_be (drop 9 key)) else None)"

lemma less_Suc_word:
  fixes x y :: u64
  assumes "x \<noteq> - 1"
  shows "y < x + 1 \<longleftrightarrow> y \<le> x"
proof -
  have "unat (- 1 :: u64) = 2 ^ 64 - 1" by (simp add: unsigned_minus_1_eq_mask mask_eq_exp_minus_1)
  then have "unat x < 2 ^ 64 - 1" using assms unat_bounds(4) [of x] word_unat_eq_iff [of x "- 1"] by simp
  then have "unat (x + 1) = Suc (unat x)" by (simp add: unat_word_ariths(1))
  then show ?thesis by (simp add: word_less_nat_alt word_le_nat_alt less_Suc_eq_le)
qed

lemma length_keys [simp]:
  "length (inode_key i) = 9" "length (extent_key i x) = 17" "length (snapshot_key s) = 5" "length (subvol_key v) = 5"
  "length (deleted_inode_key i s) = 13"
  by (simp_all add: inode_key_def extent_key_def snapshot_key_def subvol_key_def deleted_inode_key_def)

lemma dirent_key_ok: "length name \<le> 19 \<Longrightarrow> dirent_key p name = Some (KIND_DIRENT # u64_be p @ name)"
  by (simp add: dirent_key_def name_len)

section \<open>Values\<close>

record inode_v1 =
  i_mode :: u32
  i_uid :: u32
  i_gid :: u32
  i_nlink :: u32
  i_size :: u64
  i_atime :: u64
  i_mtime :: u64
  i_ctime :: u64
  i_parent_ino :: u64

record dirent_v1 =
  d_target_ino :: u64
  d_kind :: u8
  d_pad :: bytes

record extent_v1 =
  x_len :: u32
  x_pad :: bytes
  x_data_block :: u64

record snapshot_v1 =
  s_parent_id :: snap_id
  s_flags :: u32
  s_reserved :: bytes

record subvol_v1 =
  v_snap_id :: snap_id
  v_flags :: u32
  v_root_inode :: u64
  v_parent_subvol :: subvol_id
  v_reserved :: bytes

record deleted_inode_v1 =
  del_next_offset :: u64
  del_pad :: bytes

definition inode_bytes :: "inode_v1 \<Rightarrow> bytes" where
  "inode_bytes i = u32_le (i_mode i) @ u32_le (i_uid i) @ u32_le (i_gid i) @ u32_le (i_nlink i) @ u64_le (i_size i)
     @ u64_le (i_atime i) @ u64_le (i_mtime i) @ u64_le (i_ctime i) @ u64_le (i_parent_ino i)"

definition inode_of_bytes :: "bytes \<Rightarrow> inode_v1 option" where
  "inode_of_bytes b = (if length b = 56 then Some \<lparr>i_mode = u32_of_le (bslice 0 4 b), i_uid = u32_of_le (bslice 4 4 b),
     i_gid = u32_of_le (bslice 8 4 b), i_nlink = u32_of_le (bslice 12 4 b), i_size = u64_of_le (bslice 16 8 b),
     i_atime = u64_of_le (bslice 24 8 b), i_mtime = u64_of_le (bslice 32 8 b), i_ctime = u64_of_le (bslice 40 8 b),
     i_parent_ino = u64_of_le (bslice 48 8 b)\<rparr> else None)"

definition dirent_bytes :: "dirent_v1 \<Rightarrow> bytes" where
  "dirent_bytes d = u64_le (d_target_ino d) @ [d_kind d] @ d_pad d"

definition dirent_of_bytes :: "bytes \<Rightarrow> dirent_v1 option" where
  "dirent_of_bytes b = (if length b = 16 then Some \<lparr>d_target_ino = u64_of_le (bslice 0 8 b), d_kind = b ! 8,
     d_pad = bslice 9 7 b\<rparr> else None)"

definition dirent_new :: "u64 \<Rightarrow> u8 \<Rightarrow> dirent_v1" where
  "dirent_new target_ino kind = \<lparr>d_target_ino = target_ino, d_kind = kind, d_pad = replicate 7 0\<rparr>"

definition extent_bytes :: "extent_v1 \<Rightarrow> bytes" where
  "extent_bytes x = u32_le (x_len x) @ x_pad x @ u64_le (x_data_block x)"

definition extent_of_bytes :: "bytes \<Rightarrow> extent_v1 option" where
  "extent_of_bytes b = (if length b = 16 then Some \<lparr>x_len = u32_of_le (bslice 0 4 b), x_pad = bslice 4 4 b,
     x_data_block = u64_of_le (bslice 8 8 b)\<rparr> else None)"

definition snapshot_bytes :: "snapshot_v1 \<Rightarrow> bytes" where
  "snapshot_bytes s = u32_le (s_parent_id s) @ u32_le (s_flags s) @ s_reserved s"

definition snapshot_of_bytes :: "bytes \<Rightarrow> snapshot_v1 option" where
  "snapshot_of_bytes b = (if length b = 24 then Some \<lparr>s_parent_id = u32_of_le (bslice 0 4 b),
     s_flags = u32_of_le (bslice 4 4 b), s_reserved = bslice 8 16 b\<rparr> else None)"

definition subvol_bytes :: "subvol_v1 \<Rightarrow> bytes" where
  "subvol_bytes v = u32_le (v_snap_id v) @ u32_le (v_flags v) @ u64_le (v_root_inode v) @ u32_le (v_parent_subvol v)
     @ v_reserved v"

definition subvol_of_bytes :: "bytes \<Rightarrow> subvol_v1 option" where
  "subvol_of_bytes b = (if length b = 32 then Some \<lparr>v_snap_id = u32_of_le (bslice 0 4 b), v_flags = u32_of_le (bslice 4 4 b),
     v_root_inode = u64_of_le (bslice 8 8 b), v_parent_subvol = u32_of_le (bslice 16 4 b),
     v_reserved = bslice 20 12 b\<rparr> else None)"

definition deleted_bytes :: "deleted_inode_v1 \<Rightarrow> bytes" where
  "deleted_bytes d = u64_le (del_next_offset d) @ del_pad d"

definition deleted_of_bytes :: "bytes \<Rightarrow> deleted_inode_v1 option" where
  "deleted_of_bytes b = (if length b = 16 then Some \<lparr>del_next_offset = u64_of_le (bslice 0 8 b), del_pad = bslice 8 8 b\<rparr> else None)"

definition deleted_new :: deleted_inode_v1 where
  "deleted_new = \<lparr>del_next_offset = 0, del_pad = replicate 8 0\<rparr>"

section \<open>The codec contract\<close>

locale fixed_codec =
  fixes enc :: "'a \<Rightarrow> bytes" and dec :: "bytes \<Rightarrow> 'a option" and wf :: "'a \<Rightarrow> bool" and size :: nat
  assumes length_enc: "wf x \<Longrightarrow> length (enc x) = size"
    and dec_enc: "wf x \<Longrightarrow> dec (enc x) = Some x"
    and dec_total: "length b = size \<Longrightarrow> \<exists>x. dec b = Some x \<and> wf x \<and> enc x = b"
    and dec_size: "length b \<noteq> size \<Longrightarrow> dec b = None"
    and fits: "size \<le> 96"
begin

lemma stored_value: "wf x \<Longrightarrow> take 96 (enc x) = enc x"
  using length_enc [of x] fits by simp

lemma dec_iff: "dec b = Some x \<longleftrightarrow> wf x \<and> b = enc x"
proof
  assume d: "dec b = Some x"
  then have "length b = size" using dec_size [of b] by (cases "length b = size") auto
  then show "wf x \<and> b = enc x" using dec_total [of b] d by auto
qed (use dec_enc in auto)

lemma dec_stored: "wf x \<Longrightarrow> dec (take 96 (enc x)) = Some x"
  by (simp add: stored_value dec_enc)

end

lemma bslice_join: "j = i + n \<Longrightarrow> bslice i n b @ bslice j k b = bslice i (n + k) b"
  by (simp add: bslice_def take_add add.commute [of i n])

lemma bslice_join_rest: "j = i + n \<Longrightarrow> bslice i n b @ bslice j k b @ r = bslice i (n + k) b @ r"
  by (simp add: bslice_join flip: append_assoc)

lemma bslice_Cons: "i < length b \<Longrightarrow> j = Suc i \<Longrightarrow> b ! i # bslice j k b = bslice i (Suc k) b"
  by (simp add: bslice_def Cons_nth_drop_Suc [symmetric])

lemmas codec_simps = bslice_join bslice_join_rest bslice_full u32_le_of_le u64_le_of_le

definition wf_dirent :: "dirent_v1 \<Rightarrow> bool" where "wf_dirent d = (length (d_pad d) = 7)"
definition wf_extent :: "extent_v1 \<Rightarrow> bool" where "wf_extent x = (length (x_pad x) = 4)"
definition wf_snapshot :: "snapshot_v1 \<Rightarrow> bool" where "wf_snapshot s = (length (s_reserved s) = 16)"
definition wf_subvol :: "subvol_v1 \<Rightarrow> bool" where "wf_subvol v = (length (v_reserved v) = 12)"
definition wf_deleted :: "deleted_inode_v1 \<Rightarrow> bool" where "wf_deleted d = (length (del_pad d) = 8)"

interpretation inode_codec: fixed_codec inode_bytes inode_of_bytes "\<lambda>_. True" 56
proof unfold_locales
  show "inode_of_bytes (inode_bytes x) = Some x" for x by (simp add: inode_bytes_def inode_of_bytes_def bslice_def nth_append)
  show "\<exists>x. inode_of_bytes b = Some x \<and> True \<and> inode_bytes x = b" if "length b = 56" for b
    using that by (simp add: inode_bytes_def inode_of_bytes_def codec_simps)
qed (simp_all add: inode_bytes_def inode_of_bytes_def)

interpretation dirent_codec: fixed_codec dirent_bytes dirent_of_bytes wf_dirent 16
proof unfold_locales
  show "dirent_of_bytes (dirent_bytes x) = Some x" if "wf_dirent x" for x using that by (simp add: dirent_bytes_def dirent_of_bytes_def wf_dirent_def bslice_def nth_append)
  show "\<exists>x. dirent_of_bytes b = Some x \<and> wf_dirent x \<and> dirent_bytes x = b" if "length b = 16" for b
    using that by (simp add: dirent_bytes_def dirent_of_bytes_def wf_dirent_def codec_simps bslice_Cons)
qed (simp_all add: dirent_bytes_def dirent_of_bytes_def wf_dirent_def)

interpretation extent_codec: fixed_codec extent_bytes extent_of_bytes wf_extent 16
proof unfold_locales
  show "extent_of_bytes (extent_bytes x) = Some x" if "wf_extent x" for x using that by (simp add: extent_bytes_def extent_of_bytes_def wf_extent_def bslice_def nth_append)
  show "\<exists>x. extent_of_bytes b = Some x \<and> wf_extent x \<and> extent_bytes x = b" if "length b = 16" for b
    using that by (simp add: extent_bytes_def extent_of_bytes_def wf_extent_def codec_simps)
qed (simp_all add: extent_bytes_def extent_of_bytes_def wf_extent_def)

interpretation snapshot_codec: fixed_codec snapshot_bytes snapshot_of_bytes wf_snapshot 24
proof unfold_locales
  show "snapshot_of_bytes (snapshot_bytes x) = Some x" if "wf_snapshot x" for x using that by (simp add: snapshot_bytes_def snapshot_of_bytes_def wf_snapshot_def bslice_def nth_append)
  show "\<exists>x. snapshot_of_bytes b = Some x \<and> wf_snapshot x \<and> snapshot_bytes x = b" if "length b = 24" for b
    using that by (simp add: snapshot_bytes_def snapshot_of_bytes_def wf_snapshot_def codec_simps)
qed (simp_all add: snapshot_bytes_def snapshot_of_bytes_def wf_snapshot_def)

interpretation subvol_codec: fixed_codec subvol_bytes subvol_of_bytes wf_subvol 32
proof unfold_locales
  show "subvol_of_bytes (subvol_bytes x) = Some x" if "wf_subvol x" for x using that by (simp add: subvol_bytes_def subvol_of_bytes_def wf_subvol_def bslice_def nth_append)
  show "\<exists>x. subvol_of_bytes b = Some x \<and> wf_subvol x \<and> subvol_bytes x = b" if "length b = 32" for b
    using that by (simp add: subvol_bytes_def subvol_of_bytes_def wf_subvol_def codec_simps)
qed (simp_all add: subvol_bytes_def subvol_of_bytes_def wf_subvol_def)

interpretation deleted_codec: fixed_codec deleted_bytes deleted_of_bytes wf_deleted 16
proof unfold_locales
  show "deleted_of_bytes (deleted_bytes x) = Some x" if "wf_deleted x" for x using that by (simp add: deleted_bytes_def deleted_of_bytes_def wf_deleted_def bslice_def nth_append)
  show "\<exists>x. deleted_of_bytes b = Some x \<and> wf_deleted x \<and> deleted_bytes x = b" if "length b = 16" for b
    using that by (simp add: deleted_bytes_def deleted_of_bytes_def wf_deleted_def codec_simps)
qed (simp_all add: deleted_bytes_def deleted_of_bytes_def wf_deleted_def)

section \<open>Log records in journal frames\<close>

definition encode_log_record :: "log_record \<Rightarrow> bytes" where
  "encode_log_record rec = [of_nat (length (lr_key rec))] @ lr_key rec @ lr_value rec"

definition decode_log_record :: "u8 \<Rightarrow> bytes \<Rightarrow> error + log_record" where
  "decode_log_record op_kind payload =
     (case payload of
        [] \<Rightarrow> Inl (Io (OtherIo ''malformed journal op record''))
      | b # _ \<Rightarrow>
          let key_len = unat b
          in if length payload < 1 + key_len then Inl (Io (OtherIo ''malformed journal op record''))
             else Inr \<lparr>lr_key = bslice 1 key_len payload, lr_kind = kind_from_u8 op_kind,
                       lr_value = drop (1 + key_len) payload\<rparr>)"

section \<open>The properties of the formats\<close>

text \<open>C25. Keys: byte order of the keys is the order of the numbers in them, and for directory entries of one parent the
  order of the names; a key determines its parts, the parts are recovered from the key, a name is refused
  exactly when the key would not fit, and keys of different kinds, directory entries included, differ in the first
  byte.\<close>

theorem keys_order_and_parts:
  "(inode_key i < inode_key j \<longleftrightarrow> i < j)
     \<and> (extent_key i x < extent_key j y \<longleftrightarrow> i < j \<or> i = j \<and> x < y)
     \<and> (snapshot_key s < snapshot_key t \<longleftrightarrow> s < t) \<and> (subvol_key v < subvol_key w \<longleftrightarrow> v < w)
     \<and> (deleted_inode_key i s < deleted_inode_key j t \<longleftrightarrow> i < j \<or> i = j \<and> s < t)
     \<and> extent_offset_from_key (extent_key i x) = Some x
     \<and> snapshot_id_from_key (snapshot_key s) = Some s \<and> subvol_id_from_key (subvol_key v) = Some v
     \<and> deleted_inode_from_key (deleted_inode_key i s) = Some (i, s)
     \<and> (dirent_key p name = None \<longleftrightarrow> 19 < length name)
     \<and> (case dirent_key p name of None \<Rightarrow> True
         | Some k \<Rightarrow> dirent_name_from_key k = Some name \<and> bslice 1 8 k = u64_be p \<and> length k \<le> 28
             \<and> distinct [hd (inode_key i), hd k, hd (extent_key i x), hd (snapshot_key s), hd (subvol_key v), hd (deleted_inode_key i s)]
             \<and> (case dirent_key q name' of None \<Rightarrow> True | Some k' \<Rightarrow> k < k' \<longleftrightarrow> p < q \<or> p = q \<and> name < name'))"
  by (simp add: inode_key_def extent_key_def snapshot_key_def subvol_key_def deleted_inode_key_def kind_defs
      less_append_same_length extent_offset_from_key_def snapshot_id_from_key_def subvol_id_from_key_def
      deleted_inode_from_key_def dirent_key_def name_len dirent_name_from_key_def DIRENT_PREFIX_LEN_def bslice_def)

lemma between_Suc: "x \<le> y \<and> y < saturating_Suc x \<longleftrightarrow> x \<noteq> - 1 \<and> y = x"
proof (cases "x = - 1")
  case False
  then have "y < x + 1 \<longleftrightarrow> y \<le> x" by (rule less_Suc_word)
  then show ?thesis using False by (auto simp: saturating_Suc_def)
qed (simp add: saturating_Suc_def not_le)

lemma u64_be_le: "u64_be x \<le> u64_be y \<longleftrightarrow> x \<le> y"
  by (metis u64_be_less not_le)

lemma dirent_in_window:
  "in_window (fst (dirent_range p)) (snd (dirent_range p)) (k # u64_be q @ name) \<longleftrightarrow> p \<noteq> - 1 \<and> k = KIND_DIRENT \<and> q = p"
proof -
  have "in_window (fst (dirent_range p)) (snd (dirent_range p)) (k # u64_be q @ name) \<longleftrightarrow> k = KIND_DIRENT \<and> p \<le> q \<and> q < saturating_Suc p"
    unfolding in_window_def dirent_range_def by (auto simp: u64_be_le)
  then show ?thesis using between_Suc [of p q] by blast
qed

lemma extent_in_window:
  "in_window (fst (extent_range i)) (snd (extent_range i)) (k # u64_be j @ u64_be x) \<longleftrightarrow> i \<noteq> - 1 \<and> k = KIND_EXTENT \<and> j = i"
proof -
  have "u64_be i @ u64_be 0 \<le> u64_be j @ u64_be x \<longleftrightarrow> i \<le> j"
    by (metis u64_be_le less_append_same_length length_word_bytes(5) not_le u64_be_less word_not_simps(1))
  then have "in_window (fst (extent_range i)) (snd (extent_range i)) (k # u64_be j @ u64_be x) \<longleftrightarrow> k = KIND_EXTENT \<and> i \<le> j \<and> j < saturating_Suc i"
    unfolding in_window_def extent_range_def extent_key_def by (auto simp: less_append_same_length)
  then show ?thesis using between_Suc [of i j] by blast
qed

text \<open>Scan windows: a directory's range covers exactly the keys that begin with its prefix, and an
  inode's extent range exactly the extent keys of that inode, unless the number is the largest one,
  whose range is empty because the upper bound saturates.\<close>

lemma range_windows:
  "(in_window (fst (dirent_range p)) (snd (dirent_range p)) (k # u64_be q @ name) \<longleftrightarrow> p \<noteq> - 1 \<and> k = KIND_DIRENT \<and> q = p)
     \<and> (in_window (fst (extent_range i)) (snd (extent_range i)) (k # u64_be j @ u64_be x) \<longleftrightarrow> i \<noteq> - 1 \<and> k = KIND_EXTENT \<and> j = i)"
  using dirent_in_window extent_in_window by blast

text \<open>C26. Log records: a record with a sortable key of at most 32 bytes and a value of at most 96 bytes fits
  a journal frame, and decoding the frame's payload gives the record back.\<close>

theorem log_record_roundtrip:
  assumes "length (lr_key r) \<le> 32" "length (lr_value r) \<le> 96"
  shows "\<exists>f p. logged_op seq (kind_to_u8 (lr_kind r)) (encode_log_record r) = Some f \<and> op_payload f = Some p
     \<and> decode_log_record (jf_op_kind f) p = Inr r"
proof -
  let ?e = "encode_log_record r"
  have len: "length ?e = 1 + length (lr_key r) + length (lr_value r)" by (simp add: encode_log_record_def)
  have u: "unat (of_nat (length ?e) :: u16) = length ?e" using assms len by (intro unat_of_nat_small) simp
  have k: "unat (of_nat (length (lr_key r)) :: u8) = length (lr_key r)" using assms(1) by (intro unat_of_nat_small) simp
  obtain f where f: "logged_op seq (kind_to_u8 (lr_kind r)) ?e = Some f" "jf_op_kind f = kind_to_u8 (lr_kind r)"
    "jf_op_len f = of_nat (length ?e)" "jf_op_data f = bsplice 0 ?e (replicate 184 0)"
    using assms len by (simp add: logged_op_def Let_def frame_new_def storage_values)
  have "op_payload f = Some ?e" using f(3,4) u len assms by (simp add: op_payload_def bsplice_def)
  moreover have "decode_log_record (jf_op_kind f) ?e = Inr r"
    using k by (simp add: f(2) decode_log_record_def encode_log_record_def Let_def bslice_def)
  ultimately show ?thesis using f(1) by blast
qed

theorem log_record_roundtrip_witness:
  "\<exists>f p. logged_op 5 (kind_to_u8 Deleted) (encode_log_record \<lparr>lr_key = [1, 0, 0, 0, 9], lr_kind = Deleted, lr_value = []\<rparr>) = Some f
     \<and> op_payload f = Some p \<and> decode_log_record (jf_op_kind f) p = Inr \<lparr>lr_key = [1, 0, 0, 0, 9], lr_kind = Deleted, lr_value = []\<rparr>"
  using log_record_roundtrip [of "\<lparr>lr_key = [1, 0, 0, 0, 9], lr_kind = Deleted, lr_value = []\<rparr>" 5] by simp

end
