(* ===== verification/Fs.thy ===== *)
theory Fs
  imports Fs_Format Journal
begin

text \<open>
  The file system of \<open>fs.rs\<close>: one B-tree holds inodes, directory entries, extents, snapshot and
  subvolume metadata and the deleted-inode work list; file data is in blocks of the same store.
  Operations that return \<open>btree::Result\<close> have error type \<open>error\<close>, those that return \<open>FsResult\<close> have
  error type \<open>fs_error\<close>.  Arithmetic on \<open>u64\<close> and \<open>u32\<close> wraps, as in a release build.
\<close>

section \<open>State and errors\<close>

datatype fs_error = FsBtree error | NotFound | NotADirectory | NotEmpty | AlreadyExists | Exhausted | Invalid | Busy

record fs =
  tree :: btree
  next_ino :: u64
  next_snap_id :: snap_id
  next_subvol_id :: subvol_id
  current_subvol :: subvol_id
  has_journal :: bool
  next_journal_seq :: u64
  last_checkpoint_seq :: u64

type_synonym 'a fs_st = "(fs, error, 'a) st"
type_synonym 'a fsx_st = "(fs, fs_error, 'a) st"

definition JOURNAL_RECLAIM_SOFT_LIMIT :: u64 where "JOURNAL_RECLAIM_SOFT_LIMIT = JOURNAL_CAPACITY - 64"
definition RECLAIM_IN_MEMORY_BUDGET :: nat where "RECLAIM_IN_MEMORY_BUDGET = 128"
definition RECLAIM_COMMIT_RESERVED_FRAMES :: u64 where "RECLAIM_COMMIT_RESERVED_FRAMES = 3"

definition on_btree :: "'a btree_st \<Rightarrow> 'a fs_st" where
  "on_btree m = on_part tree (\<lambda>t f. f\<lparr>tree := t\<rparr>) m"

definition on_fs_store :: "'a store_st \<Rightarrow> 'a fs_st" where
  "on_fs_store m = on_btree (on_tree (on_store m))"

text \<open>\<open>Result::expect\<close>: an error becomes a panic.\<close>

definition unwrapM :: "('s, 'e, 'a) st \<Rightarrow> ('s, 'e, 'a) st" where
  "unwrapM m s = (case m s of (Inl (Err _), s') \<Rightarrow> (Inl Panic, s') | r \<Rightarrow> r)"

text \<open>\<open>?\<close> on a \<open>btree::Result\<close> inside a function that returns \<open>FsResult\<close>.\<close>

definition liftx :: "'a fs_st \<Rightarrow> 'a fsx_st" where
  "liftx m = map_err FsBtree m"

definition ok_or :: "fs_error \<Rightarrow> 'a option \<Rightarrow> 'a fsx_st" where
  "ok_or e x = (case x of None \<Rightarrow> raise (Err e) | Some y \<Rightarrow> ret y)"

text \<open>A subslice \<open>xs[a..b]\<close>, which panics out of range.\<close>

definition range_of :: "nat \<Rightarrow> nat \<Rightarrow> bytes \<Rightarrow> bytes option" where
  "range_of a b xs = (if a \<le> b \<and> b \<le> length xs then Some (bslice a (b - a) xs) else None)"

text \<open>The rows of a scan, decoded; a malformed key or value panics.\<close>

definition decode_rows :: "(bytes \<Rightarrow> 'k option) \<Rightarrow> (bytes \<Rightarrow> 'v option) \<Rightarrow> (bytes \<times> bytes) list \<Rightarrow> ('k \<times> 'v) list fs_st" where
  "decode_rows dk dv rows = mapM (\<lambda>(k, v). bindM (expect (dk k)) (\<lambda>k'. bindM (expect (dv v)) (\<lambda>v'. ret (k', v')))) rows"

text \<open>The value of a lookup, decoded.\<close>

definition decode_value :: "(bytes \<Rightarrow> 'v option) \<Rightarrow> bytes option \<Rightarrow> 'v option fs_st" where
  "decode_value dv b = (case b of None \<Rightarrow> ret None | Some v \<Rightarrow> bindM (expect (dv v)) (\<lambda>x. ret (Some x)))"

section \<open>Snapshots and subvolumes\<close>

definition put_snapshot :: "snap_id \<Rightarrow> snapshot_v1 \<Rightarrow> unit fs_st" where
  "put_snapshot snap sv = on_btree (insert_at (snapshot_key snap) ROOT_SNAP (snapshot_bytes sv))"

definition get_snapshot :: "snap_id \<Rightarrow> snapshot_v1 option fs_st" where
  "get_snapshot snap = bindM (on_btree (find_at (snapshot_key snap) ROOT_SNAP)) (decode_value snapshot_of_bytes)"

definition list_snapshots :: "(snap_id \<times> snapshot_v1) list fs_st" where
  "list_snapshots = bindM (on_btree (range_scan_visible (fst snapshot_range) (snd snapshot_range) [ROOT_SNAP]))
     (decode_rows snapshot_id_from_key snapshot_of_bytes)"

text \<open>Each step goes to a larger snapshot sid, so \<open>2 ^ 32\<close> steps are enough.\<close>

definition CHAIN_FUEL :: nat where "CHAIN_FUEL = 2 ^ 32"

fun chain_loop :: "nat \<Rightarrow> snap_id \<Rightarrow> snap_id list \<Rightarrow> snap_id list fs_st" where
  "chain_loop 0 cur chain = raise Diverge"
| "chain_loop (Suc n) cur chain =
     bindM (get_snapshot cur) (\<lambda>r.
     case r of
       None \<Rightarrow> ret chain
     | Some meta \<Rightarrow>
         if s_parent_id meta = NO_PARENT_SNAP then ret chain
         else if s_parent_id meta \<le> cur then ret chain
         else chain_loop n (s_parent_id meta) (chain @ [s_parent_id meta]))"

definition ancestor_chain :: "snap_id \<Rightarrow> snap_id list fs_st" where
  "ancestor_chain snap = chain_loop CHAIN_FUEL snap [snap]"

fun is_ancestor_loop :: "nat \<Rightarrow> snap_id \<Rightarrow> snap_id \<Rightarrow> bool fs_st" where
  "is_ancestor_loop 0 ancestor cur = raise Diverge"
| "is_ancestor_loop (Suc n) ancestor cur =
     (if cur = ancestor then ret True
      else bindM (get_snapshot cur) (\<lambda>r.
           case r of
             None \<Rightarrow> ret False
           | Some meta \<Rightarrow>
               if s_parent_id meta = NO_PARENT_SNAP \<or> s_parent_id meta \<le> cur then ret False
               else is_ancestor_loop n ancestor (s_parent_id meta)))"

definition is_ancestor :: "snap_id \<Rightarrow> snap_id \<Rightarrow> bool fs_st" where
  "is_ancestor ancestor of_snap = (if ancestor < of_snap then ret False else is_ancestor_loop CHAIN_FUEL ancestor of_snap)"

definition put_subvol :: "subvol_id \<Rightarrow> subvol_v1 \<Rightarrow> unit fs_st" where
  "put_subvol sid sv = on_btree (insert_at (subvol_key sid) ROOT_SNAP (subvol_bytes sv))"

definition get_subvol :: "subvol_id \<Rightarrow> subvol_v1 option fs_st" where
  "get_subvol sid = bindM (on_btree (find_at (subvol_key sid) ROOT_SNAP)) (decode_value subvol_of_bytes)"

definition list_subvols :: "(subvol_id \<times> subvol_v1) list fs_st" where
  "list_subvols = bindM (on_btree (range_scan_visible (fst subvol_range) (snd subvol_range) [ROOT_SNAP]))
     (decode_rows subvol_id_from_key subvol_of_bytes)"

definition list_deleted_inodes :: "(u64 \<times> snap_id \<times> u64) list fs_st" where
  "list_deleted_inodes =
     bindM (on_btree (range_scan_visible (fst deleted_inode_range) (snd deleted_inode_range) [ROOT_SNAP])) (\<lambda>rows.
     bindM (decode_rows deleted_inode_from_key deleted_of_bytes rows) (\<lambda>items.
     ret (map (\<lambda>((ino, snap), progress). (ino, snap, del_next_offset progress)) items)))"

definition current_snap :: "snap_id fs_st" where
  "current_snap =
     bindM (gets current_subvol) (\<lambda>sid.
     bindM (unwrapM (get_subvol sid)) (\<lambda>sv.
     bindM (expect sv) (\<lambda>v. ret (v_snap_id v))))"

definition current_chain :: "snap_id list fs_st" where
  "current_chain = bindM current_snap ancestor_chain"

definition alloc_ino :: "u64 fs_st" where
  "alloc_ino f = (Inr (next_ino f), f\<lparr>next_ino := next_ino f + 1\<rparr>)"

definition alloc_data_block :: "u64 fs_st" where
  "alloc_data_block = on_fs_store alloc"

definition free_data_block :: "u64 \<Rightarrow> unit fs_st" where
  "free_data_block nr = on_fs_store (free nr)"

definition store_next_block_nr :: "fs \<Rightarrow> u64" where
  "store_next_block_nr f = next_block_nr (store (ctx (tree f)))"

definition free_block_count :: "fs \<Rightarrow> u64" where
  "free_block_count f = free_count (store (ctx (tree f)))"

section \<open>Inodes and directory entries\<close>

definition put_at_current :: "bytes \<Rightarrow> bytes \<Rightarrow> unit fs_st" where
  "put_at_current key val = bindM current_snap (\<lambda>snap. on_btree (insert_at key snap val))"

definition find_at_current :: "bytes \<Rightarrow> bytes option fs_st" where
  "find_at_current key = bindM current_chain (\<lambda>chain. on_btree (btree_find_visible key chain))"

definition delete_at_current :: "bytes \<Rightarrow> bool fs_st" where
  "delete_at_current key = bindM current_snap (\<lambda>snap. bindM current_chain (\<lambda>chain. on_btree (delete_at key snap chain)))"

definition put_inode :: "u64 \<Rightarrow> inode_v1 \<Rightarrow> unit fs_st" where
  "put_inode ino inode = put_at_current (inode_key ino) (inode_bytes inode)"

definition get_inode :: "u64 \<Rightarrow> inode_v1 option fs_st" where
  "get_inode ino = bindM (find_at_current (inode_key ino)) (decode_value inode_of_bytes)"

definition delete_inode :: "u64 \<Rightarrow> bool fs_st" where
  "delete_inode ino = delete_at_current (inode_key ino)"

definition put_dirent :: "u64 \<Rightarrow> bytes \<Rightarrow> dirent_v1 \<Rightarrow> unit fs_st" where
  "put_dirent parent name d =
     bindM current_snap (\<lambda>snap. bindM (expect (dirent_key parent name)) (\<lambda>k. on_btree (insert_at k snap (dirent_bytes d))))"

definition lookup_dirent :: "u64 \<Rightarrow> bytes \<Rightarrow> dirent_v1 option fs_st" where
  "lookup_dirent parent name =
     bindM current_chain (\<lambda>chain.
     bindM (expect (dirent_key parent name)) (\<lambda>k.
     bindM (on_btree (btree_find_visible k chain)) (decode_value dirent_of_bytes)))"

definition delete_dirent :: "u64 \<Rightarrow> bytes \<Rightarrow> bool fs_st" where
  "delete_dirent parent name =
     bindM current_snap (\<lambda>snap.
     bindM current_chain (\<lambda>chain.
     bindM (expect (dirent_key parent name)) (\<lambda>k.
     on_btree (delete_at k snap chain))))"

definition list_dirents :: "u64 \<Rightarrow> (bytes \<times> dirent_v1) list fs_st" where
  "list_dirents parent =
     bindM current_chain (\<lambda>chain.
     bindM (on_btree (range_scan_visible (fst (dirent_range parent)) (snd (dirent_range parent)) chain))
       (decode_rows dirent_name_from_key dirent_of_bytes))"

section \<open>Extents and file data\<close>

definition put_extent :: "u64 \<Rightarrow> u64 \<Rightarrow> bytes \<Rightarrow> unit fs_st" where
  "put_extent ino offset data =
     (if BLOCK_SIZE < length data then raise Panic
      else bindM current_snap (\<lambda>snap.
           bindM alloc_data_block (\<lambda>nr.
           bindM (on_fs_store (write_data nr (data @ replicate (BLOCK_SIZE - length data) 0))) (\<lambda>_.
           on_btree (insert_at (extent_key ino offset) snap
             (extent_bytes \<lparr>x_len = of_nat (length data), x_pad = replicate 4 0, x_data_block = nr\<rparr>))))))"

definition get_extent :: "u64 \<Rightarrow> u64 \<Rightarrow> extent_v1 option fs_st" where
  "get_extent ino offset = bindM (find_at_current (extent_key ino offset)) (decode_value extent_of_bytes)"

definition delete_extent :: "u64 \<Rightarrow> u64 \<Rightarrow> bool fs_st" where
  "delete_extent ino offset = delete_at_current (extent_key ino offset)"

definition read_data_block :: "u64 \<Rightarrow> bytes fs_st" where
  "read_data_block nr = on_fs_store (read_data nr)"

definition collect_extents :: "bytes \<Rightarrow> bytes \<Rightarrow> snap_id list \<Rightarrow> (u64 \<times> extent_v1) list fs_st" where
  "collect_extents start en chain =
     bindM (on_btree (range_scan_visible start en chain)) (decode_rows extent_offset_from_key extent_of_bytes)"

definition list_extents :: "u64 \<Rightarrow> (u64 \<times> extent_v1) list fs_st" where
  "list_extents ino = bindM current_chain (collect_extents (fst (extent_range ino)) (snd (extent_range ino)))"

definition extents_in_range :: "u64 \<Rightarrow> u64 \<Rightarrow> u64 \<Rightarrow> (u64 \<times> extent_v1) list fs_st" where
  "extents_in_range ino start_off end_off =
     (if end_off \<le> start_off then ret []
      else bindM current_chain (collect_extents (extent_key ino start_off) (extent_key ino end_off)))"

unbundle bit_operations_syntax

definition block_start :: "u64 \<Rightarrow> u64" where
  "block_start x = x AND NOT (of_nat BLOCK_SIZE - 1)"

fun copy_extents :: "u64 \<Rightarrow> u64 \<Rightarrow> (u64 \<times> extent_v1) list \<Rightarrow> bytes \<Rightarrow> bytes fs_st" where
  "copy_extents offset en [] out = ret out"
| "copy_extents offset en ((ext_off, ext) # xs) out =
     (let ext_end = ext_off + ucast (x_len ext)
      in if ext_end \<le> offset \<or> en \<le> ext_off then copy_extents offset en xs out
         else let copy_start = max offset ext_off; copy_end = min en ext_end
              in bindM (unwrapM (read_data_block (x_data_block ext))) (\<lambda>src_block.
                 bindM (expect (range_of (unat (copy_start - ext_off)) (unat (copy_end - ext_off)) src_block)) (\<lambda>src.
                 let dst_off = unat (copy_start - offset)
                 in if length out < dst_off + length src then raise Panic
                    else copy_extents offset en xs (bsplice dst_off src out))))"

definition fs_read_at :: "u64 \<Rightarrow> u64 \<Rightarrow> u32 \<Rightarrow> bytes fs_st" where
  "fs_read_at ino offset sz =
     bindM (get_inode ino) (\<lambda>r.
     case r of
       None \<Rightarrow> ret []
     | Some inode \<Rightarrow>
         if i_size inode \<le> offset then ret []
         else let en = min (offset + ucast sz) (i_size inode); out_len = unat (en - offset)
              in bindM (extents_in_range ino (block_start offset) en) (\<lambda>xs.
                 copy_extents offset en xs (replicate out_len 0)))"

definition write_block :: "u64 \<Rightarrow> u64 \<Rightarrow> nat \<Rightarrow> bytes \<Rightarrow> unit fs_st" where
  "write_block ino boff in_block part =
     bindM (get_extent ino boff) (\<lambda>r.
     bindM (case r of
              None \<Rightarrow> ret (0, replicate BLOCK_SIZE 0)
            | Some ext \<Rightarrow>
                bindM (unwrapM (read_data_block (x_data_block ext))) (\<lambda>src.
                bindM (expect (range_of 0 (unat (x_len ext)) src)) (\<lambda>old.
                ret (unat (x_len ext), bsplice 0 old (replicate BLOCK_SIZE 0))))) (\<lambda>(existing_len, buf).
     put_extent ino boff (take (max (in_block + length part) existing_len) (bsplice in_block part buf))))"

text \<open>A write proceeds block by block; every round consumes at least one byte.\<close>

lemma unat_block_start: "unat (block_start x) = unat x div 4096 * 4096"
proof -
  have eq: "of_nat BLOCK_SIZE - 1 = (mask 12 :: u64)" by (simp add: mask_eq_exp_minus_1 layout_values)
  have "block_start x = push_bit 12 (drop_bit 12 x)"
    unfolding block_start_def eq by (rule bit_word_eqI) (auto simp: bit_simps)
  moreover have "unat (drop_bit 12 x) = unat x div 4096" by (simp add: drop_bit_eq_div unat_div_distrib)
  moreover have "unat x div 4096 * 4096 < 18446744073709551616" using unat_bounds(4) [of x] div_times_less_eq_dividend [of "unat x" 4096] by linarith
  ultimately show ?thesis by (simp add: push_bit_eq_mult unat_word_ariths(2) mult.commute)
qed

lemma in_block: "unat (x - block_start x) = unat x mod 4096"
proof -
  have "block_start x \<le> x" by (simp add: word_le_nat_alt unat_block_start)
  then have "unat (x - block_start x) = unat x - unat (block_start x)" by (rule unat_sub)
  then show ?thesis by (simp add: unat_block_start minus_div_mult_eq_mod)
qed

function write_loop :: "u64 \<Rightarrow> u64 \<Rightarrow> bytes \<Rightarrow> unit fs_st" where
  "write_loop ino cursor rest =
     (if rest = [] then ret ()
      else let boff = block_start cursor; in_block = unat (cursor - boff); n = min (BLOCK_SIZE - in_block) (length rest)
           in bindM (write_block ino boff in_block (take n rest)) (\<lambda>_.
              write_loop ino (cursor + of_nat n) (drop n rest)))"
  by pat_completeness auto
termination
  by (relation "measure (\<lambda>(ino, cursor, rest). length rest)") (auto simp: in_block layout_values)

declare write_loop.simps [simp del]

definition fs_write_at :: "u64 \<Rightarrow> u64 \<Rightarrow> bytes \<Rightarrow> nat fs_st" where
  "fs_write_at ino offset data = bindM (write_loop ino offset data) (\<lambda>_. ret (length data))"

definition truncate_one :: "u64 \<Rightarrow> u64 \<Rightarrow> u64 \<times> extent_v1 \<Rightarrow> unit fs_st" where
  "truncate_one ino new_size x = (case x of (ext_off, ext) \<Rightarrow>
     let boundary_block = block_start new_size; tail_offset = unat (new_size mod of_nat BLOCK_SIZE)
     in if new_size \<le> ext_off
        then bindM (delete_extent ino ext_off) (\<lambda>_. free_data_block (x_data_block ext))
        else if ext_off = boundary_block \<and> 0 < tail_offset \<and> new_size - ext_off < ucast (x_len ext)
        then bindM (read_data_block (x_data_block ext)) (\<lambda>buf.
             if unat (x_len ext) < tail_offset \<or> length buf < unat (x_len ext) then raise Panic
             else put_extent ino ext_off (take tail_offset (bsplice tail_offset (replicate (unat (x_len ext) - tail_offset) 0) buf)))
        else ret ())"

definition truncate_extents :: "u64 \<Rightarrow> u64 \<Rightarrow> unit fs_st" where
  "truncate_extents ino new_size = bindM (list_extents ino) (\<lambda>xs. forM xs (truncate_one ino new_size))"

section \<open>Deleted inodes\<close>

definition put_deleted_inode :: "u64 \<Rightarrow> snap_id \<Rightarrow> u64 \<Rightarrow> unit fs_st" where
  "put_deleted_inode ino snap next_offset =
     on_btree (insert_at (deleted_inode_key ino snap) ROOT_SNAP (deleted_bytes \<lparr>del_next_offset = next_offset, del_pad = replicate 8 0\<rparr>))"

definition delete_deleted_inode :: "u64 \<Rightarrow> snap_id \<Rightarrow> bool fs_st" where
  "delete_deleted_inode ino snap = on_btree (delete_at (deleted_inode_key ino snap) ROOT_SNAP [ROOT_SNAP])"

text \<open>The inner loop returns whether the scan was finished, the last offset, the budget left and the
  operations issued.\<close>

fun reclaim_extents :: "u64 \<Rightarrow> snap_id \<Rightarrow> snap_id list \<Rightarrow> visible_snap_row list \<Rightarrow> u64 \<Rightarrow> nat \<Rightarrow> nat \<Rightarrow>
    (bool \<times> u64 \<times> nat \<times> nat) fs_st" where
  "reclaim_extents ino snap chain [] last_offset budget issued = ret (True, last_offset, budget, issued)"
| "reclaim_extents ino snap chain ((key, visible_snap, val) # rows) last_offset budget issued =
     (if budget = 0 then ret (False, last_offset, budget, issued)
      else bindM (expect (extent_of_bytes val)) (\<lambda>extent.
           bindM (expect (extent_offset_from_key key)) (\<lambda>offset.
           bindM (on_btree (delete_at (extent_key ino offset) snap chain)) (\<lambda>_.
           bindM (whenM (visible_snap = snap) (free_data_block (x_data_block extent))) (\<lambda>_.
           reclaim_extents ino snap chain rows offset (budget - 1) (issued + 1))))))"

fun reclaim_loop :: "(u64 \<times> snap_id \<times> u64) list \<Rightarrow> nat \<Rightarrow> nat \<Rightarrow> nat fs_st" where
  "reclaim_loop [] budget issued = ret issued"
| "reclaim_loop ((ino, snap, next_offset) # orphans) budget issued =
     (if budget = 0 then ret issued
      else bindM (get_snapshot snap) (\<lambda>meta.
           if meta = None
           then bindM (delete_deleted_inode ino snap) (\<lambda>_. reclaim_loop orphans (budget - 1) (issued + 1))
           else bindM (ancestor_chain snap) (\<lambda>chain.
                bindM (on_btree (range_scan_visible_with_snap (extent_key ino next_offset) (snd (extent_range ino)) chain)) (\<lambda>rows.
                bindM (reclaim_extents ino snap chain rows next_offset budget issued) (\<lambda>(finished, last_offset, budget, issued).
                if finished
                then if budget = 0 then reclaim_loop orphans budget issued
                     else bindM (delete_deleted_inode ino snap) (\<lambda>_. reclaim_loop orphans (budget - 1) (issued + 1))
                else bindM (whenM (saturating_Suc last_offset \<noteq> next_offset) (put_deleted_inode ino snap (saturating_Suc last_offset))) (\<lambda>_.
                     reclaim_loop orphans budget issued))))))"

definition reclaim_deleted_inodes :: "nat \<Rightarrow> nat fs_st" where
  "reclaim_deleted_inodes op_budget = bindM list_deleted_inodes (\<lambda>orphans. reclaim_loop orphans op_budget 0)"

section \<open>Checkpoint, garbage collection and journal commit\<close>

definition sat_sub :: "u64 \<Rightarrow> u64 \<Rightarrow> u64" where
  "sat_sub a b = (if a \<le> b then 0 else a - b)"

definition fs_sync :: "unit fs_st" where
  "fs_sync =
     bindM (on_btree checkpoint) (\<lambda>_.
     bindM (on_fs_store persist_free_list) (\<lambda>free_head.
     bindM (on_fs_store fsync) (\<lambda>_.
     bindM (gets (\<lambda>f. f)) (\<lambda>f.
     let journal_seq = sat_sub (next_journal_seq f) 1;
         sb = \<lparr>sb_magic = SUPERBLOCK_MAGIC, sb_version = SUPERBLOCK_VERSION, sb_root_block = root_block (tree f),
               sb_next_block_nr = next_block_nr (store (ctx (tree f))), sb_next_bset_seq = next_bset_seq (ctx (tree f)),
               sb_next_ino = next_ino f, sb_journal_seq = journal_seq, sb_next_snap_id = next_snap_id f,
               sb_next_subvol_id = next_subvol_id f, sb_current_subvol = current_subvol f, sb_checksum = 0,
               sb_free_head = free_head, sb_reserved = replicate (BLOCK_SIZE - 72) 0\<rparr>
     in bindM (on_fs_store (write_superblock sb)) (\<lambda>_.
        bindM (on_fs_store fsync) (\<lambda>_.
        modify (\<lambda>f. f\<lparr>last_checkpoint_seq := journal_seq\<rparr>)))))))"

definition set_mark :: "u64 \<Rightarrow> bool list \<Rightarrow> bool list" where
  "set_mark nr mark = (if unat nr < length mark then mark[unat nr := True] else mark)"

fun live_data_blocks :: "all_snap_row list \<Rightarrow> u64 list fs_st" where
  "live_data_blocks [] = ret []"
| "live_data_blocks ((logical, snap, kind, val) # rows) =
     (if kind = Live
      then bindM (expect (extent_of_bytes val)) (\<lambda>ext. bindM (live_data_blocks rows) (\<lambda>bs. ret (x_data_block ext # bs)))
      else live_data_blocks rows)"

definition fs_gc :: "u64 fs_st" where
  "fs_gc =
     bindM (gets (\<lambda>f. persistent (store (ctx (tree f))))) (\<lambda>p.
     if \<not> p then ret 0
     else bindM fs_sync (\<lambda>_.
          bindM (gets store_next_block_nr) (\<lambda>hwm.
          bindM (on_btree collect_live_node_blocks) (\<lambda>nodes.
          bindM (on_btree (btree_range_scan_all [KIND_EXTENT] [KIND_EXTENT + 1])) (\<lambda>rows.
          bindM (live_data_blocks rows) (\<lambda>datas.
          bindM (gets (\<lambda>f. store (ctx (tree f)))) (\<lambda>st.
          let mark = fold set_mark (map of_nat [0..<unat FIRST_DATA_BLOCK_NR] @ nodes @ datas @ free_list_snapshot st @ chain_blocks_snapshot st)
                       (replicate (unat hwm) False);
              orphans = filter (\<lambda>nr. \<not> mark ! unat nr) (map of_nat [unat FIRST_DATA_BLOCK_NR..<unat hwm])
          in bindM (forM orphans free_data_block) (\<lambda>_.
             bindM fs_sync (\<lambda>_. ret (of_nat (length orphans)))))))))))"

definition reclaim_budget_for_commit :: "fs \<Rightarrow> nat" where
  "reclaim_budget_for_commit f =
     (let outstanding = sat_sub (next_journal_seq f) (last_checkpoint_seq f);
          headroom = sat_sub JOURNAL_RECLAIM_SOFT_LIMIT outstanding;
          already_spoken_for = of_nat (pending_log_len (tree f)) + RECLAIM_COMMIT_RESERVED_FRAMES
      in unat (sat_sub headroom already_spoken_for))"

definition append_frame :: "journal_frame \<Rightarrow> unit fs_st" where
  "append_frame frame = on_fs_store (modify (\<lambda>s. s\<lparr>device := journal_append (frame_stamp_checksum (crc32 s) frame) (device s)\<rparr>))"

definition next_frame_seq :: "u64 fs_st" where
  "next_frame_seq f = (Inr (next_journal_seq f), f\<lparr>next_journal_seq := next_journal_seq f + 1\<rparr>)"

definition log_frame :: "log_record \<Rightarrow> unit fs_st" where
  "log_frame rec =
     bindM next_frame_seq (\<lambda>seq.
     bindM (expect (logged_op seq (kind_to_u8 (lr_kind rec)) (encode_log_record rec))) append_frame)"

definition commit_frame :: "unit fs_st" where
  "commit_frame =
     bindM next_frame_seq (\<lambda>seq.
     bindM (gets (\<lambda>f. commit_end seq (root_block (tree f)) (store_next_block_nr f) (next_bset_seq (ctx (tree f)))
              (next_ino f) (next_snap_id f) (next_subvol_id f) (current_subvol f))) append_frame)"

definition journal_commit :: "unit fs_st" where
  "journal_commit =
     bindM (gets (\<lambda>f. f)) (\<lambda>f.
     if \<not> has_journal f
     then bindM (reclaim_deleted_inodes RECLAIM_IN_MEMORY_BUDGET) (\<lambda>_. ret ())
     else bindM (whenM (JOURNAL_RECLAIM_SOFT_LIMIT \<le> sat_sub (next_journal_seq f) (last_checkpoint_seq f)) fs_sync) (\<lambda>_.
          bindM (gets reclaim_budget_for_commit) (\<lambda>budget.
          bindM (if 0 < budget then bindM (reclaim_deleted_inodes budget) (\<lambda>_. ret ()) else ret ()) (\<lambda>_.
          bindM (on_btree drain_log) (\<lambda>records.
          bindM (forM records log_frame) (\<lambda>_.
          bindM commit_frame (\<lambda>_.
          on_fs_store fsync)))))))"

section \<open>New, create and open\<close>

definition seed :: "btree \<Rightarrow> error fault + fs" where
  "seed t =
     fst (bindM (unwrapM (put_snapshot ROOT_SNAP \<lparr>s_parent_id = NO_PARENT_SNAP, s_flags = 0, s_reserved = replicate 16 0\<rparr>)) (\<lambda>_.
          bindM (unwrapM (put_subvol ROOT_SUBVOL \<lparr>v_snap_id = ROOT_SNAP, v_flags = 0, v_root_inode = ROOT_INO,
                   v_parent_subvol = 0, v_reserved = replicate 12 0\<rparr>)) (\<lambda>_.
          gets (\<lambda>f. f)))
        \<lparr>tree = t, next_ino = ROOT_INO, next_snap_id = ROOT_SNAP - 1, next_subvol_id = ROOT_SUBVOL + 1,
         current_subvol = ROOT_SUBVOL, has_journal = False, next_journal_seq = 0, last_checkpoint_seq = 0\<rparr>)"

definition fs_new :: "(bytes \<Rightarrow> u32) \<Rightarrow> error fault + fs" where
  "fs_new crc = (case btree_new crc of None \<Rightarrow> Inl Panic | Some t \<Rightarrow> seed t)"

definition fs_create :: "(bytes \<Rightarrow> u32) \<Rightarrow> error fault + fs" where
  "fs_create crc =
     (let st = create_image crc;
          st1 = st\<lparr>device := set_len (unat ((FIRST_JOURNAL_BLOCK + JOURNAL_BLOCKS) * of_nat BLOCK_SIZE)) (device st)\<rparr>
      in case create_in st1 of
           None \<Rightarrow> Inl Panic
         | Some t \<Rightarrow>
             (case seed t of
                Inl e \<Rightarrow> Inl e
              | Inr f \<Rightarrow> fst (bindM (on_btree drain_log) (\<lambda>_. bindM fs_sync (\<lambda>_. gets (\<lambda>f. f)))
                           (f\<lparr>has_journal := True, next_journal_seq := 1\<rparr>))))"

definition pure_result :: "(block_store \<Rightarrow> error fault + 'a) \<Rightarrow> 'a store_st" where
  "pure_result g s = (g s, s)"

text \<open>The free-list chain on disk has at most as many blocks as there are block numbers.\<close>

definition LOAD_FUEL :: nat where "LOAD_FUEL = 2 ^ 52"

definition open_store :: "(superblock \<times> commit_group list \<times> u64) store_st" where
  "open_store =
     bindM read_superblock (\<lambda>sb.
     bindM (pure_result (\<lambda>s. scan_groups (crc32 s) (sb_journal_seq sb + 1) (device s))) (\<lambda>groups.
     bindM (pure_result (\<lambda>s. case next_seq_after_scan (crc32 s) (sb_journal_seq sb + 1) (device s) of Inl e \<Rightarrow> Inl (Err e) | Inr n \<Rightarrow> Inr n)) (\<lambda>next_seq.
     bindM (set_next_block_nr (if groups = [] then sb_next_block_nr sb else jf_next_block_nr (cg_end (last groups)))) (\<lambda>_.
     bindM (whenM (sb_free_head sb \<noteq> 0) (load_free_list LOAD_FUEL (sb_free_head sb))) (\<lambda>_.
     ret (sb, groups, next_seq))))))"

definition replay_frame_op :: "u8 \<times> bytes \<Rightarrow> unit btree_st" where
  "replay_frame_op = (\<lambda>(op_kind, payload).
     case decode_log_record op_kind payload of Inl e \<Rightarrow> raise (Err e) | Inr rec \<Rightarrow> replay_record rec)"

definition fs_open :: "(bytes \<Rightarrow> u32) \<Rightarrow> bytes \<Rightarrow> error fault + fs" where
  "fs_open crc content =
     (case open_store (open_image crc content) of
        (Inl e, _) \<Rightarrow> Inl e
      | (Inr (sb, groups, next_seq), st) \<Rightarrow>
          (case forM groups (\<lambda>g. forM (cg_ops g) replay_frame_op) (reopen st (sb_root_block sb) (sb_next_bset_seq sb)) of
             (Inl e, _) \<Rightarrow> Inl e
           | (Inr _, t) \<Rightarrow>
               (if groups = []
                then Inr \<lparr>tree = t, next_ino = sb_next_ino sb, next_snap_id = sb_next_snap_id sb, next_subvol_id = sb_next_subvol_id sb,
                       current_subvol = sb_current_subvol sb, has_journal = True, next_journal_seq = next_seq,
                       last_checkpoint_seq = sb_journal_seq sb\<rparr>
                else let e = cg_end (last groups)
                     in Inr \<lparr>tree = t, next_ino = jf_next_ino e, next_snap_id = jf_next_snap_id e, next_subvol_id = jf_next_subvol_id e,
                       current_subvol = jf_current_subvol e, has_journal = True, next_journal_seq = next_seq,
                       last_checkpoint_seq = sb_journal_seq sb\<rparr>)))"

section \<open>Directory operations\<close>

definition unlink :: "u64 \<Rightarrow> bytes \<Rightarrow> unit fsx_st" where
  "unlink parent name =
     bindM (liftx current_snap) (\<lambda>snap.
     bindM (liftx current_chain) (\<lambda>chain.
     bindM (liftx (lookup_dirent parent name)) (\<lambda>r.
     bindM (ok_or NotFound r) (\<lambda>dirent.
     bindM (liftx (get_inode (d_target_ino dirent))) (\<lambda>r'.
     bindM (ok_or NotFound r') (\<lambda>inode.
     bindM (expect (dirent_key parent name)) (\<lambda>dirent_k.
     liftx (on_btree (transaction (
       bindM (tx_delete_at dirent_k snap chain) (\<lambda>_.
       if i_nlink inode \<le> 1
       then bindM (tx_delete_at (inode_key (d_target_ino dirent)) snap chain) (\<lambda>_.
            tx_insert (deleted_inode_key (d_target_ino dirent) snap) ROOT_SNAP (deleted_bytes deleted_new))
       else tx_insert (inode_key (d_target_ino dirent)) snap (inode_bytes (inode\<lparr>i_nlink := i_nlink inode - 1\<rparr>)))))))))))))"

definition rmdir :: "u64 \<Rightarrow> bytes \<Rightarrow> unit fsx_st" where
  "rmdir parent name =
     bindM (liftx current_snap) (\<lambda>snap.
     bindM (liftx current_chain) (\<lambda>chain.
     bindM (liftx (lookup_dirent parent name)) (\<lambda>r.
     bindM (ok_or NotFound r) (\<lambda>dirent.
     if d_kind dirent \<noteq> FILE_KIND_DIR then raise (Err NotADirectory)
     else bindM (liftx (list_dirents (d_target_ino dirent))) (\<lambda>entries.
          if entries \<noteq> [] then raise (Err NotEmpty)
          else bindM (expect (dirent_key parent name)) (\<lambda>dirent_k.
               liftx (on_btree (transaction (
                 bindM (tx_delete_at dirent_k snap chain) (\<lambda>_.
                 bindM (tx_delete_at (inode_key (d_target_ino dirent)) snap chain) (\<lambda>_.
                 ret ())))))))))))"

definition rename :: "u64 \<Rightarrow> bytes \<Rightarrow> u64 \<Rightarrow> bytes \<Rightarrow> unit fsx_st" where
  "rename old_parent old_name to_parent to_name =
     bindM (liftx current_snap) (\<lambda>snap.
     bindM (liftx current_chain) (\<lambda>chain.
     bindM (liftx (lookup_dirent old_parent old_name)) (\<lambda>r.
     bindM (ok_or NotFound r) (\<lambda>src_dirent.
     bindM (liftx (lookup_dirent to_parent to_name)) (\<lambda>r'.
     if r' \<noteq> None then raise (Err AlreadyExists)
     else bindM (expect (dirent_key old_parent old_name)) (\<lambda>old_k.
          bindM (expect (dirent_key to_parent to_name)) (\<lambda>new_k.
          liftx (on_btree (transaction (
            bindM (tx_insert new_k snap (dirent_bytes src_dirent)) (\<lambda>_.
            bindM (tx_delete_at old_k snap chain) (\<lambda>_.
            ret ()))))))))))))"

section \<open>Snapshot operations\<close>

definition snapshot_subvol :: "subvol_id \<Rightarrow> subvol_id fsx_st" where
  "snapshot_subvol src =
     bindM (liftx (get_subvol src)) (\<lambda>r.
     bindM (ok_or NotFound r) (\<lambda>src_subvol.
     bindM (gets (\<lambda>f. f)) (\<lambda>f.
     let s_w = next_snap_id f; new_subvol_id = next_subvol_id f
     in if s_w = 0 \<or> s_w = 1 then raise (Err Exhausted)
        else if new_subvol_id = - 1 then raise (Err Exhausted)
        else let s_ro = s_w - 1;
                 snap_w = \<lparr>s_parent_id = v_snap_id src_subvol, s_flags = 0, s_reserved = replicate 16 0\<rparr>;
                 snap_ro = \<lparr>s_parent_id = v_snap_id src_subvol, s_flags = 1, s_reserved = replicate 16 0\<rparr>;
                 dst_subvol = \<lparr>v_snap_id = s_ro, v_flags = SUBVOL_FLAG_READONLY, v_root_inode = v_root_inode src_subvol,
                               v_parent_subvol = src, v_reserved = replicate 12 0\<rparr>
             in bindM (liftx (on_btree (transaction (
                  bindM (tx_insert (snapshot_key s_w) ROOT_SNAP (snapshot_bytes snap_w)) (\<lambda>_.
                  bindM (tx_insert (snapshot_key s_ro) ROOT_SNAP (snapshot_bytes snap_ro)) (\<lambda>_.
                  bindM (tx_insert (subvol_key src) ROOT_SNAP (subvol_bytes (src_subvol\<lparr>v_snap_id := s_w\<rparr>))) (\<lambda>_.
                  tx_insert (subvol_key new_subvol_id) ROOT_SNAP (subvol_bytes dst_subvol)))))))) (\<lambda>_.
                bindM (modify (\<lambda>f. f\<lparr>next_snap_id := s_w - 2, next_subvol_id := new_subvol_id + 1\<rparr>)) (\<lambda>_.
                ret new_subvol_id)))))"

definition switch_subvol :: "subvol_id \<Rightarrow> unit fsx_st" where
  "switch_subvol sid =
     bindM (liftx (get_subvol sid)) (\<lambda>r.
     if r = None then raise (Err NotFound) else modify (\<lambda>f. f\<lparr>current_subvol := sid\<rparr>))"

text \<open>One round of the sweep returns the snapshots that nothing refers to.\<close>

definition sweep_candidates :: "snap_id list fs_st" where
  "sweep_candidates =
     bindM list_subvols (\<lambda>subvols.
     bindM list_snapshots (\<lambda>snapshots.
     let subvol_snaps = set (map (\<lambda>(_, meta). v_snap_id meta) subvols);
         parent_ids = set (filter (\<lambda>p. p \<noteq> NO_PARENT_SNAP) (map (\<lambda>(_, meta). s_parent_id meta) snapshots))
     in ret (map fst (filter (\<lambda>(snap, _). snap \<noteq> ROOT_SNAP \<and> snap \<notin> subvol_snaps \<and> snap \<notin> parent_ids) snapshots))))"

fun sweep_unreferenced_snapshots :: "nat \<Rightarrow> unit fsx_st" where
  "sweep_unreferenced_snapshots 0 = raise Diverge"
| "sweep_unreferenced_snapshots (Suc n) =
     bindM (liftx sweep_candidates) (\<lambda>candidates.
     if candidates = [] then ret ()
     else bindM (liftx (on_btree (transaction (forM candidates (\<lambda>snap.
                  bindM (tx_delete_at (snapshot_key snap) ROOT_SNAP [ROOT_SNAP]) (\<lambda>_. ret ())))))) (\<lambda>_.
          bindM (liftx (forM candidates (\<lambda>snap. bindM (on_btree (drop_snapshot_keys snap)) (\<lambda>_. ret ())))) (\<lambda>_.
          sweep_unreferenced_snapshots n)))"

primrec depends_on :: "subvol_id \<Rightarrow> snap_id \<Rightarrow> (subvol_id \<times> subvol_v1) list \<Rightarrow> bool fs_st" where
  "depends_on subvol dead_snap [] = ret False"
| "depends_on subvol dead_snap (x # xs) =
     (case x of (sid, meta) \<Rightarrow>
        if sid = subvol then depends_on subvol dead_snap xs
        else if v_parent_subvol meta = subvol then ret True
        else bindM (is_ancestor dead_snap (v_snap_id meta)) (\<lambda>b.
             if b then ret True else depends_on subvol dead_snap xs))"

text \<open>Each round of the sweep removes a snapshot, so \<open>2 ^ 32\<close> rounds are enough.\<close>

definition delete_snapshot :: "subvol_id \<Rightarrow> unit fsx_st" where
  "delete_snapshot subvol =
     (if subvol = ROOT_SUBVOL then raise (Err Invalid)
      else bindM (liftx (get_subvol subvol)) (\<lambda>r.
           bindM (ok_or NotFound r) (\<lambda>target.
           bindM (gets current_subvol) (\<lambda>cur.
           if v_flags target AND SUBVOL_FLAG_READONLY = 0 then raise (Err Invalid)
           else if cur = subvol then raise (Err Busy)
           else if v_snap_id target = ROOT_SNAP then raise (Err Invalid)
           else let dead_snap = v_snap_id target
                in bindM (liftx list_snapshots) (\<lambda>snapshots.
                   if \<exists>(_, meta) \<in> set snapshots. s_parent_id meta = dead_snap then raise (Err Busy)
                   else bindM (liftx list_subvols) (\<lambda>subvols.
                        bindM (liftx (depends_on subvol dead_snap subvols)) (\<lambda>busy.
                        if busy then raise (Err Busy)
                        else bindM (liftx (on_btree (transaction (
                               bindM (tx_delete_at (snapshot_key dead_snap) ROOT_SNAP [ROOT_SNAP]) (\<lambda>_.
                               bindM (tx_delete_at (subvol_key subvol) ROOT_SNAP [ROOT_SNAP]) (\<lambda>_.
                               ret ())))))) (\<lambda>_.
                             bindM (liftx (on_btree (drop_snapshot_keys dead_snap))) (\<lambda>_.
                             sweep_unreferenced_snapshots CHAIN_FUEL)))))))))"

end
