(* ===== verification/Fs_View.thy ===== *)
theory Fs_View
  imports Fs
begin

text \<open>
  The file system on the abstract map.  \<open>fsv D f m n\<close>: the tree of \<open>f\<close> stores \<open>m\<close>, the data blocks
  \<open>D\<close> are in place, there is room for \<open>n\<close> tree writes, values have the size of their kind, and the
  active subvolume exists.  Each method gets one rule in these terms.
\<close>

section \<open>Typed maps and metadata\<close>

definition val_size :: "u8 \<Rightarrow> nat option" where
  "val_size k = (if k = KIND_INODE then Some 56 else if k = KIND_DIRENT then Some 16 else if k = KIND_EXTENT then Some 16
     else if k = KIND_SNAPSHOT then Some 24 else if k = KIND_SUBVOL then Some 32 else if k = KIND_DELETED_INODES then Some 16 else None)"

definition key_shape :: "bytes \<Rightarrow> bool" where
  "key_shape l = (case l of [] \<Rightarrow> False
     | k # xs \<Rightarrow> k = KIND_INODE \<and> length xs = 8 \<or> k = KIND_DIRENT \<and> 8 \<le> length xs \<or> k = KIND_EXTENT \<and> length xs = 16
         \<or> k = KIND_SNAPSHOT \<and> length xs = 4 \<or> k = KIND_SUBVOL \<and> length xs = 4 \<or> k = KIND_DELETED_INODES \<and> length xs = 12)"

definition typed :: "kvmap \<Rightarrow> bool" where
  "typed m = ((\<forall>k \<in> dom m. key_shape (logical_of k)) \<and> (\<forall>k v. m k = Some (Live, v) \<longrightarrow> val_size (hd k) = Some (length v)))"

lemma val_sizes [simp]:
  "val_size KIND_INODE = Some 56" "val_size KIND_DIRENT = Some 16" "val_size KIND_EXTENT = Some 16"
  "val_size KIND_SNAPSHOT = Some 24" "val_size KIND_SUBVOL = Some 32" "val_size KIND_DELETED_INODES = Some 16"
  by (simp_all add: val_size_def kind_defs)

lemma key_shapes [simp]:
  "key_shape (inode_key i)" "key_shape (extent_key i x)" "key_shape (snapshot_key s)" "key_shape (subvol_key v)"
  "key_shape (deleted_inode_key i s)" "key_shape (KIND_DIRENT # u64_be p @ name)"
  by (simp_all add: key_shape_def inode_key_def extent_key_def snapshot_key_def subvol_key_def deleted_inode_key_def kind_defs)

lemma key_shape_ne: "key_shape l \<Longrightarrow> l \<noteq> []"
  by (auto simp: key_shape_def)

lemma typed_put:
  assumes "typed m" "key_shape l" "kd = Live \<Longrightarrow> val_size (hd l) = Some (length v)" "length v \<le> 96"
  shows "typed (put_map l snap kd v m)"
  using assms key_shape_ne [OF assms(2)] by (auto simp: typed_def put_map_def)

lemma typed_mark: "typed m \<Longrightarrow> l @ u32_be snap \<in> dom m \<Longrightarrow> typed (mark_map l snap m)"
  by (auto simp: typed_def mark_map_def dom_def) (metis sortable_parts(1))

lemma typed_delete:
  assumes "typed m"
  shows "typed (delete_map l snap chain m)"
proof (cases "visible m l chain")
  case (Some r)
  obtain v s where r: "r = (v, s)" by (cases r)
  then have s: "l @ u32_be s \<in> dom m" using visible_snap [of m l chain v s] Some by auto
  then have "key_shape l" using assms by (force simp: typed_def)
  then show ?thesis using Some r s assms typed_put [OF assms, of l Whiteout "[]" snap] typed_mark [OF assms, of l s]
    by (auto simp: delete_map_def)
qed (simp add: assms delete_map_def)

lemma typed_visible:
  assumes "typed m" "visible m (k # l) chain = Some (v, s)" "val_size k = Some n"
  shows "length v = n"
  using assms visible_snap [OF assms(2)] by (force simp: typed_def)

lemma live_iff: "live x = Some v \<longleftrightarrow> x = Some (Live, v)"
  by (cases x) (auto simp: live_def split: entry_kind.splits)

definition subvol_meta :: "kvmap \<Rightarrow> subvol_id \<Rightarrow> subvol_v1 option" where
  "subvol_meta m i = (case live (m (subvol_key i @ u32_be ROOT_SNAP)) of None \<Rightarrow> None | Some v \<Rightarrow> subvol_of_bytes v)"

definition snap_meta :: "kvmap \<Rightarrow> snap_id \<Rightarrow> snapshot_v1 option" where
  "snap_meta m s = (case live (m (snapshot_key s @ u32_be ROOT_SNAP)) of None \<Rightarrow> None | Some v \<Rightarrow> snapshot_of_bytes v)"

text \<open>The parent link that the ancestor walk follows, and the chain it makes.\<close>

definition parent :: "kvmap \<Rightarrow> snap_id \<Rightarrow> snap_id option" where
  "parent m s = (case snap_meta m s of None \<Rightarrow> None
     | Some x \<Rightarrow> if s_parent_id x = NO_PARENT_SNAP \<or> s_parent_id x \<le> s then None else Some (s_parent_id x))"

lemma parent_greater: "parent m s = Some p \<Longrightarrow> s < p"
  by (auto simp: parent_def split: option.splits if_splits)

function chain_of :: "kvmap \<Rightarrow> snap_id \<Rightarrow> snap_id list" where
  "chain_of m s = s # (case parent m s of None \<Rightarrow> [] | Some p \<Rightarrow> chain_of m p)"
  by pat_completeness auto
termination
proof (relation "measure (\<lambda>(m, s). 2 ^ 32 - unat s)")
  fix m s p assume "parent m s = Some p"
  then have "unat s < unat p" using parent_greater word_less_nat_alt by blast
  then show "((m, p), (m, s)) \<in> measure (\<lambda>(m, s). 2 ^ 32 - unat s)" using unat_bounds(3) [of p] by simp
qed simp

declare chain_of.simps [simp del]

lemma chain_ge: "x \<in> set (chain_of m s) \<Longrightarrow> s \<le> x"
proof (induction m s rule: chain_of.induct)
  case (1 m s)
  have x: "x \<in> set (s # (case parent m s of None \<Rightarrow> [] | Some p \<Rightarrow> chain_of m p))"
    using 1(2) by (subst (asm) chain_of.simps)
  show ?case
  proof (cases "parent m s")
    case (Some p)
    then have "x = s \<or> p \<le> x" using x 1(1) [OF Some] by auto
    then show ?thesis using parent_greater [OF Some] by auto
  qed (use x in simp)
qed

lemma sorted_chain: "sorted_keys (chain_of m s)"
proof (induction m s rule: chain_of.induct)
  case (1 m s)
  show ?case
  proof (cases "parent m s")
    case (Some p)
    then show ?thesis using 1 parent_greater [OF Some] chain_ge [of _ m p] by (subst chain_of.simps) fastforce
  qed (simp add: chain_of.simps)
qed

lemma hd_chain: "\<exists>ss. chain_of m s = s # ss"
  by (subst chain_of.simps) simp

lemma chain_cong: "(\<And>s. snap_meta m' s = snap_meta m s) \<Longrightarrow> chain_of m' s = chain_of m s"
proof (induction m s rule: chain_of.induct)
  case (1 m s)
  have "parent m' s = parent m s" using 1(2) by (simp add: parent_def)
  then show ?case using 1(1) [OF _ 1(2)] by (subst (1 2) chain_of.simps) (auto split: option.splits)
qed

section \<open>The view\<close>

definition fsv :: "(u64 \<rightharpoonup> bytes) \<Rightarrow> fs \<Rightarrow> kvmap \<Rightarrow> nat \<Rightarrow> bool" where
  "fsv D f m n = (stored D (tree f) m \<and> room n (tree f) \<and> typed m \<and> subvol_meta m (current_subvol f) \<noteq> None)"

text \<open>What a read leaves alone.\<close>

definition same :: "fs \<Rightarrow> fs \<Rightarrow> bool" where
  "same f f' = (\<exists>t. f' = f\<lparr>tree := t\<rparr> \<and> journal_of t = journal_of (tree f))"

lemma same_refl [simp]: "same f f"
  by (auto simp: same_def intro: exI [of _ "tree f"])

lemma same_trans: "same f f' \<Longrightarrow> same f' f'' \<Longrightarrow> same f f''"
  by (auto simp: same_def)

lemma same_fields:
  "same f f' \<Longrightarrow> current_subvol f' = current_subvol f \<and> next_ino f' = next_ino f \<and> next_snap_id f' = next_snap_id f
     \<and> next_subvol_id f' = next_subvol_id f \<and> journal_of (tree f') = journal_of (tree f)"
  by (auto simp: same_def)

definition reads :: "'a fs_st \<Rightarrow> (u64 \<rightharpoonup> bytes) \<Rightarrow> fs \<Rightarrow> kvmap \<Rightarrow> nat \<Rightarrow> 'a \<Rightarrow> bool" where
  "reads op D f m n r = runs op f (\<lambda>x f'. x = r \<and> fsv D f' m n \<and> same f f')"

lemma on_btree_runs: "runs (on_btree g) f P = runs g (tree f) (\<lambda>r t. P r (f\<lparr>tree := t\<rparr>))"
  by (simp add: on_btree_def runs_on_part)

lemma reads_bind:
  assumes "reads op D f m n x" "\<And>f'. fsv D f' m n \<Longrightarrow> same f f' \<Longrightarrow> reads (g x) D f' m n r"
  shows "reads (bindM op g) D f m n r"
  unfolding reads_def runs_bind
proof (rule runs_mono [OF assms(1) [unfolded reads_def]])
  fix y f' assume y: "y = x \<and> fsv D f' m n \<and> same f f'"
  then have "runs (g y) f' (\<lambda>z f''. z = r \<and> fsv D f'' m n \<and> same f' f'')" using assms(2) by (simp add: reads_def)
  then show "runs (g y) f' (\<lambda>z f''. z = r \<and> fsv D f'' m n \<and> same f f'')"
    by (rule runs_mono) (use y same_trans in blast)
qed

lemma reads_ret [simp]: "reads (ret x) D f m n r = (x = r \<and> fsv D f m n)"
  by (simp add: reads_def)

lemma reads_gets: "fsv D f m n \<Longrightarrow> reads (gets h) D f m n (h f)"
  by (simp add: reads_def)

lemma reads_tree:
  assumes "runs g (tree f) (\<lambda>x t. x = r \<and> stored D t m \<and> room n t \<and> journal_of t = journal_of (tree f))" "fsv D f m n"
  shows "reads (on_btree g) D f m n r"
  unfolding reads_def on_btree_runs
  by (rule runs_mono [OF assms(1)]) (use assms(2) in \<open>auto simp: fsv_def same_def\<close>)

lemma reads_runs: "reads op D f m n r \<Longrightarrow> (\<And>f'. fsv D f' m n \<Longrightarrow> same f f' \<Longrightarrow> runs (g r) f' P) \<Longrightarrow> runs (bindM op g) f P"
  unfolding reads_def runs_bind by (erule runs_mono) auto

lemma reads_result: "reads op D f m n r \<Longrightarrow> \<exists>f'. op f = (Inr r, f') \<and> fsv D f' m n \<and> same f f'"
  unfolding reads_def by (drule runs_result) auto

lemma expect_runs [simp]: "runs (expect x) s P = (case x of None \<Rightarrow> False | Some y \<Rightarrow> P y s)"
  by (cases x) (simp_all add: expect_def)

lemma reads_expect: "x = Some r \<Longrightarrow> fsv D f m n \<Longrightarrow> reads (expect x) D f m n r"
  by (simp add: reads_def)

lemma unwrap_reads: "reads op D f m n r \<Longrightarrow> reads (unwrapM op) D f m n r"
  by (auto simp: reads_def runs_def unwrapM_def split: prod.splits sum.splits)

section \<open>Metadata reads\<close>

lemma decode_value_reads:
  assumes "fsv D f m n" "\<And>v. b = Some v \<Longrightarrow> dv v \<noteq> None"
  shows "reads (decode_value dv b) D f m n (case b of None \<Rightarrow> None | Some v \<Rightarrow> dv v)"
  using assms by (cases b) (auto simp: decode_value_def reads_def)

lemma find_at_reads:
  assumes "fsv D f m n" "length l \<le> 28"
  shows "reads (on_btree (find_at l s)) D f m n (live (m (l @ u32_be s)))"
  using assms by (intro reads_tree find_stored) (auto simp: fsv_def)

lemma get_snapshot_reads:
  assumes "fsv D f m n"
  shows "reads (get_snapshot s) D f m n (snap_meta m s)"
  unfolding get_snapshot_def
proof (rule reads_bind [OF find_at_reads [OF assms]])
  fix f' assume f': "fsv D f' m n"
  have "snapshot_of_bytes v \<noteq> None" if "live (m (snapshot_key s @ u32_be ROOT_SNAP)) = Some v" for v
    using assms that snapshot_codec.dec_total [of v] by (force simp: fsv_def typed_def live_iff snapshot_key_def)
  then show "reads (decode_value snapshot_of_bytes (live (m (snapshot_key s @ u32_be ROOT_SNAP)))) D f' m n (snap_meta m s)"
    unfolding snap_meta_def by (rule decode_value_reads [OF f'])
qed simp

lemma get_subvol_reads:
  assumes "fsv D f m n"
  shows "reads (get_subvol i) D f m n (subvol_meta m i)"
  unfolding get_subvol_def
proof (rule reads_bind [OF find_at_reads [OF assms]])
  fix f' assume f': "fsv D f' m n"
  have "subvol_of_bytes v \<noteq> None" if "live (m (subvol_key i @ u32_be ROOT_SNAP)) = Some v" for v
    using assms that subvol_codec.dec_total [of v] by (force simp: fsv_def typed_def live_iff subvol_key_def)
  then show "reads (decode_value subvol_of_bytes (live (m (subvol_key i @ u32_be ROOT_SNAP)))) D f' m n (subvol_meta m i)"
    unfolding subvol_meta_def by (rule decode_value_reads [OF f'])
qed simp

lemma chain_loop_reads:
  "fsv D f m n \<Longrightarrow> 2 ^ 32 - unat s \<le> k \<Longrightarrow> reads (chain_loop k s acc) D f m n (acc @ tl (chain_of m s))"
proof (induction k arbitrary: f s acc)
  case 0
  then show ?case using unat_bounds(3) [of s] by simp
next
  case (Suc k)
  show ?case
    unfolding chain_loop.simps
  proof (rule reads_bind [OF get_snapshot_reads [OF Suc.prems(1)]])
    fix f' assume f': "fsv D f' m n"
    show "reads (case snap_meta m s of None \<Rightarrow> ret acc | Some meta \<Rightarrow>
         if s_parent_id meta = NO_PARENT_SNAP then ret acc else if s_parent_id meta \<le> s then ret acc
         else chain_loop k (s_parent_id meta) (acc @ [s_parent_id meta])) D f' m n (acc @ tl (chain_of m s))"
    proof (cases "parent m s")
      case None
      then show ?thesis using f' by (subst chain_of.simps) (auto simp: parent_def split: option.splits if_splits)
    next
      case (Some p)
      then obtain x where x: "snap_meta m s = Some x" "s_parent_id x = p" "p \<noteq> NO_PARENT_SNAP" "\<not> p \<le> s"
        by (auto simp: parent_def split: option.splits if_splits)
      have "unat s < unat p" using x(4) by (simp add: word_le_nat_alt)
      then have "reads (chain_loop k p (acc @ [p])) D f' m n ((acc @ [p]) @ tl (chain_of m p))"
        using Suc.prems(2) unat_bounds(3) [of p] by (intro Suc.IH [OF f']) simp
      moreover have "chain_of m s = s # p # tl (chain_of m p)" using Some hd_chain [of m p] by (subst chain_of.simps) auto
      ultimately show ?thesis using x by simp
    qed
  qed
qed

lemma ancestor_chain_reads:
  assumes "fsv D f m n"
  shows "reads (ancestor_chain s) D f m n (chain_of m s)"
  using chain_loop_reads [OF assms, of s CHAIN_FUEL "[s]"] hd_chain [of m s] by (auto simp: ancestor_chain_def CHAIN_FUEL_def)

definition active :: "fs \<Rightarrow> kvmap \<Rightarrow> snap_id" where
  "active f m = v_snap_id (the (subvol_meta m (current_subvol f)))"

abbreviation active_chain :: "fs \<Rightarrow> kvmap \<Rightarrow> snap_id list" where
  "active_chain f m \<equiv> chain_of m (active f m)"

lemma active_same: "same f f' \<Longrightarrow> active f' m = active f m"
  by (auto simp: active_def same_def)

lemma current_snap_reads:
  assumes "fsv D f m n"
  shows "reads current_snap D f m n (active f m)"
proof -
  obtain v where v: "subvol_meta m (current_subvol f) = Some v" using assms by (auto simp: fsv_def)
  have "active f m = v_snap_id v" by (simp add: active_def v)
  then show ?thesis
    unfolding current_snap_def
    by (intro reads_bind [OF reads_gets [OF assms]] reads_bind [OF unwrap_reads [OF get_subvol_reads]] reads_bind [OF reads_expect])
      (simp_all add: v)
qed

lemma current_chain_reads:
  assumes "fsv D f m n"
  shows "reads current_chain D f m n (active_chain f m)"
  unfolding current_chain_def by (intro reads_bind [OF current_snap_reads [OF assms]] ancestor_chain_reads)

section \<open>Lookups and writes of file keys\<close>

text \<open>File keys do not touch snapshot or subvolume metadata.\<close>

definition file_key :: "bytes \<Rightarrow> bool" where
  "file_key l = (key_shape l \<and> length l \<le> 28 \<and> hd l \<noteq> KIND_SNAPSHOT \<and> hd l \<noteq> KIND_SUBVOL)"

lemma file_keys [simp]:
  "file_key (inode_key i)" "file_key (extent_key i x)" "file_key (deleted_inode_key i s)"
  "length name \<le> 19 \<Longrightarrow> file_key (KIND_DIRENT # u64_be p @ name)"
  by (simp_all add: file_key_def) (simp_all add: inode_key_def extent_key_def deleted_inode_key_def kind_defs)

lemma meta_keys_ne:
  assumes "file_key l"
  shows "subvol_key i \<noteq> l" "snapshot_key i \<noteq> l"
  using assms by (auto simp: file_key_def subvol_key_def snapshot_key_def)

lemma meta_put:
  assumes "file_key l"
  shows "subvol_meta (put_map l s kd v m) i = subvol_meta m i" "snap_meta (put_map l s kd v m) x = snap_meta m x"
  using meta_keys_ne [OF assms] by (simp_all add: subvol_meta_def snap_meta_def put_map_def)

lemma meta_mark:
  assumes "file_key l"
  shows "subvol_meta (mark_map l s m) i = subvol_meta m i" "snap_meta (mark_map l s m) x = snap_meta m x"
  using meta_keys_ne [OF assms] by (simp_all add: subvol_meta_def snap_meta_def mark_map_def)

lemma meta_delete:
  assumes "file_key l"
  shows "subvol_meta (delete_map l s chain m) i = subvol_meta m i" "snap_meta (delete_map l s chain m) x = snap_meta m x"
  by (auto simp: delete_map_def meta_put [OF assms] meta_mark [OF assms] split: option.splits)

text \<open>Two maps with the same metadata have the same chains.\<close>

definition meta_eq :: "kvmap \<Rightarrow> kvmap \<Rightarrow> bool" where
  "meta_eq m m' = ((\<forall>i. subvol_meta m' i = subvol_meta m i) \<and> (\<forall>s. snap_meta m' s = snap_meta m s))"

lemma meta_eq_file:
  "file_key l \<Longrightarrow> meta_eq m (put_map l s kd v m)" "file_key l \<Longrightarrow> meta_eq m (delete_map l s chain m)"
  by (simp_all add: meta_eq_def meta_put meta_delete)

lemma meta_eq_trans: "meta_eq m m' \<Longrightarrow> meta_eq m' m'' \<Longrightarrow> meta_eq m m''"
  by (simp add: meta_eq_def)

lemma meta_eq_chain: "meta_eq m m' \<Longrightarrow> chain_of m' s = chain_of m s"
  by (rule chain_cong) (simp add: meta_eq_def)

lemma meta_eq_active: "meta_eq m m' \<Longrightarrow> current_subvol f' = current_subvol f \<Longrightarrow> active f' m' = active f m"
  by (simp add: active_def meta_eq_def)

text \<open>The fields of the file system that tree writes leave alone.\<close>

definition keeps :: "fs \<Rightarrow> fs \<Rightarrow> bool" where
  "keeps f f' = (\<exists>t. f' = f\<lparr>tree := t\<rparr>)"

lemma keeps_refl [simp]: "keeps f f"
  by (auto simp: keeps_def intro: exI [of _ "tree f"])

lemma keeps_trans: "keeps f f' \<Longrightarrow> keeps f' f'' \<Longrightarrow> keeps f f''"
  by (auto simp: keeps_def)

lemma same_keeps: "same f f' \<Longrightarrow> keeps f f'"
  by (auto simp: same_def keeps_def)

lemma keeps_fields: "keeps f f' \<Longrightarrow> current_subvol f' = current_subvol f \<and> next_ino f' = next_ino f \<and> next_snap_id f' = next_snap_id f
     \<and> next_subvol_id f' = next_subvol_id f"
  by (auto simp: keeps_def)

lemma fsv_le: "fsv D f m n \<Longrightarrow> k \<le> n \<Longrightarrow> fsv D f m k"
  by (auto simp: fsv_def intro: room_le)

lemma find_current_reads:
  assumes "fsv D f m n" "length l \<le> 28"
  shows "reads (find_at_current l) D f m n (map_option fst (visible m l (active_chain f m)))"
  unfolding find_at_current_def
proof (rule reads_bind [OF current_chain_reads [OF assms(1)]])
  fix f' assume f': "fsv D f' m n"
  then have v: "volume (ctx (tree f')) (root_block (tree f')) m D" "room n (tree f')" by (simp_all add: fsv_def stored_def)
  have "runs (btree_find_visible l (active_chain f m)) (tree f') (\<lambda>x t. x = map_option fst (visible m l (active_chain f m))
      \<and> stored D t m \<and> room n t \<and> journal_of t = journal_of (tree f'))"
    unfolding btree_find_visible_def on_root_runs find_visible_def runs_bind
    using v room_alloc_ok [OF v(2)] assms(2)
    by (intro runs_mono [OF volume_look [OF v(1) _ _ sorted_chain]])
      (auto simp: room_def journal_of_def intro: volume_quiet quiet_sane)
  then show "reads (on_btree (btree_find_visible l (active_chain f m))) D f' m n (map_option fst (visible m l (active_chain f m)))"
    by (rule reads_tree [OF _ f'])
qed

lemma tree_put_runs:
  assumes "fsv D f m (Suc n)" "file_key l" "val_size (hd l) = Some (length v)" "length v \<le> 96"
  shows "runs (on_btree (insert_at l s v)) f (\<lambda>_ f'. fsv D f' (put_map l s Live v m) n \<and> keeps f f')"
proof -
  have "runs (insert_with_kind l s Live v) (tree f) (\<lambda>_ t. stored D t (put_map l s Live v m) \<and> room n t
      \<and> journal_of t = logs [log_put l s Live v] (journal_of (tree f)))"
    using assms by (intro put_stored) (auto simp: fsv_def file_key_def)
  moreover have "typed (put_map l s Live v m)" using assms by (intro typed_put) (auto simp: fsv_def file_key_def)
  ultimately show ?thesis
    unfolding on_btree_runs insert_at_def
    using assms(1) meta_put [OF assms(2)] by (elim runs_mono) (auto simp: fsv_def keeps_def)
qed

lemma put_current_runs:
  assumes "fsv D f m (Suc n)" "file_key l" "val_size (hd l) = Some (length v)" "length v \<le> 96"
  shows "runs (put_at_current l v) f (\<lambda>_ f'. fsv D f' (put_map l (active f m) Live v m) n \<and> keeps f f')"
  unfolding put_at_current_def
proof (rule reads_runs [OF current_snap_reads [OF assms(1)]])
  fix f' assume f': "fsv D f' m (Suc n)" "same f f'"
  show "runs (on_btree (insert_at l (active f m) v)) f' (\<lambda>_ f'. fsv D f' (put_map l (active f m) Live v m) n \<and> keeps f f')"
    by (rule runs_mono [OF tree_put_runs [OF f'(1) assms(2-4)]]) (use keeps_trans [OF same_keeps [OF f'(2)]] in blast)
qed

lemma tree_delete_runs:
  assumes "fsv D f m (Suc n)" "file_key l" "sorted_keys chain"
  shows "runs (on_btree (delete_at l s chain)) f (\<lambda>r f'. r = (visible m l chain \<noteq> None) \<and> fsv D f' (delete_map l s chain m) n \<and> keeps f f')"
proof -
  have "runs (delete_at l s chain) (tree f) (\<lambda>r t. r = (visible m l chain \<noteq> None) \<and> stored D t (delete_map l s chain m) \<and> room n t
     \<and> journal_of t = logs (op_log (KDel l s chain) m) (journal_of (tree f)))"
    using assms by (intro direct.del_law) (auto simp: fsv_def file_key_def)
  moreover have "typed (delete_map l s chain m)" using assms(1) by (intro typed_delete) (simp add: fsv_def)
  ultimately show ?thesis
    unfolding on_btree_runs
    using assms(1) meta_delete [OF assms(2)] by (elim runs_mono) (auto simp: fsv_def keeps_def)
qed

lemma delete_current_runs:
  assumes "fsv D f m (Suc n)" "file_key l"
  shows "runs (delete_at_current l) f (\<lambda>r f'. r = (visible m l (active_chain f m) \<noteq> None)
     \<and> fsv D f' (delete_map l (active f m) (active_chain f m) m) n \<and> keeps f f')"
  unfolding delete_at_current_def
proof (rule reads_runs [OF current_snap_reads [OF assms(1)]], rule reads_runs [OF current_chain_reads])
  fix f' f'' assume f': "fsv D f' m (Suc n)" "same f f'" "fsv D f'' m (Suc n)" "same f' f''"
  then have k: "keeps f f''" using same_trans same_keeps by blast
  show "runs (on_btree (delete_at l (active f m) (active_chain f' m))) f'' (\<lambda>r f'. r = (visible m l (active_chain f m) \<noteq> None)
     \<and> fsv D f' (delete_map l (active f m) (active_chain f m) m) n \<and> keeps f f')"
    unfolding active_same [OF f'(2)]
    by (rule runs_mono [OF tree_delete_runs [OF f'(3) assms(2) sorted_chain]]) (use keeps_trans [OF k] in blast)
qed assumption

section \<open>A fresh file system\<close>

definition seed_snapshot :: snapshot_v1 where
  "seed_snapshot = \<lparr>s_parent_id = NO_PARENT_SNAP, s_flags = 0, s_reserved = replicate 16 0\<rparr>"

definition seed_subvol :: subvol_v1 where
  "seed_subvol = \<lparr>v_snap_id = ROOT_SNAP, v_flags = 0, v_root_inode = ROOT_INO, v_parent_subvol = 0, v_reserved = replicate 12 0\<rparr>"

definition seed_map :: kvmap where
  "seed_map = put_map (subvol_key ROOT_SUBVOL) ROOT_SNAP Live (subvol_bytes seed_subvol)
     (put_map (snapshot_key ROOT_SNAP) ROOT_SNAP Live (snapshot_bytes seed_snapshot) Map.empty)"

lemma seed_values:
  "wf_snapshot seed_snapshot" "wf_subvol seed_subvol" "length (snapshot_bytes seed_snapshot) = 24" "length (subvol_bytes seed_subvol) = 32"
  using snapshot_codec.length_enc [of seed_snapshot] subvol_codec.length_enc [of seed_subvol]
  by (simp_all add: wf_snapshot_def seed_snapshot_def wf_subvol_def seed_subvol_def)

lemma subvol_ne_snapshot: "subvol_key i \<noteq> snapshot_key s"
  by (simp add: subvol_key_def snapshot_key_def kind_defs)

lemma key_inj [simp]: "subvol_key i = subvol_key j \<longleftrightarrow> i = j" "snapshot_key s = snapshot_key t \<longleftrightarrow> s = t"
  "inode_key a = inode_key b \<longleftrightarrow> a = b" "extent_key a x = extent_key b y \<longleftrightarrow> a = b \<and> x = y"
  by (simp_all add: subvol_key_def snapshot_key_def inode_key_def extent_key_def)

lemma seed_meta:
  "subvol_meta seed_map i = (if i = ROOT_SUBVOL then Some seed_subvol else None)"
  "snap_meta seed_map s = (if s = ROOT_SNAP then Some seed_snapshot else None)"
  using seed_values subvol_codec.dec_enc [OF seed_values(2)] snapshot_codec.dec_enc [OF seed_values(1)] subvol_ne_snapshot
  by (auto simp: subvol_meta_def snap_meta_def seed_map_def put_map_def dest: not_sym)

lemma seed_chain: "chain_of seed_map ROOT_SNAP = [ROOT_SNAP]"
  by (subst chain_of.simps) (simp add: parent_def seed_meta seed_snapshot_def)

lemma seed_typed: "typed seed_map"
  unfolding seed_map_def using seed_values
  by (intro typed_put) (simp_all add: typed_def, simp_all add: subvol_key_def snapshot_key_def)

lemma unwrap_runs: "runs m s P \<Longrightarrow> runs (unwrapM m) s P"
  by (auto simp: runs_def unwrapM_def split: prod.splits sum.splits)

lemma put_any_runs:
  assumes "stored D (tree f) m" "room (Suc n) (tree f)" "length l \<le> 28"
  shows "runs (on_btree (insert_at l s v)) f (\<lambda>_ f'. stored D (tree f') (put_map l s Live v m) \<and> room n (tree f') \<and> keeps f f')"
  unfolding on_btree_runs insert_at_def
  by (rule runs_mono [OF put_stored [OF assms]]) (auto simp: keeps_def)

lemma seed_ok:
  assumes "stored D t Map.empty" "room (Suc (Suc n)) t"
  shows "\<exists>f. seed t = Inr f \<and> fsv D f seed_map n \<and> active f seed_map = ROOT_SNAP
     \<and> next_snap_id f = ROOT_SNAP - 1 \<and> next_subvol_id f = ROOT_SUBVOL + 1 \<and> current_subvol f = ROOT_SUBVOL"
proof -
  define f0 where "f0 = \<lparr>tree = t, next_ino = ROOT_INO, next_snap_id = ROOT_SNAP - 1, next_subvol_id = ROOT_SUBVOL + 1,
         current_subvol = ROOT_SUBVOL, has_journal = False, next_journal_seq = 0, last_checkpoint_seq = 0\<rparr>"
  let ?op = "bindM (unwrapM (put_snapshot ROOT_SNAP seed_snapshot)) (\<lambda>_.
     bindM (unwrapM (put_subvol ROOT_SUBVOL seed_subvol)) (\<lambda>_. gets (\<lambda>f. f)))"
  have f0: "stored D (tree f0) Map.empty" "room (Suc (Suc n)) (tree f0)" using assms by (simp_all add: f0_def)
  have "runs ?op f0 (\<lambda>f f'. f = f' \<and> stored D (tree f) seed_map \<and> room n (tree f) \<and> keeps f0 f)"
    unfolding runs_bind put_snapshot_def put_subvol_def
  proof (rule unwrap_runs, rule runs_mono [OF put_any_runs [OF f0, of "snapshot_key ROOT_SNAP" ROOT_SNAP "snapshot_bytes seed_snapshot"]])
    fix u f1
    assume f1: "stored D (tree f1) (put_map (snapshot_key ROOT_SNAP) ROOT_SNAP Live (snapshot_bytes seed_snapshot) Map.empty)
      \<and> room (Suc n) (tree f1) \<and> keeps f0 f1"
    then show "runs (unwrapM (on_btree (insert_at (subvol_key ROOT_SUBVOL) ROOT_SNAP (subvol_bytes seed_subvol)))) f1
        (\<lambda>r s'. runs (gets (\<lambda>f. f)) s' (\<lambda>f f'. f = f' \<and> stored D (tree f) seed_map \<and> room n (tree f) \<and> keeps f0 f))"
      by (intro unwrap_runs runs_mono [OF put_any_runs [of D f1 _ n "subvol_key ROOT_SUBVOL" ROOT_SNAP "subvol_bytes seed_subvol"]])
        (auto simp: seed_map_def intro: keeps_trans)
  qed simp
  then obtain f where f: "fst (?op f0) = Inr f" "stored D (tree f) seed_map" "room n (tree f)" "keeps f0 f"
    using runs_result by fastforce
  have "seed t = Inr f" using f(1) by (simp add: seed_def f0_def seed_snapshot_def seed_subvol_def)
  moreover have c: "next_snap_id f = ROOT_SNAP - 1" "next_subvol_id f = ROOT_SUBVOL + 1" "current_subvol f = ROOT_SUBVOL"
    using f(4) by (auto simp: keeps_def f0_def)
  ultimately show ?thesis using f(2,3) by (auto simp: fsv_def seed_typed seed_meta active_def) (simp add: seed_subvol_def)
qed

lemma fs_new_ok:
  assumes "n + 2 \<le> 2 ^ 44"
  shows "\<exists>f. fs_new crc = Inr f \<and> fsv Map.empty f seed_map n \<and> active f seed_map = ROOT_SNAP
     \<and> next_snap_id f = ROOT_SNAP - 1 \<and> next_subvol_id f = ROOT_SUBVOL + 1 \<and> current_subvol f = ROOT_SUBVOL"
proof -
  obtain t where t: "btree_new crc = Some t" "stored Map.empty t Map.empty" "room (Suc (Suc n)) t"
    using fresh_ok [of "n + 2" crc] assms by auto
  then show ?thesis using seed_ok [OF t(2,3)] by (auto simp: fs_new_def)
qed

section \<open>Typed lookups\<close>

definition lookup_as :: "(bytes \<Rightarrow> 'v option) \<Rightarrow> kvmap \<Rightarrow> bytes \<Rightarrow> snap_id list \<Rightarrow> 'v option" where
  "lookup_as dv m l chain = (case visible m l chain of None \<Rightarrow> None | Some (v, _) \<Rightarrow> dv v)"

lemma lookup_as_visible: "lookup_as dv m l chain = (case map_option fst (visible m l chain) of None \<Rightarrow> None | Some v \<Rightarrow> dv v)"
  by (simp add: lookup_as_def split: option.splits)

lemma lookup_as_cong: "visible m' l c' = visible m l c \<Longrightarrow> lookup_as dv m' l c' = lookup_as dv m l c"
  by (simp add: lookup_as_def)

lemma lookup_as_put: "dv (take 96 v) = Some x \<Longrightarrow> lookup_as dv (put_map l snap Live v m) l (snap # ss) = Some x"
  by (simp add: lookup_as_def visible_put_head del: visible.simps)

lemma typed_decodes:
  assumes "typed m" "val_size (hd l) = Some k" "l \<noteq> []" "\<And>v. length v = k \<Longrightarrow> \<exists>x. dv v = Some x"
    "map_option fst (visible m l chain) = Some v"
  shows "dv v \<noteq> None"
proof -
  obtain s where s: "visible m l chain = Some (v, s)" using assms(5) by auto
  have "length v = k" using typed_visible [of m "hd l" "tl l" chain v s k] assms(1-3) s by simp
  then show ?thesis using assms(4) by auto
qed

abbreviation inode_at :: "kvmap \<Rightarrow> snap_id list \<Rightarrow> u64 \<Rightarrow> inode_v1 option" where
  "inode_at m chain ino \<equiv> lookup_as inode_of_bytes m (inode_key ino) chain"

abbreviation extent_at :: "kvmap \<Rightarrow> snap_id list \<Rightarrow> u64 \<Rightarrow> u64 \<Rightarrow> extent_v1 option" where
  "extent_at m chain ino off \<equiv> lookup_as extent_of_bytes m (extent_key ino off) chain"

abbreviation dirent_at :: "kvmap \<Rightarrow> snap_id list \<Rightarrow> u64 \<Rightarrow> bytes \<Rightarrow> dirent_v1 option" where
  "dirent_at m chain p name \<equiv> lookup_as dirent_of_bytes m (KIND_DIRENT # u64_be p @ name) chain"

lemma get_inode_reads:
  assumes "fsv D f m n"
  shows "reads (get_inode ino) D f m n (inode_at m (active_chain f m) ino)"
  unfolding get_inode_def lookup_as_visible
proof (rule reads_bind [OF find_current_reads [OF assms]])
  fix f' assume "fsv D f' m n"
  then show "reads (decode_value inode_of_bytes (map_option fst (visible m (inode_key ino) (active_chain f m)))) D f' m n
      (case map_option fst (visible m (inode_key ino) (active_chain f m)) of None \<Rightarrow> None | Some v \<Rightarrow> inode_of_bytes v)"
    by (rule decode_value_reads)
      (rule typed_decodes [of m "inode_key ino" 56], use assms inode_codec.dec_total in \<open>auto simp: fsv_def inode_key_def\<close>)
qed simp

lemma get_extent_reads:
  assumes "fsv D f m n"
  shows "reads (get_extent ino off) D f m n (extent_at m (active_chain f m) ino off)"
  unfolding get_extent_def lookup_as_visible
proof (rule reads_bind [OF find_current_reads [OF assms]])
  fix f' assume "fsv D f' m n"
  then show "reads (decode_value extent_of_bytes (map_option fst (visible m (extent_key ino off) (active_chain f m)))) D f' m n
      (case map_option fst (visible m (extent_key ino off) (active_chain f m)) of None \<Rightarrow> None | Some v \<Rightarrow> extent_of_bytes v)"
    by (rule decode_value_reads)
      (rule typed_decodes [of m "extent_key ino off" 16], use assms extent_codec.dec_total in \<open>auto simp: fsv_def extent_key_def\<close>)
qed simp

lemma lookup_dirent_reads:
  assumes "fsv D f m n" "length name \<le> 19"
  shows "reads (lookup_dirent p name) D f m n (dirent_at m (active_chain f m) p name)"
proof -
  let ?k = "KIND_DIRENT # u64_be p @ name"
  have eq: "lookup_dirent p name = bindM (find_at_current ?k) (decode_value dirent_of_bytes)"
    unfolding lookup_dirent_def find_at_current_def dirent_key_ok [OF assms(2)] expect_Some bindM_ret bindM_assoc ..
  show ?thesis
    unfolding eq lookup_as_visible
  proof (rule reads_bind [OF find_current_reads [OF assms(1)]])
    fix f' assume "fsv D f' m n"
    then show "reads (decode_value dirent_of_bytes (map_option fst (visible m ?k (active_chain f m)))) D f' m n
        (case map_option fst (visible m ?k (active_chain f m)) of None \<Rightarrow> None | Some v \<Rightarrow> dirent_of_bytes v)"
      by (rule decode_value_reads)
        (rule typed_decodes [of m ?k 16], use assms dirent_codec.dec_total in \<open>auto simp: fsv_def\<close>)
  qed (use assms(2) in simp)
qed

section \<open>Chains and inodes\<close>

text \<open>C34. The ancestor walk ends on every snapshot tree, whatever parent links it holds: \<open>ancestor_chain\<close> never
  uses up its \<open>2 ^ 32\<close> steps and returns the chain of parent links, which starts at the snapshot and is
  strictly ascending, as the lookups along it require; it writes nothing.\<close>

theorem ancestor_chain_ends:
  assumes "fsv D f m n"
  shows "\<exists>f'. ancestor_chain s f = (Inr (chain_of m s), f') \<and> fsv D f' m n \<and> journal_of (tree f') = journal_of (tree f)
     \<and> hd (chain_of m s) = s \<and> sorted_keys (chain_of m s)
     \<and> (\<forall>i. Suc i < length (chain_of m s) \<longrightarrow> parent m (chain_of m s ! i) = Some (chain_of m s ! Suc i))"
proof -
  have links: "Suc i < length (chain_of m s) \<Longrightarrow> parent m (chain_of m s ! i) = Some (chain_of m s ! Suc i)" for i s
  proof (induction i arbitrary: s)
    case 0
    then show ?case using hd_chain [of m s] by (cases "parent m s") (auto simp: chain_of.simps [of m s] nth_Cons' chain_of.simps)
  next
    case (Suc i)
    then obtain p where p: "parent m s = Some p" by (cases "parent m s") (auto simp: chain_of.simps [of m s])
    then have "chain_of m s = s # chain_of m p" by (simp add: chain_of.simps [of m s])
    then show ?case using Suc.prems Suc.IH [of p] by simp
  qed
  show ?thesis
    using reads_result [OF ancestor_chain_reads [OF assms, of s]] hd_chain [of m s] sorted_chain [of m s] links
    by (auto simp: same_def)
qed

theorem ancestor_chain_ends_witness:
  "\<exists>f f'. fs_new (\<lambda>_. 7) = Inr f \<and> ancestor_chain ROOT_SNAP f = (Inr [ROOT_SNAP], f')"
proof -
  obtain f where f: "fs_new (\<lambda>_. 7) = Inr f" "fsv Map.empty f seed_map 0" using fs_new_ok [of 0] by auto
  show ?thesis using ancestor_chain_ends [OF f(2), of ROOT_SNAP] f(1) by (auto simp: seed_chain)
qed

text \<open>C33. An inode that was put is got back unchanged by the active subvolume, and every other inode reads
  as before.\<close>

theorem inode_put_get:
  assumes "fsv D f m (Suc n)"
  shows "\<exists>f' f''. put_inode ino i f = (Inr (), f') \<and> get_inode ino f' = (Inr (Some i), f'')
     \<and> fsv D f'' (put_map (inode_key ino) (active f m) Live (inode_bytes i) m) n
     \<and> (\<forall>ino'. ino' \<noteq> ino \<longrightarrow> (\<exists>r g g'. get_inode ino' f = (Inr r, g) \<and> get_inode ino' f'' = (Inr r, g')))"
proof -
  let ?m = "put_map (inode_key ino) (active f m) Live (inode_bytes i) m"
  have len: "length (inode_bytes i) = 56" using inode_codec.length_enc [of i] by simp
  obtain f' where f': "put_inode ino i f = (Inr (), f')" "fsv D f' ?m n" "keeps f f'"
    using runs_result [OF put_current_runs [OF assms, of "inode_key ino" "inode_bytes i"]] len
    by (auto simp: put_inode_def) (auto simp: inode_key_def)
  have me: "meta_eq m ?m" by (rule meta_eq_file) simp
  have chain: "active_chain f' ?m = active_chain f m"
    using meta_eq_active [OF me, of f' f] meta_eq_chain [OF me] keeps_fields [OF f'(3)] by simp
  obtain ss where ss: "active_chain f m = active f m # ss" using hd_chain by blast
  have own: "inode_at ?m (active_chain f' ?m) ino = Some i"
    unfolding chain ss by (rule lookup_as_put) (simp add: inode_codec.dec_stored)
  have other: "inode_at ?m (active_chain f' ?m) x = inode_at m (active_chain f m) x" if "x \<noteq> ino" for x
    unfolding chain using that by (intro lookup_as_cong visible_put_other) simp
  obtain f'' where f'': "get_inode ino f' = (Inr (Some i), f'')" "fsv D f'' ?m n" "same f' f''"
    using reads_result [OF get_inode_reads [OF f'(2), of ino]] own by auto
  have "active_chain f'' ?m = active_chain f' ?m" using active_same [OF f''(3)] by simp
  then have "\<exists>r g g'. get_inode x f = (Inr r, g) \<and> get_inode x f'' = (Inr r, g')" if "x \<noteq> ino" for x
    using reads_result [OF get_inode_reads [OF assms, of x]] reads_result [OF get_inode_reads [OF f''(2), of x]] other [OF that] by metis
  then show ?thesis using f'(1) f''(1,2) by blast
qed

theorem inode_put_get_witness:
  "\<exists>f f' f''. fs_new (\<lambda>_. 7) = Inr f
     \<and> put_inode 5 \<lparr>i_mode = 1, i_uid = 2, i_gid = 3, i_nlink = 1, i_size = 9, i_atime = 0, i_mtime = 0, i_ctime = 0, i_parent_ino = 1\<rparr> f = (Inr (), f')
     \<and> get_inode 5 f' = (Inr (Some \<lparr>i_mode = 1, i_uid = 2, i_gid = 3, i_nlink = 1, i_size = 9, i_atime = 0, i_mtime = 0, i_ctime = 0, i_parent_ino = 1\<rparr>), f'')"
proof -
  obtain f where f: "fs_new (\<lambda>_. 7) = Inr f" "fsv Map.empty f seed_map (Suc 0)" using fs_new_ok [of 1] by auto
  show ?thesis using inode_put_get [OF f(2)] f(1) by blast
qed

end
