(* ===== verification/Fs_Sync.thy ===== *)
theory Fs_Sync
  imports Checkpoint Fs_View
begin

text \<open>
  Checkpoints of the file system: \<open>sync\<close> makes the tree, the free list and the counters durable, and \<open>open\<close> on
  the bytes of the device gives the same file system back.
\<close>

section \<open>Opening an image\<close>

lemma stamp_fields [simp]:
  "sb_root_block (sb_stamp_checksum crc sb) = sb_root_block sb" "sb_next_block_nr (sb_stamp_checksum crc sb) = sb_next_block_nr sb"
  "sb_next_bset_seq (sb_stamp_checksum crc sb) = sb_next_bset_seq sb" "sb_next_ino (sb_stamp_checksum crc sb) = sb_next_ino sb"
  "sb_journal_seq (sb_stamp_checksum crc sb) = sb_journal_seq sb" "sb_next_snap_id (sb_stamp_checksum crc sb) = sb_next_snap_id sb"
  "sb_next_subvol_id (sb_stamp_checksum crc sb) = sb_next_subvol_id sb" "sb_current_subvol (sb_stamp_checksum crc sb) = sb_current_subvol sb"
  "sb_free_head (sb_stamp_checksum crc sb) = sb_free_head sb"
  by (simp_all add: sb_stamp_checksum_def Let_def)

lemma scan_nothing:
  assumes "read_frame crc seq d = Inr None"
  shows "scan_groups crc seq d = Inr []" "next_seq_after_scan crc seq d = Inr seq"
  using assms by (simp_all add: scan_groups_def next_seq_after_scan_def scan_loop.simps [of _ _ seq seq] next_seq_loop.simps [of _ _ seq seq])

lemma load_nothing: "load_free_list fuel 0 t = (Inr (), t\<lparr>free_list := []\<rparr>)"
  by (cases fuel) (simp_all add: load_free_list_def bindM_def)

text \<open>An image whose superblock is \<open>sb\<close>, without frames after the checkpoint and with a loadable free list.\<close>

lemma open_image_ok:
  assumes sb: "read_at 4096 0 d = Inr (superblock_bytes (sb_stamp_checksum crc sb))" "sb_magic sb = SUPERBLOCK_MAGIC"
      "sb_version sb = SUPERBLOCK_VERSION" "sized_superblock sb"
    and d: "dev_kind d = FileDevice" and fr: "read_frame crc (sb_journal_seq sb + 1) d = Inr None"
    and ld: "\<And>t. device t = d \<Longrightarrow> data_cache t = Map.empty \<Longrightarrow>
      \<exists>t' t1. load_free_list LOAD_FUEL (sb_free_head sb) t = (Inr (), t') \<and> faulted t t1 \<and> t' = t1\<lparr>free_list := free_list t'\<rparr> \<and> mset (free_list t') = F"
  shows "\<exists>st t1. fs_open crc (dev_data d) = Inr \<lparr>tree = reopen st (sb_root_block sb) (sb_next_bset_seq sb), next_ino = sb_next_ino sb,
       next_snap_id = sb_next_snap_id sb, next_subvol_id = sb_next_subvol_id sb, current_subvol = sb_current_subvol sb, has_journal = True,
       next_journal_seq = sb_journal_seq sb + 1, last_checkpoint_seq = sb_journal_seq sb\<rparr>
     \<and> faulted ((with_device crc d True)\<lparr>next_block_nr := sb_next_block_nr sb\<rparr>) t1 \<and> st = t1\<lparr>free_list := free_list st\<rparr> \<and> mset (free_list st) = F"
proof -
  let ?st0 = "with_device crc d True" let ?st1 = "?st0\<lparr>next_block_nr := sb_next_block_nr sb\<rparr>"
  have dd: "file_device_new (dev_data d) = d" using d by (simp add: file_device_new_def)
  have st0: "device ?st0 = d" "crc32 ?st0 = crc" "data_cache ?st0 = Map.empty" "free_list ?st0 = []" by (simp_all add: with_device_def)
  have rs: "read_superblock ?st0 = (Inr (sb_stamp_checksum crc sb), ?st0)"
    using sb(1) sb_parse_stamped [OF sb(2-4), of crc] by (simp add: read_superblock_def st0 block_off_def SUPERBLOCK_BLOCK_NR_def)
  obtain st t1 where l: "load_free_list LOAD_FUEL (sb_free_head sb) ?st1 = (Inr (), st)" "faulted ?st1 t1" "st = t1\<lparr>free_list := free_list st\<rparr>"
    "mset (free_list st) = F" using ld [of ?st1] st0 by auto
  have "whenM (sb_free_head sb \<noteq> 0) (load_free_list LOAD_FUEL (sb_free_head sb)) ?st1 = (Inr (), st)"
  proof (cases "sb_free_head sb = 0")
    case True
    then have "st = ?st1" using l(1) by (simp add: load_nothing with_device_def)
    then show ?thesis using True by (simp add: whenM_def)
  qed (simp add: whenM_def l(1))
  then have "open_store ?st0 = (Inr (sb_stamp_checksum crc sb, [], sb_journal_seq sb + 1), st)"
    using rs scan_nothing [OF fr] by (simp add: open_store_def pure_result_def set_next_block_nr_def bindM_Inr bindM_def st0)
  then show ?thesis using l(2-4) by (intro exI [of _ st] exI [of _ t1]) (simp add: fs_open_def open_image_def dd)
qed

section \<open>Synchronizing\<close>

definition sync_superblock :: "fs \<Rightarrow> u64 \<Rightarrow> u64 \<Rightarrow> u64 \<Rightarrow> superblock" where
  "sync_superblock f r nx head =
     \<lparr>sb_magic = SUPERBLOCK_MAGIC, sb_version = SUPERBLOCK_VERSION, sb_root_block = r, sb_next_block_nr = nx,
      sb_next_bset_seq = next_bset_seq (ctx (tree f)), sb_next_ino = next_ino f, sb_journal_seq = sat_sub (next_journal_seq f) 1,
      sb_next_snap_id = next_snap_id f, sb_next_subvol_id = next_subvol_id f, sb_current_subvol = current_subvol f, sb_checksum = 0,
      sb_free_head = head, sb_reserved = replicate 4024 0\<rparr>"

lemma sync_superblock_ok [simp]:
  "sb_magic (sync_superblock f r nx head) = SUPERBLOCK_MAGIC" "sb_version (sync_superblock f r nx head) = SUPERBLOCK_VERSION"
  "sized_superblock (sync_superblock f r nx head)" "sb_free_head (sync_superblock f r nx head) = head"
  "sb_next_block_nr (sync_superblock f r nx head) = nx" "sb_root_block (sync_superblock f r nx head) = r"
  "sb_next_bset_seq (sync_superblock f r nx head) = next_bset_seq (ctx (tree f))" "sb_next_ino (sync_superblock f r nx head) = next_ino f"
  "sb_next_snap_id (sync_superblock f r nx head) = next_snap_id f" "sb_next_subvol_id (sync_superblock f r nx head) = next_subvol_id f"
  "sb_current_subvol (sync_superblock f r nx head) = current_subvol f"
  "sb_journal_seq (sync_superblock f r nx head) = sat_sub (next_journal_seq f) 1"
  by (simp_all add: sync_superblock_def sized_superblock_def)

lemma sat_sub_one: "a \<noteq> 0 \<Longrightarrow> sat_sub a 1 = a - 1"
proof -
  assume "a \<noteq> 0"
  then have "a \<le> 1 \<Longrightarrow> a = 1" by (simp add: word_le_nat_alt word_unat_eq_iff)
  then show ?thesis by (auto simp: sat_sub_def)
qed

abbreviation fs_store :: "fs \<Rightarrow> block_store" where
  "fs_store f \<equiv> store (ctx (tree f))"

text \<open>The steps of \<open>sync\<close>: checkpoint, free list, superblock.\<close>

lemma sync_steps:
  assumes bv: "backed_volume D (tree f) m" and ok: "alloc_ok (fs_store f)" and room: "unat (next_block_nr (fs_store f)) \<le> 2 ^ 50"
  obtains f' c r head s2 where "fs_sync f = (Inr (), f')" "durable_volume D ((tree f)\<lparr>ctx := c, root_block := r\<rparr>) m" "alloc_ok (store c)"
    "next_bset_seq c = next_bset_seq (ctx (tree f))" "same_device_area (fs_store f) (store c)"
    "unat (next_block_nr (store c)) \<le> 2 * unat (next_block_nr (fs_store f))" "persist_free_list (store c) = (Inr head, s2)"
    "f' = f\<lparr>tree := (tree f)\<lparr>ctx := c\<lparr>store := s2\<lparr>device := write_at (superblock_bytes (sb_stamp_checksum (crc32 s2)
        (sync_superblock f r (next_block_nr s2) head))) 0 (device s2)\<rparr>\<rparr>, root_block := r\<rparr>, last_checkpoint_seq := sat_sub (next_journal_seq f) 1\<rparr>"
proof -
  obtain c r where c: "checkpoint (tree f) = (Inr (), (tree f)\<lparr>ctx := c, root_block := r\<rparr>)" "durable_volume D ((tree f)\<lparr>ctx := c, root_block := r\<rparr>) m"
    "alloc_ok (store c)" "next_bset_seq c = next_bset_seq (ctx (tree f))" "same_device_area (fs_store f) (store c)"
    "unat (next_block_nr (store c)) \<le> 2 * unat (next_block_nr (fs_store f))"
    using checkpoint_ok [OF bv ok] room by auto
  have nx: "unat (next_block_nr (store c)) \<le> 2 ^ 51" using c(6) room by simp
  have "length (free_list (store c) @ last_chain_blocks (store c)) \<le> unat (next_block_nr (store c))"
    using c(3) by (intro blocks_bound) (auto simp: alloc_ok_def)
  moreover have "0 < unat (next_block_nr (store c))" using c(3) by (auto simp: alloc_ok_def word_le_nat_alt)
  ultimately obtain head s2 where p: "persist_free_list (store c) = (Inr head, s2)" using persist_then_load [of "store c"] nx by auto
  let ?sb = "sync_superblock f r (next_block_nr s2) head"
  let ?f1 = "f\<lparr>tree := (tree f)\<lparr>ctx := c, root_block := r\<rparr>\<rparr>"
  let ?f2 = "?f1\<lparr>tree := (tree ?f1)\<lparr>ctx := c\<lparr>store := s2\<rparr>\<rparr>\<rparr>"
  let ?s3 = "s2\<lparr>device := write_at (superblock_bytes (sb_stamp_checksum (crc32 s2) ?sb)) 0 (device s2)\<rparr>"
  let ?f' = "?f2\<lparr>tree := (tree ?f2)\<lparr>ctx := c\<lparr>store := ?s3\<rparr>\<rparr>, last_checkpoint_seq := sat_sub (next_journal_seq f) 1\<rparr>"
  have 1: "on_btree checkpoint f = (Inr (), ?f1)" using c(1) by (simp add: on_btree_def on_part_def)
  have 2: "on_fs_store persist_free_list ?f1 = (Inr head, ?f2)"
    using p by (simp add: on_fs_store_def on_btree_def on_tree_def on_store_def on_part_def)
  have 3: "on_fs_store fsync g = (Inr (), g)" for g
    by (simp add: on_fs_store_def on_btree_def on_tree_def on_store_def on_part_def fsync_def)
  have 4: "on_fs_store (write_superblock ?sb) ?f2 = (Inr (), ?f2\<lparr>tree := (tree ?f2)\<lparr>ctx := c\<lparr>store := ?s3\<rparr>\<rparr>\<rparr>)"
    by (simp add: on_fs_store_def on_btree_def on_tree_def on_store_def on_part_def write_superblock_def block_off_def SUPERBLOCK_BLOCK_NR_def)
  have "fs_sync f = (Inr (), ?f')"
    using 1 2 3 4 [unfolded sync_superblock_def] by (simp add: fs_sync_def bindM_Inr Let_def sync_superblock_def c(4))
  then show thesis by (rule that [OF _ c(2-6) p]) simp
qed

section \<open>The opened file system\<close>

lemma read_frame_below:
  assumes "read_frame crc seq d = Inr x"
    and "\<And>off len y. 4096 \<le> off \<Longrightarrow> off + len \<le> 65 * 4096 \<Longrightarrow> read_at len off d = Inr y \<Longrightarrow> read_at len off d' = Inr y"
  shows "read_frame crc seq d' = Inr x"
proof -
  obtain bs where bs: "read_at 256 (unat (frame_offset seq)) d = Inr bs" using assms(1) by (auto simp: read_frame_def split: sum.splits)
  have "unat seq mod 1024 \<le> 1023" by (simp add: less_Suc_eq_le [symmetric])
  then have "4096 \<le> unat (frame_offset seq)" "unat (frame_offset seq) + 256 \<le> 65 * 4096" unfolding unat_frame_offset by simp_all
  then have "read_at 256 (unat (frame_offset seq)) d' = Inr bs" using assms(2) bs by blast
  then show ?thesis using assms(1) bs by (simp add: read_frame_def)
qed

lemma volume_durable:
  assumes "stored D t m" "node_at (cold (store (ctx t))) = node_at (store (ctx t))" "data_at (cold (store (ctx t))) = data_at (store (ctx t))"
  shows "durable_volume D t m"
proof -
  obtain L a where a: "blk a = root_block t" "tree_ok (ctx t) L None None a" "tree_view (cont a) = m" "data_kept D (set (blocks a)) (ctx t)"
    using assms(1) by (auto simp: stored_def volume_def holds_def)
  moreover have "rep (cold (store (ctx t))) L a" using a(2) assms(2) by (auto simp: tree_ok_def elim!: rep_mono)
  moreover have "dev_block (device (store (ctx t))) b = Some x" if "D b = Some x" for b x
    using a(4) that data_at_cold [of "store (ctx t)" b] assms(3) by (auto simp: data_kept_def)
  ultimately show ?thesis unfolding durable_volume_def by blast
qed

lemma faulted_cold:
  assumes "faulted s t" "node_cache s = Map.empty" "data_cache s = Map.empty"
  shows "node_at t = node_at s" "data_at t = data_at s" "node_at (cold t) = node_at s" "data_at (cold t) = data_at s"
proof -
  show n: "node_at t = node_at s" "data_at t = data_at s" using faulted_node_at [OF assms(1)] faulted_data_at [OF assms(1)] by auto
  have "fetch_node b t = fetch_node b s" "device t = device s" for b
    using faulted_fetch [OF assms(1)] faulted_fields [OF assms(1)] by auto
  then have "node_at (cold t) = node_at (cold s)" "data_at (cold t) = data_at (cold s)" by (simp_all add: fun_eq_iff node_at_cold data_at_cold)
  moreover have "cold s = s" using assms(2,3) by (simp add: cold_def)
  ultimately show "node_at (cold t) = node_at s" "data_at (cold t) = data_at s" by simp_all
qed

text \<open>The superblock is written to block 0 and leaves every other block alone.\<close>

lemma superblock_write:
  assumes "length buf = 4096"
  shows "b \<noteq> 0 \<Longrightarrow> blk_ok b \<Longrightarrow> dev_block d b = Some x \<Longrightarrow> dev_block (write_at buf 0 d) b = Some x"
    "4096 \<le> off \<Longrightarrow> read_at len off d = Inr y \<Longrightarrow> read_at len off (write_at buf 0 d) = Inr y"
    "kept {0} s (s\<lparr>device := write_at buf 0 (device s)\<rparr>)"
proof -
  have z: "block_off 0 = 0" "blk_ok 0" by (simp_all add: block_off_def blk_ok_def)
  show "b \<noteq> 0 \<Longrightarrow> blk_ok b \<Longrightarrow> dev_block d b = Some x \<Longrightarrow> dev_block (write_at buf 0 d) b = Some x"
    using read_block_write [OF z(2), of b buf d x] assms z(1) by (auto simp: dev_block_def split: sum.splits)
  show "4096 \<le> off \<Longrightarrow> read_at len off d = Inr y \<Longrightarrow> read_at len off (write_at buf 0 d) = Inr y"
    using assms by (intro read_write_disjoint) auto
  show "kept {0} s (s\<lparr>device := write_at buf 0 (device s)\<rparr>)"
    using assms z by (intro kept_device_write [where nr = 0 and buf = buf]) simp_all
qed

text \<open>After the free list of the store \<open>s\<close> and a superblock have been written: the device without caches, and a store whose
  allocator has been loaded from it.\<close>

lemma persisted:
  assumes ok: "alloc_ok s" and room: "unat (next_block_nr s) \<le> 2 ^ 51" and p: "persist_free_list s = (Inr head, s2)" and buf: "length buf = 4096"
  shows "b \<in> allocated s \<Longrightarrow> dev_block (device s) b = Some x \<Longrightarrow> dev_block (write_at buf 0 (device s2)) b = Some x"
    "4096 \<le> off \<Longrightarrow> off + len \<le> 65 * 4096 \<Longrightarrow> read_at len off (device s) = Inr y \<Longrightarrow> read_at len off (write_at buf 0 (device s2)) = Inr y"
    "device t = write_at buf 0 (device s2) \<Longrightarrow> data_cache t = Map.empty \<Longrightarrow> \<exists>t' t1. load_free_list LOAD_FUEL head t = (Inr (), t')
       \<and> faulted t t1 \<and> t' = t1\<lparr>free_list := free_list t'\<rparr> \<and> mset (free_list t') = mset (free_list s @ last_chain_blocks s @ last_chain_blocks s2)"
    "distinct (free_list s @ last_chain_blocks s @ last_chain_blocks s2)" "next_block_nr s \<le> next_block_nr s2"
    "unat (next_block_nr s2) \<le> 2 ^ 52" "\<forall>b \<in> set (last_chain_blocks s2). next_block_nr s \<le> b \<and> b < next_block_nr s2"
    "free_list s2 = free_list s @ last_chain_blocks s" "kept (set (last_chain_blocks s2)) s s2" "dev_kind (device s2) = dev_kind (device s)"
    "crc32 s2 = crc32 s" "unat (next_block_nr s2) \<le> 2 * unat (next_block_nr s)"
proof -
  have len: "length (free_list s @ last_chain_blocks s) \<le> unat (next_block_nr s)"
    using ok by (intro blocks_bound) (auto simp: alloc_ok_def)
  have pos: "0 < unat (next_block_nr s)" "65 \<le> next_block_nr s" using ok by (auto simp: alloc_ok_def word_le_nat_alt)
  have P: "free_list s2 = free_list s @ last_chain_blocks s" "kept (set (last_chain_blocks s2)) s s2"
    "\<forall>b \<in> set (last_chain_blocks s2). unat (next_block_nr s) \<le> unat b \<and> unat b < unat (next_block_nr s2)" "distinct (last_chain_blocks s2)"
    "unat (next_block_nr s) \<le> unat (next_block_nr s2)"
    "unat (next_block_nr s2) \<le> unat (next_block_nr s) + length (free_list s @ last_chain_blocks s)"
    "dev_kind (device s2) = dev_kind (device s)" "below (next_block_nr s) (device s) (device s2)"
    and ld: "\<And>t. (\<forall>b \<in> set (last_chain_blocks s2). \<forall>x. dev_block (device s2) b = Some x \<longrightarrow> dev_block (device t) b = Some x) \<Longrightarrow> data_cache t = Map.empty \<Longrightarrow>
        length (free_list s2) \<le> LOAD_FUEL \<Longrightarrow> \<exists>t' t1. load_free_list LOAD_FUEL head t = (Inr (), t') \<and> faulted t t1 \<and> t' = t1\<lparr>free_list := free_list t'\<rparr>
          \<and> mset (free_list t') = mset (free_list s2) + mset (last_chain_blocks s2)"
    using persist_then_load [of s] p room len pos(1) by auto
  show "unat (next_block_nr s2) \<le> 2 * unat (next_block_nr s)" using P(6) len by simp
  show nx: "next_block_nr s \<le> next_block_nr s2" using P(5) by (simp add: word_le_nat_alt)
  show "unat (next_block_nr s2) \<le> 2 ^ 52" using P(6) len room by simp
  then have ok2: "blk_ok b" if "b < next_block_nr s2" for b using that by (simp add: blk_ok_def word_less_nat_alt)
  show ch: "\<forall>b \<in> set (last_chain_blocks s2). next_block_nr s \<le> b \<and> b < next_block_nr s2"
    using P(3) by (simp add: word_le_nat_alt word_less_nat_alt)
  have "b < next_block_nr s" if "b \<in> set (free_list s) \<union> set (last_chain_blocks s)" for b using ok that by (auto simp: alloc_ok_def)
  then have "(set (free_list s) \<union> set (last_chain_blocks s)) \<inter> set (last_chain_blocks s2) = {}" using ch by (meson disjoint_iff not_less)
  then show "distinct (free_list s @ last_chain_blocks s @ last_chain_blocks s2)" using ok P(4) by (auto simp: alloc_ok_def)
  show "free_list s2 = free_list s @ last_chain_blocks s" "kept (set (last_chain_blocks s2)) s s2" "dev_kind (device s2) = dev_kind (device s)"
    "crc32 s2 = crc32 s" using P(1,2,7) by (simp_all add: kept_def)
  show "dev_block (write_at buf 0 (device s2)) b = Some x" if "b \<in> allocated s" "dev_block (device s) b = Some x"
  proof (rule superblock_write(1) [OF buf])
    show "dev_block (device s2) b = Some x"
      using below_block [OF P(8) _ allocated_blk_ok [OF ok that(1)] that(2)] that(1) by (simp add: allocated_def)
    show "b \<noteq> 0" using allocated_ge [OF that(1)] by auto
  qed (rule allocated_blk_ok [OF ok that(1)])
  show "read_at len off (write_at buf 0 (device s2)) = Inr y" if "4096 \<le> off" "off + len \<le> 65 * 4096" "read_at len off (device s) = Inr y"
  proof (rule superblock_write(2) [OF buf that(1)])
    have "65 * 4096 \<le> unat (next_block_nr s) * 4096" using pos(2) by (simp add: word_le_nat_alt)
    then show "read_at len off (device s2) = Inr y" using P(8) that(2,3) unfolding below_def by (meson order.trans)
  qed
  show "\<exists>t' t1. load_free_list LOAD_FUEL head t = (Inr (), t') \<and> faulted t t1 \<and> t' = t1\<lparr>free_list := free_list t'\<rparr>
      \<and> mset (free_list t') = mset (free_list s @ last_chain_blocks s @ last_chain_blocks s2)"
    if t: "device t = write_at buf 0 (device s2)" "data_cache t = Map.empty"
  proof -
    have "dev_block (device t) b = Some x" if "b \<in> set (last_chain_blocks s2)" "dev_block (device s2) b = Some x" for b x
      using superblock_write(1) [OF buf _ _ that(2)] ch that(1) pos(2) ok2 t(1) by fastforce
    then show ?thesis using ld [of t] t(2) P(1) len room by (simp add: LOAD_FUEL_def add.assoc)
  qed
qed

text \<open>The store an image is opened to, when its free list holds what was free before and the chain.\<close>

lemma opened_store:
  assumes ok: "alloc_ok s" and nx: "next_block_nr s \<le> nx" "unat nx \<le> 2 ^ 52"
    and ch: "\<forall>b \<in> set C. next_block_nr s \<le> b \<and> b < nx" and dist: "distinct (free_list s @ last_chain_blocks s @ C)"
    and fl: "faulted ((with_device crc d True)\<lparr>next_block_nr := nx\<rparr>) t1" "st = t1\<lparr>free_list := free_list st\<rparr>"
      "mset (free_list st) = mset (free_list s @ last_chain_blocks s @ C)"
  shows "alloc_ok st" "allocated s - set (last_chain_blocks s) \<subseteq> allocated st" "last_chain_blocks st = []"
    "node_at (cold st) = node_at st" "data_at (cold st) = data_at st" "node_at st = node_at (with_device crc d True)"
    "data_at st = data_at (with_device crc d True)"
proof -
  let ?b = "(with_device crc d True)\<lparr>next_block_nr := nx\<rparr>"
  have s1: "next_block_nr st = nx" "last_chain_blocks st = []"
    using faulted_fields [OF fl(1)] by (subst fl(2), simp add: with_device_def)+
  then show "last_chain_blocks st = []" by simp
  have set: "set (free_list st) = set (free_list s) \<union> set (last_chain_blocks s) \<union> set C" "distinct (free_list st)"
    using mset_eq_setD [OF fl(3)] mset_eq_imp_distinct_iff [OF fl(3)] dist by auto
  have lt: "FIRST_DATA_BLOCK_NR \<le> next_block_nr s" "b \<in> set (free_list s) \<union> set (last_chain_blocks s) \<Longrightarrow> FIRST_DATA_BLOCK_NR \<le> b \<and> b < next_block_nr s" for b
    using ok by (auto simp: alloc_ok_def)
  have "FIRST_DATA_BLOCK_NR \<le> b \<and> b < nx" if "b \<in> set (free_list st)" for b
    using that set(1) lt ch nx(1) by (auto intro: order.trans order.strict_trans2)
  then show "alloc_ok st" unfolding alloc_ok_def s1 using set(2) nx lt(1) by (auto intro: order.trans)
  show "allocated s - set (last_chain_blocks s) \<subseteq> allocated st"
  proof
    fix b assume b: "b \<in> allocated s - set (last_chain_blocks s)"
    then have "b < next_block_nr s" by (simp add: allocated_def)
    then have "b \<notin> set C" "b < nx" using ch nx(1) by (auto simp: not_less [symmetric])
    then show "b \<in> allocated st" using b set(1) by (simp add: allocated_def s1)
  qed
  have c: "node_at st = node_at t1" "data_at st = data_at t1" "node_at (cold st) = node_at (cold t1)" "data_at (cold st) = data_at (cold t1)"
    by (subst fl(2), rule ext, rule node_at_cong data_at_cong, simp_all add: cold_def)+
  have w: "node_at ?b = node_at (with_device crc d True)" "data_at ?b = data_at (with_device crc d True)"
    by (rule ext, rule node_at_cong data_at_cong, simp_all)+
  have e: "node_cache ?b = Map.empty" "data_cache ?b = Map.empty" by (simp_all add: with_device_def)
  show "node_at (cold st) = node_at st" "data_at (cold st) = data_at st" "node_at st = node_at (with_device crc d True)"
    "data_at st = data_at (with_device crc d True)"
    using c w faulted_cold [OF fl(1) e] by simp_all
qed

lemma persisted_volume:
  assumes "alloc_ok (store (ctx t))" "unat (next_block_nr (store (ctx t))) \<le> 2 ^ 51" "persist_free_list (store (ctx t)) = (Inr head, s2)"
    "length buf = 4096" and v: "durable_volume D t m"
  defines "s' \<equiv> s2\<lparr>device := write_at buf 0 (device s2)\<rparr>"
  shows "durable_volume D (t\<lparr>ctx := (ctx t)\<lparr>store := s'\<rparr>\<rparr>) m" "alloc_ok s'"
proof -
  note P = persisted [OF assms(1-4)]
  have out: "b \<notin> set (last_chain_blocks s2)" "b \<noteq> 0" "blk_ok b" "b < next_block_nr s2" "b \<in> allocated (store (ctx t))" if "b \<in> owned (ctx t)" for b
  proof -
    have b: "b \<in> allocated (store (ctx t))" "b < next_block_nr (store (ctx t))" using that by (auto simp: owned_def allocated_def)
    then show "b \<notin> set (last_chain_blocks s2)" "b \<noteq> 0" "blk_ok b" "b < next_block_nr s2" "b \<in> allocated (store (ctx t))"
      using P(5,7) allocated_ge [OF b(1)] allocated_blk_ok [OF assms(1) b(1)] by (auto simp: not_less [symmetric])
  qed
  have k: "kept (set (last_chain_blocks s2) \<union> {0}) (store (ctx t)) s'"
    unfolding s'_def by (rule kept_trans [OF P(9) superblock_write(3) [OF assms(4)]])
  show "durable_volume D (t\<lparr>ctx := (ctx t)\<lparr>store := s'\<rparr>\<rparr>) m"
  proof (rule durable_transfer [OF v])
    show "owned (ctx t) \<subseteq> owned (ctx (t\<lparr>ctx := (ctx t)\<lparr>store := s'\<rparr>\<rparr>))" using out(1,4) P(8) by (auto simp: owned_def allocated_def s'_def)
    fix b assume b: "b \<in> owned (ctx t)"
    show "node_at (store (ctx t)) b = Some n \<Longrightarrow> node_at (store (ctx (t\<lparr>ctx := (ctx t)\<lparr>store := s'\<rparr>\<rparr>))) b = Some n" for n
      using kept_node [OF k] out [OF b] by simp
    show "data_at (store (ctx t)) b = Some x \<Longrightarrow> data_at (store (ctx (t\<lparr>ctx := (ctx t)\<lparr>store := s'\<rparr>\<rparr>))) b = Some x" for x
      using kept_data [OF k] out [OF b] by simp
    show "dev_block (device (store (ctx t))) b = Some x \<Longrightarrow> dev_block (device (store (ctx (t\<lparr>ctx := (ctx t)\<lparr>store := s'\<rparr>\<rparr>)))) b = Some x" for x
      using P(1) out(5) [OF b] by (simp add: s'_def)
  qed (use k in \<open>simp_all add: kept_def\<close>)
  have "FIRST_DATA_BLOCK_NR \<le> b \<and> b < next_block_nr s2" if "b \<in> set (free_list s2 @ last_chain_blocks s2)" for b
    using that P(5,7,8) assms(1) by (auto simp: alloc_ok_def intro: order.trans order.strict_trans2)
  then show "alloc_ok s'" using P(4-6,8) assms(1) by (auto simp: alloc_ok_def s'_def intro: order.trans)
qed

lemma opened_volume:
  assumes "alloc_ok (store c)" "unat (next_block_nr (store c)) \<le> 2 ^ 51" "persist_free_list (store c) = (Inr head, s2)" "length buf = 4096"
    and v: "on_device D c r m" and q: "next_bset_seq c = q" "crc32 (store c) = crc"
    and st: "allocated (store c) - set (last_chain_blocks (store c)) \<subseteq> allocated st" "last_chain_blocks st = []"
      "node_at st = node_at (with_device crc (write_at buf 0 (device s2)) True)" "data_at st = data_at (with_device crc (write_at buf 0 (device s2)) True)"
  shows "volume \<lparr>store = st, next_bset_seq = q\<rparr> r m D"
proof (rule volume_transfer [OF v [unfolded on_device_def]])
  let ?c = "c\<lparr>store := cold (store c)\<rparr>" and ?w = "with_device crc (write_at buf 0 (device s2)) True"
  have cold: "?w = cold ?w" by (simp add: with_device_def cold_def)
  have own: "owned ?c = allocated (store c) - set (last_chain_blocks (store c))" by (simp add: owned_def cold_def allocated_def)
  show "owned ?c \<subseteq> owned \<lparr>store = st, next_bset_seq = q\<rparr>" using st(1,2) unfolding own by (simp add: owned_def)
  fix b assume b: "b \<in> owned ?c"
  then have dev: "dev_block (device (store c)) b = Some x \<Longrightarrow> dev_block (device ?w) b = Some x" for x
    using persisted(1) [OF assms(1-4)] own by (auto simp: with_device_def)
  have "node_at (cold (store c)) b = Some n \<Longrightarrow> node_at (cold ?w) b = Some n" for n
    using cold_read [of "store c" b n ?w] dev q(2) by (simp add: with_device_def)
  then show "node_at (store ?c) b = Some n \<Longrightarrow> node_at (store \<lparr>store = st, next_bset_seq = q\<rparr>) b = Some n" for n
    using cold by (simp add: st(3))
  have "data_at (cold ?w) b = dev_block (device ?w) b" by (rule data_at_cold)
  then show "data_at (store ?c) b = Some x \<Longrightarrow> data_at (store \<lparr>store = st, next_bset_seq = q\<rparr>) b = Some x" for x
    using dev cold by (simp add: st(4) data_at_cold)
qed (simp add: q)

text \<open>A new tree on a new image: nothing has been edited and the journal ring is empty.\<close>

definition new_image :: block_store where
  "new_image = (create_image (\<lambda>_. 7))\<lparr>device := set_len 266240 (device (create_image (\<lambda>_. 7)))\<rparr>"

lemma new_image_fields:
  "device new_image = \<lparr>dev_kind = FileDevice, dev_data = replicate 266240 0\<rparr>" "node_cache new_image = Map.empty" "data_cache new_image = Map.empty"
  "crc32 new_image = (\<lambda>_. 7)" "next_block_nr new_image = 65" "alloc_ok new_image" "alloc new_image = (Inr 65, new_image\<lparr>next_block_nr := 66\<rparr>)"
  by (simp_all add: new_image_def create_image_def with_device_def set_len_def file_device_new_def resize_def alloc_ok_def alloc_def storage_values)

lemma new_image_tree:
  obtains t where "create_in new_image = Some t" "backed_volume Map.empty t Map.empty" "alloc_ok (store (ctx t))"
    "unat (next_block_nr (store (ctx t))) \<le> 2 ^ 50" "dev_kind (device (store (ctx t))) = FileDevice" "crc32 (store (ctx t)) = (\<lambda>_. 7)"
    "read_frame (\<lambda>_. 7) 1 (device (store (ctx t))) = Inr None"
proof -
  obtain t where t: "initialize_with new_image = Some t" "stored Map.empty t Map.empty" "sane 0 (ctx t)"
    using initialize_ok [of new_image 0] new_image_fields(5,6) by auto
  obtain n bs where n: "start_new_bset 0 (node_new 0) = Some n" "layout n bs" using layout_start_new_bset [of "node_new 0" "[]" 0] by auto
  let ?s = "new_image\<lparr>next_block_nr := 66\<rparr>"
  have ok: "blk_ok (65 :: u64)" by (simp add: blk_ok_def)
  obtain s' where w: "write_node 65 n ?s = (Inr (), s')" "kept {65} ?s s'" "fetch_node 65 s' = Inr (stamped ?s n)" "next_block_nr s' = next_block_nr ?s"
    "data_cache s' = data_cache ?s" "node_cache s' = (node_cache ?s)(65 \<mapsto> \<lparr>cn_node = stamped ?s n, cn_dirty = False\<rparr>)"
    "device s' = write_at (node_bytes (stamped ?s n)) (block_off 65) (device ?s)"
    using write_node_ok [OF ok layout_sized [OF n(2)], of ?s] by metis
  have st: "store (ctx t) = s'" using t(1) w(1) n(1) by (auto simp: initialize_with_def new_image_fields(7))
  have "node_at (cold s') = node_at s'"
    using w(3,6) by (auto simp: fun_eq_iff node_at_cold node_at_def [of s'] new_image_fields(2) split: sum.splits)
  moreover have "data_at (cold s') = data_at s'"
    using w(5) by (simp add: fun_eq_iff data_at_cold data_at_def [of s'] dev_block_def new_image_fields(3) split: sum.splits)
  ultimately have bv: "backed_volume Map.empty t Map.empty" using durable_backed [OF volume_durable [OF t(2)]] by (simp add: st)
  have zero: "u64_of_le (replicate 8 0) = 0" by code_simp
  have "read_at 256 (unat (frame_offset 1)) (device new_image) = Inr (replicate 256 0)"
    by (simp add: read_at_def new_image_fields(1) unat_frame_offset bslice_def)
  then have "read_frame (\<lambda>_. 7) 1 (device new_image) = Inr None"
    using zero by (simp add: read_frame_def frame_is_valid_def frame_of_bytes_def bslice_def Let_def)
  then have "read_frame (\<lambda>_. 7) 1 (device s') = Inr None"
  proof (rule read_frame_below)
    fix off len y assume "4096 \<le> off" "off + len \<le> 65 * 4096" "read_at len off (device new_image) = Inr y"
    then show "read_at len off (device s') = Inr y" using ok by (simp add: w(7) block_off_eq read_write_disjoint)
  qed
  then show thesis using t(1,3) bv w(2,4,7) new_image_fields(1,4)
    by (intro that [of t]) (simp_all add: create_in_def st sane_def kept_def)
qed

lemma root_then_ctx: "(t::btree)\<lparr>root_block := r, ctx := c\<rparr> = t\<lparr>ctx := c, root_block := r\<rparr>"
  by (cases t) simp

text \<open>What \<open>sync\<close> does to the running file system.\<close>

lemma sync_ok:
  assumes bv: "backed_volume D (tree f) m" and ok: "alloc_ok (fs_store f)" and room: "unat (next_block_nr (fs_store f)) \<le> 2 ^ 50"
  shows "\<exists>f'. fs_sync f = (Inr (), f') \<and> durable_volume D (tree f') m \<and> alloc_ok (fs_store f') \<and> persistent (fs_store f') = persistent (fs_store f)
    \<and> unat (next_block_nr (fs_store f')) \<le> 4 * unat (next_block_nr (fs_store f)) \<and> current_subvol f' = current_subvol f \<and> next_ino f' = next_ino f
    \<and> next_bset_seq (ctx (tree f')) = next_bset_seq (ctx (tree f))"
proof -
  obtain f' c r head s2 where S: "fs_sync f = (Inr (), f')" "durable_volume D ((tree f)\<lparr>ctx := c, root_block := r\<rparr>) m" "alloc_ok (store c)"
    "next_bset_seq c = next_bset_seq (ctx (tree f))" "same_device_area (fs_store f) (store c)"
    "unat (next_block_nr (store c)) \<le> 2 * unat (next_block_nr (fs_store f))" "persist_free_list (store c) = (Inr head, s2)"
    "f' = f\<lparr>tree := (tree f)\<lparr>ctx := c\<lparr>store := s2\<lparr>device := write_at (superblock_bytes (sb_stamp_checksum (crc32 s2)
        (sync_superblock f r (next_block_nr s2) head))) 0 (device s2)\<rparr>\<rparr>, root_block := r\<rparr>, last_checkpoint_seq := sat_sub (next_journal_seq f) 1\<rparr>"
    by (rule sync_steps [OF bv ok room]) (rule that)
  let ?t = "(tree f)\<lparr>ctx := c, root_block := r\<rparr>"
  have nx: "unat (next_block_nr (store c)) \<le> 2 ^ 51" using S(6) room by simp
  have len: "length (superblock_bytes (sb_stamp_checksum (crc32 s2) (sync_superblock f r (next_block_nr s2) head))) = 4096" by simp
  have v: "durable_volume D (tree f') m" "alloc_ok (fs_store f')"
    using persisted_volume [of ?t, OF _ _ _ len S(2)] S(3,7) nx by (simp_all add: S(8) root_then_ctx)
  note P = persisted [OF S(3) nx S(7) len]
  show ?thesis using S(1,4-6) v P(9,12) by (intro exI [of _ f']) (simp add: S(8) same_device_area_def kept_def)
qed

section \<open>Properties\<close>

text \<open>C4. A checkpoint is durable: \<open>sync\<close> succeeds and leaves the running file system with the same map and data, and
  \<open>open\<close> on the bytes of the device succeeds, even with all caches lost, and returns a file system with the
  same map, the same data blocks and the same counters; both can be synchronized again.\<close>

theorem sync_then_open:
  assumes bv: "backed_volume D (tree f) m" and ok: "alloc_ok (fs_store f)" and room: "unat (next_block_nr (fs_store f)) \<le> 2 ^ 50"
    and dk: "dev_kind (device (fs_store f)) = FileDevice" and seq: "next_journal_seq f \<noteq> 0"
    and fr: "read_frame (crc32 (fs_store f)) (next_journal_seq f) (device (fs_store f)) = Inr None"
  shows "\<exists>f' g. fs_sync f = (Inr (), f') \<and> stored D (tree f') m \<and> backed_volume D (tree f') m \<and> alloc_ok (fs_store f')
    \<and> fs_open (crc32 (fs_store f)) (dev_data (device (fs_store f'))) = Inr g \<and> stored D (tree g) m \<and> backed_volume D (tree g) m
    \<and> alloc_ok (fs_store g) \<and> next_ino g = next_ino f \<and> next_snap_id g = next_snap_id f \<and> next_subvol_id g = next_subvol_id f
    \<and> current_subvol g = current_subvol f \<and> next_journal_seq g = next_journal_seq f \<and> last_checkpoint_seq g = next_journal_seq f - 1"
proof -
  obtain f' c r head s2 where S: "fs_sync f = (Inr (), f')" "durable_volume D ((tree f)\<lparr>ctx := c, root_block := r\<rparr>) m" "alloc_ok (store c)"
    "next_bset_seq c = next_bset_seq (ctx (tree f))" "same_device_area (fs_store f) (store c)"
    "unat (next_block_nr (store c)) \<le> 2 * unat (next_block_nr (fs_store f))" "persist_free_list (store c) = (Inr head, s2)"
    "f' = f\<lparr>tree := (tree f)\<lparr>ctx := c\<lparr>store := s2\<lparr>device := write_at (superblock_bytes (sb_stamp_checksum (crc32 s2)
        (sync_superblock f r (next_block_nr s2) head))) 0 (device s2)\<rparr>\<rparr>, root_block := r\<rparr>, last_checkpoint_seq := sat_sub (next_journal_seq f) 1\<rparr>"
    by (rule sync_steps [OF bv ok room]) (rule that)
  have nx: "unat (next_block_nr (store c)) \<le> 2 ^ 51" using S(6) room by simp
  let ?crc = "crc32 (fs_store f)" and ?sb = "sync_superblock f r (next_block_nr s2) head"
  let ?buf = "superblock_bytes (sb_stamp_checksum ?crc ?sb)"
  have len: "length ?buf = 4096" by simp
  note P = persisted [OF S(3) nx S(7) len]
  have area: "crc32 (store c) = ?crc" "dev_kind (device (store c)) = FileDevice" "below 65 (device (fs_store f)) (device (store c))"
    using S(5) dk by (simp_all add: same_device_area_def)
  have f': "fs_store f' = s2\<lparr>device := write_at ?buf 0 (device s2)\<rparr>" by (simp add: S(8) P(11) area(1))
  let ?d = "write_at ?buf 0 (device s2)"
  have js: "sb_journal_seq ?sb = next_journal_seq f - 1" using sat_sub_one [OF seq] by simp
  have rf: "read_frame ?crc (sb_journal_seq ?sb + 1) ?d = Inr None"
    unfolding js diff_add_cancel
  proof (rule read_frame_below [OF fr])
    fix off len y assume "4096 \<le> off" "off + len \<le> 65 * 4096" "read_at len off (device (fs_store f)) = Inr y"
    then show "read_at len off ?d = Inr y" using area(3) by (intro P(2)) (simp_all add: below_def)
  qed
  have rs: "read_at 4096 0 ?d = Inr ?buf" by (rule read_write_same [OF len])
  have fd: "dev_kind ?d = FileDevice" using P(10) area(2) by simp
  have ld: "\<exists>t' t1. load_free_list LOAD_FUEL (sb_free_head ?sb) t = (Inr (), t') \<and> faulted t t1 \<and> t' = t1\<lparr>free_list := free_list t'\<rparr>
      \<and> mset (free_list t') = mset (free_list (store c) @ last_chain_blocks (store c) @ last_chain_blocks s2)"
    if "device t = ?d" "data_cache t = Map.empty" for t unfolding sync_superblock_ok(4) by (rule P(3) [OF that])
  obtain st t1 where o: "fs_open ?crc (dev_data ?d) = Inr \<lparr>tree = reopen st (sb_root_block ?sb) (sb_next_bset_seq ?sb), next_ino = sb_next_ino ?sb,
       next_snap_id = sb_next_snap_id ?sb, next_subvol_id = sb_next_subvol_id ?sb, current_subvol = sb_current_subvol ?sb, has_journal = True,
       next_journal_seq = sb_journal_seq ?sb + 1, last_checkpoint_seq = sb_journal_seq ?sb\<rparr>"
    "faulted ((with_device ?crc ?d True)\<lparr>next_block_nr := sb_next_block_nr ?sb\<rparr>) t1" "st = t1\<lparr>free_list := free_list st\<rparr>"
    "mset (free_list st) = mset (free_list (store c) @ last_chain_blocks (store c) @ last_chain_blocks s2)"
    using open_image_ok [OF rs sync_superblock_ok(1-3) fd rf ld] by blast
  note st = opened_store [OF S(3) P(5,6,7,4) o(2) [unfolded sync_superblock_ok(5)] o(3,4)]
  let ?g = "\<lparr>tree = reopen st r (next_bset_seq (ctx (tree f))), next_ino = next_ino f, next_snap_id = next_snap_id f, next_subvol_id = next_subvol_id f,
    current_subvol = current_subvol f, has_journal = True, next_journal_seq = next_journal_seq f, last_checkpoint_seq = next_journal_seq f - 1\<rparr>"
  have g: "fs_open ?crc (dev_data (device (fs_store f'))) = Inr ?g" using o(1) js by (simp add: f')
  have "on_device D c r m" using durable_on_device [OF S(2)] by simp
  then have "volume (ctx (tree ?g)) r m D" using opened_volume [OF S(3) nx S(7) len _ S(4) area(1) st(2,3,6,7)] by (simp add: reopen_def)
  then have sg: "stored D (tree ?g) m" by (simp add: stored_def reopen_def)
  have bg: "backed_volume D (tree ?g) m" using durable_backed [OF volume_durable [OF sg]] st(4,5) by (simp add: reopen_def)
  obtain "backed_volume D (tree f') m" "alloc_ok (fs_store f')" using sync_ok [OF bv ok room] S(1) durable_backed by auto
  then show ?thesis using S(1) g sg bg st(1) backed_stored by (intro exI [of _ f'] exI [of _ ?g]) (simp add: reopen_def)
qed

theorem sync_then_open_witness:
  "\<exists>t f' g. create_in new_image = Some t
     \<and> fs_sync \<lparr>tree = t, next_ino = 5, next_snap_id = 9, next_subvol_id = 2, current_subvol = 1, has_journal = True,
         next_journal_seq = 1, last_checkpoint_seq = 0\<rparr> = (Inr (), f')
     \<and> fs_open (\<lambda>_. 7) (dev_data (device (fs_store f'))) = Inr g \<and> stored Map.empty (tree g) Map.empty \<and> next_ino g = 5 \<and> next_snap_id g = 9"
proof -
  obtain t where t: "create_in new_image = Some t" "backed_volume Map.empty t Map.empty" "alloc_ok (store (ctx t))"
    "unat (next_block_nr (store (ctx t))) \<le> 2 ^ 50" "dev_kind (device (store (ctx t))) = FileDevice" "crc32 (store (ctx t)) = (\<lambda>_. 7)"
    "read_frame (\<lambda>_. 7) 1 (device (store (ctx t))) = Inr None" by (rule new_image_tree)
  let ?f = "\<lparr>tree = t, next_ino = 5, next_snap_id = 9, next_subvol_id = 2, current_subvol = 1, has_journal = True,
         next_journal_seq = 1, last_checkpoint_seq = 0\<rparr>"
  from sync_then_open [of Map.empty ?f Map.empty] t(2-7) show ?thesis using t(1) by auto
qed

end
