(* ===== verification/Fs_Data.thy ===== *)
theory Fs_Data
  imports Fs_View
begin

text \<open>
  File contents.  The extents of an inode, seen along the active chain, and the data blocks they point
  to make a byte for every offset; \<open>write_at\<close> updates these bytes and \<open>read_at\<close> reads them.
\<close>

section \<open>Data blocks\<close>

lemma runs_write_data:
  assumes "sane n c" "nr \<in> allocated (store c)" "length b = 4096"
    and "\<And>c'. evolves {nr} 0 c c' \<Longrightarrow> sane n c' \<Longrightarrow> data_at (store c') nr = Some b \<Longrightarrow> Q () c'"
  shows "runs (on_store (write_data nr b)) c Q"
proof -
  have ok: "alloc_ok (store c)" using assms(1) by (simp add: sane_def)
  obtain s' where s: "write_data nr b (store c) = (Inr (), s')" "kept {nr} (store c) s'" "data_at s' nr = Some b"
    "next_block_nr s' = next_block_nr (store c)" "free_list s' = free_list (store c)"
    "last_chain_blocks s' = last_chain_blocks (store c)"
    using write_data_ok [OF allocated_blk_ok [OF ok assms(2)] assms(3)] by metis
  let ?c = "c\<lparr>store := s'\<rparr>"
  have ev: "evolves {nr} 0 c ?c"
    using s ok unfolding evolves_def by (auto simp: allocated_def alloc_ok_def intro: kept_mono)
  have "Q () ?c" using s ev evolves_sane [of 0 n c "{nr}" ?c] assms(1) by (intro assms(4)) auto
  then show ?thesis using s(1) by (simp add: on_store_def runs_on_part) (simp add: runs_def)
qed

lemma volume_new_data:
  assumes "volume c r m D" "sane (Suc n) c" "length b = 4096"
  shows "runs (on_store alloc) c (\<lambda>nr c1. runs (on_store (write_data nr b)) c1 (\<lambda>_ c'. D nr = None \<and> volume c' r m (D(nr \<mapsto> b)) \<and> sane n c'))"
proof (rule runs_alloc [OF assms(2)])
  obtain B where B: "holds c r B m" "data_kept D B c" using assms(1) by (auto simp: volume_def)
  have ok: "alloc_ok (store c)" using assms(2) by (simp add: sane_def)
  fix nr c1 assume c1: "evolves {} 1 c c1" "sane n c1" "nr \<notin> allocated (store c)" "nr \<in> allocated (store c1)"
    "nr \<notin> set (last_chain_blocks (store c))"
  have ok1: "alloc_ok (store c1)" using c1(2) by (simp add: sane_def)
  have nB: "nr \<notin> B" using holds_owned [OF B(1)] c1(3) by (auto simp: owned_def)
  have nD: "D nr = None" using B(2) c1(3) by (cases "D nr") (auto simp: owned_def data_kept_def)
  have h1: "holds c1 r B m" using holds_evolves [OF B(1) c1(1) ok] by simp
  have d1: "data_kept D B c1" using data_kept_evolves [OF B(2), of Cow 1 c1 B] c1(1) ok by auto
  have own: "nr \<in> owned c1" using c1(4,5) evolves_chain [OF c1(1)] by (simp add: owned_def)
  show "runs (on_store (write_data nr b)) c1 (\<lambda>_ c'. D nr = None \<and> volume c' r m (D(nr \<mapsto> b)) \<and> sane n c')"
  proof (rule runs_write_data [OF c1(2,4) assms(3)])
    fix c2 assume c2: "evolves {nr} 0 c1 c2" "sane n c2" "data_at (store c2) nr = Some b"
    have "holds c2 r B m" using holds_evolves [OF h1 c2(1) ok1] nB by simp
    moreover have "data_kept (D(nr \<mapsto> b)) B c2"
      unfolding data_kept_def
    proof (intro allI impI)
      fix x y assume x: "(D(nr \<mapsto> b)) x = Some y"
      show "x \<in> owned c2 \<and> x \<notin> B \<and> data_at (store c2) x = Some y"
      proof (cases "x = nr")
        case True
        then show ?thesis using x nB c2(3) evolves_owned [OF c2(1) own] by auto
      next
        case False
        then have "x \<in> owned c1" "x \<notin> B" "data_at (store c1) x = Some y" using x d1 by (auto simp: data_kept_def)
        then show ?thesis using False evolves_owned [OF c2(1)] evolves_data [OF c2(1) ok1, of x y] by (auto simp: owned_def)
      qed
    qed
    ultimately show "D nr = None \<and> volume c2 r m (D(nr \<mapsto> b)) \<and> sane n c2" using nD c2(2) by (auto simp: volume_def)
  qed
qed

lemma on_fs_store_runs: "runs (on_fs_store g) f P =
    runs (on_store g) (ctx (tree f)) (\<lambda>r c. P r (f\<lparr>tree := (tree f)\<lparr>ctx := c\<rparr>\<rparr>))"
  by (simp add: on_fs_store_def on_btree_runs on_tree_def runs_on_part)

lemma same_treeI: "journal_of t = journal_of (tree f) \<Longrightarrow> same f (f\<lparr>tree := t\<rparr>)"
  by (auto simp: same_def)

lemma read_data_reads:
  assumes "fsv D f m n" "D nr = Some b"
  shows "reads (read_data_block nr) D f m n b"
proof -
  let ?c = "ctx (tree f)"
  have v: "volume ?c (root_block (tree f)) m D" "room n (tree f)" using assms(1) by (simp_all add: fsv_def stored_def)
  have "data_at (store ?c) nr = Some b" using v(1) assms(2) by (auto simp: volume_def data_kept_def)
  then obtain s' where s: "read_data nr (store ?c) = (Inr b, s')" "faulted (store ?c) s'" using read_data_ok by blast
  have qt: "quiet ?c (?c\<lparr>store := s'\<rparr>)" using s(2) by (simp add: quiet_def)
  have "volume (?c\<lparr>store := s'\<rparr>) (root_block (tree f)) m D" using volume_quiet [OF v(1) qt room_alloc_ok [OF v(2)]] .
  moreover have "sane (n * OP_COST) (?c\<lparr>store := s'\<rparr>)" using quiet_sane [OF qt] v(2) by (simp add: room_def)
  ultimately show ?thesis
    unfolding reads_def read_data_block_def on_fs_store_runs on_store_def runs_on_part
    using s(1) assms(1) by (simp add: runs_def fsv_def same_treeI journal_of_def)
qed

section \<open>Extents\<close>

definition new_extent :: "bytes \<Rightarrow> u64 \<Rightarrow> extent_v1" where
  "new_extent data nr = \<lparr>x_len = of_nat (length data), x_pad = replicate 4 0, x_data_block = nr\<rparr>"

lemma new_extent_ok: "wf_extent (new_extent data nr)" "length (extent_bytes (new_extent data nr)) = 16"
  using extent_codec.length_enc [of "new_extent data nr"] by (simp_all add: wf_extent_def new_extent_def)

lemma put_extent_runs:
  assumes "fsv D f m (Suc (Suc n))" "length data \<le> 4096"
  shows "runs (put_extent ino off data) f (\<lambda>_ f'. \<exists>nr. D nr = None
     \<and> fsv (D(nr \<mapsto> data @ replicate (4096 - length data) 0)) f'
         (put_map (extent_key ino off) (active f m) Live (extent_bytes (new_extent data nr)) m) n \<and> keeps f f')"
proof -
  let ?b = "data @ replicate (BLOCK_SIZE - length data) 0"
  have len: "length ?b = 4096" using assms(2) by (simp add: layout_values)
  have np: "\<not> BLOCK_SIZE < length data" using assms(2) by (simp add: layout_values)
  have "runs (bindM current_snap (\<lambda>snap. bindM alloc_data_block (\<lambda>nr. bindM (on_fs_store (write_data nr ?b)) (\<lambda>_.
      on_btree (insert_at (extent_key ino off) snap (extent_bytes (new_extent data nr))))))) f (\<lambda>_ f'. \<exists>nr. D nr = None
     \<and> fsv (D(nr \<mapsto> ?b)) f' (put_map (extent_key ino off) (active f m) Live (extent_bytes (new_extent data nr)) m) n \<and> keeps f f')"
  proof (rule reads_runs [OF current_snap_reads [OF assms(1)]])
    fix f1 assume f1: "fsv D f1 m (Suc (Suc n))" "same f f1"
    let ?c = "ctx (tree f1)"
    have "volume ?c (root_block (tree f1)) m D" "sane (Suc (Suc n * OP_COST)) ?c"
      using f1(1) sane_le [of "Suc (Suc n) * OP_COST" ?c] by (simp_all add: fsv_def stored_def room_def OP_COST_def)
    note new = volume_new_data [OF this len]
    have fin: "runs (on_btree (insert_at (extent_key ino off) (active f m) (extent_bytes (new_extent data nr)))) (f1\<lparr>tree := (tree f1)\<lparr>ctx := c2\<rparr>\<rparr>)
        (\<lambda>_ f'. \<exists>nr. D nr = None \<and> fsv (D(nr \<mapsto> ?b)) f' (put_map (extent_key ino off) (active f m) Live (extent_bytes (new_extent data nr)) m) n \<and> keeps f f')"
      if c2: "D nr = None \<and> volume c2 (root_block (tree f1)) m (D(nr \<mapsto> ?b)) \<and> sane (Suc n * OP_COST) c2" for nr c2
    proof -
      let ?f2 = "f1\<lparr>tree := (tree f1)\<lparr>ctx := c2\<rparr>\<rparr>"
      have f2: "fsv (D(nr \<mapsto> ?b)) ?f2 m (Suc n)" using c2 f1(1) by (simp add: fsv_def stored_def room_def)
      have k: "keeps f ?f2" using f1(2) by (auto simp: same_def keeps_def)
      have "val_size (hd (extent_key ino off)) = Some (length (extent_bytes (new_extent data nr)))"
        by (simp add: extent_key_def new_extent_ok)
      from tree_put_runs [OF f2 _ this, of "active f m"] show ?thesis
        using c2 keeps_trans [OF k] by (auto simp: new_extent_ok elim!: runs_mono)
    qed
    show "runs (bindM alloc_data_block (\<lambda>nr. bindM (on_fs_store (write_data nr ?b)) (\<lambda>_.
        on_btree (insert_at (extent_key ino off) (active f m) (extent_bytes (new_extent data nr)))))) f1 (\<lambda>_ f'. \<exists>nr. D nr = None
       \<and> fsv (D(nr \<mapsto> ?b)) f' (put_map (extent_key ino off) (active f m) Live (extent_bytes (new_extent data nr)) m) n \<and> keeps f f')"
      unfolding alloc_data_block_def runs_bind on_fs_store_runs
    proof (rule runs_mono [OF new])
      fix nr c1
      assume "runs (on_store (write_data nr ?b)) c1 (\<lambda>_ c'. D nr = None \<and> volume c' (root_block (tree f1)) m (D(nr \<mapsto> ?b)) \<and> sane (Suc n * OP_COST) c')"
      from runs_mono [OF this fin]
      show "runs (on_store (write_data nr ?b)) (ctx (tree (f1\<lparr>tree := (tree f1)\<lparr>ctx := c1\<rparr>\<rparr>))) (\<lambda>r c.
          runs (on_btree (insert_at (extent_key ino off) (active f m) (extent_bytes (new_extent data nr))))
            (f1\<lparr>tree := (tree f1)\<lparr>ctx := c1\<rparr>, tree := (tree (f1\<lparr>tree := (tree f1)\<lparr>ctx := c1\<rparr>\<rparr>))\<lparr>ctx := c\<rparr>\<rparr>)
            (\<lambda>_ f'. \<exists>nr. D nr = None \<and> fsv (D(nr \<mapsto> ?b)) f' (put_map (extent_key ino off) (active f m) Live (extent_bytes (new_extent data nr)) m) n \<and> keeps f f'))"
        by simp
    qed
  qed
  then show ?thesis unfolding put_extent_def using np by (simp add: new_extent_def layout_values)
qed

section \<open>The bytes of a file\<close>

definition block_of :: "kvmap \<Rightarrow> (u64 \<rightharpoonup> bytes) \<Rightarrow> snap_id list \<Rightarrow> u64 \<Rightarrow> u64 \<Rightarrow> bytes" where
  "block_of m D chain ino boff = (case extent_at m chain ino boff of None \<Rightarrow> replicate 4096 0
     | Some x \<Rightarrow> take (unat (x_len x)) (the (D (x_data_block x))) @ replicate (4096 - unat (x_len x)) 0)"

definition byte_at :: "kvmap \<Rightarrow> (u64 \<rightharpoonup> bytes) \<Rightarrow> snap_id list \<Rightarrow> u64 \<Rightarrow> nat \<Rightarrow> u8" where
  "byte_at m D chain ino i = block_of m D chain ino (of_nat (i div 4096 * 4096)) ! (i mod 4096)"

text \<open>Extents are keyed on block boundaries, hold at most one block and point to a data block.\<close>

definition file_ok :: "kvmap \<Rightarrow> (u64 \<rightharpoonup> bytes) \<Rightarrow> snap_id list \<Rightarrow> u64 \<Rightarrow> bool" where
  "file_ok m D chain ino = (\<forall>boff x. extent_at m chain ino boff = Some x \<longrightarrow> 4096 dvd unat boff \<and> unat (x_len x) \<le> 4096
     \<and> (\<exists>b. D (x_data_block x) = Some b \<and> length b = 4096))"

lemma file_okD:
  "file_ok m D chain ino \<Longrightarrow> extent_at m chain ino boff = Some x \<Longrightarrow> 4096 dvd unat boff \<and> unat (x_len x) \<le> 4096
     \<and> (\<exists>b. D (x_data_block x) = Some b \<and> length b = 4096)"
  unfolding file_ok_def by blast

lemma length_block_of: "file_ok m D chain ino \<Longrightarrow> length (block_of m D chain ino boff) = 4096"
  by (fastforce simp: block_of_def file_ok_def split: option.splits)

lemma of_nat_len: "length data \<le> 4096 \<Longrightarrow> unat (of_nat (length data) :: u32) = length data"
  by (simp add: unat_of_nat)

text \<open>What putting an extent does to the blocks of the file, at the newest snapshot of the chain.\<close>

lemma put_extent_blocks:
  assumes ok: "file_ok m D (s # ss) ino" and nr: "D nr = None" and len: "length data \<le> 4096" and al: "4096 dvd unat boff"
  defines "m' \<equiv> put_map (extent_key ino boff) s Live (extent_bytes (new_extent data nr)) m"
    and "D' \<equiv> D(nr \<mapsto> data @ replicate (4096 - length data) 0)"
  shows "file_ok m' D' (s # ss) ino" "block_of m' D' (s # ss) ino boff = data @ replicate (4096 - length data) 0"
    "x \<noteq> boff \<Longrightarrow> block_of m' D' (s # ss) ino x = block_of m D (s # ss) ino x"
proof -
  have own: "extent_at m' (s # ss) ino boff = Some (new_extent data nr)"
    unfolding m'_def by (rule lookup_as_put) (rule extent_codec.dec_stored [OF new_extent_ok(1)])
  have other: "extent_at m' (s # ss) ino x = extent_at m (s # ss) ino x" if "x \<noteq> boff" for x
    unfolding m'_def using that by (intro lookup_as_cong visible_put_other) simp
  show "block_of m' D' (s # ss) ino boff = data @ replicate (4096 - length data) 0"
    using of_nat_len [OF len] by (simp add: block_of_def own new_extent_def D'_def)
  show "block_of m' D' (s # ss) ino x = block_of m D (s # ss) ino x" if x: "x \<noteq> boff"
  proof (cases "extent_at m (s # ss) ino x")
    case (Some e)
    then have "x_data_block e \<noteq> nr" using file_okD [OF ok Some] nr by auto
    then show ?thesis by (simp add: block_of_def other [OF x] Some D'_def)
  qed (simp add: block_of_def other [OF x])
  show "file_ok m' D' (s # ss) ino"
    unfolding file_ok_def
  proof (intro allI impI)
    fix x e assume e: "extent_at m' (s # ss) ino x = Some e"
    show "4096 dvd unat x \<and> unat (x_len e) \<le> 4096 \<and> (\<exists>b. D' (x_data_block e) = Some b \<and> length b = 4096)"
    proof (cases "x = boff")
      case True
      then have "e = new_extent data nr" using e own by simp
      then show ?thesis using True al len of_nat_len [OF len] by (simp add: new_extent_def D'_def)
    next
      case False
      then have "extent_at m (s # ss) ino x = Some e" using e other by simp
      from file_okD [OF ok this] show ?thesis using nr by (auto simp: D'_def)
    qed
  qed
qed

section \<open>Writing\<close>

text \<open>What a write of one inode's data may change besides its bytes: nothing under other keys.\<close>

definition writes_file :: "u64 \<Rightarrow> kvmap \<Rightarrow> (u64 \<rightharpoonup> bytes) \<Rightarrow> kvmap \<Rightarrow> (u64 \<rightharpoonup> bytes) \<Rightarrow> bool" where
  "writes_file ino m D m' D' = (D \<subseteq>\<^sub>m D' \<and> meta_eq m m'
     \<and> (\<forall>l chain. (\<forall>off. l \<noteq> extent_key ino off) \<longrightarrow> visible m' l chain = visible m l chain))"

lemma writes_file_refl [simp]: "writes_file ino m D m D"
  by (simp add: writes_file_def meta_eq_def)

lemma writes_file_trans: "writes_file ino m D m' D' \<Longrightarrow> writes_file ino m' D' m'' D'' \<Longrightarrow> writes_file ino m D m'' D''"
  unfolding writes_file_def using map_le_trans meta_eq_trans by auto

lemma writes_file_put: "D nr = None \<Longrightarrow> writes_file ino m D (put_map (extent_key ino off) s Live v m) (D(nr \<mapsto> b))"
  by (auto simp: writes_file_def meta_eq_file intro: map_le_imp_upd_le) (auto simp: map_le_def)

lemma put_block_runs:
  assumes "fsv D f m (Suc (Suc n))" "file_ok m D (active_chain f m) ino" "length data \<le> 4096" "4096 dvd unat boff"
  shows "runs (put_extent ino boff data) f (\<lambda>_ f'. \<exists>m' D'. fsv D' f' m' n \<and> keeps f f' \<and> writes_file ino m D m' D'
     \<and> file_ok m' D' (active_chain f m) ino \<and> block_of m' D' (active_chain f m) ino boff = data @ replicate (4096 - length data) 0
     \<and> (\<forall>x. x \<noteq> boff \<longrightarrow> block_of m' D' (active_chain f m) ino x = block_of m D (active_chain f m) ino x))"
proof -
  obtain ss where ss: "active_chain f m = active f m # ss" using hd_chain by blast
  show ?thesis
  proof (rule runs_mono [OF put_extent_runs [OF assms(1,3)]])
    fix u f' assume "\<exists>nr. D nr = None \<and> fsv (D(nr \<mapsto> data @ replicate (4096 - length data) 0)) f'
         (put_map (extent_key ino boff) (active f m) Live (extent_bytes (new_extent data nr)) m) n \<and> keeps f f'"
    then obtain nr where nr: "D nr = None" "fsv (D(nr \<mapsto> data @ replicate (4096 - length data) 0)) f'
         (put_map (extent_key ino boff) (active f m) Live (extent_bytes (new_extent data nr)) m) n" "keeps f f'" by blast
    note b = put_extent_blocks [OF assms(2) [unfolded ss] nr(1) assms(3,4)]
    show "\<exists>m' D'. fsv D' f' m' n \<and> keeps f f' \<and> writes_file ino m D m' D'
     \<and> file_ok m' D' (active_chain f m) ino \<and> block_of m' D' (active_chain f m) ino boff = data @ replicate (4096 - length data) 0
     \<and> (\<forall>x. x \<noteq> boff \<longrightarrow> block_of m' D' (active_chain f m) ino x = block_of m D (active_chain f m) ino x)"
      unfolding ss
      by (intro exI [of _ "put_map (extent_key ino boff) (active f m) Live (extent_bytes (new_extent data nr)) m"]
          exI [of _ "D(nr \<mapsto> data @ replicate (4096 - length data) 0)"] conjI nr(2,3) writes_file_put [of D nr, OF nr(1)] b(1,2) allI impI b(3))
  qed
qed

lemma splice_zero_tail:
  assumes "length old \<le> 4096" "i + length part \<le> 4096"
  defines "buf \<equiv> bsplice 0 old (replicate 4096 (0 :: u8))" and "n \<equiv> max (i + length part) (length old)"
  shows "take n (bsplice i part buf) @ replicate (4096 - n) 0 = bsplice i part (old @ replicate (4096 - length old) 0)"
    "length (take n (bsplice i part buf)) = n"
proof -
  have buf: "buf = old @ replicate (4096 - length old) 0" using assms(1) by (simp add: buf_def bsplice_def)
  have len: "length (bsplice i part buf) = 4096" using assms(1,2) by (simp add: buf)
  have "drop n (bsplice i part buf) = replicate (4096 - n) 0"
    unfolding bsplice_def buf using assms(1,2) by (auto simp: n_def max_def)
  then show "take n (bsplice i part buf) @ replicate (4096 - n) 0 = bsplice i part (old @ replicate (4096 - length old) 0)"
    using append_take_drop_id [of n "bsplice i part buf"] by (simp add: buf)
  show "length (take n (bsplice i part buf)) = n" using len assms(1,2) by (simp add: n_def)
qed

lemma existing_reads:
  assumes "fsv D f m n" "file_ok m D chain ino"
  shows "reads (case extent_at m chain ino boff of
      None \<Rightarrow> ret (0, replicate BLOCK_SIZE 0)
    | Some ext \<Rightarrow> bindM (unwrapM (read_data_block (x_data_block ext))) (\<lambda>src.
        bindM (expect (range_of 0 (unat (x_len ext)) src)) (\<lambda>old.
        ret (unat (x_len ext), bsplice 0 old (replicate BLOCK_SIZE 0))))) D f m n
     (case extent_at m chain ino boff of None \<Rightarrow> (0, replicate 4096 0)
      | Some ext \<Rightarrow> (unat (x_len ext), bsplice 0 (take (unat (x_len ext)) (the (D (x_data_block ext)))) (replicate 4096 0)))"
proof (cases "extent_at m chain ino boff")
  case (Some x)
  from file_okD [OF assms(2) Some] obtain b where b: "D (x_data_block x) = Some b" "length b = 4096" "unat (x_len x) \<le> 4096" by auto
  then have "range_of 0 (unat (x_len x)) b = Some (take (unat (x_len x)) b)" by (simp add: range_of_def bslice_def)
  then show ?thesis
    using b(1) unfolding Some
    by (auto intro!: reads_bind [OF unwrap_reads [OF read_data_reads [OF assms(1) b(1)]]] reads_bind [OF reads_expect] simp: layout_values)
qed (simp add: assms(1) layout_values)

lemma write_block_runs:
  assumes "fsv D f m (Suc (Suc n))" "file_ok m D (active_chain f m) ino" "i + length part \<le> 4096" "4096 dvd unat boff"
  shows "runs (write_block ino boff i part) f (\<lambda>_ f'. \<exists>m' D'. fsv D' f' m' n \<and> keeps f f' \<and> writes_file ino m D m' D'
     \<and> file_ok m' D' (active_chain f m) ino
     \<and> block_of m' D' (active_chain f m) ino boff = bsplice i part (block_of m D (active_chain f m) ino boff)
     \<and> (\<forall>x. x \<noteq> boff \<longrightarrow> block_of m' D' (active_chain f m) ino x = block_of m D (active_chain f m) ino x))"
    (is "runs _ _ ?P")
proof -
  let ?c = "active_chain f m"
  define old where "old = (case extent_at m ?c ino boff of None \<Rightarrow> [] | Some x \<Rightarrow> take (unat (x_len x)) (the (D (x_data_block x))))"
  have ol: "extent_at m ?c ino boff = Some x \<Longrightarrow>
      length (take (unat (x_len x)) (the (D (x_data_block x)))) = unat (x_len x) \<and> unat (x_len x) \<le> 4096" for x
    using file_okD [OF assms(2), of boff x] by auto
  have ob: "block_of m D ?c ino boff = old @ replicate (4096 - length old) 0" "length old \<le> 4096"
    using ol by (cases "extent_at m ?c ino boff"; simp add: block_of_def old_def)+
  let ?r = "(length old, bsplice 0 old (replicate 4096 (0 :: u8)))"
  have r: "(case extent_at m ?c ino boff of None \<Rightarrow> (0, replicate 4096 0)
      | Some ext \<Rightarrow> (unat (x_len ext), bsplice 0 (take (unat (x_len ext)) (the (D (x_data_block ext)))) (replicate 4096 0))) = ?r"
    using ol by (cases "extent_at m ?c ino boff") (simp_all add: old_def bsplice_def)
  note sp = splice_zero_tail [OF ob(2) assms(3)]
  show ?thesis
    unfolding write_block_def
  proof (rule reads_runs [OF get_extent_reads [OF assms(1)]], rule reads_runs [OF existing_reads [where boff = boff, OF _ assms(2), unfolded r]])
    fix f1 f2 assume f: "fsv D f1 m (Suc (Suc n))" "same f f1" "fsv D f2 m (Suc (Suc n))" "same f1 f2"
    have k: "keeps f f2" using f(2,4) same_trans same_keeps by blast
    have c: "active_chain f2 m = ?c" using active_same f(2,4) by metis
    let ?d = "take (max (i + length part) (length old)) (bsplice i part (bsplice 0 old (replicate 4096 0)))"
    have "length ?d \<le> 4096" using sp(2) assms(3) ob(2) by simp
    from put_block_runs [OF f(3) _ this assms(4), unfolded c, OF assms(2), unfolded sp(2), unfolded sp(1)]
    have "runs (put_extent ino boff ?d) f2 ?P" unfolding ob(1) by (rule runs_mono) (use keeps_trans [OF k] in blast)
    then show "runs (case ?r of (existing_len, buf) \<Rightarrow>
        put_extent ino boff (take (max (i + length part) existing_len) (bsplice i part buf))) f2 ?P" by simp
  qed assumption
qed

text \<open>The bytes after one block has been written.\<close>

lemma unat_u64: "n < 2 ^ 64 \<Longrightarrow> unat (of_nat n :: u64) = n"
  by (simp add: unat_of_nat)

lemma block_index: "i < 2 ^ 64 \<Longrightarrow> unat (of_nat (i div 4096 * 4096) :: u64) = i div 4096 * 4096"
proof -
  assume "i < 2 ^ 64"
  then have "i div 4096 * 4096 < 2 ^ 64" using div_times_less_eq_dividend [of i 4096] by linarith
  then show ?thesis by (rule unat_u64)
qed

lemma byte_after_block:
  assumes "block_of m' D' c ino boff = bsplice i part (block_of m D c ino boff)" "length (block_of m D c ino boff) = 4096"
    "\<And>x. x \<noteq> boff \<Longrightarrow> block_of m' D' c ino x = block_of m D c ino x"
    "4096 dvd unat boff" "i + length part \<le> 4096" "k < 2 ^ 64"
  shows "byte_at m' D' c ino k =
    (if unat boff + i \<le> k \<and> k < unat boff + i + length part then part ! (k - (unat boff + i)) else byte_at m D c ino k)"
proof -
  obtain q where q: "unat boff = 4096 * q" using assms(4) by (auto elim: dvdE)
  have eq: "of_nat (k div 4096 * 4096) = boff \<longleftrightarrow> k div 4096 = q"
    using block_index [OF assms(6)] q by (auto simp: word_unat_eq_iff)
  have k: "k = 4096 * (k div 4096) + k mod 4096" "k mod 4096 < 4096" by simp_all
  show ?thesis
  proof (cases "k div 4096 = q")
    case True
    let ?r = "k mod 4096"
    have b: "byte_at m' D' c ino k = bsplice i part (block_of m D c ino boff) ! ?r" "byte_at m D c ino k = block_of m D c ino boff ! ?r"
      using True eq assms(1) by (simp_all add: byte_at_def)
    have "bsplice i part (block_of m D c ino boff) ! ?r = (if i \<le> ?r \<and> ?r < i + length part then part ! (?r - i) else block_of m D c ino boff ! ?r)"
      using assms(2,5) k(2) by (auto simp: bsplice_def nth_append min_def)
    moreover have "unat boff + i \<le> k \<longleftrightarrow> i \<le> ?r" "k < unat boff + i + length part \<longleftrightarrow> ?r < i + length part" "k - (unat boff + i) = ?r - i"
      using k(1) True q by linarith+
    ultimately show ?thesis using b by simp
  next
    case False
    then have "\<not> (unat boff + i \<le> k \<and> k < unat boff + i + length part)" using k q assms(5) by linarith
    then have "?thesis \<longleftrightarrow> byte_at m' D' c ino k = byte_at m D c ino k" by presburger
    then show ?thesis using False eq assms(3) by (simp add: byte_at_def)
  qed
qed

lemma write_loop_runs:
  "fsv D f m (2 * length data + n) \<Longrightarrow> file_ok m D (active_chain f m) ino \<Longrightarrow> unat cursor + length data \<le> 2 ^ 63 \<Longrightarrow>
    runs (write_loop ino cursor data) f (\<lambda>_ f'. \<exists>m' D'. fsv D' f' m' n \<and> keeps f f' \<and> writes_file ino m D m' D'
      \<and> file_ok m' D' (active_chain f m) ino
      \<and> (\<forall>k < 2 ^ 64. byte_at m' D' (active_chain f m) ino k =
          (if unat cursor \<le> k \<and> k < unat cursor + length data then data ! (k - unat cursor) else byte_at m D (active_chain f m) ino k)))"
proof (induction "length data" arbitrary: data cursor f m D rule: less_induct)
  case less
  let ?c = "active_chain f m"
  show ?case
  proof (cases "data = []")
    case True
    have "fsv D f m n" using fsv_le [OF less.prems(1)] by simp
    then show ?thesis using True less.prems(2) by (auto simp: write_loop.simps intro!: exI [of _ m] exI [of _ D])
  next
    case False
    define i where "i = unat cursor mod 4096"
    define t where "t = min (4096 - i) (length data)"
    have it: "i < 4096" "0 < t" "t \<le> length data" "i + t \<le> 4096" using False by (simp_all add: i_def t_def)
    have cur: "unat (block_start cursor) + i = unat cursor" by (simp add: unat_block_start i_def)
    have next_cur: "unat (cursor + of_nat t) = unat cursor + t"
      using less.prems(3) it(3) by (simp add: unat_word_ariths(1) unat_of_nat)
    have al: "4096 dvd unat (block_start cursor)" by (simp add: unat_block_start)
    have step: "write_loop ino cursor data = bindM (write_block ino (block_start cursor) i (take t data)) (\<lambda>_.
        write_loop ino (cursor + of_nat t) (drop t data))"
      using False by (subst write_loop.simps) (simp add: Let_def in_block i_def t_def layout_values)
    have room: "2 * length data + n = Suc (Suc (2 * (length data - 1) + n))" using False by (cases data) simp_all
    have part: "i + length (take t data) \<le> 4096" using it by simp
    show ?thesis
      unfolding step runs_bind
    proof (rule runs_mono [OF write_block_runs [OF less.prems(1) [unfolded room] less.prems(2) part al]])
      fix u f1
      assume "\<exists>m' D'. fsv D' f1 m' (2 * (length data - 1) + n) \<and> keeps f f1 \<and> writes_file ino m D m' D' \<and> file_ok m' D' ?c ino
        \<and> block_of m' D' ?c ino (block_start cursor) = bsplice i (take t data) (block_of m D ?c ino (block_start cursor))
        \<and> (\<forall>x. x \<noteq> block_start cursor \<longrightarrow> block_of m' D' ?c ino x = block_of m D ?c ino x)"
      then obtain m1 D1 where f1: "fsv D1 f1 m1 (2 * (length data - 1) + n)" "keeps f f1" "writes_file ino m D m1 D1" "file_ok m1 D1 ?c ino"
        "block_of m1 D1 ?c ino (block_start cursor) = bsplice i (take t data) (block_of m D ?c ino (block_start cursor))"
        "\<And>x. x \<noteq> block_start cursor \<Longrightarrow> block_of m1 D1 ?c ino x = block_of m D ?c ino x" by blast
      have byte1: "byte_at m1 D1 ?c ino k = (if unat cursor \<le> k \<and> k < unat cursor + t then data ! (k - unat cursor) else byte_at m D ?c ino k)"
        if "k < 2 ^ 64" for k
        using byte_after_block [OF f1(5) length_block_of [OF less.prems(2)] f1(6) al part that, unfolded cur] it(3) by (auto simp: min_def)
      have me: "meta_eq m m1" using f1(3) by (simp add: writes_file_def)
      have c1: "active_chain f1 m1 = ?c" using meta_eq_chain [OF me] meta_eq_active [OF me, of f1 f] keeps_fields [OF f1(2)] by simp
      have pre: "length (drop t data) < length data" "fsv D1 f1 m1 (2 * length (drop t data) + n)" "unat (cursor + of_nat t) + length (drop t data) \<le> 2 ^ 63"
        using it fsv_le [OF f1(1)] less.prems(3) next_cur by auto
      from less.hyps [OF pre(1,2) f1(4) [folded c1] pre(3), unfolded c1 next_cur]
      show "runs (write_loop ino (cursor + of_nat t) (drop t data)) f1 (\<lambda>_ f'. \<exists>m' D'. fsv D' f' m' n \<and> keeps f f' \<and> writes_file ino m D m' D'
          \<and> file_ok m' D' ?c ino \<and> (\<forall>k < 2 ^ 64. byte_at m' D' ?c ino k =
              (if unat cursor \<le> k \<and> k < unat cursor + length data then data ! (k - unat cursor) else byte_at m D ?c ino k)))"
      proof (rule runs_mono)
        fix v f2
        assume "\<exists>m' D'. fsv D' f2 m' n \<and> keeps f1 f2 \<and> writes_file ino m1 D1 m' D' \<and> file_ok m' D' ?c ino \<and> (\<forall>k < 2 ^ 64. byte_at m' D' ?c ino k =
              (if unat cursor + t \<le> k \<and> k < unat cursor + t + length (drop t data) then drop t data ! (k - (unat cursor + t)) else byte_at m1 D1 ?c ino k))"
        then obtain m2 D2 where f2: "fsv D2 f2 m2 n" "keeps f1 f2" "writes_file ino m1 D1 m2 D2" "file_ok m2 D2 ?c ino"
          "\<And>k. k < 2 ^ 64 \<Longrightarrow> byte_at m2 D2 ?c ino k =
              (if unat cursor + t \<le> k \<and> k < unat cursor + t + length (drop t data) then drop t data ! (k - (unat cursor + t)) else byte_at m1 D1 ?c ino k)"
          by blast
        have "byte_at m2 D2 ?c ino k = (if unat cursor \<le> k \<and> k < unat cursor + length data then data ! (k - unat cursor) else byte_at m D ?c ino k)"
          if "k < 2 ^ 64" for k
          using f2(5) [OF that] byte1 [OF that] it(3) by auto
        then show "\<exists>m' D'. fsv D' f2 m' n \<and> keeps f f2 \<and> writes_file ino m D m' D' \<and> file_ok m' D' ?c ino \<and> (\<forall>k < 2 ^ 64. byte_at m' D' ?c ino k =
              (if unat cursor \<le> k \<and> k < unat cursor + length data then data ! (k - unat cursor) else byte_at m D ?c ino k))"
          using f2(1,4) keeps_trans [OF f1(2) f2(2)] writes_file_trans [OF f1(3) f2(3)] by blast
      qed
    qed
  qed
qed

end
