(* ===== verification/Fs_Scans.thy ===== *)
theory Fs_Scans
  imports Fs_Data
begin

text \<open>
  Scans of the file system.  Every listing of \<open>Fs\<close> (extents, directory entries, snapshots, subvolumes,
  deferred deletions) is a visible scan of one window of keys whose rows are decoded; the locale
  \<open>scan_family\<close> states what the keys of such a window promise, and that the listing returns exactly
  the visible members, each once, is proved once and interpreted for each of them.
\<close>

section \<open>Visible scans\<close>

lemma range_scan_visible_reads:
  assumes "fsv D f m n" "length start \<le> 28" "length en \<le> 28"
  shows "reads (on_btree (range_scan_visible start en chain)) D f m n
     (visible_rows (set chain) (\<lambda>l s v. (l, v)) None False (scan_rows m (start @ replicate 4 0) (en @ replicate 4 0)))"
proof (rule reads_tree [OF _ assms(1)])
  have "stored D (tree f) m" "room n (tree f)" using assms(1) by (simp_all add: fsv_def)
  from range_scan_all_stored [OF this assms(2,3)]
  show "runs (range_scan_visible start en chain) (tree f) (\<lambda>x t. x = visible_rows (set chain) (\<lambda>l s v. (l, v)) None False
      (scan_rows m (start @ replicate 4 0) (en @ replicate 4 0)) \<and> stored D t m \<and> room n t \<and> journal_of t = journal_of (tree f))"
    unfolding range_scan_visible_def runs_bind by (rule runs_mono) simp
qed

lemma visible_rows_listed:
  assumes "fsv D f m n" "separated m start en" "sorted_keys chain"
  shows "\<exists>ls. visible_rows (set chain) (\<lambda>l s v. (l, v)) None False (scan_rows m (start @ replicate 4 0) (en @ replicate 4 0)) =
       visible_list (\<lambda>l s v. (l, v)) m chain ls \<and> distinct ls \<and> set ls = {l. in_window start en l \<and> l \<in> logical_of ` dom m}"
proof -
  obtain B where h: "holds (ctx (tree f)) (root_block (tree f)) B m" using assms(1) by (auto simp: fsv_def stored_def volume_def)
  show ?thesis
    using assms(2) holds_ok_key [OF h]
    by (intro visible_window [OF holds_finite [OF h] holds_ok_key [OF h] assms(3)]) (auto simp: separated_def window_logical)
qed

lemma mapM_reads:
  "(\<And>x f. x \<in> set xs \<Longrightarrow> fsv D f m n \<Longrightarrow> reads (g x) D f m n (h x)) \<Longrightarrow> fsv D f m n \<Longrightarrow> reads (mapM g xs) D f m n (map h xs)"
proof (induction xs arbitrary: f)
  case (Cons x xs)
  show ?case
    unfolding mapM.simps
    by (rule reads_bind [OF Cons.prems(1) [OF _ Cons.prems(2)]], simp, rule reads_bind [OF Cons.IH]) (simp_all add: Cons.prems(1))
qed simp

lemma decode_rows_reads:
  assumes "fsv D f m n" "\<And>k v. (k, v) \<in> set rows \<Longrightarrow> dk k \<noteq> None \<and> dv v \<noteq> None"
  shows "reads (decode_rows dk dv rows) D f m n (map (\<lambda>(k, v). (the (dk k), the (dv v))) rows)"
  unfolding decode_rows_def
proof (rule mapM_reads [OF _ assms(1)])
  fix x f' assume x: "x \<in> set rows" and f': "fsv D f' m n"
  obtain k v where kv: "x = (k, v)" by (cases x)
  then obtain k' v' where "dk k = Some k'" "dv v = Some v'" using assms(2) x by blast
  then show "reads (case x of (k, v) \<Rightarrow> bindM (expect (dk k)) (\<lambda>k'. bindM (expect (dv v)) (\<lambda>v'. ret (k', v')))) D f' m n
      (case x of (k, v) \<Rightarrow> (the (dk k), the (dv v)))"
    using f' kv by (auto simp: reads_def)
qed

lemma visible_list_in: "(l, v) \<in> set (visible_list (\<lambda>l s v. (l, v)) m chain ls) \<longleftrightarrow> l \<in> set ls \<and> (\<exists>s. visible m l chain = Some (v, s))"
  by (auto simp: visible_list_def emit_def split: option.splits) (metis)+

lemma visible_list_distinct: "distinct ls \<Longrightarrow> distinct (map fst (visible_list (\<lambda>l s v. (l, v)) m chain ls))"
proof (induction ls)
  case (Cons l ls)
  then show ?case by (auto simp: visible_list_def emit_def split: option.splits)
qed (simp add: visible_list_def)

section \<open>Families of keys\<close>

lemma window_hd: "in_window (k # a) (k # b) l \<Longrightarrow> l \<noteq> [] \<Longrightarrow> hd l = k"
  by (cases l) (auto simp: in_window_def)

lemma apart_same_length:
  assumes "\<And>k. k \<in> K \<Longrightarrow> length (logical_of k) = n"
  shows "apart K"
  unfolding apart_def
proof (intro ballI allI impI, elim conjE)
  fix k k' y assume k: "k \<in> K" "k' \<in> K" "logical_of k' = logical_of k @ y" "y \<noteq> []"
  then have "n = n + length y" using assms by (metis length_append)
  then show "hd y \<noteq> 255 \<and> hd (u32_be (snap_of k)) = 255 \<and> hd (u32_be (snap_of k')) = 255" using k(4) by simp
qed

locale scan_family =
  fixes key :: "'k \<Rightarrow> bytes" and inside :: "'k \<Rightarrow> bool" and dk :: "bytes \<Rightarrow> 'k option" and dv :: "bytes \<Rightarrow> 'v option"
    and sz :: nat and start :: bytes and en :: bytes
  assumes window: "key_shape l \<Longrightarrow> in_window start en l \<longleftrightarrow> (\<exists>x. inside x \<and> l = key x)"
    and dk_key: "dk (key x) = Some x"
    and shape: "key_shape (key x)"
    and sized: "val_size (hd (key x)) = Some sz"
    and dv_total: "length v = sz \<Longrightarrow> \<exists>y. dv v = Some y"
    and short: "length start \<le> 28" "length en \<le> 28"
    and no_prefix: "key_shape l \<Longrightarrow> \<not> strict_prefix l start \<and> \<not> strict_prefix l en"
begin

lemma fixed_separated:
  assumes "typed m" "\<And>x. length (key x) = N"
  shows "separated m start en"
proof -
  have sh: "key_shape (logical_of k)" if "k \<in> dom m" for k using assms that by (simp add: typed_def)
  have len: "length (logical_of k) = N" if "k \<in> dom m" "in_window start en (logical_of k)" for k
    using window [OF sh [OF that(1)]] that(2) assms(2) by auto
  have "apart {k \<in> dom m. in_window start en (logical_of k)}" by (rule apart_same_length [of _ N]) (use len in simp)
  then show ?thesis using no_prefix [OF sh] by (simp add: separated_def)
qed

lemma row_decodes:
  assumes "typed m" "visible m (key x) chain = Some (v, s)"
  shows "\<exists>y. dv v = Some y"
  using typed_visible [OF assms(1), of "hd (key x)" "tl (key x)" chain v s sz] assms(2) sized [of x] key_shape_ne [OF shape [of x]] dv_total by simp

lemma scan_reads:
  assumes f: "fsv D f m n" and srt: "sorted_keys chain" and sep: "separated m start en"
  shows "\<exists>xs. (\<forall>g. fsv D g m n \<longrightarrow> reads (bindM (on_btree (range_scan_visible start en chain)) (decode_rows dk dv)) D g m n xs)
     \<and> distinct (map fst xs) \<and> (\<forall>x y. (x, y) \<in> set xs \<longleftrightarrow> inside x \<and> lookup_as dv m (key x) chain = Some y)"
proof -
  have ty: "typed m" using f by (simp add: fsv_def)
  obtain ls where ls: "visible_rows (set chain) (\<lambda>l s v. (l, v)) None False (scan_rows m (start @ replicate 4 0) (en @ replicate 4 0)) =
       visible_list (\<lambda>l s v. (l, v)) m chain ls" "distinct ls" "set ls = {l. in_window start en l \<and> l \<in> logical_of ` dom m}"
    using visible_rows_listed [OF f sep srt] by blast
  define rows where "rows = visible_list (\<lambda>l s v. (l, v)) m chain ls"
  have row: "(l, v) \<in> set rows \<longleftrightarrow> (\<exists>x s. l = key x \<and> inside x \<and> visible m l chain = Some (v, s))" for l v
  proof
    assume "\<exists>x s. l = key x \<and> inside x \<and> visible m l chain = Some (v, s)"
    then have "in_window start en l" "l \<in> logical_of ` dom m" "\<exists>s. visible m l chain = Some (v, s)"
      using window [OF shape] visible_in_dom by auto
    then show "(l, v) \<in> set rows" unfolding rows_def visible_list_in ls(3) by blast
  next
    assume "(l, v) \<in> set rows"
    then have l: "l \<in> set ls" "\<exists>s. visible m l chain = Some (v, s)" by (simp_all add: rows_def visible_list_in)
    then have "key_shape l" "in_window start en l" using ls(3) ty by (auto simp: typed_def)
    then show "\<exists>x s. l = key x \<and> inside x \<and> visible m l chain = Some (v, s)" using l(2) window by blast
  qed
  have dec: "dk l \<noteq> None \<and> dv v \<noteq> None" if lv: "(l, v) \<in> set rows" for l v
    using lv row [of l v] row_decodes [OF ty] dk_key by fastforce
  let ?xs = "map (\<lambda>(k, v). (the (dk k), the (dv v))) rows"
  have "reads (bindM (on_btree (range_scan_visible start en chain)) (decode_rows dk dv)) D g m n ?xs" if g: "fsv D g m n" for g
    by (rule reads_bind [OF range_scan_visible_reads [OF g short]]) (simp add: ls(1) rows_def [symmetric] decode_rows_reads dec)
  moreover have "distinct (map fst ?xs)"
  proof -
    have "inj_on (\<lambda>k. the (dk k)) (fst ` set rows)" using row dk_key by (auto simp: inj_on_def)
    then have "distinct (map (\<lambda>k. the (dk k)) (map fst rows))"
      using visible_list_distinct [OF ls(2), of m chain] by (subst distinct_map) (simp add: rows_def [symmetric])
    moreover have "map fst ?xs = map (\<lambda>k. the (dk k)) (map fst rows)" by auto
    ultimately show ?thesis by argo
  qed
  moreover have "(x, y) \<in> set ?xs \<longleftrightarrow> inside x \<and> lookup_as dv m (key x) chain = Some y" for x y
  proof
    assume "(x, y) \<in> set ?xs"
    then obtain l v where lv: "(l, v) \<in> set rows" "x = the (dk l)" "y = the (dv v)" by auto
    then obtain z s where z: "l = key z" "inside z" "visible m l chain = Some (v, s)" using row by blast
    then show "inside x \<and> lookup_as dv m (key x) chain = Some y" using lv dec [OF lv(1)] dk_key by (auto simp: lookup_as_def)
  next
    assume x: "inside x \<and> lookup_as dv m (key x) chain = Some y"
    then obtain v s where v: "visible m (key x) chain = Some (v, s)" "dv v = Some y" by (auto simp: lookup_as_def split: option.splits)
    then have "(key x, v) \<in> set rows" using row x by blast
    then show "(x, y) \<in> set ?xs" using dk_key [of x] v(2) by force
  qed
  ultimately show ?thesis by blast
qed

end

section \<open>Extent scans\<close>

lemma extent_key_less: "extent_key i x < extent_key j y \<longleftrightarrow> i < j \<or> i = j \<and> x < y"
  by (simp add: extent_key_def less_append_same_length)

lemma extent_shape:
  assumes "key_shape l" "hd l = KIND_EXTENT"
  shows "\<exists>i x. l = extent_key i x"
proof -
  obtain xs where xs: "l = KIND_EXTENT # xs" "length xs = 16"
    using assms by (cases l) (auto simp: key_shape_def kind_defs)
  have "xs = u64_be (u64_of_be (take 8 xs)) @ u64_be (u64_of_be (drop 8 xs))" using xs(2) by (simp add: u64_be_of_be)
  then show ?thesis using xs(1) by (metis extent_key_def)
qed

lemma extent_window:
  assumes "key_shape l"
  shows "in_window (extent_key ino a) (extent_key ino b) l \<longleftrightarrow> (\<exists>x. l = extent_key ino x \<and> a \<le> x \<and> x < b)"
proof
  assume w: "in_window (extent_key ino a) (extent_key ino b) l"
  then have "hd l = KIND_EXTENT" using key_shape_ne [OF assms] by (intro window_hd) (auto simp: extent_key_def)
  then obtain i x where l: "l = extent_key i x" using extent_shape [OF assms] by blast
  have "\<not> extent_key i x < extent_key ino a" "extent_key i x < extent_key ino b"
    using w by (simp_all add: in_window_def l not_less)
  then show "\<exists>x. l = extent_key ino x \<and> a \<le> x \<and> x < b" unfolding extent_key_less l by (intro exI [of _ x]) auto
next
  assume "\<exists>x. l = extent_key ino x \<and> a \<le> x \<and> x < b"
  then show "in_window (extent_key ino a) (extent_key ino b) l"
    by (auto simp: in_window_def extent_key_less not_less [symmetric])
qed

lemma extent_no_prefix: "key_shape l \<Longrightarrow> \<not> strict_prefix l (extent_key ino x)"
proof
  assume l: "key_shape l" "strict_prefix l (extent_key ino x)"
  then obtain y where y: "extent_key ino x = l @ y" "y \<noteq> []" by (auto simp: strict_prefix_def prefix_def)
  then have "hd l = KIND_EXTENT" using key_shape_ne [OF l(1)] by (cases l) (auto simp: extent_key_def)
  then have "length l = 17" using extent_shape [OF l(1)] by auto
  then show False using y length_keys(2) [of ino x] by (simp del: length_keys)
qed

interpretation extents: scan_family "extent_key ino" "\<lambda>x. a \<le> x \<and> x < b" extent_offset_from_key extent_of_bytes 16 "extent_key ino a" "extent_key ino b" for ino a b
proof unfold_locales
  show "extent_offset_from_key (extent_key ino x) = Some x" for x
    by (simp add: extent_offset_from_key_def) (simp add: extent_key_def bslice_def)
  show "val_size (hd (extent_key ino x)) = Some 16" for x by (simp add: extent_key_def)
  show "\<exists>y. extent_of_bytes v = Some y" if "length v = 16" for v using extent_codec.dec_total [OF that] by blast
qed (auto simp: extent_window extent_no_prefix)

lemma collect_extents_reads:
  assumes f: "fsv D f m n" and srt: "sorted_keys chain"
  shows "\<exists>xs. (\<forall>g. fsv D g m n \<longrightarrow> reads (collect_extents (extent_key ino a) (extent_key ino b) chain) D g m n xs) \<and> distinct (map fst xs)
     \<and> (\<forall>x e. (x, e) \<in> set xs \<longleftrightarrow> a \<le> x \<and> x < b \<and> extent_at m chain ino x = Some e)"
proof -
  have "typed m" using f by (simp add: fsv_def)
  then have "separated m (extent_key ino a) (extent_key ino b)" by (rule extents.fixed_separated) simp
  from extents.scan_reads [OF f srt this] show ?thesis unfolding collect_extents_def by simp
qed

section \<open>Metadata scans\<close>

lemma shape_prefix:
  assumes "key_shape l" "strict_prefix l (k # a)"
  shows "hd l = k \<and> length l \<le> length a"
  using assms key_shape_ne [OF assms(1)] by (cases l) (auto simp: strict_prefix_def prefix_def Suc_le_eq)

lemma shape_u32:
  assumes "key_shape l" "hd l = KIND_SNAPSHOT \<or> hd l = KIND_SUBVOL"
  shows "\<exists>x. l = hd l # u32_be x" "length l = 5"
proof -
  obtain xs where xs: "l = hd l # xs" "length xs = 4"
    using assms by (cases l) (auto simp: key_shape_def kind_defs)
  then show "\<exists>x. l = hd l # u32_be x" by (metis u32_be_of_be)
  show "length l = 5" using xs by (cases l) auto
qed

lemma shape_deleted:
  assumes "key_shape l" "hd l = KIND_DELETED_INODES"
  shows "\<exists>i s. l = deleted_inode_key i s" "length l = 13"
proof -
  obtain xs where xs: "l = KIND_DELETED_INODES # xs" "length xs = 12"
    using assms by (cases l) (auto simp: key_shape_def kind_defs)
  have "xs = u64_be (u64_of_be (take 8 xs)) @ u32_be (u32_of_be (drop 8 xs))" using xs(2) by (simp add: u64_be_of_be u32_be_of_be)
  then show "\<exists>i s. l = deleted_inode_key i s" using xs(1) by (metis deleted_inode_key_def)
  show "length l = 13" using xs by simp
qed

text \<open>The windows of the metadata start at the least key of their kind and end before the next kind.\<close>

lemma next_kind: "x < KIND_SNAPSHOT + 1 \<longleftrightarrow> x \<le> KIND_SNAPSHOT" "x < KIND_SUBVOL + 1 \<longleftrightarrow> x \<le> KIND_SUBVOL"
  "x < KIND_DELETED_INODES + 1 \<longleftrightarrow> x \<le> KIND_DELETED_INODES"
  by (simp_all add: kind_defs word_less_nat_alt word_le_nat_alt less_Suc_eq_le [symmetric])

lemma zero_be: "u32_be 0 = replicate 4 0" "u64_be 0 = replicate 8 0"
proof -
  have "le_bytes n 0 = replicate n 0" for n by (induction n) auto
  then show "u32_be 0 = replicate 4 0" "u64_be 0 = replicate 8 0" by (simp_all add: u32_be_def u64_be_def be_bytes_def)
qed

lemma kind_window:
  assumes "key_shape l" "hd l < k + 1 \<longleftrightarrow> hd l \<le> k" "hd l = k \<Longrightarrow> n < length l"
  shows "in_window (k # replicate n 0) [k + 1] l \<longleftrightarrow> hd l = k"
proof -
  obtain x xs where l: "l = x # xs" using key_shape_ne [OF assms(1)] by (cases l) auto
  have "replicate n 0 \<le> take n xs" if "x = k" using assms(3) that l by (intro zeros_le) auto
  then show ?thesis using assms(2) by (auto simp: in_window_def l)
qed

lemma kind_no_prefix:
  assumes "key_shape l" "hd l = k \<Longrightarrow> n < length l"
  shows "\<not> strict_prefix l (k # replicate n 0) \<and> \<not> strict_prefix l [x]"
proof -
  have "False" if "strict_prefix l (k # replicate n 0)" using shape_prefix [OF assms(1) that] assms(2) by simp
  moreover have "False" if "strict_prefix l [x]" using shape_prefix [OF assms(1) that] key_shape_ne [OF assms(1)] by simp
  ultimately show ?thesis by blast
qed

interpretation snapshots: scan_family snapshot_key "\<lambda>_. True" snapshot_id_from_key snapshot_of_bytes 24 "fst snapshot_range" "snd snapshot_range"
proof unfold_locales
  fix l assume l: "key_shape l"
  have r: "fst snapshot_range = KIND_SNAPSHOT # replicate 4 0" "snd snapshot_range = [KIND_SNAPSHOT + 1]"
    by (simp_all add: snapshot_range_def snapshot_key_def zero_be)
  show "in_window (fst snapshot_range) (snd snapshot_range) l \<longleftrightarrow> (\<exists>x. True \<and> l = snapshot_key x)"
    unfolding r using kind_window [OF l next_kind(1), of 4] shape_u32 [OF l] by (auto simp: snapshot_key_def)
  show "\<not> strict_prefix l (fst snapshot_range) \<and> \<not> strict_prefix l (snd snapshot_range)"
    unfolding r using kind_no_prefix [OF l, of KIND_SNAPSHOT 4] shape_u32(2) [OF l] by simp
next
  show "snapshot_id_from_key (snapshot_key x) = Some x" for x by (simp add: snapshot_id_from_key_def snapshot_key_def)
  show "\<exists>y. snapshot_of_bytes v = Some y" if "length v = 24" for v using snapshot_codec.dec_total [OF that] by blast
qed (simp_all add: snapshot_range_def, simp_all add: snapshot_key_def)

interpretation subvols: scan_family subvol_key "\<lambda>_. True" subvol_id_from_key subvol_of_bytes 32 "fst subvol_range" "snd subvol_range"
proof unfold_locales
  fix l assume l: "key_shape l"
  show "in_window (fst subvol_range) (snd subvol_range) l \<longleftrightarrow> (\<exists>x. True \<and> l = subvol_key x)"
    using kind_window [OF l next_kind(2), of 4] shape_u32 [OF l] by (auto simp: subvol_key_def subvol_range_def)
  show "\<not> strict_prefix l (fst subvol_range) \<and> \<not> strict_prefix l (snd subvol_range)"
    using kind_no_prefix [OF l, of KIND_SUBVOL 4] shape_u32(2) [OF l] by (simp add: subvol_range_def)
next
  show "subvol_id_from_key (subvol_key x) = Some x" for x by (simp add: subvol_id_from_key_def subvol_key_def)
  show "\<exists>y. subvol_of_bytes v = Some y" if "length v = 32" for v using subvol_codec.dec_total [OF that] by blast
qed (simp_all add: subvol_range_def, simp_all add: subvol_key_def)

interpretation orphans: scan_family "\<lambda>(i, s). deleted_inode_key i s" "\<lambda>_. True" deleted_inode_from_key deleted_of_bytes 16
  "fst deleted_inode_range" "snd deleted_inode_range"
proof unfold_locales
  fix l assume l: "key_shape l"
  have r: "fst deleted_inode_range = KIND_DELETED_INODES # replicate 12 0" "snd deleted_inode_range = [KIND_DELETED_INODES + 1]"
    by (simp_all add: deleted_inode_range_def deleted_inode_key_def zero_be flip: replicate_add)
  show "in_window (fst deleted_inode_range) (snd deleted_inode_range) l \<longleftrightarrow> (\<exists>x. True \<and> l = (\<lambda>(i, s). deleted_inode_key i s) x)"
    unfolding r using kind_window [OF l next_kind(3), of 12] shape_deleted [OF l] by (auto simp: deleted_inode_key_def)
  show "\<not> strict_prefix l (fst deleted_inode_range) \<and> \<not> strict_prefix l (snd deleted_inode_range)"
    unfolding r using kind_no_prefix [OF l, of KIND_DELETED_INODES 12] shape_deleted(2) [OF l] by simp
next
  show "deleted_inode_from_key ((\<lambda>(i, s). deleted_inode_key i s) x) = Some x" for x
    by (cases x) (simp add: deleted_inode_from_key_def deleted_inode_key_def bslice_def)
  show "\<exists>y. deleted_of_bytes v = Some y" if "length v = 16" for v using deleted_codec.dec_total [OF that] by blast
qed (auto simp: deleted_inode_range_def, simp_all add: deleted_inode_key_def)

section \<open>Directory scans\<close>

lemma shape_dirent:
  assumes "key_shape l" "hd l = KIND_DIRENT"
  shows "\<exists>q name. l = KIND_DIRENT # u64_be q @ name" "9 \<le> length l"
proof -
  obtain xs where xs: "l = KIND_DIRENT # xs" "8 \<le> length xs"
    using assms by (cases l) (auto simp: key_shape_def kind_defs)
  have "xs = u64_be (u64_of_be (take 8 xs)) @ drop 8 xs" using xs(2) by (simp add: u64_be_of_be)
  then show "\<exists>q name. l = KIND_DIRENT # u64_be q @ name" using xs(1) by metis
  show "9 \<le> length l" using xs by simp
qed

lemma dirent_window:
  assumes "key_shape l"
  shows "in_window (fst (dirent_range p)) (snd (dirent_range p)) l \<longleftrightarrow> (\<exists>name. p \<noteq> - 1 \<and> l = KIND_DIRENT # u64_be p @ name)"
proof
  assume w: "in_window (fst (dirent_range p)) (snd (dirent_range p)) l"
  then have "hd l = KIND_DIRENT" using key_shape_ne [OF assms] by (intro window_hd) (auto simp: dirent_range_def)
  then obtain q name where l: "l = KIND_DIRENT # u64_be q @ name" using shape_dirent [OF assms] by blast
  then show "\<exists>name. p \<noteq> - 1 \<and> l = KIND_DIRENT # u64_be p @ name" using w dirent_in_window by auto
qed (auto simp: dirent_in_window)

interpretation entries: scan_family "\<lambda>name. KIND_DIRENT # u64_be p @ name" "\<lambda>_. p \<noteq> - 1" dirent_name_from_key dirent_of_bytes 16
  "fst (dirent_range p)" "snd (dirent_range p)" for p
proof unfold_locales
  fix l assume l: "key_shape l"
  show "in_window (fst (dirent_range p)) (snd (dirent_range p)) l \<longleftrightarrow> (\<exists>name. p \<noteq> - 1 \<and> l = KIND_DIRENT # u64_be p @ name)"
    by (rule dirent_window [OF l])
  show "\<not> strict_prefix l (fst (dirent_range p)) \<and> \<not> strict_prefix l (snd (dirent_range p))"
  proof -
    have "\<not> strict_prefix l (KIND_DIRENT # u64_be q)" for q
      using shape_prefix [OF l, of KIND_DIRENT "u64_be q"] shape_dirent(2) [OF l] by auto
    then show ?thesis by (simp add: dirent_range_def)
  qed
next
  show "dirent_name_from_key (KIND_DIRENT # u64_be p @ name) = Some name" for name
    by (simp add: dirent_name_from_key_def DIRENT_PREFIX_LEN_def)
  show "\<exists>y. dirent_of_bytes v = Some y" if "length v = 16" for v using dirent_codec.dec_total [OF that] by blast
qed (simp_all add: dirent_range_def)

text \<open>The condition under which the rows of one name are contiguous: no name contains the byte 255 (no UTF-8 text
  does) and all snapshot ids lie in the top \<open>2 ^ 24\<close>.\<close>

definition plain_names :: "kvmap \<Rightarrow> bool" where
  "plain_names m = (\<forall>k \<in> dom m. hd k = KIND_DIRENT \<longrightarrow> 255 \<notin> set (drop 9 (logical_of k)) \<and> hd (u32_be (snap_of k)) = 255)"

lemma dirent_separated:
  assumes "typed m" "plain_names m"
  shows "separated m (fst (dirent_range p)) (snd (dirent_range p))"
proof -
  let ?K = "{k \<in> dom m. in_window (fst (dirent_range p)) (snd (dirent_range p)) (logical_of k)}"
  have sh: "key_shape (logical_of k)" if "k \<in> dom m" for k using assms that by (simp add: typed_def)
  have K: "\<exists>name. logical_of k = KIND_DIRENT # u64_be p @ name \<and> 255 \<notin> set name \<and> hd (u32_be (snap_of k)) = 255" if k: "k \<in> ?K" for k
  proof -
    obtain name where name: "logical_of k = KIND_DIRENT # u64_be p @ name" using dirent_window [OF sh, of k p] k by auto
    then have "hd k = KIND_DIRENT" by (cases k) (auto simp: logical_of_def take_Cons' split: if_splits)
    then show ?thesis using assms(2) k name by (auto simp: plain_names_def)
  qed
  have "apart ?K"
    unfolding apart_def
  proof (intro ballI allI impI, elim conjE)
    fix k k' y assume k: "k \<in> ?K" "k' \<in> ?K" "logical_of k' = logical_of k @ y" "y \<noteq> []"
    obtain name name' where n: "logical_of k = KIND_DIRENT # u64_be p @ name" "logical_of k' = KIND_DIRENT # u64_be p @ name'"
      "255 \<notin> set name'" "hd (u32_be (snap_of k)) = 255" "hd (u32_be (snap_of k')) = 255" using K [OF k(1)] K [OF k(2)] by blast
    then have "name' = name @ y" using k(3) by simp
    then have "hd y \<noteq> 255" using n(3) k(4) by (cases y) auto
    then show "hd y \<noteq> 255 \<and> hd (u32_be (snap_of k)) = 255 \<and> hd (u32_be (snap_of k')) = 255" using n(4,5) by simp
  qed
  then show ?thesis using entries.no_prefix [OF sh] by (simp add: separated_def)
qed

lemma list_dirents_same:
  assumes "fsv D f m n" "plain_names m"
  shows "\<exists>xs. (\<forall>g. fsv D g m n \<longrightarrow> same f g \<longrightarrow> reads (list_dirents p) D g m n xs) \<and> distinct (map fst xs)
     \<and> (\<forall>name d. (name, d) \<in> set xs \<longleftrightarrow> p \<noteq> - 1 \<and> dirent_at m (active_chain f m) p name = Some d)"
proof -
  have "typed m" using assms(1) by (simp add: fsv_def)
  from entries.scan_reads [OF assms(1) sorted_chain dirent_separated [OF this assms(2)]]
  obtain xs where xs: "\<forall>g. fsv D g m n \<longrightarrow> reads (bindM (on_btree (range_scan_visible (fst (dirent_range p)) (snd (dirent_range p)) (active_chain f m)))
      (decode_rows dirent_name_from_key dirent_of_bytes)) D g m n xs" "distinct (map fst xs)"
    "\<forall>name d. (name, d) \<in> set xs \<longleftrightarrow> p \<noteq> - 1 \<and> dirent_at m (active_chain f m) p name = Some d" by blast
  have "reads (list_dirents p) D g m n xs" if g: "fsv D g m n" "same f g" for g
  proof -
    have chain: "active_chain g m = active_chain f m" using active_same [OF g(2)] by simp
    show ?thesis
      unfolding list_dirents_def by (rule reads_bind [OF current_chain_reads [OF g(1)]]) (use xs(1) chain in simp)
  qed
  then show ?thesis using xs(2,3) by blast
qed

lemma list_dirents_reads:
  assumes "fsv D f m n" "plain_names m"
  shows "\<exists>xs. reads (list_dirents p) D f m n xs \<and> distinct (map fst xs)
     \<and> (\<forall>name d. (name, d) \<in> set xs \<longleftrightarrow> p \<noteq> - 1 \<and> dirent_at m (active_chain f m) p name = Some d)"
  using list_dirents_same [OF assms, of p] assms(1) same_refl by blast

section \<open>Lists of snapshots and subvolumes\<close>

lemma root_lookup:
  "lookup_as snapshot_of_bytes m (snapshot_key s) [ROOT_SNAP] = snap_meta m s"
  "lookup_as subvol_of_bytes m (subvol_key i) [ROOT_SNAP] = subvol_meta m i"
  by (simp_all add: lookup_as_def snap_meta_def subvol_meta_def live_def split: option.splits entry_kind.splits)

lemma list_snapshots_reads:
  assumes "fsv D f m n"
  shows "\<exists>xs. reads list_snapshots D f m n xs \<and> distinct (map fst xs) \<and> (\<forall>s v. (s, v) \<in> set xs \<longleftrightarrow> snap_meta m s = Some v)"
proof -
  have "separated m (fst snapshot_range) (snd snapshot_range)"
    using assms by (intro snapshots.fixed_separated [of m 5]) (simp_all add: fsv_def snapshot_key_def)
  from snapshots.scan_reads [OF assms _ this, of "[ROOT_SNAP]"] assms show ?thesis by (auto simp: list_snapshots_def root_lookup)
qed

lemma list_subvols_reads:
  assumes "fsv D f m n"
  shows "\<exists>xs. reads list_subvols D f m n xs \<and> distinct (map fst xs) \<and> (\<forall>i v. (i, v) \<in> set xs \<longleftrightarrow> subvol_meta m i = Some v)"
proof -
  have "separated m (fst subvol_range) (snd subvol_range)"
    using assms by (intro subvols.fixed_separated [of m 5]) (simp_all add: fsv_def subvol_key_def)
  from subvols.scan_reads [OF assms _ this, of "[ROOT_SNAP]"] assms show ?thesis by (auto simp: list_subvols_def root_lookup)
qed

end
