(* ===== verification/Fs_Read.thy ===== *)
theory Fs_Read
  imports Fs_Scans
begin

text \<open>
  Reading files: \<open>read_at\<close> returns the bytes of the file, and what was written is read back.
\<close>

section \<open>Reading\<close>

text \<open>The copy loop lays the extents over the buffer, one after the other.\<close>

fun overlay :: "(u64 \<rightharpoonup> bytes) \<Rightarrow> (u64 \<times> extent_v1) list \<Rightarrow> nat \<Rightarrow> u8 \<Rightarrow> u8" where
  "overlay D [] i b = b"
| "overlay D ((x, e) # xs) i b = overlay D xs i (if unat x \<le> i \<and> i < unat x + unat (x_len e) then the (D (x_data_block e)) ! (i - unat x) else b)"

lemma overlay_pick:
  "\<forall>(x, e) \<in> set xs. unat x \<le> i \<and> i < unat x + unat (x_len e) \<longrightarrow> the (D (x_data_block e)) ! (i - unat x) = v \<Longrightarrow>
   overlay D xs i b = (if \<exists>(x, e) \<in> set xs. unat x \<le> i \<and> i < unat x + unat (x_len e) then v else b)"
  by (induction xs arbitrary: b) (auto split: if_splits)

lemma copy_one:
  assumes "p \<le> cs" "cs \<le> ce" "ce \<le> p + length buf" "x \<le> cs" "ce \<le> x + length bl"
  shows "bsplice (cs - p) (bslice (cs - x) (ce - cs) bl) buf =
     map (\<lambda>k. if cs \<le> p + k \<and> p + k < ce then bl ! (p + k - x) else buf ! k) [0..<length buf]"
proof (rule nth_equalityI)
  show "length (bsplice (cs - p) (bslice (cs - x) (ce - cs) bl) buf) = length (map (\<lambda>k. if cs \<le> p + k \<and> p + k < ce then bl ! (p + k - x) else buf ! k) [0..<length buf])"
    using assms by (simp add: bsplice_def bslice_def)
next
  fix k assume "k < length (bsplice (cs - p) (bslice (cs - x) (ce - cs) bl) buf)"
  then have k: "k < length buf" using assms by (simp add: bsplice_def bslice_def)
  consider "p + k < cs" | "cs \<le> p + k" "p + k < ce" | "ce \<le> p + k" by linarith
  then show "bsplice (cs - p) (bslice (cs - x) (ce - cs) bl) buf ! k =
     map (\<lambda>k. if cs \<le> p + k \<and> p + k < ce then bl ! (p + k - x) else buf ! k) [0..<length buf] ! k"
  proof cases
    case 1 then show ?thesis using assms k by (simp add: bsplice_def nth_append)
  next
    case 2
    then have "cs - x + (k - (cs - p)) = p + k - x" "\<not> k < cs - p" "k - (cs - p) < ce - cs" using assms(1,4) by linarith+
    then show ?thesis using 2 assms k by (simp add: bsplice_def bslice_def nth_append)
  next
    case 3
    then have "\<not> k < cs - p" "\<not> k - (cs - p) < ce - cs" "ce - p + (k - (cs - p) - (ce - cs)) = k" using assms by linarith+
    then show ?thesis using 3 assms k by (simp add: bsplice_def bslice_def nth_append)
  qed
qed

lemma unat_u32_u64: "unat (ucast (x :: u32) :: u64) = unat x"
  using unsigned_less [of x, where ?'a = nat] by (simp add: unsigned_ucast_eq take_bit_eq_mod)

lemma copy_extents_reads:
  assumes "unat en \<le> 2 ^ 63" "offset \<le> en"
  shows "fsv D f m n \<Longrightarrow> \<forall>(x, e) \<in> set xs. unat x < unat en \<and> unat (x_len e) \<le> 4096 \<and> (\<exists>b. D (x_data_block e) = Some b \<and> length b = 4096) \<Longrightarrow>
    length out = unat en - unat offset \<Longrightarrow>
    reads (copy_extents offset en xs out) D f m n (map (\<lambda>k. overlay D xs (unat offset + k) (out ! k)) [0..<length out])"
proof (induction xs arbitrary: out f)
  case Nil
  then show ?case using map_nth [of out] by (simp only: copy_extents.simps overlay.simps reads_ret simp_thms)
next
  case (Cons p xs)
  obtain x e where p: "p = (x, e)" by fastforce
  obtain b where b: "unat x < unat en" "unat (x_len e) \<le> 4096" "D (x_data_block e) = Some b" "length b = 4096"
    using Cons.prems(2) by (auto simp: p)
  let ?o = "unat offset" and ?l = "unat (x_len e)" and ?x = "unat x"
  have "unat (ucast (x_len e) :: u64) = ?l" by (rule unat_u32_u64)
  then have ee: "unat (x + ucast (x_len e)) = ?x + ?l"
    using b(1,2) assms(1) by (simp add: unat_word_ariths)
  have len: "length out = unat en - ?o" "?o \<le> unat en" using Cons.prems(3) assms(2) by (simp_all add: word_le_nat_alt)
  define one where "one = map (\<lambda>k. if ?x \<le> ?o + k \<and> ?o + k < ?x + ?l then b ! (?o + k - ?x) else out ! k) [0..<length out]"
  have goal: "map (\<lambda>k. overlay D (p # xs) (?o + k) (out ! k)) [0..<length out] = map (\<lambda>k. overlay D xs (?o + k) (one ! k)) [0..<length one]"
    by (simp add: p one_def b(3))
  have all: "\<forall>(x, e) \<in> set xs. unat x < unat en \<and> unat (x_len e) \<le> 4096 \<and> (\<exists>b. D (x_data_block e) = Some b \<and> length b = 4096)"
    using Cons.prems(2) by simp
  have lone: "length one = unat en - ?o" using len by (simp add: one_def)
  show ?case
  proof (cases "x + ucast (x_len e) \<le> offset \<or> en \<le> x")
    case True
    then have "?x + ?l \<le> ?o \<or> unat en \<le> ?x" using ee by (simp add: word_le_nat_alt)
    then have "one = out" using len by (auto simp: one_def intro!: nth_equalityI)
    then show ?thesis unfolding goal using True Cons.IH [OF Cons.prems(1) all lone] by (simp add: p)
  next
    case False
    define cs where "cs = max offset x"
    define ce where "ce = min en (x + ucast (x_len e))"
    have u: "unat cs = max ?o ?x" "unat ce = min (unat en) (?x + ?l)"
      using ee by (simp_all add: cs_def ce_def max_def min_def word_le_nat_alt)
    have lt: "?o < ?x + ?l" "?x < unat en" using False ee by (simp_all add: word_le_nat_alt not_le)
    have sub: "unat (cs - x) = unat cs - ?x" "unat (ce - x) = unat ce - ?x" "unat (cs - offset) = unat cs - ?o"
      using u lt len(2) by (simp_all add: unat_sub_if')
    have r: "range_of (unat (cs - x)) (unat (ce - x)) b = Some (bslice (unat cs - ?x) (unat ce - unat cs) b)"
      using u lt b(2,4) len(2) by (auto simp: range_of_def sub)
    have one: "bsplice (unat cs - ?o) (bslice (unat cs - ?x) (unat ce - unat cs) b) out = one"
      unfolding one_def using u lt b(2,4) len by (subst copy_one) auto
    have fits: "\<not> length out < unat (cs - offset) + length (bslice (unat cs - ?x) (unat ce - unat cs) b)"
      using u lt len b by (simp add: sub bslice_def)
    have "reads (copy_extents offset en (p # xs) out) D f m n (map (\<lambda>k. overlay D xs (?o + k) (one ! k)) [0..<length one])"
      using False fits unfolding p copy_extents.simps Let_def cs_def [symmetric] ce_def [symmetric]
      by (auto intro!: reads_bind [OF unwrap_reads [OF read_data_reads [OF Cons.prems(1) b(3)]]] reads_bind [OF reads_expect [OF r]] Cons.IH all lone
          simp: sub(3) one)
    then show ?thesis unfolding goal .
  qed
qed

lemma overlay_bytes:
  assumes ok: "file_ok m D chain ino" and xs: "\<forall>x e. (x, e) \<in> set xs \<longleftrightarrow> block_start offset \<le> x \<and> x < en \<and> extent_at m chain ino x = Some e"
    and i: "unat offset \<le> i" "i < unat en"
  shows "overlay D xs i 0 = byte_at m D chain ino i"
proof -
  define bo :: u64 where "bo = of_nat (i div 4096 * 4096)"
  have byte: "byte_at m D chain ino i = block_of m D chain ino bo ! (i mod 4096)" by (simp add: byte_at_def bo_def)
  have "i < 2 ^ 64" using i(2) unsigned_less [of en, where ?'a = nat] by simp
  then have b: "unat bo = i div 4096 * 4096" unfolding bo_def by (rule block_index)
  have cover: "x = bo" if "(x, e) \<in> set xs" "unat x \<le> i" "i < unat x + unat (x_len e)" for x e
  proof -
    have "4096 dvd unat x" "unat (x_len e) \<le> 4096" using file_okD [OF ok] xs that(1) by blast+
    then have "i div 4096 * 4096 = unat x" using that(2,3) by (auto elim!: dvdE)
    then show ?thesis using b by (simp add: word_unat_eq_iff)
  qed
  show ?thesis
  proof (cases "extent_at m chain ino bo")
    case None
    then have "\<not> (\<exists>(x, e) \<in> set xs. unat x \<le> i \<and> i < unat x + unat (x_len e))" using cover xs by fastforce
    then show ?thesis using overlay_pick [of xs i D 0 0] None by (auto simp: byte block_of_def)
  next
    case (Some e)
    from file_okD [OF ok Some] obtain d where d: "unat (x_len e) \<le> 4096" "D (x_data_block e) = Some d" "length d = 4096" by blast
    have "block_start offset \<le> bo" using i(1) by (simp add: word_le_nat_alt unat_block_start b div_le_mono)
    moreover have "bo < en" using i(2) b by (simp add: word_less_nat_alt)
    ultimately have mem: "(bo, e) \<in> set xs" using xs Some by blast
    have only: "x' = bo \<and> e' = e" if "(x', e') \<in> set xs" "unat x' \<le> i" "i < unat x' + unat (x_len e')" for x' e'
      using cover [OF that] xs that(1) Some by auto
    have im: "i - unat bo = i mod 4096" "unat bo \<le> i" "i < unat bo + unat (x_len e) \<longleftrightarrow> i mod 4096 < unat (x_len e)"
      unfolding b using div_mult_mod_eq [of i 4096] by linarith+
    have "overlay D xs i 0 = (if \<exists>(x, e) \<in> set xs. unat x \<le> i \<and> i < unat x + unat (x_len e) then d ! (i mod 4096) else 0)"
    proof (intro overlay_pick ballI, clarify)
      fix x' e' assume "(x', e') \<in> set xs" "unat x' \<le> i" "i < unat x' + unat (x_len e')"
      then have "x' = bo" "e' = e" using only by blast+
      then show "the (D (x_data_block e')) ! (i - unat x') = d ! (i mod 4096)" using d(2) im(1) by simp
    qed
    moreover have "(\<exists>(x, e) \<in> set xs. unat x \<le> i \<and> i < unat x + unat (x_len e)) \<longleftrightarrow> i mod 4096 < unat (x_len e)"
    proof
      assume "\<exists>(x, e) \<in> set xs. unat x \<le> i \<and> i < unat x + unat (x_len e)"
      then obtain x' e' where x': "(x', e') \<in> set xs" "unat x' \<le> i" "i < unat x' + unat (x_len e')" by blast
      then show "i mod 4096 < unat (x_len e)" using only [OF x'] im(3) by simp
    next
      assume "i mod 4096 < unat (x_len e)"
      then show "\<exists>(x, e) \<in> set xs. unat x \<le> i \<and> i < unat x + unat (x_len e)" using im(2,3) by (intro bexI [OF _ mem]) simp
    qed
    ultimately show ?thesis using d by (simp add: byte block_of_def Some nth_append)
  qed
qed

lemma read_at_reads:
  assumes f: "fsv D f m n" and ok: "file_ok m D (active_chain f m) ino" and i: "inode_at m (active_chain f m) ino = Some i"
    and bounds: "unat (i_size i) \<le> 2 ^ 63" "unat offset + unat sz < 2 ^ 64"
  shows "reads (fs_read_at ino offset sz) D f m n
    (map (byte_at m D (active_chain f m) ino) [unat offset..<min (unat offset + unat sz) (unat (i_size i))])"
proof (cases "i_size i \<le> offset")
  case True
  then have "min (unat offset + unat sz) (unat (i_size i)) \<le> unat offset" by (simp add: word_le_nat_alt)
  then show ?thesis using True f unfolding fs_read_at_def
    by (intro reads_bind [OF get_inode_reads [OF f]]) (simp add: i)
next
  case False
  let ?c = "active_chain f m"
  define en where "en = min (offset + ucast sz) (i_size i)"
  have "unat (offset + ucast sz) = unat offset + unat sz"
    using bounds(2) unat_u32_u64 [of sz] by (simp add: unat_word_ariths)
  then have u: "unat en = min (unat offset + unat sz) (unat (i_size i))" by (simp add: en_def min_def word_le_nat_alt)
  then have le: "unat offset \<le> unat en" "unat en \<le> 2 ^ 63" using False bounds(1) by (simp_all add: word_le_nat_alt)
  then have out: "unat (en - offset) = unat en - unat offset" by (simp add: unat_sub_if')
  have fin: "reads (copy_extents offset en xs (replicate (unat (en - offset)) 0)) D g m n (map (byte_at m D ?c ino) [unat offset..<unat en])"
    if g: "fsv D g m n" and xs: "\<forall>x e. (x, e) \<in> set xs \<longleftrightarrow> block_start offset \<le> x \<and> x < en \<and> extent_at m ?c ino x = Some e" for g xs
  proof -
    have "\<forall>(x, e) \<in> set xs. unat x < unat en \<and> unat (x_len e) \<le> 4096 \<and> (\<exists>b. D (x_data_block e) = Some b \<and> length b = 4096)"
      using xs file_okD [OF ok] by (fastforce simp: word_less_nat_alt)
    from copy_extents_reads [OF le(2) _ g this, of offset "replicate (unat (en - offset)) 0"] le(1)
    have "reads (copy_extents offset en xs (replicate (unat (en - offset)) 0)) D g m n
        (map (\<lambda>k. overlay D xs (unat offset + k) (replicate (unat en - unat offset) 0 ! k)) [0..<unat en - unat offset])"
      by (simp add: word_le_nat_alt out)
    moreover have "map (\<lambda>k. overlay D xs (unat offset + k) (replicate (unat en - unat offset) 0 ! k)) [0..<unat en - unat offset] =
        map (byte_at m D ?c ino) [unat offset..<unat en]"
      using overlay_bytes [OF ok xs] le(1) by (auto intro!: nth_equalityI)
    ultimately show ?thesis by simp
  qed
  have "reads (bindM (extents_in_range ino (block_start offset) en) (\<lambda>xs. copy_extents offset en xs (replicate (unat (en - offset)) 0))) D g m n
      (map (byte_at m D ?c ino) [unat offset..<unat en])" if g: "fsv D g m n" "same f g" for g
  proof (cases "en \<le> block_start offset")
    case True
    then have "reads (extents_in_range ino (block_start offset) en) D g m n []" using g(1) by (simp add: extents_in_range_def)
    then show ?thesis by (rule reads_bind) (rule fin, assumption, use True in auto)
  next
    case False
    obtain xs where xs: "\<forall>h. fsv D h m n \<longrightarrow> reads (collect_extents (extent_key ino (block_start offset)) (extent_key ino en) ?c) D h m n xs"
      "\<forall>x e. (x, e) \<in> set xs \<longleftrightarrow> block_start offset \<le> x \<and> x < en \<and> extent_at m ?c ino x = Some e"
      using collect_extents_reads [OF g(1) sorted_chain, of ino "block_start offset" en] by blast
    have "reads (extents_in_range ino (block_start offset) en) D g m n xs"
      unfolding extents_in_range_def using False xs(1) reads_bind [OF current_chain_reads [OF g(1)], of "collect_extents (extent_key ino (block_start offset)) (extent_key ino en)"]
      by (simp add: active_same [OF g(2)])
    then show ?thesis by (rule reads_bind) (rule fin [OF _ xs(2)])
  qed
  then show ?thesis unfolding fs_read_at_def u [symmetric]
    by (intro reads_bind [OF get_inode_reads [OF f]]) (simp add: i False en_def [symmetric])
qed

section \<open>Writing and reading back\<close>

lemma kinds_ne [simp]:
  "inode_key a \<noteq> extent_key b x" "extent_key b x \<noteq> inode_key a" "extent_key b x \<noteq> subvol_key i" "extent_key b x \<noteq> snapshot_key s"
  by (simp_all add: inode_key_def extent_key_def subvol_key_def snapshot_key_def kind_defs)

lemma writes_file_inode: "writes_file ino m D m' D' \<Longrightarrow> inode_at m' chain a = inode_at m chain a"
  by (intro lookup_as_cong) (simp add: writes_file_def)

lemma writes_file_active: "writes_file ino m D m' D' \<Longrightarrow> keeps f f' \<Longrightarrow> active_chain f' m' = active_chain f m"
  using meta_eq_active [of m m' f' f] meta_eq_chain [of m m'] keeps_fields [of f f'] by (simp add: writes_file_def)

lemma writes_file_other:
  assumes "writes_file ino m D m' D'" "a \<noteq> ino" "file_ok m D chain a"
  shows "file_ok m' D' chain a" "byte_at m' D' chain a = byte_at m D chain a"
proof -
  have e: "extent_at m' chain a x = extent_at m chain a x" for x
    using assms(1,2) by (intro lookup_as_cong) (simp add: writes_file_def)
  have D: "D nr = Some b \<Longrightarrow> D' nr = Some b" for nr b using assms(1) by (auto simp: writes_file_def map_le_def dom_def)
  have ex: "\<exists>b. D (x_data_block x) = Some b \<and> D' (x_data_block x) = Some b \<and> length b = 4096" if "extent_at m chain a o' = Some x" for o' x
    using file_okD [OF assms(3) that] D by blast
  show "file_ok m' D' chain a" using file_okD [OF assms(3)] D unfolding file_ok_def e by blast
  have "block_of m' D' chain a x = block_of m D chain a x" for x
    using ex by (cases "extent_at m chain a x") (fastforce simp: block_of_def e)+
  then show "byte_at m' D' chain a = byte_at m D chain a" by (simp add: byte_at_def fun_eq_iff)
qed

lemma write_at_runs:
  assumes "fsv D f m (2 * length data + n)" "file_ok m D (active_chain f m) ino" "unat offset + length data \<le> 2 ^ 63"
  shows "\<exists>f' m' D'. fs_write_at ino offset data f = (Inr (length data), f') \<and> fsv D' f' m' n \<and> keeps f f' \<and> writes_file ino m D m' D'
    \<and> active_chain f' m' = active_chain f m \<and> file_ok m' D' (active_chain f' m') ino
    \<and> (\<forall>k < 2 ^ 64. byte_at m' D' (active_chain f' m') ino k =
          (if unat offset \<le> k \<and> k < unat offset + length data then data ! (k - unat offset) else byte_at m D (active_chain f m) ino k))"
proof -
  obtain f' m' D' where w: "write_loop ino offset data f = (Inr (), f')" "fsv D' f' m' n" "keeps f f'" "writes_file ino m D m' D'"
    "file_ok m' D' (active_chain f m) ino"
    "\<forall>k < 2 ^ 64. byte_at m' D' (active_chain f m) ino k =
          (if unat offset \<le> k \<and> k < unat offset + length data then data ! (k - unat offset) else byte_at m D (active_chain f m) ino k)"
    using runs_result [OF write_loop_runs [OF assms]] by auto
  then show ?thesis using writes_file_active [OF w(4,3)]
    by (intro exI [of _ f'] exI [of _ m'] exI [of _ D']) (simp add: fs_write_at_def bindM_Inr)
qed

text \<open>A fresh file system with one inode, for the examples.\<close>

lemma sample_file:
  assumes "n + 3 \<le> 2 ^ 44"
  shows "\<exists>f f' m. fs_new crc = Inr f \<and> put_inode ino i f = (Inr (), f') \<and> fsv Map.empty f' m n
     \<and> file_ok m Map.empty (active_chain f' m) ino \<and> inode_at m (active_chain f' m) ino = Some i"
proof -
  obtain f where f: "fs_new crc = Inr f" "fsv Map.empty f seed_map (Suc n)" "active f seed_map = ROOT_SNAP"
    using fs_new_ok [of "Suc n" crc] assms by auto
  let ?m = "put_map (inode_key ino) (active f seed_map) Live (inode_bytes i) seed_map"
  have len: "length (inode_bytes i) = 56" using inode_codec.length_enc [of i] by simp
  obtain f' where f': "put_inode ino i f = (Inr (), f')" "fsv Map.empty f' ?m n" "keeps f f'"
    using runs_result [OF put_current_runs [OF f(2), of "inode_key ino" "inode_bytes i"]] len
    by (auto simp: put_inode_def) (auto simp: inode_key_def)
  have me: "meta_eq seed_map ?m" by (rule meta_eq_file) simp
  have chain: "active_chain f' ?m = [ROOT_SNAP]"
    using meta_eq_active [OF me, of f' f] meta_eq_chain [OF me] keeps_fields [OF f'(3)] f(3) by (simp add: seed_chain)
  have "extent_at ?m [ROOT_SNAP] ino x = None" for x
    by (simp add: lookup_as_def seed_map_def put_map_def)
  then have "file_ok ?m Map.empty [ROOT_SNAP] ino" by (simp add: file_ok_def)
  moreover have "inode_at ?m [ROOT_SNAP] ino = Some i"
    unfolding f(3) by (rule lookup_as_put) (simp add: inode_codec.dec_stored)
  ultimately show ?thesis using f(1) f'(1,2) chain by (intro exI [of _ f] exI [of _ f'] exI [of _ ?m]) simp
qed

section \<open>Properties\<close>

text \<open>C5. \<open>write_at\<close> implements the update of a byte array: it returns the number of bytes written, the bytes of the
  written range become the data, every other byte of the file stays, inodes are untouched and every other
  file keeps all its bytes along every snapshot chain.\<close>

theorem write_at_refines_bytes:
  assumes "fsv D f m (2 * length data + n)" "file_ok m D (active_chain f m) ino" "unat offset + length data \<le> 2 ^ 63"
  shows "\<exists>f' m' D'. fs_write_at ino offset data f = (Inr (length data), f') \<and> fsv D' f' m' n
    \<and> active_chain f' m' = active_chain f m \<and> file_ok m' D' (active_chain f' m') ino
    \<and> (\<forall>k < 2 ^ 64. byte_at m' D' (active_chain f' m') ino k =
          (if unat offset \<le> k \<and> k < unat offset + length data then data ! (k - unat offset) else byte_at m D (active_chain f m) ino k))
    \<and> (\<forall>chain a. inode_at m' chain a = inode_at m chain a)
    \<and> (\<forall>chain a. a \<noteq> ino \<longrightarrow> file_ok m D chain a \<longrightarrow> file_ok m' D' chain a \<and> byte_at m' D' chain a = byte_at m D chain a)"
proof -
  obtain f' m' D' where w: "fs_write_at ino offset data f = (Inr (length data), f')" "fsv D' f' m' n" "writes_file ino m D m' D'"
    "active_chain f' m' = active_chain f m" "file_ok m' D' (active_chain f' m') ino"
    "\<forall>k < 2 ^ 64. byte_at m' D' (active_chain f' m') ino k =
          (if unat offset \<le> k \<and> k < unat offset + length data then data ! (k - unat offset) else byte_at m D (active_chain f m) ino k)"
    using write_at_runs [OF assms] by blast
  have i: "inode_at m' chain a = inode_at m chain a" for chain a by (rule writes_file_inode [OF w(3)])
  have b: "file_ok m' D' chain a \<and> byte_at m' D' chain a = byte_at m D chain a" if "a \<noteq> ino" "file_ok m D chain a" for chain a
    using writes_file_other [OF w(3) that] by simp
  show ?thesis by (intro exI [of _ f'] exI [of _ m'] exI [of _ D'] conjI w(1,2,4,5,6) allI impI i) (simp_all add: b)
qed

theorem write_at_refines_bytes_witness:
  "\<exists>f f' f'' m' D'. fs_new (\<lambda>_. 7) = Inr f
     \<and> put_inode 5 \<lparr>i_mode = 1, i_uid = 2, i_gid = 3, i_nlink = 1, i_size = 9, i_atime = 0, i_mtime = 0, i_ctime = 0, i_parent_ino = 1\<rparr> f = (Inr (), f')
     \<and> fs_write_at 5 4095 [1, 2] f' = (Inr 2, f'') \<and> fsv D' f'' m' 0
     \<and> byte_at m' D' (active_chain f'' m') 5 4096 = 2"
proof -
  obtain f f' m where f: "fs_new (\<lambda>_. 7) = Inr f"
    "put_inode 5 \<lparr>i_mode = 1, i_uid = 2, i_gid = 3, i_nlink = 1, i_size = 9, i_atime = 0, i_mtime = 0, i_ctime = 0, i_parent_ino = 1\<rparr> f = (Inr (), f')"
    "fsv Map.empty f' m 4" "file_ok m Map.empty (active_chain f' m) 5"
    using sample_file [of 4 "\<lambda>_. 7" 5 "\<lparr>i_mode = 1, i_uid = 2, i_gid = 3, i_nlink = 1, i_size = 9, i_atime = 0, i_mtime = 0, i_ctime = 0, i_parent_ino = 1\<rparr>"]
    by auto
  from write_at_refines_bytes [of Map.empty f' m "[1, 2]" 0 5 4095] f(3,4)
  obtain f'' m' D' where w: "fs_write_at 5 4095 [1, 2] f' = (Inr 2, f'')" "fsv D' f'' m' 0"
    "\<forall>k < 2 ^ 64. byte_at m' D' (active_chain f'' m') 5 k =
      (if 4095 \<le> k \<and> k < 4097 then [1, 2] ! (k - 4095) else byte_at m Map.empty (active_chain f' m) 5 k)" by auto
  from w(3) [rule_format, of 4096] have "byte_at m' D' (active_chain f'' m') 5 4096 = 2" by simp
  then show ?thesis using f(1,2) w(1,2) by blast
qed

text \<open>C6. \<open>read_at\<close> returns exactly the bytes of the requested range, cut off at the size of the inode; a missing inode
  and an offset at or past the end give an empty buffer. It changes neither the stored map nor the log.\<close>

theorem read_at_returns_bytes:
  assumes "fsv D f m n" "file_ok m D (active_chain f m) ino" "unat offset + unat sz < 2 ^ 64"
    "\<And>i. inode_at m (active_chain f m) ino = Some i \<Longrightarrow> unat (i_size i) \<le> 2 ^ 63"
  shows "\<exists>f'. fs_read_at ino offset sz f = (Inr (case inode_at m (active_chain f m) ino of None \<Rightarrow> []
       | Some i \<Rightarrow> map (byte_at m D (active_chain f m) ino) [unat offset..<min (unat offset + unat sz) (unat (i_size i))]), f')
     \<and> fsv D f' m n \<and> journal_of (tree f') = journal_of (tree f)"
proof (cases "inode_at m (active_chain f m) ino")
  case None
  have "reads (fs_read_at ino offset sz) D f m n []"
    unfolding fs_read_at_def by (rule reads_bind [OF get_inode_reads [OF assms(1)]]) (simp add: None)
  then show ?thesis using reads_result [of "fs_read_at ino offset sz" D f m n "[]"] None by (auto simp: same_def)
next
  case (Some i)
  show ?thesis using reads_result [OF read_at_reads [OF assms(1,2) Some assms(4) [OF Some] assms(3)]] Some by (auto simp: same_def)
qed

theorem read_at_returns_bytes_witness:
  "\<exists>f f' f''. fs_new (\<lambda>_. 7) = Inr f
     \<and> put_inode 5 \<lparr>i_mode = 1, i_uid = 2, i_gid = 3, i_nlink = 1, i_size = 3, i_atime = 0, i_mtime = 0, i_ctime = 0, i_parent_ino = 1\<rparr> f = (Inr (), f')
     \<and> fs_read_at 5 1 100 f' = (Inr [0, 0], f'')"
proof -
  let ?i = "\<lparr>i_mode = 1, i_uid = 2, i_gid = 3, i_nlink = 1, i_size = 3, i_atime = 0, i_mtime = 0, i_ctime = 0, i_parent_ino = 1\<rparr>"
  obtain f f' m where f: "fs_new (\<lambda>_. 7) = Inr f" "put_inode 5 ?i f = (Inr (), f')" "fsv Map.empty f' m 0"
    "file_ok m Map.empty (active_chain f' m) 5" "inode_at m (active_chain f' m) 5 = Some ?i"
    using sample_file [of 0 "\<lambda>_. 7" 5 ?i] by auto
  have "block_of m Map.empty (active_chain f' m) 5 x = replicate 4096 0" for x
    using file_okD [OF f(4), of x] by (cases "extent_at m (active_chain f' m) 5 x") (auto simp: block_of_def)
  then have z: "byte_at m Map.empty (active_chain f' m) 5 k = 0" for k by (simp add: byte_at_def)
  have "[1..<3] = [1, 2 :: nat]" by (simp add: upt_rec)
  then show ?thesis using read_at_returns_bytes [OF f(3,4), of 1 100] f(1,2,5) z by auto
qed

text \<open>C35. What was written is read back: when the written range lies within the size of the inode,
  a read of that range right after the write returns the data.\<close>

theorem write_then_read:
  assumes "fsv D f m (2 * length data + n)" "file_ok m D (active_chain f m) ino" "inode_at m (active_chain f m) ino = Some i"
    "unat offset + length data \<le> unat (i_size i)" "unat (i_size i) \<le> 2 ^ 63" "length data < 2 ^ 32"
  shows "\<exists>f' f''. fs_write_at ino offset data f = (Inr (length data), f')
     \<and> fs_read_at ino offset (of_nat (length data)) f' = (Inr data, f'')"
proof -
  have bound: "unat offset + length data \<le> 2 ^ 63" using assms(4,5) by simp
  obtain f' m' D' where w: "fs_write_at ino offset data f = (Inr (length data), f')" "fsv D' f' m' n" "writes_file ino m D m' D'"
    "active_chain f' m' = active_chain f m" "file_ok m' D' (active_chain f' m') ino"
    "\<forall>k < 2 ^ 64. byte_at m' D' (active_chain f' m') ino k =
          (if unat offset \<le> k \<and> k < unat offset + length data then data ! (k - unat offset) else byte_at m D (active_chain f m) ino k)"
    using write_at_runs [OF assms(1,2) bound] by blast
  have i: "inode_at m' (active_chain f' m') ino = Some i" using writes_file_inode [OF w(3)] w(4) assms(3) by simp
  have sz: "unat (of_nat (length data) :: u32) = length data" using assms(6) by (simp add: unat_of_nat)
  have "map (byte_at m' D' (active_chain f' m') ino) [unat offset..<unat offset + length data] = data"
    using w(6) bound by (intro nth_equalityI) auto
  then have "reads (fs_read_at ino offset (of_nat (length data))) D' f' m' n data"
    using read_at_reads [OF w(2,5) i assms(5), of offset "of_nat (length data)"] assms(4) bound by (simp add: sz min_absorb1)
  from reads_result [OF this] show ?thesis using w(1) by blast
qed

theorem write_then_read_witness:
  "\<exists>f f' f1 f2. fs_new (\<lambda>_. 7) = Inr f
     \<and> put_inode 5 \<lparr>i_mode = 1, i_uid = 2, i_gid = 3, i_nlink = 1, i_size = 5000, i_atime = 0, i_mtime = 0, i_ctime = 0, i_parent_ino = 1\<rparr> f = (Inr (), f')
     \<and> fs_write_at 5 4095 [1, 2, 3] f' = (Inr 3, f1) \<and> fs_read_at 5 4095 3 f1 = (Inr [1, 2, 3], f2)"
proof -
  let ?i = "\<lparr>i_mode = 1, i_uid = 2, i_gid = 3, i_nlink = 1, i_size = 5000, i_atime = 0, i_mtime = 0, i_ctime = 0, i_parent_ino = 1\<rparr>"
  obtain f f' m where f: "fs_new (\<lambda>_. 7) = Inr f" "put_inode 5 ?i f = (Inr (), f')" "fsv Map.empty f' m 6"
    "file_ok m Map.empty (active_chain f' m) 5" "inode_at m (active_chain f' m) 5 = Some ?i"
    using sample_file [of 6 "\<lambda>_. 7" 5 ?i] by auto
  show ?thesis using write_then_read [of Map.empty f' m "[1, 2, 3]" 0 5 ?i 4095] f by auto
qed

end
