(* ===== verification/Fs_Truncate.thy ===== *)
theory Fs_Truncate
  imports Fs_Read Checkpoint
begin

text \<open>
  Truncation: the blocks past the new size are dropped and the block that holds the boundary is cut, so that the bytes
  below the new size stay and the others read as zero.
\<close>

section \<open>All extents of an inode\<close>

interpretation all_extents: scan_family "extent_key ino" "\<lambda>_. ino \<noteq> - 1" extent_offset_from_key extent_of_bytes 16
  "fst (extent_range ino)" "snd (extent_range ino)" for ino
proof unfold_locales
  fix l assume l: "key_shape l"
  show "in_window (fst (extent_range ino)) (snd (extent_range ino)) l \<longleftrightarrow> (\<exists>x. ino \<noteq> - 1 \<and> l = extent_key ino x)"
  proof
    assume w: "in_window (fst (extent_range ino)) (snd (extent_range ino)) l"
    then have "hd l = KIND_EXTENT" using key_shape_ne [OF l] by (intro window_hd) (auto simp: extent_range_def extent_key_def)
    then obtain i x where "l = extent_key i x" using extent_shape [OF l] by blast
    then show "\<exists>x. ino \<noteq> - 1 \<and> l = extent_key ino x" using w extent_in_window [of ino KIND_EXTENT i x] by (auto simp: extent_key_def)
  qed (use extent_in_window [of ino KIND_EXTENT ino] in \<open>auto simp: extent_key_def\<close>)
  show "\<not> strict_prefix l (fst (extent_range ino)) \<and> \<not> strict_prefix l (snd (extent_range ino))"
    using extent_no_prefix [OF l] by (simp add: extent_range_def)
next
  show "extent_offset_from_key (extent_key ino x) = Some x" for x by (rule extents.dk_key)
  show "val_size (hd (extent_key ino x)) = Some 16" for x by (rule extents.sized)
  show "\<exists>y. extent_of_bytes v = Some y" if "length v = 16" for v by (rule extents.dv_total [OF that])
qed (simp_all add: extent_range_def)

lemma list_extents_reads:
  assumes "fsv D f m n"
  shows "\<exists>xs. reads (list_extents ino) D f m n xs \<and> distinct (map fst xs)
     \<and> (\<forall>x e. (x, e) \<in> set xs \<longleftrightarrow> ino \<noteq> - 1 \<and> extent_at m (active_chain f m) ino x = Some e)"
proof -
  have "typed m" using assms by (simp add: fsv_def)
  then have "separated m (fst (extent_range ino)) (snd (extent_range ino))" by (rule all_extents.fixed_separated) simp
  from all_extents.scan_reads [OF assms sorted_chain this]
  obtain xs where xs: "\<forall>g. fsv D g m n \<longrightarrow> reads (collect_extents (fst (extent_range ino)) (snd (extent_range ino)) (active_chain f m)) D g m n xs"
    "distinct (map fst xs)" "\<forall>x e. (x, e) \<in> set xs \<longleftrightarrow> ino \<noteq> - 1 \<and> extent_at m (active_chain f m) ino x = Some e"
    unfolding collect_extents_def by blast
  have "reads (list_extents ino) D f m n xs"
    unfolding list_extents_def by (rule reads_bind [OF current_chain_reads [OF assms]]) (use xs(1) in blast)
  then show ?thesis using xs(2,3) by blast
qed

section \<open>Releasing a data block\<close>

lemma free_data_runs:
  assumes "fsv D f m n" "D b = Some x"
  shows "runs (free_data_block b) f (\<lambda>_ f'. fsv (D(b := None)) f' m n \<and> keeps f f' \<and> b \<in> set (free_list (store (ctx (tree f')))))"
proof -
  let ?c = "ctx (tree f)" let ?s = "store ?c"
  obtain B where B: "holds ?c (root_block (tree f)) B m" "data_kept D B ?c"
    and ok: "sane (n * OP_COST) ?c" using assms(1) by (auto simp: fsv_def stored_def volume_def room_def)
  have b: "b \<in> allocated ?s" "b \<notin> set (last_chain_blocks ?s)" "b \<notin> B" using B(2) assms(2) by (auto simp: data_kept_def owned_def)
  have al: "alloc_ok ?s" using ok by (simp add: sane_def)
  obtain s' where s': "free b ?s = (Inr (), s')" "alloc_ok s'" "allocated s' = allocated ?s - {b}"
    "\<forall>c. c \<noteq> b \<longrightarrow> node_at s' c = node_at ?s c \<and> data_at s' c = data_at ?s c"
    using free_releases [OF al b(1,2)] by metis
  have fields: "last_chain_blocks s' = last_chain_blocks ?s" "next_block_nr s' = next_block_nr ?s" "b \<in> set (free_list s')"
    using s'(1) by (auto simp: free_def)
  let ?c' = "?c\<lparr>store := s'\<rparr>"
  obtain L t where t: "blk t = root_block (tree f)" "tree_ok ?c L None None t" "tree_view (cont t) = m" "set (blocks t) = B"
    by (rule holdsE [OF B(1)])
  have own: "owned ?c' = owned ?c - {b}" using s'(3) fields(1) by (auto simp: owned_def)
  have "rep s' L t" using t(2,4) b(3) s'(4) by (auto simp: tree_ok_def elim!: rep_mono)
  then have "tree_ok ?c' L None None t" using t(2,4) b(3) own by (auto simp: tree_ok_def)
  then have "holds ?c' (root_block (tree f)) B m" using t(1,3,4) unfolding holds_def by blast
  moreover have "data_kept (D(b := None)) B ?c'" using B(2) s'(4) own by (auto simp: data_kept_def)
  ultimately have "volume ?c' (root_block (tree f)) m (D(b := None))" unfolding volume_def by blast
  moreover have "sane (n * OP_COST) ?c'" using ok s'(2) fields(2) by (simp add: sane_def)
  ultimately have "fsv (D(b := None)) (f\<lparr>tree := (tree f)\<lparr>ctx := ?c'\<rparr>\<rparr>) m n"
    using assms(1) by (simp add: fsv_def stored_def room_def)
  then show ?thesis
    unfolding free_data_block_def on_fs_store_runs using s'(1) fields(3)
    by (simp add: on_store_def runs_on_part) (auto simp: runs_def keeps_def)
qed

section \<open>One extent\<close>

definition cut :: "nat \<Rightarrow> nat \<Rightarrow> bytes \<Rightarrow> bytes" where
  "cut n base bs = map (\<lambda>i. if base + i < n then bs ! i else 0) [0..<length bs]"

lemma length_cut [simp]: "length (cut n base bs) = length bs"
  by (simp add: cut_def)

lemma nth_cut [simp]: "i < length bs \<Longrightarrow> cut n base bs ! i = (if base + i < n then bs ! i else 0)"
  by (simp add: cut_def)

text \<open>No two extents of the file share a data block.\<close>

definition own_blocks :: "kvmap \<Rightarrow> snap_id list \<Rightarrow> u64 \<Rightarrow> bool" where
  "own_blocks m chain ino = (\<forall>x y e e'. extent_at m chain ino x = Some e \<longrightarrow> extent_at m chain ino y = Some e' \<longrightarrow>
     x_data_block e = x_data_block e' \<longrightarrow> x = y)"

text \<open>A step that changes the extent at \<open>off\<close> and nothing else.\<close>

definition changes_block :: "u64 \<Rightarrow> snap_id list \<Rightarrow> u64 \<Rightarrow> kvmap \<Rightarrow> (u64 \<rightharpoonup> bytes) \<Rightarrow> kvmap \<Rightarrow> (u64 \<rightharpoonup> bytes) \<Rightarrow> bool" where
  "changes_block ino chain off m D m' D' = (meta_eq m m' \<and> file_ok m' D' chain ino \<and> own_blocks m' chain ino
     \<and> (\<forall>l c. (\<forall>x. l \<noteq> extent_key ino x) \<longrightarrow> visible m' l c = visible m l c)
     \<and> (\<forall>x. x \<noteq> off \<longrightarrow> extent_at m' chain ino x = extent_at m chain ino x \<and> block_of m' D' chain ino x = block_of m D chain ino x))"

lemma changes_block_refl: "file_ok m D chain ino \<Longrightarrow> own_blocks m chain ino \<Longrightarrow> changes_block ino chain off m D m D"
  by (simp add: changes_block_def meta_eq_def)

lemma drop_block:
  assumes ok: "file_ok m D (s # ss) ino" and own: "own_blocks m (s # ss) ino" and e: "extent_at m (s # ss) ino off = Some e"
  defines "m' \<equiv> delete_map (extent_key ino off) s (s # ss) m" and "D' \<equiv> D(x_data_block e := None)"
  shows "changes_block ino (s # ss) off m D m' D'" "block_of m' D' (s # ss) ino off = replicate 4096 0"
proof -
  have gone: "extent_at m' (s # ss) ino off = None" unfolding m'_def lookup_as_def visible_delete_head by simp
  have other: "extent_at m' (s # ss) ino x = extent_at m (s # ss) ino x" if "x \<noteq> off" for x
    unfolding m'_def using that by (intro lookup_as_cong visible_delete_other) simp
  have apart: "x_data_block e' \<noteq> x_data_block e" if "x \<noteq> off" "extent_at m (s # ss) ino x = Some e'" for x e'
    using own e that unfolding own_blocks_def by metis
  show "block_of m' D' (s # ss) ino off = replicate 4096 0" by (simp add: block_of_def gone)
  have "file_ok m' D' (s # ss) ino"
    unfolding file_ok_def
  proof (intro allI impI)
    fix x e' assume x: "extent_at m' (s # ss) ino x = Some e'"
    then have "x \<noteq> off" "extent_at m (s # ss) ino x = Some e'" using gone other by (cases "x = off"; simp)+
    then show "4096 dvd unat x \<and> unat (x_len e') \<le> 4096 \<and> (\<exists>b. D' (x_data_block e') = Some b \<and> length b = 4096)"
      using file_okD [OF ok] apart by (simp add: D'_def)
  qed
  moreover have "own_blocks m' (s # ss) ino"
    using own gone other unfolding own_blocks_def by (metis option.distinct(1))
  moreover have "block_of m' D' (s # ss) ino x = block_of m D (s # ss) ino x" if "x \<noteq> off" for x
    using other [OF that] apart [OF that] by (auto simp: block_of_def D'_def split: option.splits)
  moreover have "meta_eq m m'" unfolding m'_def by (intro meta_eq_file) (simp add: meta_delete)
  moreover have "visible m' l c = visible m l c" if "\<forall>x. l \<noteq> extent_key ino x" for l c
    unfolding m'_def using that by (intro visible_delete_other) simp
  ultimately show "changes_block ino (s # ss) off m D m' D'" using other by (simp add: changes_block_def)
qed

lemma replace_block:
  assumes ok: "file_ok m D (s # ss) ino" and own: "own_blocks m (s # ss) ino" and nr: "D nr = None" and len: "length data \<le> 4096"
    and al: "4096 dvd unat off"
  defines "m' \<equiv> put_map (extent_key ino off) s Live (extent_bytes (new_extent data nr)) m"
    and "D' \<equiv> D(nr \<mapsto> data @ replicate (4096 - length data) 0)"
  shows "changes_block ino (s # ss) off m D m' D'" "block_of m' D' (s # ss) ino off = data @ replicate (4096 - length data) 0"
proof -
  note b = put_extent_blocks [OF ok nr len al]
  show "block_of m' D' (s # ss) ino off = data @ replicate (4096 - length data) 0" unfolding m'_def D'_def by (rule b(2))
  have new: "extent_at m' (s # ss) ino off = Some (new_extent data nr)"
    unfolding m'_def by (rule lookup_as_put) (rule extent_codec.dec_stored [OF new_extent_ok(1)])
  have other: "extent_at m' (s # ss) ino x = extent_at m (s # ss) ino x" if "x \<noteq> off" for x
    unfolding m'_def using that by (intro lookup_as_cong visible_put_other) simp
  have "x_data_block e \<noteq> nr" if "extent_at m (s # ss) ino x = Some e" for x e using file_okD [OF ok that] nr by auto
  then have "own_blocks m' (s # ss) ino"
    using own new other unfolding own_blocks_def new_extent_def by (metis extent_v1.select_convs(3) option.inject)
  moreover have "visible m' l c = visible m l c" if "\<forall>x. l \<noteq> extent_key ino x" for l c
    unfolding m'_def using that by (intro visible_put_other) simp
  ultimately show "changes_block ino (s # ss) off m D m' D'"
    using b(1,3) other unfolding changes_block_def m'_def D'_def by (auto simp: meta_eq_file)
qed

text \<open>The condition of the code under which an extent below the new size is left alone.\<close>

lemma cut_kept:
  assumes ok: "file_ok m D c ino" and e: "extent_at m c ino off = Some e" and lt: "off < new"
    and n: "\<not> (off = block_start new \<and> 0 < unat new mod 4096 \<and> new - off < ucast (x_len e))"
  shows "cut (unat new) (unat off) (block_of m D c ino off) = block_of m D c ino off"
proof (rule nth_equalityI)
  fix i assume i: "i < length (cut (unat new) (unat off) (block_of m D c ino off))"
  then have i': "i < 4096" by (simp add: length_block_of [OF ok])
  obtain q where q: "unat off = 4096 * q" using file_okD [OF ok e] by (auto elim: dvdE)
  have l: "unat off < unat new" using lt by (simp add: word_less_nat_alt)
  have len: "unat (x_len e) \<le> 4096" "\<exists>b. D (x_data_block e) = Some b \<and> length b = 4096" using file_okD [OF ok e] by auto
  have "block_of m D c ino off ! i = 0" if out: "\<not> unat off + i < unat new"
  proof -
    have "unat new div 4096 = q" using l out i' q by linarith
    then have b: "off = block_start new" using q by (simp add: word_unat_eq_iff unat_block_start mult.commute)
    have sub: "unat (new - off) = unat new mod 4096" using in_block [of new] b by simp
    have t: "unat new = unat off + unat new mod 4096" using b unat_block_start [of new] by simp
    then have "0 < unat new mod 4096" using l by linarith
    then have "unat (x_len e) \<le> unat new mod 4096" using n b sub unat_u32_u64 [of "x_len e"] by (simp add: word_less_nat_alt)
    then have "unat (x_len e) \<le> i" using out t by linarith
    then show ?thesis using e len i' by (auto simp: block_of_def nth_append)
  qed
  then show "cut (unat new) (unat off) (block_of m D c ino off) ! i = block_of m D c ino off ! i" using i by simp
qed simp

text \<open>What one iteration of the loop reaches.\<close>

definition cut_to :: "fs \<Rightarrow> kvmap \<Rightarrow> (u64 \<rightharpoonup> bytes) \<Rightarrow> nat \<Rightarrow> u64 \<Rightarrow> u64 \<Rightarrow> u64 \<Rightarrow> fs \<Rightarrow> bool" where
  "cut_to f m D n ino new off f' = (\<exists>m' D'. fsv D' f' m' n \<and> keeps f f' \<and> changes_block ino (active_chain f m) off m D m' D'
     \<and> block_of m' D' (active_chain f m) ino off = cut (unat new) (unat off) (block_of m D (active_chain f m) ino off))"

lemma drop_runs:
  assumes f: "fsv D f m (Suc (Suc n))" and ok: "file_ok m D (active_chain f m) ino" and own: "own_blocks m (active_chain f m) ino"
    and e: "extent_at m (active_chain f m) ino off = Some e" and past: "new \<le> off"
  shows "runs (bindM (delete_extent ino off) (\<lambda>_. free_data_block (x_data_block e))) f (\<lambda>_. cut_to f m D n ino new off)"
proof -
  obtain ss where ss: "active_chain f m = active f m # ss" using hd_chain by blast
  let ?c = "active_chain f m" let ?b = "block_of m D ?c ino off" let ?m = "delete_map (extent_key ino off) (active f m) ?c m"
  obtain b where b: "D (x_data_block e) = Some b" using file_okD [OF ok e] by blast
  have z: "cut (unat new) (unat off) ?b = replicate 4096 0"
    using past by (intro nth_equalityI) (simp_all add: length_block_of [OF ok] word_le_nat_alt)
  note d = drop_block [OF ok [unfolded ss] own [unfolded ss] e [unfolded ss]]
  have "runs (free_data_block (x_data_block e)) f1 (\<lambda>_. cut_to f m D n ino new off)" if f1: "fsv D f1 ?m (Suc n)" "keeps f f1" for f1
  proof (rule runs_mono [OF free_data_runs [where D = D and b = "x_data_block e", OF f1(1) b]], elim conjE)
    fix f2 assume "fsv (D(x_data_block e := None)) f2 ?m (Suc n)" "keeps f1 f2"
    then have "fsv (D(x_data_block e := None)) f2 ?m n" "keeps f f2" using fsv_le keeps_trans [OF f1(2)] by auto
    then show "cut_to f m D n ino new off f2" unfolding cut_to_def z using d unfolding ss by blast
  qed
  moreover have "runs (delete_extent ino off) f (\<lambda>r f'. r = (visible m (extent_key ino off) ?c \<noteq> None) \<and> fsv D f' ?m (Suc n) \<and> keeps f f')"
    unfolding delete_extent_def by (rule delete_current_runs [OF f]) simp
  ultimately show ?thesis by (auto elim!: runs_mono)
qed

lemma boundary_runs:
  assumes f: "fsv D f m (Suc (Suc n))" and ok: "file_ok m D (active_chain f m) ino" and own: "own_blocks m (active_chain f m) ino"
    and e: "extent_at m (active_chain f m) ino off = Some e"
    and at: "off = block_start new" "new - off < ucast (x_len e)"
  defines "t \<equiv> unat new mod 4096"
  shows "runs (bindM (read_data_block (x_data_block e)) (\<lambda>buf. if unat (x_len e) < t \<or> length buf < unat (x_len e) then raise Panic
     else put_extent ino off (take t (bsplice t (replicate (unat (x_len e) - t) 0) buf)))) f (\<lambda>_. cut_to f m D n ino new off)"
proof -
  obtain ss where ss: "active_chain f m = active f m # ss" using hd_chain by blast
  let ?c = "active_chain f m" let ?b = "block_of m D ?c ino off"
  obtain b where b: "D (x_data_block e) = Some b" "length b = 4096" and al: "4096 dvd unat off" and le: "unat (x_len e) \<le> 4096"
    using file_okD [OF ok e] by blast
  have sub: "unat (new - off) = t" "unat new = unat off + t" using in_block [of new] unat_block_start [of new] at(1) by (simp_all add: t_def)
  have t: "t < unat (x_len e)" using at(2) sub(1) unat_u32_u64 [of "x_len e"] by (simp add: word_less_nat_alt)
  let ?d = "take t b"
  have ld: "length ?d = t" using b(2) by (simp add: t_def)
  have z: "cut (unat new) (unat off) ?b = ?d @ replicate (4096 - length ?d) 0"
  proof (rule nth_equalityI)
    fix i assume "i < length (cut (unat new) (unat off) ?b)"
    then have i: "i < 4096" "i < length ?b" by (simp_all add: length_block_of [OF ok])
    have "?b ! i = b ! i" if "i < t" using that i(1) t e b by (simp add: block_of_def nth_append)
    then show "cut (unat new) (unat off) ?b ! i = (?d @ replicate (4096 - length ?d) 0) ! i" using i sub(2) ld by (simp add: nth_append)
  qed (use ld t le in \<open>simp add: length_block_of [OF ok]\<close>)
  have "runs (put_extent ino off ?d) f1 (\<lambda>_. cut_to f m D n ino new off)" if f1: "fsv D f1 m (Suc (Suc n))" "same f f1" for f1
  proof (rule runs_mono [OF put_extent_runs [OF f1(1)]])
    fix f2 assume "\<exists>nr. D nr = None \<and> fsv (D(nr \<mapsto> ?d @ replicate (4096 - length ?d) 0)) f2
      (put_map (extent_key ino off) (active f1 m) Live (extent_bytes (new_extent ?d nr)) m) n \<and> keeps f1 f2"
    then obtain nr where nr: "D nr = None" "fsv (D(nr \<mapsto> ?d @ replicate (4096 - length ?d) 0)) f2
      (put_map (extent_key ino off) (active f m) Live (extent_bytes (new_extent ?d nr)) m) n" "keeps f1 f2"
      unfolding active_same [OF f1(2)] by blast
    have "length ?d \<le> 4096" using ld t le by simp
    note r = replace_block [OF ok [unfolded ss] own [unfolded ss] nr(1) this al]
    have "keeps f f2" using keeps_trans [OF same_keeps [OF f1(2)] nr(3)] .
    then show "cut_to f m D n ino new off f2" unfolding cut_to_def z using r nr(2) unfolding ss by blast
  qed (use ld t le in simp)
  moreover have "take t (bsplice t (replicate (unat (x_len e) - t) 0) b) = ?d" using b(2) t le by (simp add: bsplice_def)
  ultimately show ?thesis by (intro reads_runs [OF read_data_reads [OF f b(1)]]) (use t le b(2) in simp)
qed

lemma truncate_one_runs:
  assumes f: "fsv D f m (Suc (Suc n))" and ok: "file_ok m D (active_chain f m) ino" and own: "own_blocks m (active_chain f m) ino"
    and e: "extent_at m (active_chain f m) ino off = Some e"
  shows "runs (truncate_one ino new (off, e)) f (\<lambda>_. cut_to f m D n ino new off)"
proof -
  have tail: "unat (new mod of_nat BLOCK_SIZE) = unat new mod 4096" by (simp add: unat_mod_distrib layout_values)
  let ?at = "off = block_start new \<and> 0 < unat new mod 4096 \<and> new - off < ucast (x_len e)"
  consider "new \<le> off" | "\<not> new \<le> off" ?at | "\<not> new \<le> off" "\<not> ?at" by blast
  then show ?thesis
  proof cases
    case 1
    then show ?thesis using drop_runs [OF f ok own e 1] by (simp add: truncate_one_def Let_def)
  next
    case 2
    then have at: "off = block_start new" "new - off < ucast (x_len e)" by blast+
    show ?thesis unfolding truncate_one_def prod.case Let_def tail if_not_P [OF 2(1)] if_P [OF 2(2)] by (rule boundary_runs [OF f ok own e at])
  next
    case 3
    have "cut_to f m D n ino new off f"
      unfolding cut_to_def using cut_kept [OF ok e _ 3(2)] 3(1) changes_block_refl [OF ok own] fsv_le [OF f, of n] by auto
    then show ?thesis unfolding truncate_one_def prod.case Let_def tail if_not_P [OF 3(1)] if_not_P [OF 3(2)] by simp
  qed
qed

section \<open>The loop\<close>

definition cuts_blocks :: "u64 \<Rightarrow> snap_id list \<Rightarrow> u64 set \<Rightarrow> nat \<Rightarrow> kvmap \<Rightarrow> (u64 \<rightharpoonup> bytes) \<Rightarrow> kvmap \<Rightarrow> (u64 \<rightharpoonup> bytes) \<Rightarrow> bool" where
  "cuts_blocks ino chain X new m D m' D' = (meta_eq m m' \<and> file_ok m' D' chain ino
     \<and> (\<forall>l c. (\<forall>x. l \<noteq> extent_key ino x) \<longrightarrow> visible m' l c = visible m l c)
     \<and> (\<forall>x. block_of m' D' chain ino x = (if x \<in> X then cut new (unat x) (block_of m D chain ino x) else block_of m D chain ino x)))"

lemma truncate_loop_runs:
  assumes "fsv D f m (2 * length xs + n)" "file_ok m D (active_chain f m) ino" "own_blocks m (active_chain f m) ino" "distinct (map fst xs)"
    "\<forall>(x, e) \<in> set xs. extent_at m (active_chain f m) ino x = Some e"
  shows "runs (forM xs (truncate_one ino new)) f (\<lambda>_ f'. \<exists>m' D'. fsv D' f' m' n \<and> keeps f f'
     \<and> cuts_blocks ino (active_chain f m) (fst ` set xs) (unat new) m D m' D')"
  using assms
proof (induction xs arbitrary: f m D)
  case Nil
  then show ?case by (auto simp: cuts_blocks_def meta_eq_def intro!: exI [of _ m] exI [of _ D])
next
  case (Cons xe xs)
  obtain off e where xe: "xe = (off, e)" by force
  let ?c = "active_chain f m"
  have f: "fsv D f m (Suc (Suc (2 * length xs + n)))" and e: "extent_at m ?c ino off = Some e" and d: "off \<notin> fst ` set xs"
    using Cons.prems(1,4,5) by (auto simp: xe image_iff)
  have step: "runs (forM xs (truncate_one ino new)) f1 (\<lambda>_ f'. \<exists>m' D'. fsv D' f' m' n \<and> keeps f f'
      \<and> cuts_blocks ino ?c (fst ` set (xe # xs)) (unat new) m D m' D')"
    if f1: "fsv D1 f1 m1 (2 * length xs + n)" "keeps f f1" "changes_block ino ?c off m D m1 D1"
      "block_of m1 D1 ?c ino off = cut (unat new) (unat off) (block_of m D ?c ino off)" for f1 m1 D1
  proof -
    have ch: "meta_eq m m1" "file_ok m1 D1 ?c ino" "own_blocks m1 ?c ino" "\<And>l c. \<forall>x. l \<noteq> extent_key ino x \<Longrightarrow> visible m1 l c = visible m l c"
      "\<And>x. x \<noteq> off \<Longrightarrow> extent_at m1 ?c ino x = extent_at m ?c ino x" "\<And>x. x \<noteq> off \<Longrightarrow> block_of m1 D1 ?c ino x = block_of m D ?c ino x"
      using f1(3) by (auto simp: changes_block_def)
    have act: "active_chain f1 m1 = ?c"
      using meta_eq_active [OF ch(1)] keeps_fields [OF f1(2)] meta_eq_chain [OF ch(1)] by simp
    have "\<forall>(x, e) \<in> set xs. extent_at m1 ?c ino x = Some e" using Cons.prems(5) ch(5) d by (force simp: image_iff)
    then have "runs (forM xs (truncate_one ino new)) f1 (\<lambda>_ f'. \<exists>m' D'. fsv D' f' m' n \<and> keeps f1 f'
        \<and> cuts_blocks ino ?c (fst ` set xs) (unat new) m1 D1 m' D')"
      using Cons.IH [of D1 f1 m1] f1(1) ch(2,3) Cons.prems(4) unfolding act by simp
    then show ?thesis
    proof (rule runs_mono, elim exE conjE)
      fix f' m' D' assume *: "fsv D' f' m' n" "keeps f1 f'" "cuts_blocks ino ?c (fst ` set xs) (unat new) m1 D1 m' D'"
      have "block_of m' D' ?c ino x = (if x \<in> fst ` set (xe # xs) then cut (unat new) (unat x) (block_of m D ?c ino x) else block_of m D ?c ino x)" for x
        using *(3) ch(6) [of x] f1(4) d unfolding cuts_blocks_def xe by (cases "x = off") auto
      then have "cuts_blocks ino ?c (fst ` set (xe # xs)) (unat new) m D m' D'"
        using *(3) ch(1,4) meta_eq_trans unfolding cuts_blocks_def by auto
      then show "\<exists>m' D'. fsv D' f' m' n \<and> keeps f f' \<and> cuts_blocks ino ?c (fst ` set (xe # xs)) (unat new) m D m' D'"
        using *(1) keeps_trans [OF f1(2) *(2)] by blast
    qed
  qed
  have "runs (truncate_one ino new xe) f (\<lambda>_ f1. runs (forM xs (truncate_one ino new)) f1 (\<lambda>_ f'. \<exists>m' D'. fsv D' f' m' n \<and> keeps f f'
      \<and> cuts_blocks ino ?c (fst ` set (xe # xs)) (unat new) m D m' D'))"
    unfolding xe by (rule runs_mono [OF truncate_one_runs [OF f Cons.prems(2,3) e]]) (use step [unfolded xe] in \<open>auto simp: cut_to_def\<close>)
  then show ?case by simp
qed

section \<open>Properties\<close>

text \<open>C36. \<open>truncate_extents\<close> cuts a file: it succeeds, every byte below the new size stays, every byte from there on is zero,
  and no other key of the map changes.  Nothing is said of the data blocks that other snapshots share with the file: the blocks past the
  new size are freed even when a snapshot still refers to them (\<open>truncate_frees_shared\<close>).\<close>

theorem truncate_cuts_file:
  assumes f: "fsv D f m (2 * card {x. extent_at m (active_chain f m) ino x \<noteq> None} + n)" and ok: "file_ok m D (active_chain f m) ino"
    and own: "own_blocks m (active_chain f m) ino" and ino: "ino \<noteq> - 1"
  shows "\<exists>f' m' D'. truncate_extents ino new f = (Inr (), f') \<and> fsv D' f' m' n \<and> keeps f f' \<and> file_ok m' D' (active_chain f m) ino
    \<and> (\<forall>i < 2 ^ 64. byte_at m' D' (active_chain f m) ino i = (if i < unat new then byte_at m D (active_chain f m) ino i else 0))
    \<and> (\<forall>l c. (\<forall>x. l \<noteq> extent_key ino x) \<longrightarrow> visible m' l c = visible m l c)"
proof -
  let ?c = "active_chain f m"
  obtain xs where xs: "reads (list_extents ino) D f m (2 * card {x. extent_at m ?c ino x \<noteq> None} + n) xs" "distinct (map fst xs)"
    "\<And>x e. (x, e) \<in> set xs \<longleftrightarrow> extent_at m ?c ino x = Some e"
    using list_extents_reads [OF f, of ino] ino by blast
  have X: "fst ` set xs = {x. extent_at m ?c ino x \<noteq> None}" using xs(3) by (force simp: image_iff)
  then have len: "card {x. extent_at m ?c ino x \<noteq> None} = length xs" using distinct_card [OF xs(2)] by simp
  obtain f1 where f1: "list_extents ino f = (Inr xs, f1)" "fsv D f1 m (2 * length xs + n)" "same f f1" using reads_result [OF xs(1)] len by auto
  have act: "active_chain f1 m = ?c" by (simp add: active_same [OF f1(3)])
  have "runs (forM xs (truncate_one ino new)) f1 (\<lambda>_ f'. \<exists>m' D'. fsv D' f' m' n \<and> keeps f1 f' \<and> cuts_blocks ino ?c (fst ` set xs) (unat new) m D m' D')"
    using truncate_loop_runs [OF f1(2), of ino new] ok own xs(2,3) unfolding act by auto
  then obtain f' m' D' where r: "forM xs (truncate_one ino new) f1 = (Inr (), f')" "fsv D' f' m' n" "keeps f1 f'"
    "cuts_blocks ino ?c (fst ` set xs) (unat new) m D m' D'" by (auto elim: runsE)
  have "byte_at m' D' ?c ino i = (if i < unat new then byte_at m D ?c ino i else 0)" if i: "i < 2 ^ 64" for i
  proof -
    let ?b = "of_nat (i div 4096 * 4096) :: u64"
    have m: "i mod 4096 < 4096" by simp
    have "block_of m' D' ?c ino ?b = cut (unat new) (unat ?b) (block_of m D ?c ino ?b)"
    proof (cases "?b \<in> fst ` set xs")
      case False
      then have "block_of m D ?c ino ?b = replicate 4096 0" by (simp add: X block_of_def)
      then show ?thesis using r(4) False by (auto simp: cuts_blocks_def intro!: nth_equalityI)
    qed (use r(4) in \<open>simp add: cuts_blocks_def\<close>)
    then show ?thesis using length_block_of [OF ok, of ?b] block_index [OF i] m by (simp add: byte_at_def)
  qed
  moreover have "keeps f f'" using keeps_trans [OF same_keeps [OF f1(3)] r(3)] .
  moreover have "truncate_extents ino new f = (Inr (), f')" using f1(1) r(1) by (simp add: truncate_extents_def bindM_Inr)
  ultimately show ?thesis using r(2,4) unfolding cuts_blocks_def by blast
qed

theorem truncate_cuts_file_witness:
  "\<exists>f f1 f2 f3 m D c. fs_new (\<lambda>_. 7) = Inr f
     \<and> put_inode 5 \<lparr>i_mode = 1, i_uid = 2, i_gid = 3, i_nlink = 1, i_size = 3, i_atime = 0, i_mtime = 0, i_ctime = 0, i_parent_ino = 1\<rparr> f = (Inr (), f1)
     \<and> put_extent 5 0 [10, 11, 12] f1 = (Inr (), f2) \<and> truncate_extents 5 2 f2 = (Inr (), f3)
     \<and> fsv D f3 m 0 \<and> byte_at m D c 5 1 = 11 \<and> byte_at m D c 5 2 = 0"
proof -
  let ?i = "\<lparr>i_mode = 1, i_uid = 2, i_gid = 3, i_nlink = 1, i_size = 3, i_atime = 0, i_mtime = 0, i_ctime = 0, i_parent_ino = 1\<rparr>"
  let ?d = "[10, 11, 12] :: bytes"
  obtain f f1 m where f: "fs_new (\<lambda>_. 7) = Inr f" "put_inode 5 ?i f = (Inr (), f1)" "fsv Map.empty f1 m 4"
    "file_ok m Map.empty (active_chain f1 m) 5" using sample_file [of 4 "\<lambda>_. 7" 5 ?i] by auto
  have room: "fsv Map.empty f1 m (Suc (Suc 2))" by (rule fsv_le [OF f(3)]) simp
  obtain ss where ss: "active_chain f1 m = active f1 m # ss" using hd_chain by blast
  have none: "extent_at m (active_chain f1 m) 5 x = None" for x
    using file_okD [OF f(4), of x] by (cases "extent_at m (active_chain f1 m) 5 x") auto
  obtain f2 nr where p: "put_extent 5 0 ?d f1 = (Inr (), f2)" "fsv [nr \<mapsto> ?d @ replicate (4096 - length ?d) 0] f2
      (put_map (extent_key 5 0) (active f1 m) Live (extent_bytes (new_extent ?d nr)) m) 2" "keeps f1 f2"
    using runs_result [OF put_extent_runs [OF room, of ?d 5 0]] by auto
  let ?D = "[nr \<mapsto> ?d @ replicate (4096 - length ?d) 0]"
  let ?m = "put_map (extent_key 5 0) (active f1 m) Live (extent_bytes (new_extent ?d nr)) m" and ?c = "active_chain f1 m"
  have "own_blocks m ?c 5" by (simp add: own_blocks_def none)
  then have r: "changes_block 5 ?c 0 m Map.empty ?m ?D" "block_of ?m ?D ?c 5 0 = ?d @ replicate (4096 - length ?d) 0"
    using replace_block [OF f(4) [unfolded ss], where nr = nr and data = ?d and off = 0] unfolding ss by simp_all
  have act: "active_chain f2 ?m = ?c"
    using r(1) meta_eq_active [of m ?m f2 f1] meta_eq_chain [of m ?m] keeps_fields [OF p(3)] by (simp add: changes_block_def)
  have "{x. extent_at ?m ?c 5 x \<noteq> None} \<subseteq> {0}" using r(1) none by (auto simp: changes_block_def)
  then have "card {x. extent_at ?m ?c 5 x \<noteq> None} \<le> 1" using card_mono [of "{0 :: u64}"] by fastforce
  then have f2: "fsv ?D f2 ?m (2 * card {x. extent_at ?m (active_chain f2 ?m) 5 x \<noteq> None} + 0)" unfolding act by (intro fsv_le [OF p(2)]) simp
  have "file_ok ?m ?D (active_chain f2 ?m) 5" "own_blocks ?m (active_chain f2 ?m) 5" using r(1) unfolding act by (simp_all add: changes_block_def)
  from truncate_cuts_file [OF f2 this, of 2] obtain f3 m3 D3 where t: "truncate_extents 5 2 f2 = (Inr (), f3)" "fsv D3 f3 m3 0"
    "\<forall>i < 2 ^ 64. byte_at m3 D3 ?c 5 i = (if i < unat (2 :: u64) then byte_at ?m ?D ?c 5 i else 0)" unfolding act by auto
  have "byte_at ?m ?D ?c 5 1 = 11" using r(2) by (simp add: byte_at_def)
  then have "byte_at m3 D3 ?c 5 1 = 11" "byte_at m3 D3 ?c 5 2 = 0" using t(3) [rule_format, of 1] t(3) [rule_format, of 2] by simp_all
  then show ?thesis using f(1,2) p(1) t(1,2) by blast
qed

text \<open>The released block of an inherited extent: the deletion writes a whiteout for the active snapshot only, so an ancestor still sees
  the extent, and the data block it points to is on the free list.\<close>

lemma truncate_frees_shared:
  assumes f: "fsv D f m (Suc n)" and ok: "file_ok m D (active_chain f m) ino" and e: "extent_at m (active_chain f m) ino off = Some e"
    and anc: "active f m \<notin> set c" "extent_at m c ino off = Some e" and past: "new \<le> off"
  shows "runs (truncate_one ino new (off, e)) f (\<lambda>_ f'. \<exists>m' D'. fsv D' f' m' n \<and> extent_at m' c ino off = Some e
    \<and> x_data_block e \<in> set (free_list (store (ctx (tree f')))))"
proof -
  let ?m = "delete_map (extent_key ino off) (active f m) (active_chain f m) m"
  obtain b where b: "D (x_data_block e) = Some b" using file_okD [OF ok e] by blast
  have "visible ?m (extent_key ino off) c = visible m (extent_key ino off) c" by (rule visible_delete_other) (use anc(1) in simp)
  then have keep: "extent_at ?m c ino off = Some e" using anc(2) by (simp only: lookup_as_def)
  have "runs (delete_extent ino off) f (\<lambda>r f'. r = (visible m (extent_key ino off) (active_chain f m) \<noteq> None) \<and> fsv D f' ?m n \<and> keeps f f')"
    unfolding delete_extent_def by (rule delete_current_runs [OF f]) simp
  moreover have "runs (free_data_block (x_data_block e)) f1 (\<lambda>_ f'. \<exists>m' D'. fsv D' f' m' n
      \<and> extent_at m' c ino off = Some e \<and> x_data_block e \<in> set (free_list (store (ctx (tree f')))))" if f1: "fsv D f1 ?m n" for f1
    by (rule runs_mono [OF free_data_runs [where D = D and b = "x_data_block e", OF f1 b]]) (use keep in blast)
  ultimately have "runs (delete_extent ino off) f (\<lambda>_ f1. runs (free_data_block (x_data_block e)) f1 (\<lambda>_ f'. \<exists>m' D'. fsv D' f' m' n
      \<and> extent_at m' c ino off = Some e \<and> x_data_block e \<in> set (free_list (store (ctx (tree f'))))))" by (elim runs_mono) blast
  then show ?thesis using past by (simp add: truncate_one_def Let_def)
qed

end
