(* ===== verification/Fs_Dirs.thy ===== *)
theory Fs_Dirs
  imports Fs_Read
begin

text \<open>
  Directory operations.  \<open>unlink\<close>, \<open>rmdir\<close> and \<open>rename\<close> read the active view, check their
  conditions and commit one transaction; the properties say what they return on every branch and what
  the view is afterwards.
\<close>

section \<open>Running checks and one transaction\<close>

lemma liftx_Inr: "op f = (Inr r, f') \<Longrightarrow> liftx op f = (Inr r, f')"
  by (simp add: liftx_def map_err_def)

lemma liftx_reads:
  assumes "reads op D f m n r"
  shows "\<exists>f'. fsv D f' m n \<and> same f f' \<and> liftx op f = (Inr r, f')"
  using reads_result [OF assms] liftx_Inr [of op f r] by auto

lemma ok_or_simps [simp]: "ok_or e (Some x) = ret x" "ok_or e None = raise (Err e)"
  by (simp_all add: ok_or_def)

fun typed_op :: "kvop \<Rightarrow> bool" where
  "typed_op (KPut l s kd v) = (key_shape l \<and> length v \<le> 96 \<and> (kd = Live \<longrightarrow> val_size (hd l) = Some (length v)))"
| "typed_op (KDel l s chain) = True"

lemma hd_keys [simp]:
  "hd (inode_key i) = KIND_INODE" "hd (extent_key i x) = KIND_EXTENT" "hd (snapshot_key s) = KIND_SNAPSHOT"
  "hd (subvol_key v) = KIND_SUBVOL" "hd (deleted_inode_key i s) = KIND_DELETED_INODES"
  by (simp_all add: inode_key_def extent_key_def snapshot_key_def subvol_key_def deleted_inode_key_def)

lemma typed_script: "typed m \<Longrightarrow> \<forall>x \<in> set xs. typed_op x \<Longrightarrow> typed (fold apply_op xs m)"
proof (induction xs arbitrary: m)
  case (Cons x xs)
  have "typed (apply_op x m)" using Cons.prems by (cases x) (auto intro: typed_put typed_delete)
  then show ?case using Cons by simp
qed simp

lemma fs_transaction:
  assumes "fsv D f m (length xs + n)" "\<forall>x \<in> set xs. op_ok x" "\<forall>x \<in> set xs. typed_op x"
    "subvol_meta (fold apply_op xs m) (current_subvol f) \<noteq> None"
  shows "\<exists>f'. liftx (on_btree (transaction (forM xs (exec_op tx_insert_with_kind tx_delete_at)))) f = (Inr (), f')
     \<and> fsv D f' (fold apply_op xs m) n \<and> keeps f f' \<and> journal_of (tree f') = logs (script_log xs m) (journal_of (tree f))"
proof -
  have f: "stored D (tree f) m" "room (length xs + n) (tree f)" "typed m" using assms(1) by (simp_all add: fsv_def)
  obtain x' where x: "forM xs (exec_op tx_insert_with_kind tx_delete_at) \<lparr>tx_btree = tree f, pending_root = root_block (tree f)\<rparr> = (Inr (), x')"
    "tx_stored D (root_block (tree f)) m x' (fold apply_op xs m)" "tx_room n x'" "tx_journal x' = logs (script_log xs m) (journal_of (tree f))"
    using transaction_script [OF f(1,2) assms(2)] by auto
  define t where "t = (tx_btree x')\<lparr>root_block := pending_root x'\<rparr>"
  have "transaction (forM xs (exec_op tx_insert_with_kind tx_delete_at)) (tree f) = (Inr (), t)"
    using x(1) by (simp add: transaction_def t_def)
  then have "liftx (on_btree (transaction (forM xs (exec_op tx_insert_with_kind tx_delete_at)))) f = (Inr (), f\<lparr>tree := t\<rparr>)"
    by (intro liftx_Inr) (simp add: on_btree_def on_part_def)
  moreover have "stored D t (fold apply_op xs m)" "room n t" "journal_of t = logs (script_log xs m) (journal_of (tree f))"
    using x(2-4) by (simp_all add: t_def tx_stored_def stored_def tx_room_def room_def tx_journal_def journal_of_def)
  ultimately show ?thesis
    using typed_script [OF f(3) assms(3)] assms(4) by (intro exI [of _ "f\<lparr>tree := t\<rparr>"]) (auto simp: fsv_def keeps_def)
qed

text \<open>The bodies of the transactions are scripts.\<close>

lemma bindM_unit: "bindM op (\<lambda>_. ret ()) = op"
  by (simp add: bindM_def fun_eq_iff ret_def split: prod.splits sum.splits)

lemmas script_forms = forM.simps tx_insert_def exec_op_def kvop.case bindM_assoc bindM_ret

text \<open>What a script cannot touch: other keys, chains without its snapshots and, if it writes file keys only,
  the snapshot and subvolume records.\<close>

fun op_key :: "kvop \<Rightarrow> bytes" where
  "op_key (KPut l s kd v) = l"
| "op_key (KDel l s chain) = l"

fun op_snap :: "kvop \<Rightarrow> snap_id" where
  "op_snap (KPut l s kd v) = s"
| "op_snap (KDel l s chain) = s"

lemma script_other:
  "\<forall>x \<in> set xs. op_key x \<noteq> l \<or> op_snap x \<notin> set chain \<Longrightarrow> visible (fold apply_op xs m) l chain = visible m l chain"
proof (induction xs arbitrary: m)
  case (Cons x xs)
  have "visible (apply_op x m) l chain = visible m l chain"
    using Cons.prems by (cases x) (auto intro!: visible_put_other visible_delete_other)
  then show ?case using Cons by simp
qed simp

lemma meta_eq_refl [simp]: "meta_eq m m"
  by (simp add: meta_eq_def)

lemma script_meta: "\<forall>x \<in> set xs. file_key (op_key x) \<Longrightarrow> meta_eq m (fold apply_op xs m)"
proof (induction xs arbitrary: m)
  case (Cons x xs)
  have "meta_eq m (apply_op x m)" using Cons.prems by (cases x) (auto intro: meta_eq_file)
  then show ?case using Cons meta_eq_trans by auto
qed simp

lemma file_transaction:
  assumes "fsv D f m (length xs + n)" "\<forall>x \<in> set xs. op_ok x \<and> typed_op x \<and> file_key (op_key x)"
  shows "\<exists>f'. liftx (on_btree (transaction (forM xs (exec_op tx_insert_with_kind tx_delete_at)))) f = (Inr (), f')
     \<and> fsv D f' (fold apply_op xs m) n \<and> keeps f f' \<and> active_chain f' (fold apply_op xs m) = active_chain f m
     \<and> journal_of (tree f') = logs (script_log xs m) (journal_of (tree f))"
proof -
  have me: "meta_eq m (fold apply_op xs m)" using assms(2) by (intro script_meta) simp
  then have "subvol_meta (fold apply_op xs m) (current_subvol f) \<noteq> None" using assms(1) by (simp add: fsv_def meta_eq_def)
  then obtain f' where f': "liftx (on_btree (transaction (forM xs (exec_op tx_insert_with_kind tx_delete_at)))) f = (Inr (), f')"
    "fsv D f' (fold apply_op xs m) n" "keeps f f'" "journal_of (tree f') = logs (script_log xs m) (journal_of (tree f))"
    using fs_transaction [OF assms(1)] assms(2) by blast
  moreover have "active_chain f' (fold apply_op xs m) = active_chain f m"
    using meta_eq_active [OF me, of f' f] meta_eq_chain [OF me] keeps_fields [OF f'(3)] by simp
  ultimately show ?thesis by blast
qed

text \<open>A fresh file system with one entry, for the examples.\<close>

lemma put_dirent_runs:
  assumes "fsv D f m (Suc n)" "length name \<le> 19" "wf_dirent d"
  shows "runs (put_dirent p name d) f (\<lambda>_ f'. fsv D f' (put_map (KIND_DIRENT # u64_be p @ name) (active f m) Live (dirent_bytes d) m) n \<and> keeps f f')"
  using put_current_runs [OF assms(1), of "KIND_DIRENT # u64_be p @ name" "dirent_bytes d"] dirent_codec.length_enc [OF assms(3)] assms(2)
  by (simp add: put_dirent_def put_at_current_def dirent_key_ok)

lemma sample_entry:
  assumes "n + 4 \<le> 2 ^ 44" "wf_dirent d" "length name \<le> 19"
  shows "\<exists>f f1 f2 m. fs_new crc = Inr f \<and> put_inode ino i f = (Inr (), f1) \<and> put_dirent p name d f1 = (Inr (), f2) \<and> fsv Map.empty f2 m n
     \<and> active_chain f2 m = [ROOT_SNAP] \<and> (\<forall>a. inode_at m [ROOT_SNAP] a = (if a = ino then Some i else None))
     \<and> (\<forall>q nm. dirent_at m [ROOT_SNAP] q nm = (if q = p \<and> nm = name then Some d else None))"
proof -
  obtain f where f: "fs_new crc = Inr f" "fsv Map.empty f seed_map (Suc (Suc n))" "active f seed_map = ROOT_SNAP"
    using fs_new_ok [of "Suc (Suc n)" crc] assms(1) by auto
  let ?m1 = "put_map (inode_key ino) ROOT_SNAP Live (inode_bytes i) seed_map"
  let ?m2 = "put_map (KIND_DIRENT # u64_be p @ name) ROOT_SNAP Live (dirent_bytes d) ?m1"
  have len: "length (inode_bytes i) = 56" using inode_codec.length_enc [of i] by simp
  obtain f1 where f1: "put_inode ino i f = (Inr (), f1)" "fsv Map.empty f1 ?m1 (Suc n)" "keeps f f1"
    using runs_result [OF put_current_runs [OF f(2), of "inode_key ino" "inode_bytes i"]] len f(3)
    by (auto simp: put_inode_def)
  have me: "meta_eq seed_map ?m1" "meta_eq ?m1 ?m2" using assms(3) by (auto intro: meta_eq_file)
  have a1: "active f1 ?m1 = ROOT_SNAP" using meta_eq_active [OF me(1), of f1 f] keeps_fields [OF f1(3)] f(3) by simp
  obtain f2 where f2: "put_dirent p name d f1 = (Inr (), f2)" "fsv Map.empty f2 ?m2 n" "keeps f1 f2"
    using runs_result [OF put_dirent_runs [OF f1(2) assms(3,2), of p]] a1 by auto
  have "active_chain f2 ?m2 = [ROOT_SNAP]"
    using meta_eq_active [OF me(2), of f2 f1] meta_eq_chain [OF me(2)] meta_eq_chain [OF me(1)] keeps_fields [OF f2(3)] a1 by (simp add: seed_chain)
  moreover have "inode_at ?m2 [ROOT_SNAP] a = (if a = ino then Some i else None)" for a
    using inode_codec.dec_stored [of i]
    by (simp add: lookup_as_def put_map_def seed_map_def sortable_inj) (simp add: inode_key_def subvol_key_def snapshot_key_def kind_defs)
  moreover have "dirent_at ?m2 [ROOT_SNAP] q nm = (if q = p \<and> nm = name then Some d else None)" for q nm
    using dirent_codec.dec_stored [OF assms(2)]
    by (auto simp: lookup_as_def put_map_def seed_map_def inode_key_def subvol_key_def snapshot_key_def kind_defs)
  ultimately show ?thesis using f(1) f1(1) f2(1,2) by (intro exI [of _ f] exI [of _ f1] exI [of _ f2] exI [of _ ?m2]) simp
qed

section \<open>Rename\<close>

abbreviation dkey :: "u64 \<Rightarrow> bytes \<Rightarrow> bytes" where
  "dkey p name \<equiv> KIND_DIRENT # u64_be p @ name"

lemma dirent_visible:
  assumes "dirent_at m chain p name = Some d"
  shows "visible m (dkey p name) chain \<noteq> None" "wf_dirent d"
  using assms by (auto simp: lookup_as_def dirent_codec.dec_iff split: option.splits)

lemma rename_script:
  fixes m :: kvmap
  assumes "wf_dirent d" "dirent_at m (s # ss) p name = Some d" "dirent_at m (s # ss) p' name' = None"
  defines "m' \<equiv> fold apply_op [KPut (dkey p' name') s Live (dirent_bytes d), KDel (dkey p name) s (s # ss)] m"
  shows "dirent_at m' (s # ss) p name = None" "dirent_at m' (s # ss) p' name' = Some d"
proof -
  have ne: "dkey p name \<noteq> dkey p' name'"
  proof
    assume "dkey p name = dkey p' name'"
    then show False using assms(2,3) by simp
  qed
  let ?m1 = "put_map (dkey p' name') s Live (dirent_bytes d) m"
  have m': "m' = delete_map (dkey p name) s (s # ss) ?m1" by (simp add: m'_def)
  show "dirent_at m' (s # ss) p name = None" unfolding m' lookup_as_def visible_delete_head by simp
  have "dirent_at m' (s # ss) p' name' = dirent_at ?m1 (s # ss) p' name'"
    unfolding m' by (intro lookup_as_cong visible_delete_other) (use ne in auto)
  also have "\<dots> = Some d" by (rule lookup_as_put) (rule dirent_codec.dec_stored [OF assms(1)])
  finally show "dirent_at m' (s # ss) p' name' = Some d" .
qed

text \<open>Every directory operation starts with the active snapshot, its chain and one lookup.\<close>

lemma dir_prefix:
  assumes "fsv D f m n" "length name \<le> 19"
  shows "\<exists>f1 f2 f3. liftx current_snap f = (Inr (active f m), f1) \<and> liftx current_chain f1 = (Inr (active_chain f m), f2)
     \<and> liftx (lookup_dirent p name) f2 = (Inr (dirent_at m (active_chain f m) p name), f3) \<and> fsv D f3 m n \<and> same f f3"
proof -
  obtain f1 where f1: "fsv D f1 m n" "same f f1" "liftx current_snap f = (Inr (active f m), f1)"
    using liftx_reads [OF current_snap_reads [OF assms(1)]] by blast
  obtain f2 where f2: "fsv D f2 m n" "same f1 f2" "liftx current_chain f1 = (Inr (active_chain f m), f2)"
    using liftx_reads [OF current_chain_reads [OF f1(1)]] by (auto simp: active_same [OF f1(2)])
  obtain f3 where f3: "fsv D f3 m n" "same f2 f3" "liftx (lookup_dirent p name) f2 = (Inr (dirent_at m (active_chain f m) p name), f3)"
    using liftx_reads [OF lookup_dirent_reads [OF f2(1) assms(2)]] by (auto simp: active_same [OF f1(2)] active_same [OF f2(2)])
  have "same f f3" using f1(2) f2(2) f3(2) same_trans by blast
  then show ?thesis using f1(3) f2(3) f3(1,3) by blast
qed

text \<open>C16. \<open>rename\<close> on every branch: a missing source is \<open>NotFound\<close>, an existing destination is \<open>AlreadyExists\<close>, and both
  leave the stored map as it was; otherwise the entry is gone under the old name and there under the new
  one, no other key changes, and no chain without the active snapshot sees any difference.\<close>

theorem rename_moves_entry:
  assumes "fsv D f m (Suc (Suc n))" "length name \<le> 19" "length name' \<le> 19"
  shows "\<exists>r f' m'. rename p name p' name' f = (r, f') \<and>
    (case dirent_at m (active_chain f m) p name of
       None \<Rightarrow> r = Inl (Err NotFound) \<and> fsv D f' m (Suc (Suc n))
     | Some d \<Rightarrow>
         if dirent_at m (active_chain f m) p' name' \<noteq> None then r = Inl (Err AlreadyExists) \<and> fsv D f' m (Suc (Suc n))
         else r = Inr () \<and> fsv D f' m' n \<and> active_chain f' m' = active_chain f m
           \<and> dirent_at m' (active_chain f' m') p name = None \<and> dirent_at m' (active_chain f' m') p' name' = Some d
           \<and> (\<forall>l chain. l \<notin> {dkey p name, dkey p' name'} \<or> active f m \<notin> set chain \<longrightarrow> visible m' l chain = visible m l chain))"
proof -
  let ?c = "active_chain f m" and ?s = "active f m"
  obtain f1 f2 g where g: "fsv D g m (Suc (Suc n))" "same f g" and run: "liftx current_snap f = (Inr ?s, f1)"
    "liftx current_chain f1 = (Inr ?c, f2)" "liftx (lookup_dirent p name) f2 = (Inr (dirent_at m ?c p name), g)"
    using dir_prefix [OF assms(1,2)] by blast
  show ?thesis
  proof (cases "dirent_at m ?c p name")
    case None
    then show ?thesis using g(1) run by (auto simp: rename_def bindM_Inr)
  next
    case (Some d)
    obtain h where h: "fsv D h m (Suc (Suc n))" "same g h" "liftx (lookup_dirent p' name') g = (Inr (dirent_at m ?c p' name'), h)"
      using liftx_reads [OF lookup_dirent_reads [OF g(1) assms(3)]] by (auto simp: active_same [OF g(2)])
    show ?thesis
    proof (cases "dirent_at m ?c p' name'")
      case (Some d')
      then show ?thesis using run h(1,3) \<open>dirent_at m ?c p name = Some d\<close> by (auto simp: rename_def bindM_Inr)
    next
      case None
      let ?xs = "[KPut (dkey p' name') ?s Live (dirent_bytes d), KDel (dkey p name) ?s ?c]"
      define m' where "m' = fold apply_op ?xs m"
      have wf: "wf_dirent d" using dirent_visible [OF \<open>dirent_at m ?c p name = Some d\<close>] by simp
      have len: "length (dirent_bytes d) = 16" using dirent_codec.length_enc [OF wf] .
      have ch: "active_chain h m = ?c" using active_same [OF g(2)] active_same [OF h(2)] by simp
      have ok: "\<forall>x \<in> set ?xs. op_ok x \<and> typed_op x \<and> file_key (op_key x)" using assms(2,3) len by (simp add: sorted_chain)
      have "fsv D h m (length ?xs + n)" using h(1) by simp
      from file_transaction [OF this ok] obtain f' where f':
        "liftx (on_btree (transaction (forM ?xs (exec_op tx_insert_with_kind tx_delete_at)))) h = (Inr (), f')"
        "fsv D f' m' n" "active_chain f' m' = ?c" unfolding ch m'_def by blast
      have tx: "bindM (tx_insert (dkey p' name') ?s (dirent_bytes d)) (\<lambda>_. bindM (tx_delete_at (dkey p name) ?s ?c) (\<lambda>_. ret ())) =
          forM ?xs (exec_op tx_insert_with_kind tx_delete_at)" by (simp only: script_forms)
      have ren: "rename p name p' name' f = (Inr (), f')"
        using run h(3) \<open>dirent_at m ?c p name = Some d\<close> None f'(1) [folded tx] assms(2,3) by (simp add: rename_def bindM_Inr dirent_key_ok)
      obtain ss where ss: "?c = ?s # ss" using hd_chain by blast
      have new: "dirent_at m' ?c p name = None" "dirent_at m' ?c p' name' = Some d"
        unfolding m'_def ss using rename_script [OF wf, where m = m and s = ?s and ss = ss] Some None unfolding ss by blast+
      have other: "visible m' l chain = visible m l chain" if "l \<notin> {dkey p name, dkey p' name'} \<or> ?s \<notin> set chain" for l chain
        unfolding m'_def using that by (intro script_other) auto
      show ?thesis
        using \<open>dirent_at m ?c p name = Some d\<close> None
        by (intro exI [of _ "Inr ()"] exI [of _ f'] exI [of _ m']) (simp add: ren f'(2,3) new other)
    qed
  qed
qed

theorem rename_moves_entry_witness:
  "\<exists>f f1 f2 f3 f4. fs_new (\<lambda>_. 7) = Inr f
     \<and> put_inode 5 \<lparr>i_mode = 1, i_uid = 2, i_gid = 3, i_nlink = 1, i_size = 9, i_atime = 0, i_mtime = 0, i_ctime = 0, i_parent_ino = 1\<rparr> f = (Inr (), f1)
     \<and> put_dirent 1 [97] (dirent_new 5 FILE_KIND_REGULAR) f1 = (Inr (), f2)
     \<and> rename 1 [97] 1 [98] f2 = (Inr (), f3) \<and> lookup_dirent 1 [98] f3 = (Inr (Some (dirent_new 5 FILE_KIND_REGULAR)), f4)"
proof -
  let ?i = "\<lparr>i_mode = 1, i_uid = 2, i_gid = 3, i_nlink = 1, i_size = 9, i_atime = 0, i_mtime = 0, i_ctime = 0, i_parent_ino = 1\<rparr>"
  let ?d = "dirent_new 5 FILE_KIND_REGULAR"
  have "wf_dirent ?d" by (simp add: wf_dirent_def dirent_new_def)
  then obtain f f1 f2 m where f: "fs_new (\<lambda>_. 7) = Inr f" "put_inode 5 ?i f = (Inr (), f1)" "put_dirent 1 [97] ?d f1 = (Inr (), f2)"
    "fsv Map.empty f2 m (Suc (Suc 0))" "active_chain f2 m = [ROOT_SNAP]"
    "\<forall>q nm. dirent_at m [ROOT_SNAP] q nm = (if q = 1 \<and> nm = [97] then Some ?d else None)"
    using sample_entry [of "Suc (Suc 0)" ?d "[97]" "\<lambda>_. 7" 5 ?i 1] by auto
  have "dirent_at m [ROOT_SNAP] 1 [97] = Some ?d" "dirent_at m [ROOT_SNAP] 1 [98] = None" using f(6) by simp_all
  with rename_moves_entry [OF f(4), of "[97]" "[98]" 1 1]
  obtain f3 m' where r: "rename 1 [97] 1 [98] f2 = (Inr (), f3)" "fsv Map.empty f3 m' 0" "dirent_at m' (active_chain f3 m') 1 [98] = Some ?d"
    by (auto simp: f(5))
  have "\<exists>f4. lookup_dirent 1 [98] f3 = (Inr (Some ?d), f4)" using reads_result [OF lookup_dirent_reads [OF r(2), of "[98]" 1]] r(3) by auto
  then show ?thesis using f(1-3) r(1) by blast
qed

section \<open>Unlink\<close>

lemma key_kinds_ne [simp]:
  "dkey p name \<noteq> inode_key a" "inode_key a \<noteq> dkey p name" "dkey p name \<noteq> deleted_inode_key a s" "deleted_inode_key a s \<noteq> dkey p name"
  "inode_key b \<noteq> deleted_inode_key a s" "deleted_inode_key a s \<noteq> inode_key b"
  by (simp_all add: inode_key_def deleted_inode_key_def kind_defs)

definition unlink_ops :: "u64 \<Rightarrow> bytes \<Rightarrow> u64 \<Rightarrow> inode_v1 \<Rightarrow> snap_id \<Rightarrow> snap_id list \<Rightarrow> kvop list" where
  "unlink_ops p name ino i s c = KDel (dkey p name) s c #
     (if i_nlink i \<le> 1 then [KDel (inode_key ino) s c, KPut (deleted_inode_key ino s) ROOT_SNAP Live (deleted_bytes deleted_new)]
      else [KPut (inode_key ino) s Live (inode_bytes (i\<lparr>i_nlink := i_nlink i - 1\<rparr>))])"

lemma unlink_script:
  assumes m'_def: "m' = fold apply_op (unlink_ops p name ino i s (s # ss)) m"
  shows "dirent_at m' (s # ss) p name = None"
    "i_nlink i \<le> 1 \<Longrightarrow> inode_at m' (s # ss) ino = None \<and> lookup_as deleted_of_bytes m' (deleted_inode_key ino s) [ROOT_SNAP] = Some deleted_new"
    "\<not> i_nlink i \<le> 1 \<Longrightarrow> inode_at m' (s # ss) ino = Some (i\<lparr>i_nlink := i_nlink i - 1\<rparr>)"
proof -
  let ?m1 = "delete_map (dkey p name) s (s # ss) m"
  have wf: "wf_deleted deleted_new" by (simp add: wf_deleted_def deleted_new_def)
  have d: "visible m' (dkey p name) (s # ss) = visible ?m1 (dkey p name) (s # ss)"
    by (simp add: m'_def unlink_ops_def visible_delete_other del: visible.simps)
  show "dirent_at m' (s # ss) p name = None" by (simp add: lookup_as_def d visible_delete_head del: visible.simps)
  show "i_nlink i \<le> 1 \<Longrightarrow> inode_at m' (s # ss) ino = None \<and> lookup_as deleted_of_bytes m' (deleted_inode_key ino s) [ROOT_SNAP] = Some deleted_new"
    using lookup_as_put [where dv = deleted_of_bytes, OF deleted_codec.dec_stored [OF wf], of "deleted_inode_key ino s" ROOT_SNAP _ "[]"]
    by (simp add: m'_def unlink_ops_def lookup_as_def visible_delete_head del: visible.simps)
  show "\<not> i_nlink i \<le> 1 \<Longrightarrow> inode_at m' (s # ss) ino = Some (i\<lparr>i_nlink := i_nlink i - 1\<rparr>)"
    using lookup_as_put [where dv = inode_of_bytes, OF inode_codec.dec_stored [OF TrueI], where l = "inode_key ino" and snap = s and ss = ss]
    by (simp add: m'_def unlink_ops_def)
qed

text \<open>C17. \<open>unlink\<close> on every branch: without the entry or its inode it returns \<open>NotFound\<close> and leaves the stored map as it
  was; otherwise the entry is gone, the last link removes the inode and records the deferred work for its
  extents, an earlier link only decreases the count, and nothing else changes.\<close>

theorem unlink_removes_entry:
  assumes "fsv D f m (n + 3)" "length name \<le> 19"
  shows "\<exists>r f' m'. unlink p name f = (r, f') \<and>
    (case dirent_at m (active_chain f m) p name of
       None \<Rightarrow> r = Inl (Err NotFound) \<and> fsv D f' m (n + 3)
     | Some d \<Rightarrow> (case inode_at m (active_chain f m) (d_target_ino d) of
         None \<Rightarrow> r = Inl (Err NotFound) \<and> fsv D f' m (n + 3)
       | Some i \<Rightarrow> r = Inr () \<and> fsv D f' m' n \<and> active_chain f' m' = active_chain f m
           \<and> dirent_at m' (active_chain f' m') p name = None
           \<and> (if i_nlink i \<le> 1
              then inode_at m' (active_chain f' m') (d_target_ino d) = None
                \<and> lookup_as deleted_of_bytes m' (deleted_inode_key (d_target_ino d) (active f m)) [ROOT_SNAP] = Some deleted_new
              else inode_at m' (active_chain f' m') (d_target_ino d) = Some (i\<lparr>i_nlink := i_nlink i - 1\<rparr>))
           \<and> (\<forall>l chain. l \<notin> {dkey p name, inode_key (d_target_ino d), deleted_inode_key (d_target_ino d) (active f m)}
                \<longrightarrow> visible m' l chain = visible m l chain)))"
proof -
  let ?c = "active_chain f m" and ?s = "active f m"
  obtain f1 f2 g where g: "fsv D g m (n + 3)" "same f g" and run: "liftx current_snap f = (Inr ?s, f1)"
    "liftx current_chain f1 = (Inr ?c, f2)" "liftx (lookup_dirent p name) f2 = (Inr (dirent_at m ?c p name), g)"
    using dir_prefix [OF assms] by blast
  show ?thesis
  proof (cases "dirent_at m ?c p name")
    case None
    then show ?thesis using g(1) run by (auto simp: unlink_def bindM_Inr)
  next
    case d: (Some d)
    let ?ino = "d_target_ino d"
    obtain h where h: "fsv D h m (n + 3)" "same g h" "liftx (get_inode ?ino) g = (Inr (inode_at m ?c ?ino), h)"
      using liftx_reads [OF get_inode_reads [OF g(1)]] by (auto simp: active_same [OF g(2)])
    show ?thesis
    proof (cases "inode_at m ?c ?ino")
      case None
      then show ?thesis using run h(1,3) d by (auto simp: unlink_def bindM_Inr)
    next
      case i: (Some i)
      let ?xs = "unlink_ops p name ?ino i ?s ?c"
      define m' where "m' = fold apply_op ?xs m"
      have ch: "active_chain h m = ?c" using active_same [OF g(2)] active_same [OF h(2)] by simp
      have len: "length (inode_bytes x) = 56" "length (deleted_bytes deleted_new) = 16" for x
        using inode_codec.length_enc [of x] by (simp_all add: deleted_bytes_def deleted_new_def)
      have ok: "\<forall>x \<in> set ?xs. op_ok x \<and> typed_op x \<and> file_key (op_key x)"
        using assms(2) len by (simp add: unlink_ops_def sorted_chain)
      have "fsv D h m (length ?xs + n)" using h(1) by (rule fsv_le) (simp add: unlink_ops_def)
      from file_transaction [OF this ok] obtain f' where f':
        "liftx (on_btree (transaction (forM ?xs (exec_op tx_insert_with_kind tx_delete_at)))) h = (Inr (), f')"
        "fsv D f' m' n" "active_chain f' m' = ?c" unfolding ch m'_def by blast
      have tx: "forM ?xs (exec_op tx_insert_with_kind tx_delete_at) = bindM (tx_delete_at (dkey p name) ?s ?c) (\<lambda>_.
          if i_nlink i \<le> 1 then bindM (tx_delete_at (inode_key ?ino) ?s ?c) (\<lambda>_.
            tx_insert (deleted_inode_key ?ino ?s) ROOT_SNAP (deleted_bytes deleted_new))
          else tx_insert (inode_key ?ino) ?s (inode_bytes (i\<lparr>i_nlink := i_nlink i - 1\<rparr>)))"
        by (cases "i_nlink i \<le> 1") (simp_all only: unlink_ops_def script_forms bindM_unit if_True if_False not_False_eq_True)
      have un: "unlink p name f = (Inr (), f')" using run h(3) d i f'(1) [unfolded tx] assms(2) by (simp add: unlink_def bindM_Inr dirent_key_ok)
      obtain ss where ss: "?c = ?s # ss" using hd_chain by blast
      note new = unlink_script [OF m'_def [unfolded ss], folded ss]
      have other: "visible m' l chain = visible m l chain" if "l \<notin> {dkey p name, inode_key ?ino, deleted_inode_key ?ino ?s}" for l chain
        unfolding m'_def using that by (intro script_other) (auto simp: unlink_ops_def)
      show ?thesis using d i new by (intro exI [of _ "Inr ()"] exI [of _ f'] exI [of _ m']) (simp add: un f'(2,3) other)
    qed
  qed
qed

theorem unlink_removes_entry_witness:
  "\<exists>f f1 f2 f3 f4. fs_new (\<lambda>_. 7) = Inr f
     \<and> put_inode 5 \<lparr>i_mode = 1, i_uid = 2, i_gid = 3, i_nlink = 1, i_size = 9, i_atime = 0, i_mtime = 0, i_ctime = 0, i_parent_ino = 1\<rparr> f = (Inr (), f1)
     \<and> put_dirent 1 [97] (dirent_new 5 FILE_KIND_REGULAR) f1 = (Inr (), f2)
     \<and> unlink 1 [97] f2 = (Inr (), f3) \<and> get_inode 5 f3 = (Inr None, f4)"
proof -
  let ?i = "\<lparr>i_mode = 1, i_uid = 2, i_gid = 3, i_nlink = 1, i_size = 9, i_atime = 0, i_mtime = 0, i_ctime = 0, i_parent_ino = 1\<rparr>"
  let ?d = "dirent_new 5 FILE_KIND_REGULAR"
  have "wf_dirent ?d" by (simp add: wf_dirent_def dirent_new_def)
  then obtain f f1 f2 m where f: "fs_new (\<lambda>_. 7) = Inr f" "put_inode 5 ?i f = (Inr (), f1)" "put_dirent 1 [97] ?d f1 = (Inr (), f2)"
    "fsv Map.empty f2 m (0 + 3)" "active_chain f2 m = [ROOT_SNAP]" "dirent_at m [ROOT_SNAP] 1 [97] = Some ?d"
    "inode_at m [ROOT_SNAP] 5 = Some ?i"
    using sample_entry [of "0 + 3" ?d "[97]" "\<lambda>_. 7" 5 ?i 1] by auto
  with unlink_removes_entry [OF f(4), of "[97]" 1]
  obtain f3 m' where r: "unlink 1 [97] f2 = (Inr (), f3)" "fsv Map.empty f3 m' 0" "inode_at m' (active_chain f3 m') 5 = None"
    by (auto simp: dirent_new_def)
  have "\<exists>f4. get_inode 5 f3 = (Inr None, f4)" using reads_result [OF get_inode_reads [OF r(2), of 5]] r(3) by auto
  then show ?thesis using f(1-3) r(1) by blast
qed

section \<open>Listing and removing directories\<close>

text \<open>C19. \<open>list_dirents\<close> returns exactly the entries of the directory that the active chain sees, each name once;
  the largest inode number, whose window is empty, lists nothing.\<close>

theorem list_dirents_exact:
  assumes "fsv D f m n" "plain_names m"
  shows "\<exists>xs f'. list_dirents p f = (Inr xs, f') \<and> fsv D f' m n \<and> distinct (map fst xs)
     \<and> (\<forall>name d. (name, d) \<in> set xs \<longleftrightarrow> p \<noteq> - 1 \<and> dirent_at m (active_chain f m) p name = Some d)"
proof -
  obtain xs where xs: "reads (list_dirents p) D f m n xs" "distinct (map fst xs)"
    "\<forall>name d. (name, d) \<in> set xs \<longleftrightarrow> p \<noteq> - 1 \<and> dirent_at m (active_chain f m) p name = Some d"
    using list_dirents_reads [OF assms] by blast
  from reads_result [OF xs(1)] obtain f' where "list_dirents p f = (Inr xs, f')" "fsv D f' m n" by blast
  then show ?thesis using xs(2,3) by blast
qed

lemma no_pairs: "(\<forall>a b. (a, b) \<notin> set xs) \<longleftrightarrow> xs = []"
  by (cases xs) auto

lemma plain_seed: "plain_names seed_map"
  by (auto simp: plain_names_def seed_map_def put_map_def subvol_key_def snapshot_key_def kind_defs)

theorem list_dirents_exact_witness:
  "\<exists>f f'. fs_new (\<lambda>_. 7) = Inr f \<and> list_dirents 1 f = (Inr [], f')"
proof -
  obtain f where f: "fs_new (\<lambda>_. 7) = Inr f" "fsv Map.empty f seed_map 0" "active f seed_map = ROOT_SNAP" using fs_new_ok [of 0] by auto
  have "dirent_at seed_map [ROOT_SNAP] 1 name = None" for name
    by (simp add: lookup_as_def seed_map_def put_map_def subvol_key_def snapshot_key_def kind_defs)
  then show ?thesis using list_dirents_exact [OF f(2) plain_seed, of 1] f(1,3) by (auto simp: seed_chain no_pairs)
qed

text \<open>C18. \<open>rmdir\<close> on every branch: a missing entry is \<open>NotFound\<close>, an entry of another kind \<open>NotADirectory\<close>, a directory
  with a visible entry \<open>NotEmpty\<close>, each leaving the stored map as it was; otherwise entry and inode are
  gone and nothing else changes.\<close>

theorem rmdir_removes_directory:
  assumes "fsv D f m (Suc (Suc n))" "length name \<le> 19" "plain_names m"
  shows "\<exists>r f' m'. rmdir p name f = (r, f') \<and>
    (case dirent_at m (active_chain f m) p name of
       None \<Rightarrow> r = Inl (Err NotFound) \<and> fsv D f' m (Suc (Suc n))
     | Some d \<Rightarrow>
         if d_kind d \<noteq> FILE_KIND_DIR then r = Inl (Err NotADirectory) \<and> fsv D f' m (Suc (Suc n))
         else if d_target_ino d \<noteq> - 1 \<and> (\<exists>nm. dirent_at m (active_chain f m) (d_target_ino d) nm \<noteq> None)
         then r = Inl (Err NotEmpty) \<and> fsv D f' m (Suc (Suc n))
         else r = Inr () \<and> fsv D f' m' n \<and> active_chain f' m' = active_chain f m
           \<and> dirent_at m' (active_chain f' m') p name = None \<and> inode_at m' (active_chain f' m') (d_target_ino d) = None
           \<and> (\<forall>l chain. l \<notin> {dkey p name, inode_key (d_target_ino d)} \<or> active f m \<notin> set chain \<longrightarrow> visible m' l chain = visible m l chain))"
proof -
  let ?c = "active_chain f m" and ?s = "active f m"
  obtain f1 f2 g where g: "fsv D g m (Suc (Suc n))" "same f g" and run: "liftx current_snap f = (Inr ?s, f1)"
    "liftx current_chain f1 = (Inr ?c, f2)" "liftx (lookup_dirent p name) f2 = (Inr (dirent_at m ?c p name), g)"
    using dir_prefix [OF assms(1,2)] by blast
  show ?thesis
  proof (cases "dirent_at m ?c p name")
    case None
    then show ?thesis using g(1) run by (auto simp: rmdir_def bindM_Inr)
  next
    case d: (Some d)
    let ?ino = "d_target_ino d"
    obtain es where re: "reads (list_dirents ?ino) D g m (Suc (Suc n)) es" and
      mem: "\<forall>nm e. (nm, e) \<in> set es \<longleftrightarrow> ?ino \<noteq> - 1 \<and> dirent_at m ?c ?ino nm = Some e"
      using list_dirents_reads [OF g(1) assms(3), of ?ino] by (auto simp: active_same [OF g(2)])
    have es: "es \<noteq> [] \<longleftrightarrow> ?ino \<noteq> - 1 \<and> (\<exists>nm. dirent_at m ?c ?ino nm \<noteq> None)"
      unfolding no_pairs [symmetric] using mem by auto
    obtain h where h: "fsv D h m (Suc (Suc n))" "same g h" "liftx (list_dirents ?ino) g = (Inr es, h)"
      using liftx_reads [OF re] by blast
    consider "d_kind d \<noteq> FILE_KIND_DIR" | "d_kind d = FILE_KIND_DIR" "es \<noteq> []" | "d_kind d = FILE_KIND_DIR" "es = []" by blast
    then show ?thesis
    proof cases
      case 1
      then show ?thesis using d g(1) run by (auto simp: rmdir_def bindM_Inr)
    next
      case 2
      then have "rmdir p name f = (Inl (Err NotEmpty), h)" using d run h(3) by (simp add: rmdir_def bindM_Inr)
      then show ?thesis using d h(1) 2(1) es [THEN iffD1, OF 2(2)] by auto
    next
      case 3
      let ?xs = "[KDel (dkey p name) ?s ?c, KDel (inode_key ?ino) ?s ?c]"
      define m' where "m' = fold apply_op ?xs m"
      have ch: "active_chain h m = ?c" using active_same [OF g(2)] active_same [OF h(2)] by simp
      have ok: "\<forall>x \<in> set ?xs. op_ok x \<and> typed_op x \<and> file_key (op_key x)" using assms(2) by (simp add: sorted_chain)
      have "fsv D h m (length ?xs + n)" using h(1) by simp
      from file_transaction [OF this ok] obtain f' where f':
        "liftx (on_btree (transaction (forM ?xs (exec_op tx_insert_with_kind tx_delete_at)))) h = (Inr (), f')"
        "fsv D f' m' n" "active_chain f' m' = ?c" unfolding ch m'_def by blast
      have tx: "bindM (tx_delete_at (dkey p name) ?s ?c) (\<lambda>_. bindM (tx_delete_at (inode_key ?ino) ?s ?c) (\<lambda>_. ret ())) =
          forM ?xs (exec_op tx_insert_with_kind tx_delete_at)" by (simp only: script_forms)
      have rm: "rmdir p name f = (Inr (), f')"
        using run h(3) d 3 f'(1) [folded tx] assms(2) by (simp add: rmdir_def bindM_Inr dirent_key_ok)
      obtain ss where ss: "?c = ?s # ss" using hd_chain by blast
      have "dirent_at m' ?c p name = None" "inode_at m' ?c ?ino = None"
        unfolding m'_def ss by (simp_all add: lookup_as_def visible_delete_other visible_delete_head del: visible.simps)
      moreover have "visible m' l chain = visible m l chain" if "l \<notin> {dkey p name, inode_key ?ino} \<or> ?s \<notin> set chain" for l chain
        unfolding m'_def using that by (intro script_other) auto
      ultimately show ?thesis using d 3 es
        by (intro exI [of _ "Inr ()"] exI [of _ f'] exI [of _ m']) (simp add: rm f'(2,3))
    qed
  qed
qed

theorem rmdir_removes_directory_witness:
  "\<exists>f f' m'. fs_new (\<lambda>_. 7) = Inr f \<and> rmdir 1 [97] f = (Inl (Err NotFound), f') \<and> fsv Map.empty f' m' 0"
proof -
  obtain f where f: "fs_new (\<lambda>_. 7) = Inr f" "fsv Map.empty f seed_map 2" "active f seed_map = ROOT_SNAP"
    using fs_new_ok [of 2] by auto
  have "dirent_at seed_map [ROOT_SNAP] 1 [97] = None"
    by (simp add: lookup_as_def seed_map_def put_map_def subvol_key_def snapshot_key_def kind_defs)
  then obtain f' where r: "rmdir 1 [97] f = (Inl (Err NotFound), f')" "fsv Map.empty f' seed_map (Suc (Suc 0))"
    using rmdir_removes_directory [OF f(2) [unfolded numeral_2_eq_2], of "[97]" 1] plain_seed f(3) by (auto simp: seed_chain)
  then show ?thesis using f(1) fsv_le [OF r(2), of 0] by auto
qed

end
