(* ===== verification/Fs_Snap.thy ===== *)
theory Fs_Snap
  imports Fs_Dirs
begin

text \<open>
  Snapshots.  Taking a snapshot of a subvolume gives two children of its snapshot: the subvolume goes on
  at one of them and the new read-only subvolume is the other.  The invariant \<open>ids_fresh\<close> says that the
  two counters are ahead of every id in use; under it the two views equal the old one and later writes
  to one of them cannot be seen from the other.
\<close>

section \<open>Ids in use\<close>

definition ids_fresh :: "fs \<Rightarrow> kvmap \<Rightarrow> bool" where
  "ids_fresh f m = (next_snap_id f < ROOT_SNAP \<and> (\<forall>k \<in> dom m. next_snap_id f < snap_of k)
     \<and> (\<forall>s. snap_meta m s \<noteq> None \<longrightarrow> next_snap_id f < s)
     \<and> (\<forall>i v. subvol_meta m i = Some v \<longrightarrow> next_snap_id f < v_snap_id v \<and> i < next_subvol_id f))"

lemma meta_put_snapshot:
  assumes "wf_snapshot x"
  shows "snap_meta (put_map (snapshot_key a) ROOT_SNAP Live (snapshot_bytes x) m) s = (if s = a then Some x else snap_meta m s)"
    "subvol_meta (put_map (snapshot_key a) ROOT_SNAP Live (snapshot_bytes x) m) i = subvol_meta m i"
  using snapshot_codec.dec_stored [OF assms] subvol_ne_snapshot [of i a]
  by (simp_all add: snap_meta_def subvol_meta_def put_map_def)

lemma meta_put_subvol:
  assumes "wf_subvol x"
  shows "subvol_meta (put_map (subvol_key a) ROOT_SNAP Live (subvol_bytes x) m) i = (if i = a then Some x else subvol_meta m i)"
    "snap_meta (put_map (subvol_key a) ROOT_SNAP Live (subvol_bytes x) m) s = snap_meta m s"
  using subvol_codec.dec_stored [OF assms] subvol_ne_snapshot [of a s]
  by (auto simp: snap_meta_def subvol_meta_def put_map_def)

lemma chain_cong_ge: "(\<And>x. s \<le> x \<Longrightarrow> snap_meta m' x = snap_meta m x) \<Longrightarrow> chain_of m' s = chain_of m s"
proof (induction m s rule: chain_of.induct)
  case (1 m s)
  have p: "parent m' s = parent m s" using 1(2) [of s] by (simp add: parent_def)
  show ?case
  proof (cases "parent m s")
    case (Some q)
    then have "chain_of m' q = chain_of m q" using 1(1) [OF Some] 1(2) parent_greater [OF Some] by (meson order.trans less_imp_le)
    then show ?thesis using p Some by (simp add: chain_of.simps [of _ s])
  qed (use p in \<open>simp add: chain_of.simps\<close>)
qed

lemma visible_unborn: "l @ u32_be s \<notin> dom m \<Longrightarrow> visible m l (s # ss) = visible m l ss"
  by (cases "m (l @ u32_be s)") auto

lemma unborn: "ids_fresh f m \<Longrightarrow> s \<le> next_snap_id f \<Longrightarrow> l @ u32_be s \<notin> dom m"
  by (auto simp: ids_fresh_def) (metis sortable_parts(2) domI leD)

section \<open>Taking a snapshot\<close>

definition snapshot_ops :: "subvol_id \<Rightarrow> subvol_v1 \<Rightarrow> snap_id \<Rightarrow> subvol_id \<Rightarrow> kvop list" where
  "snapshot_ops src sv s_w new =
     [KPut (snapshot_key s_w) ROOT_SNAP Live (snapshot_bytes \<lparr>s_parent_id = v_snap_id sv, s_flags = 0, s_reserved = replicate 16 0\<rparr>),
      KPut (snapshot_key (s_w - 1)) ROOT_SNAP Live (snapshot_bytes \<lparr>s_parent_id = v_snap_id sv, s_flags = 1, s_reserved = replicate 16 0\<rparr>),
      KPut (subvol_key src) ROOT_SNAP Live (subvol_bytes (sv\<lparr>v_snap_id := s_w\<rparr>)),
      KPut (subvol_key new) ROOT_SNAP Live (subvol_bytes \<lparr>v_snap_id = s_w - 1, v_flags = SUBVOL_FLAG_READONLY, v_root_inode = v_root_inode sv,
                                           v_parent_subvol = src, v_reserved = replicate 12 0\<rparr>)]"

lemma snapshot_script_meta:
  assumes "wf_subvol sv"
  shows "snap_meta (fold apply_op (snapshot_ops src sv s_w new) m) s =
      (if s = s_w - 1 then Some \<lparr>s_parent_id = v_snap_id sv, s_flags = 1, s_reserved = replicate 16 0\<rparr>
       else if s = s_w then Some \<lparr>s_parent_id = v_snap_id sv, s_flags = 0, s_reserved = replicate 16 0\<rparr> else snap_meta m s)"
    "subvol_meta (fold apply_op (snapshot_ops src sv s_w new) m) i =
      (if i = new then Some \<lparr>v_snap_id = s_w - 1, v_flags = SUBVOL_FLAG_READONLY, v_root_inode = v_root_inode sv,
                              v_parent_subvol = src, v_reserved = replicate 12 0\<rparr>
       else if i = src then Some (sv\<lparr>v_snap_id := s_w\<rparr>) else subvol_meta m i)"
  using assms by (simp_all add: snapshot_ops_def meta_put_snapshot meta_put_subvol wf_snapshot_def wf_subvol_def)

lemma pred_less: "x \<noteq> 0 \<Longrightarrow> x - 1 < (x :: u32)"
  using measure_unat [of x] by (simp add: word_less_nat_alt)

lemma succ_greater: "x \<noteq> - 1 \<Longrightarrow> x < (x + 1 :: u32)"
  using pred_less [of "x + 1"] minus_equation_iff [of x 1] by (auto simp: add_eq_0_iff)

text \<open>The state after a snapshot: ids stay fresh, both new chains extend the old one and read the same.\<close>

lemma snapshot_view:
  assumes fr: "ids_fresh f m" and sv: "subvol_meta m src = Some sv" "wf_subvol sv"
    and ids: "next_snap_id f \<noteq> 0" "next_snap_id f \<noteq> 1" "next_subvol_id f \<noteq> - 1"
    and m': "m' = fold apply_op (snapshot_ops src sv (next_snap_id f) (next_subvol_id f)) m"
    and f': "next_snap_id f' = next_snap_id f - 2" "next_subvol_id f' = next_subvol_id f + 1"
  shows "ids_fresh f' m'"
    "chain_of m' (next_snap_id f) = next_snap_id f # chain_of m (v_snap_id sv)"
    "chain_of m' (next_snap_id f - 1) = (next_snap_id f - 1) # chain_of m (v_snap_id sv)"
    "file_key l \<Longrightarrow> visible m' l (chain_of m' (next_snap_id f)) = visible m l (chain_of m (v_snap_id sv))"
    "file_key l \<Longrightarrow> visible m' l (chain_of m' (next_snap_id f - 1)) = visible m l (chain_of m (v_snap_id sv))"
    "next_snap_id f \<notin> set (chain_of m' (next_snap_id f - 1))"
proof -
  let ?w = "next_snap_id f" and ?p = "v_snap_id sv"
  note meta = snapshot_script_meta [OF sv(2), of src ?w "next_subvol_id f" m, folded m']
  have p: "?w < ?p" using fr sv(1) by (simp add: ids_fresh_def)
  have w: "?w - 1 < ?w" "?w - 2 < ?w - 1" "?w < ROOT_SNAP" using pred_less [OF ids(1)] pred_less [of "?w - 1"] ids(2) fr
    by (auto simp: ids_fresh_def algebra_simps)
  have np: "\<not> ?p \<le> ?w" "\<not> ?p \<le> ?w - 1" using p w(1) by auto
  have p0: "?p \<noteq> NO_PARENT_SNAP" using p by (auto simp: NO_PARENT_SNAP_def)
  have old: "chain_of m' ?p = chain_of m ?p" using p w by (intro chain_cong_ge) (auto simp: meta)
  show cw: "chain_of m' ?w = ?w # chain_of m ?p" using p p0 w old by (subst chain_of.simps) (simp add: parent_def meta np)
  show cr: "chain_of m' (?w - 1) = (?w - 1) # chain_of m ?p" using p p0 w old by (subst chain_of.simps) (simp add: parent_def meta np)
  have vis: "visible m' l c = visible m l c" if "file_key l" for l c
    unfolding m' using meta_keys_ne [OF that] by (intro script_other) (auto simp: snapshot_ops_def)
  show "file_key l \<Longrightarrow> visible m' l (chain_of m' ?w) = visible m l (chain_of m ?p)"
    unfolding cw by (simp add: vis visible_unborn unborn [OF fr] del: visible.simps)
  show "file_key l \<Longrightarrow> visible m' l (chain_of m' (?w - 1)) = visible m l (chain_of m ?p)"
    unfolding cr using w(1) by (simp add: vis visible_unborn unborn [OF fr] del: visible.simps)
  show "?w \<notin> set (chain_of m' (?w - 1))" unfolding cr using w(1) p chain_ge [of ?w m ?p] by auto
  show "ids_fresh f' m'"
    unfolding ids_fresh_def f'
  proof (intro conjI allI impI ballI)
    show "?w - 2 < ROOT_SNAP" using w by auto
    have le: "?w - 2 < s" if "?w < s" for s using that w by auto
    show "?w - 2 < s" if "snap_meta m' s \<noteq> None" for s
      using that fr w le [of s] unfolding meta by (auto simp: ids_fresh_def split: if_splits)
    have su: "i < next_subvol_id f + 1" if "i < next_subvol_id f \<or> i = next_subvol_id f" for i
      using that succ_greater [OF ids(3)] by auto
    show "?w - 2 < v_snap_id v" if "subvol_meta m' i = Some v" for i v
      using that fr w le [of "v_snap_id v"] unfolding meta by (auto simp: ids_fresh_def split: if_splits)
    show "i < next_subvol_id f + 1" if "subvol_meta m' i = Some v" for i v
      using that fr sv(1) su [of i] unfolding meta by (auto simp: ids_fresh_def split: if_splits)
    show "?w - 2 < snap_of k" if "k \<in> dom m'" for k
    proof -
      have "snap_of k = ROOT_SNAP \<or> k \<in> dom m" using that by (auto simp: m' snapshot_ops_def put_map_def split: if_splits)
      then show ?thesis using fr le [of "snap_of k"] w(3) by (auto simp: ids_fresh_def intro: le)
    qed
  qed
qed

lemma snapshot_ops_ok:
  assumes "wf_subvol sv"
  shows "\<forall>x \<in> set (snapshot_ops src sv w new). op_ok x" "\<forall>x \<in> set (snapshot_ops src sv w new). typed_op x"
proof -
  have s: "length (snapshot_bytes \<lparr>s_parent_id = p, s_flags = b, s_reserved = replicate 16 0\<rparr>) = 24" for p b
    by (rule snapshot_codec.length_enc) (simp add: wf_snapshot_def)
  have v: "length (subvol_bytes x) = 32" if "wf_subvol x" for x by (rule subvol_codec.length_enc [OF that])
  have w: "wf_subvol (sv\<lparr>v_snap_id := a\<rparr>)" "wf_subvol \<lparr>v_snap_id = a, v_flags = b, v_root_inode = c, v_parent_subvol = d, v_reserved = replicate 12 0\<rparr>" for a b c d
    using assms by (simp_all add: wf_subvol_def)
  show "\<forall>x \<in> set (snapshot_ops src sv w new). op_ok x" by (simp add: snapshot_ops_def)
  show "\<forall>x \<in> set (snapshot_ops src sv w new). typed_op x" by (simp add: snapshot_ops_def s v w)
qed

lemma subvol_wf: "subvol_meta m i = Some sv \<Longrightarrow> wf_subvol sv"
  by (auto simp: subvol_meta_def subvol_codec.dec_iff split: option.splits)

lemma snapshot_runs:
  assumes f: "fsv D f m (n + 4)" and sv: "subvol_meta m src = Some sv"
    and ids: "next_snap_id f \<noteq> 0" "next_snap_id f \<noteq> 1" "next_subvol_id f \<noteq> - 1"
    and m': "m' = fold apply_op (snapshot_ops src sv (next_snap_id f) (next_subvol_id f)) m"
  shows "\<exists>f'. snapshot_subvol src f = (Inr (next_subvol_id f), f') \<and> fsv D f' m' n \<and> current_subvol f' = current_subvol f
     \<and> next_snap_id f' = next_snap_id f - 2 \<and> next_subvol_id f' = next_subvol_id f + 1"
proof -
  let ?xs = "snapshot_ops src sv (next_snap_id f) (next_subvol_id f)"
  note wf = subvol_wf [OF sv]
  obtain g where g: "fsv D g m (n + 4)" "same f g" "liftx (get_subvol src) f = (Inr (Some sv), g)"
    using liftx_reads [OF get_subvol_reads [OF f, of src]] sv by auto
  have gf: "next_snap_id g = next_snap_id f" "next_subvol_id g = next_subvol_id f" "current_subvol g = current_subvol f"
    using g(2) by (auto simp: same_def)
  have "fsv D g m (length ?xs + n)" using g(1) by (rule fsv_le) (simp add: snapshot_ops_def)
  moreover have "subvol_meta m' (current_subvol g) \<noteq> None"
    using f unfolding m' snapshot_script_meta [OF wf] by (simp add: fsv_def gf)
  ultimately obtain h where h: "liftx (on_btree (transaction (forM ?xs (exec_op tx_insert_with_kind tx_delete_at)))) g = (Inr (), h)"
    "fsv D h m' n" "keeps g h"
    using fs_transaction [of D g m ?xs n] snapshot_ops_ok [OF wf] unfolding m' by blast
  define w where "w = next_snap_id f"
  have tx: "forM ?xs (exec_op tx_insert_with_kind tx_delete_at) =
      bindM (tx_insert (snapshot_key w) ROOT_SNAP (snapshot_bytes \<lparr>s_parent_id = v_snap_id sv, s_flags = 0, s_reserved = replicate 16 0\<rparr>)) (\<lambda>_.
      bindM (tx_insert (snapshot_key (w - 1)) ROOT_SNAP (snapshot_bytes \<lparr>s_parent_id = v_snap_id sv, s_flags = 1, s_reserved = replicate 16 0\<rparr>)) (\<lambda>_.
      bindM (tx_insert (subvol_key src) ROOT_SNAP (subvol_bytes (sv\<lparr>v_snap_id := w\<rparr>))) (\<lambda>_.
      tx_insert (subvol_key (next_subvol_id f)) ROOT_SNAP (subvol_bytes \<lparr>v_snap_id = w - 1, v_flags = SUBVOL_FLAG_READONLY,
         v_root_inode = v_root_inode sv, v_parent_subvol = src, v_reserved = replicate 12 0\<rparr>))))"
    by (simp only: snapshot_ops_def script_forms bindM_unit w_def)
  let ?f' = "h\<lparr>next_snap_id := next_snap_id f - 2, next_subvol_id := next_subvol_id f + 1\<rparr>"
  have "snapshot_subvol src f = (Inr (next_subvol_id f), ?f')"
    using ids h(1) [unfolded tx w_def] by (simp add: snapshot_subvol_def bindM_Inr g(3) gf Let_def)
  moreover have "fsv D ?f' m' n" "current_subvol ?f' = current_subvol f"
    using h(2) keeps_fields [OF h(3)] gf by (simp_all add: fsv_def)
  ultimately show ?thesis by (intro exI [of _ ?f']) simp
qed

lemma ids_same: "same f g \<Longrightarrow> ids_fresh g m = ids_fresh f m"
  by (auto simp: same_def ids_fresh_def)

lemma seed_ids: "next_snap_id f = ROOT_SNAP - 1 \<Longrightarrow> next_subvol_id f = ROOT_SUBVOL + 1 \<Longrightarrow> ids_fresh f seed_map"
  by (auto simp: ids_fresh_def seed_meta) (auto simp: seed_map_def put_map_def seed_subvol_def ROOT_SNAP_def ROOT_SUBVOL_def split: if_splits)

section \<open>Properties\<close>

text \<open>C7. \<open>snapshot_subvol\<close> on every branch: an unknown subvolume is \<open>NotFound\<close> and a used-up id space is
  \<open>Exhausted\<close>, with nothing changed; otherwise the new read-only subvolume and the source both see, for
  every file key, exactly what the source saw before, other subvolumes are untouched, and the counters
  stay ahead of all ids in use.\<close>

theorem snapshot_shares_view:
  assumes f: "fsv D f m (n + 4)" and fr: "ids_fresh f m"
  shows "\<exists>r f' m'. snapshot_subvol src f = (r, f') \<and>
    (case subvol_meta m src of
       None \<Rightarrow> r = Inl (Err NotFound) \<and> fsv D f' m (n + 4) \<and> ids_fresh f' m
     | Some sv \<Rightarrow>
         if next_snap_id f = 0 \<or> next_snap_id f = 1 \<or> next_subvol_id f = - 1
         then r = Inl (Err Exhausted) \<and> fsv D f' m (n + 4) \<and> ids_fresh f' m
         else r = Inr (next_subvol_id f) \<and> fsv D f' m' n \<and> ids_fresh f' m' \<and> current_subvol f' = current_subvol f
           \<and> (\<exists>ro w. subvol_meta m' (next_subvol_id f) = Some ro \<and> v_flags ro = SUBVOL_FLAG_READONLY
               \<and> v_root_inode ro = v_root_inode sv \<and> subvol_meta m' src = Some w \<and> v_root_inode w = v_root_inode sv
               \<and> v_snap_id w \<noteq> v_snap_id ro
               \<and> (\<forall>l. file_key l \<longrightarrow> visible m' l (chain_of m' (v_snap_id ro)) = visible m l (chain_of m (v_snap_id sv))
                    \<and> visible m' l (chain_of m' (v_snap_id w)) = visible m l (chain_of m (v_snap_id sv))))
           \<and> (\<forall>i. i \<notin> {src, next_subvol_id f} \<longrightarrow> subvol_meta m' i = subvol_meta m i))"
proof -
  obtain g where g: "fsv D g m (n + 4)" "same f g" "liftx (get_subvol src) f = (Inr (subvol_meta m src), g)"
    using liftx_reads [OF get_subvol_reads [OF f, of src]] by blast
  have gf: "next_snap_id g = next_snap_id f" "next_subvol_id g = next_subvol_id f" using g(2) by (auto simp: same_def)
  have frg: "ids_fresh g m" using fr ids_same [OF g(2)] by simp
  show ?thesis
  proof (cases "subvol_meta m src")
    case None
    then show ?thesis using g(1,3) frg by (auto simp: snapshot_subvol_def bindM_Inr)
  next
    case sv: (Some sv)
    show ?thesis
    proof (cases "next_snap_id f = 0 \<or> next_snap_id f = 1 \<or> next_subvol_id f = - 1")
      case True
      then have "snapshot_subvol src f = (Inl (Err Exhausted), g)"
        by (auto simp: snapshot_subvol_def bindM_Inr g(3) gf sv Let_def)
      then show ?thesis using True sv g(1) frg by auto
    next
      case False
      define m' where "m' = fold apply_op (snapshot_ops src sv (next_snap_id f) (next_subvol_id f)) m"
      have ids: "next_snap_id f \<noteq> 0" "next_snap_id f \<noteq> 1" "next_subvol_id f \<noteq> - 1" using False by auto
      note wf = subvol_wf [OF sv]
      obtain f' where f': "snapshot_subvol src f = (Inr (next_subvol_id f), f')" "fsv D f' m' n" "current_subvol f' = current_subvol f"
        "next_snap_id f' = next_snap_id f - 2" "next_subvol_id f' = next_subvol_id f + 1"
        using snapshot_runs [OF f sv ids m'_def] by blast
      note v = snapshot_view [OF fr sv wf ids m'_def f'(4,5)]
      note meta = snapshot_script_meta(2) [OF wf, of src "next_snap_id f" "next_subvol_id f" m, folded m'_def]
      have src: "src \<noteq> next_subvol_id f" using fr sv by (auto simp: ids_fresh_def)
      show ?thesis
        using sv False src pred_less [OF ids(1)]
        by (intro exI [of _ "Inr (next_subvol_id f)"] exI [of _ f'] exI [of _ m']) (simp add: f'(1-3) v(1,4,5) meta)
    qed
  qed
qed

theorem snapshot_shares_view_witness:
  "\<exists>f f'. fs_new (\<lambda>_. 7) = Inr f \<and> snapshot_subvol ROOT_SUBVOL f = (Inr 2, f') \<and> next_snap_id f' = ROOT_SNAP - 3"
proof -
  obtain f where f: "fs_new (\<lambda>_. 7) = Inr f" "fsv Map.empty f seed_map (0 + 4)" "next_snap_id f = ROOT_SNAP - 1" "next_subvol_id f = ROOT_SUBVOL + 1"
    using fs_new_ok [of "0 + 4" "\<lambda>_. 7"] by auto
  show ?thesis using snapshot_shares_view [OF f(2) seed_ids [OF f(3,4)], of ROOT_SUBVOL] snapshot_runs [OF f(2), of ROOT_SUBVOL seed_subvol]
    f(1,3,4) by (auto simp: seed_meta ROOT_SNAP_def ROOT_SUBVOL_def)
qed

text \<open>C8. A snapshot is frozen: after the active subvolume was snapshotted and any script of file writes was
  committed to it, switching to the snapshot and looking any file key up gives what the subvolume showed
  when the snapshot was taken.\<close>

theorem snapshot_isolated:
  assumes f: "fsv D f m (length xs + n + 4)" and fr: "ids_fresh f m"
    and ids: "next_snap_id f \<noteq> 0" "next_snap_id f \<noteq> 1" "next_subvol_id f \<noteq> - 1"
    and xs: "\<forall>x \<in> set xs. op_ok x \<and> typed_op x \<and> file_key (op_key x) \<and> op_snap x = next_snap_id f" and l: "file_key l"
  shows "\<exists>f1 m1 f2 f3 f4. snapshot_subvol (current_subvol f) f = (Inr (next_subvol_id f), f1)
     \<and> fsv D f1 m1 (length xs + n) \<and> active f1 m1 = next_snap_id f
     \<and> liftx (on_btree (transaction (forM xs (exec_op tx_insert_with_kind tx_delete_at)))) f1 = (Inr (), f2)
     \<and> switch_subvol (next_subvol_id f) f2 = (Inr (), f3)
     \<and> find_at_current l f3 = (Inr (map_option fst (visible m l (active_chain f m))), f4)"
proof -
  let ?c = "current_subvol f" and ?w = "next_snap_id f" and ?new = "next_subvol_id f"
  obtain sv where sv: "subvol_meta m ?c = Some sv" using f by (auto simp: fsv_def)
  define m1 where "m1 = fold apply_op (snapshot_ops ?c sv ?w ?new) m"
  define m2 where "m2 = fold apply_op xs m1"
  note wf = subvol_wf [OF sv]
  have act: "active f m = v_snap_id sv" by (simp add: active_def sv)
  obtain f1 where f1: "snapshot_subvol ?c f = (Inr ?new, f1)" "fsv D f1 m1 (length xs + n)" "current_subvol f1 = ?c"
    "next_snap_id f1 = ?w - 2" "next_subvol_id f1 = ?new + 1"
    using snapshot_runs [OF f sv ids m1_def] by blast
  note v = snapshot_view [OF fr sv wf ids m1_def f1(4,5)]
  note meta = snapshot_script_meta(2) [OF wf, of ?c ?w ?new m, folded m1_def]
  have src: "?c \<noteq> ?new" using fr sv less_irrefl unfolding ids_fresh_def by metis
  have a1: "active f1 m1 = ?w" by (simp add: active_def f1(3) meta src)
  obtain f2 where f2: "liftx (on_btree (transaction (forM xs (exec_op tx_insert_with_kind tx_delete_at)))) f1 = (Inr (), f2)" "fsv D f2 m2 n"
    using file_transaction [OF f1(2)] xs unfolding m2_def by blast
  have me: "meta_eq m1 m2" unfolding m2_def using xs by (intro script_meta) simp
  have sub: "subvol_meta m2 ?new = Some \<lparr>v_snap_id = ?w - 1, v_flags = SUBVOL_FLAG_READONLY, v_root_inode = v_root_inode sv,
      v_parent_subvol = ?c, v_reserved = replicate 12 0\<rparr>"
    using me by (simp add: meta_eq_def meta)
  obtain g where g: "fsv D g m2 n" "same f2 g" "liftx (get_subvol ?new) f2 = (Inr (subvol_meta m2 ?new), g)"
    using liftx_reads [OF get_subvol_reads [OF f2(2)]] by blast
  let ?f3 = "g\<lparr>current_subvol := ?new\<rparr>"
  have sw: "switch_subvol ?new f2 = (Inr (), ?f3)" by (simp add: switch_subvol_def bindM_Inr g(3) sub modify_def)
  have f3: "fsv D ?f3 m2 n" using g(1) by (simp add: fsv_def sub)
  have "active_chain ?f3 m2 = chain_of m1 (?w - 1)" by (simp add: active_def sub meta_eq_chain [OF me])
  moreover have "visible m2 l (chain_of m1 (?w - 1)) = visible m1 l (chain_of m1 (?w - 1))"
    unfolding m2_def using xs v(6) by (intro script_other) auto
  ultimately have "visible m2 l (active_chain ?f3 m2) = visible m l (active_chain f m)" using v(5) [OF l] by (simp add: act)
  moreover have "length l \<le> 28" using l by (simp add: file_key_def)
  ultimately obtain f4 where "find_at_current l ?f3 = (Inr (map_option fst (visible m l (active_chain f m))), f4)"
    using reads_result [OF find_current_reads [OF f3, of l]] by auto
  then show ?thesis using f1(1,2) a1 f2(1) sw by blast
qed

theorem snapshot_isolated_witness:
  "\<exists>f f1 f2 f3 f4. fs_new (\<lambda>_. 7) = Inr f \<and> snapshot_subvol ROOT_SUBVOL f = (Inr 2, f1)
     \<and> liftx (on_btree (transaction (forM [KPut (deleted_inode_key 3 4) (ROOT_SNAP - 1) Live (replicate 16 9)]
         (exec_op tx_insert_with_kind tx_delete_at)))) f1 = (Inr (), f2)
     \<and> switch_subvol 2 f2 = (Inr (), f3) \<and> find_at_current (deleted_inode_key 3 4) f3 = (Inr None, f4)"
proof -
  let ?l = "deleted_inode_key 3 4"
  let ?xs = "[KPut ?l (ROOT_SNAP - 1) Live (replicate 16 9)]"
  obtain f where f: "fs_new (\<lambda>_. 7) = Inr f" "fsv Map.empty f seed_map (length ?xs + 0 + 4)" "next_snap_id f = ROOT_SNAP - 1"
    "next_subvol_id f = ROOT_SUBVOL + 1" "current_subvol f = ROOT_SUBVOL" "active f seed_map = ROOT_SNAP"
    using fs_new_ok [of "length ?xs + 0 + 4" "\<lambda>_. 7"] by auto
  have vis: "visible seed_map ?l [ROOT_SNAP] = None"
    by (simp add: seed_map_def put_map_def deleted_inode_key_def subvol_key_def snapshot_key_def kind_defs)
  have ops: "\<forall>x \<in> set ?xs. op_ok x \<and> typed_op x \<and> file_key (op_key x) \<and> op_snap x = next_snap_id f"
    by (simp add: f(3))
  have ids: "next_snap_id f \<noteq> 0" "next_snap_id f \<noteq> 1" "next_subvol_id f \<noteq> - 1" "next_subvol_id f = 2"
    by (simp_all add: f(3,4) ROOT_SNAP_def ROOT_SUBVOL_def)
  have "file_key ?l" by simp
  from snapshot_isolated [OF f(2) seed_ids [OF f(3,4)] ids(1-3) ops this] show ?thesis
    unfolding f(5,6) ids(4) seed_chain vis using f(1) by auto
qed

end
