(* ===== verification/Fuse.thy ===== *)
theory Fuse
  imports Fs
begin

text \<open>
  The FUSE front end of \<open>fuse.rs\<close>.  A handler runs on the state of \<open>Fs\<close> behind the mutex and answers with
  a reply or an error number, so its type is the state monad with \<open>errno\<close> as error: \<open>reply.error(e)\<close>
  followed by \<open>return\<close> is \<open>raise (Err e)\<close>.  The clock, the ids of the caller and the buffer of a
  directory reply are arguments.  Constants of \<open>libc\<close> have their Linux values.
\<close>

section \<open>Replies\<close>

datatype errno = ENOENT | ENOTDIR | ENOTEMPTY | EEXIST | ENOSPC | EINVAL | EBUSY | EIO | ENAMETOOLONG | EPERM

datatype file_type = Directory | Symlink | RegularFile

definition S_IFMT :: u32 where "S_IFMT = 0xF000"
definition S_IFDIR :: u32 where "S_IFDIR = 0x4000"
definition S_IFREG :: u32 where "S_IFREG = 0x8000"
definition S_IFLNK :: u32 where "S_IFLNK = 0xA000"

definition TTL :: u64 where "TTL = 1"
definition GENERATION :: u64 where "GENERATION = 0"

record file_attr =
  a_ino :: u64
  a_size :: u64
  a_blocks :: u64
  a_atime :: u64
  a_mtime :: u64
  a_ctime :: u64
  a_crtime :: u64
  a_kind :: file_type
  a_perm :: u16
  a_nlink :: u32
  a_uid :: u32
  a_gid :: u32
  a_rdev :: u32
  a_blksize :: u32
  a_flags :: u32

text \<open>A row of a directory reply: inode number, offset of the next row, type and name.\<close>

type_synonym dir_row = "u64 \<times> u64 \<times> file_type \<times> bytes"

datatype reply =
    RepEntry u64 file_attr u64
  | RepAttr u64 file_attr
  | RepCreated u64 file_attr u64 u64 u32
  | RepData bytes
  | RepWritten u32
  | RepDirectory "dir_row list"
  | RepOpened u64 u32
  | RepStatfs u64 u64 u64 u64 u64 u32 u32 u32
  | RepOk

record request =
  req_uid :: u32
  req_gid :: u32

type_synonym 'a fuse_st = "(fs, errno, 'a) st"

text \<open>\<open>Err(_) => EIO\<close>; an \<open>Option\<close> whose \<open>None\<close> is answered with an error; \<open>if let Ok(Some(_))\<close>, which takes an
  error for \<open>None\<close>.\<close>

definition eio :: "'a fs_st \<Rightarrow> 'a fuse_st" where
  "eio m = map_err (\<lambda>_. EIO) m"

definition some_or :: "errno \<Rightarrow> 'a option \<Rightarrow> 'a fuse_st" where
  "some_or e x = (case x of None \<Rightarrow> raise (Err e) | Some y \<Rightarrow> ret y)"

definition ok_some :: "'a option fs_st \<Rightarrow> bool fuse_st" where
  "ok_some m f = (case m f of
      (Inr r, f') \<Rightarrow> (Inr (r \<noteq> None), f')
    | (Inl (Err e), f') \<Rightarrow> (Inr False, f')
    | (Inl Panic, f') \<Rightarrow> (Inl Panic, f')
    | (Inl Diverge, f') \<Rightarrow> (Inl Diverge, f'))"

section \<open>Helpers\<close>

text \<open>\<open>UNIX_EPOCH + Duration::from_secs(s)\<close> panics beyond the range of \<open>SystemTime\<close>.\<close>

definition to_st :: "u64 \<Rightarrow> u64 option" where
  "to_st s = (if unat s < 2 ^ 63 then Some s else None)"

definition attr_kind :: "u32 \<Rightarrow> file_type" where
  "attr_kind mode = (let x = mode AND S_IFMT in
     if x = S_IFDIR then Directory else if x = S_IFLNK then Symlink else RegularFile)"

definition div_ceil :: "u64 \<Rightarrow> u64 \<Rightarrow> u64" where
  "div_ceil a b = (if a mod b = 0 then a div b else a div b + 1)"

definition to_attr :: "u64 \<Rightarrow> inode_v1 \<Rightarrow> file_attr option" where
  "to_attr ino inode = (case (to_st (i_atime inode), to_st (i_mtime inode), to_st (i_ctime inode)) of
     (Some at, Some mt, Some ct) \<Rightarrow>
       Some \<lparr>a_ino = ino, a_size = i_size inode, a_blocks = div_ceil (i_size inode) (of_nat BLOCK_SIZE),
             a_atime = at, a_mtime = mt, a_ctime = ct, a_crtime = 0, a_kind = attr_kind (i_mode inode),
             a_perm = ucast (i_mode inode AND 0xFFF), a_nlink = i_nlink inode, a_uid = i_uid inode, a_gid = i_gid inode,
             a_rdev = 0, a_blksize = of_nat BLOCK_SIZE, a_flags = 0\<rparr>
   | _ \<Rightarrow> None)"

definition reply_entry :: "u64 \<Rightarrow> inode_v1 \<Rightarrow> reply fuse_st" where
  "reply_entry ino inode = bindM (expect (to_attr ino inode)) (\<lambda>a. ret (RepEntry TTL a GENERATION))"

definition reply_attr :: "u64 \<Rightarrow> inode_v1 \<Rightarrow> reply fuse_st" where
  "reply_attr ino inode = bindM (expect (to_attr ino inode)) (\<lambda>a. ret (RepAttr TTL a))"

definition validate_name :: "bytes \<Rightarrow> errno + bytes" where
  "validate_name bs =
     (if bs = [] \<or> bs = [46] \<or> bs = [46, 46] then Inl EINVAL
      else if 47 \<in> set bs \<or> 0 \<in> set bs then Inl EINVAL
      else if MAX_NAME_LEN < length bs then Inl ENAMETOOLONG
      else Inr bs)"

definition valid :: "bytes \<Rightarrow> bytes fuse_st" where
  "valid name = (case validate_name name of Inl e \<Rightarrow> raise (Err e) | Inr bs \<Rightarrow> ret bs)"

fun errno_for_fs_error :: "fs_error \<Rightarrow> errno" where
  "errno_for_fs_error NotFound = ENOENT"
| "errno_for_fs_error NotADirectory = ENOTDIR"
| "errno_for_fs_error NotEmpty = ENOTEMPTY"
| "errno_for_fs_error AlreadyExists = EEXIST"
| "errno_for_fs_error Exhausted = ENOSPC"
| "errno_for_fs_error Invalid = EINVAL"
| "errno_for_fs_error Busy = EBUSY"
| "errno_for_fs_error (FsBtree _) = EIO"

definition errno_of :: "'a fsx_st \<Rightarrow> 'a fuse_st" where
  "errno_of m = map_err errno_for_fs_error m"

section \<open>Mounting\<close>

definition bootstrap_root :: "u64 \<Rightarrow> u32 \<Rightarrow> u32 \<Rightarrow> unit fs_st" where
  "bootstrap_root now uid gid =
     bindM alloc_ino (\<lambda>root_ino.
     if root_ino \<noteq> ROOT_INO then raise Panic
     else unwrapM (put_inode ROOT_INO \<lparr>i_mode = S_IFDIR OR 0x1ED, i_uid = uid, i_gid = gid, i_nlink = 2, i_size = 0,
             i_atime = now, i_mtime = now, i_ctime = now, i_parent_ino = ROOT_INO\<rparr>))"

definition bootstrapped :: "u64 \<Rightarrow> u32 \<Rightarrow> u32 \<Rightarrow> error fault + fs \<Rightarrow> error fault + fs" where
  "bootstrapped now uid gid r =
     (case r of Inl e \<Rightarrow> Inl e
      | Inr f \<Rightarrow> (case bootstrap_root now uid gid f of (Inl e, _) \<Rightarrow> Inl e | (Inr _, f') \<Rightarrow> Inr f'))"

definition fuse_new :: "(bytes \<Rightarrow> u32) \<Rightarrow> u64 \<Rightarrow> u32 \<Rightarrow> u32 \<Rightarrow> error fault + fs" where
  "fuse_new crc now uid gid = bootstrapped now uid gid (fs_new crc)"

definition fuse_create_image :: "(bytes \<Rightarrow> u32) \<Rightarrow> u64 \<Rightarrow> u32 \<Rightarrow> u32 \<Rightarrow> error fault + fs" where
  "fuse_create_image crc now uid gid = bootstrapped now uid gid (fs_create crc)"

definition fuse_open_image :: "(bytes \<Rightarrow> u32) \<Rightarrow> bytes \<Rightarrow> error fault + fs" where
  "fuse_open_image crc content = fs_open crc content"

section \<open>Lookups\<close>

definition fuse_lookup :: "u64 \<Rightarrow> bytes \<Rightarrow> reply fuse_st" where
  "fuse_lookup parent raw =
     (if raw = [46] \<or> raw = [46, 46]
      then bindM (eio (get_inode parent)) (\<lambda>r.
           bindM (some_or ENOENT r) (\<lambda>parent_inode.
           if raw = [46] then reply_entry parent parent_inode
           else let pp = i_parent_ino parent_inode
                in bindM (eio (get_inode pp)) (\<lambda>r'.
                   bindM (some_or ENOENT r') (\<lambda>i.
                   reply_entry pp i))))
      else bindM (valid raw) (\<lambda>bs.
           bindM (eio (lookup_dirent parent bs)) (\<lambda>r.
           bindM (some_or ENOENT r) (\<lambda>d.
           bindM (eio (get_inode (d_target_ino d))) (\<lambda>r'.
           bindM (some_or EIO r') (\<lambda>inode.
           reply_entry (d_target_ino d) inode))))))"

definition fuse_getattr :: "u64 \<Rightarrow> reply fuse_st" where
  "fuse_getattr ino =
     bindM (eio (get_inode ino)) (\<lambda>r.
     bindM (some_or ENOENT r) (\<lambda>inode.
     reply_attr ino inode))"

definition dirent_type :: "u8 \<Rightarrow> file_type" where
  "dirent_type k = (if k = FILE_KIND_DIR then Directory else if k = FILE_KIND_SYMLINK then Symlink else RegularFile)"

definition dir_entries :: "u64 \<Rightarrow> u64 \<Rightarrow> (bytes \<times> dirent_v1) list \<Rightarrow> (u64 \<times> file_type \<times> bytes) list" where
  "dir_entries ino parent_ino dirents =
     (ino, Directory, [46]) # (parent_ino, Directory, [46, 46]) #
     map (\<lambda>(name, d). (d_target_ino d, dirent_type (d_kind d), name)) dirents"

text \<open>\<open>reply.add\<close> belongs to the FUSE library: \<open>full rows row\<close> says whether the reply with the rows \<open>rows\<close> has no
  room for \<open>row\<close>.  The loop stops at the first row that does not fit.\<close>

fun add_rows :: "(dir_row list \<Rightarrow> dir_row \<Rightarrow> bool) \<Rightarrow> (nat \<times> u64 \<times> file_type \<times> bytes) list \<Rightarrow> dir_row list \<Rightarrow> dir_row list" where
  "add_rows full [] rows = rows"
| "add_rows full ((i, child_ino, kind, name) # es) rows =
     (let row = (child_ino, of_nat (i + 1), kind, name)
      in if full rows row then rows else add_rows full es (rows @ [row]))"

definition fuse_readdir :: "(dir_row list \<Rightarrow> dir_row \<Rightarrow> bool) \<Rightarrow> u64 \<Rightarrow> u64 \<Rightarrow> reply fuse_st" where
  "fuse_readdir full ino offset =
     bindM (eio (get_inode ino)) (\<lambda>r.
     bindM (some_or ENOENT r) (\<lambda>inode.
     if i_mode inode AND S_IFMT \<noteq> S_IFDIR then raise (Err ENOTDIR)
     else bindM (eio (list_dirents ino)) (\<lambda>dirents.
          ret (RepDirectory (add_rows full
            (drop (unat offset) (List.enumerate 0 (dir_entries ino (i_parent_ino inode) dirents))) [])))))"

section \<open>File contents\<close>

definition fuse_read :: "u64 \<Rightarrow> u64 \<Rightarrow> u32 \<Rightarrow> reply fuse_st" where
  "fuse_read ino offset sz = bindM (eio (fs_read_at ino offset sz)) (\<lambda>buf. ret (RepData buf))"

definition fuse_write :: "u64 \<Rightarrow> u64 \<Rightarrow> u64 \<Rightarrow> bytes \<Rightarrow> reply fuse_st" where
  "fuse_write now ino offset data =
     bindM (eio (fs_write_at ino offset data)) (\<lambda>written.
     bindM (eio (get_inode ino)) (\<lambda>r.
     bindM (some_or ENOENT r) (\<lambda>inode.
     bindM (eio (put_inode ino (inode\<lparr>i_size := max (i_size inode) (offset + of_nat (length data)), i_mtime := now, i_ctime := now\<rparr>))) (\<lambda>_.
     bindM (eio journal_commit) (\<lambda>_.
     ret (RepWritten (of_nat written)))))))"

definition fuse_readlink :: "u64 \<Rightarrow> reply fuse_st" where
  "fuse_readlink ino =
     bindM (eio (get_inode ino)) (\<lambda>r.
     bindM (some_or ENOENT r) (\<lambda>inode.
     if i_mode inode AND S_IFMT \<noteq> S_IFLNK then raise (Err EINVAL)
     else bindM (eio (fs_read_at ino 0 (ucast (i_size inode)))) (\<lambda>buf. ret (RepData buf))))"

section \<open>Creating entries\<close>

text \<open>\<open>create\<close>, \<open>mkdir\<close> and \<open>symlink\<close> end in the same steps, which the source writes out in each of them.\<close>

definition new_inode :: "u64 \<Rightarrow> request \<Rightarrow> u64 \<Rightarrow> u32 \<Rightarrow> u32 \<Rightarrow> u64 \<Rightarrow> inode_v1" where
  "new_inode now req parent mode nlink sz =
     \<lparr>i_mode = mode, i_uid = req_uid req, i_gid = req_gid req, i_nlink = nlink, i_size = sz,
      i_atime = now, i_mtime = now, i_ctime = now, i_parent_ino = parent\<rparr>"

definition fuse_create :: "u64 \<Rightarrow> request \<Rightarrow> u64 \<Rightarrow> bytes \<Rightarrow> u32 \<Rightarrow> reply fuse_st" where
  "fuse_create now req parent name mode =
     bindM (valid name) (\<lambda>bs.
     bindM (eio (lookup_dirent parent bs)) (\<lambda>r.
     if r \<noteq> None then raise (Err EEXIST)
     else bindM (eio alloc_ino) (\<lambda>new_ino.
          let inode = new_inode now req parent (S_IFREG OR (mode AND 0xFFF)) 1 0
          in bindM (eio (put_inode new_ino inode)) (\<lambda>_.
             bindM (eio (put_dirent parent bs (dirent_new new_ino FILE_KIND_REGULAR))) (\<lambda>_.
             bindM (eio journal_commit) (\<lambda>_.
             bindM (expect (to_attr new_ino inode)) (\<lambda>a.
             ret (RepCreated TTL a GENERATION 0 0))))))))"

definition fuse_mkdir :: "u64 \<Rightarrow> request \<Rightarrow> u64 \<Rightarrow> bytes \<Rightarrow> u32 \<Rightarrow> reply fuse_st" where
  "fuse_mkdir now req parent name mode =
     bindM (valid name) (\<lambda>bs.
     bindM (eio (lookup_dirent parent bs)) (\<lambda>r.
     if r \<noteq> None then raise (Err EEXIST)
     else bindM (eio alloc_ino) (\<lambda>new_ino.
          let inode = new_inode now req parent (S_IFDIR OR (mode AND 0xFFF)) 2 0
          in bindM (eio (put_inode new_ino inode)) (\<lambda>_.
             bindM (eio (put_dirent parent bs (dirent_new new_ino FILE_KIND_DIR))) (\<lambda>_.
             bindM (eio journal_commit) (\<lambda>_.
             reply_entry new_ino inode))))))"

definition fuse_symlink :: "u64 \<Rightarrow> request \<Rightarrow> u64 \<Rightarrow> bytes \<Rightarrow> bytes \<Rightarrow> reply fuse_st" where
  "fuse_symlink now req parent link_name target =
     bindM (valid link_name) (\<lambda>bs.
     bindM (ok_some (lookup_dirent parent bs)) (\<lambda>exists.
     if exists then raise (Err EEXIST)
     else if BLOCK_SIZE < length target then raise (Err ENAMETOOLONG)
     else bindM (eio alloc_ino) (\<lambda>new_ino.
          let inode = new_inode now req parent (S_IFLNK OR 0x1FF) 1 (of_nat (length target))
          in bindM (eio (put_inode new_ino inode)) (\<lambda>_.
             bindM (eio (put_extent new_ino 0 target)) (\<lambda>_.
             bindM (eio (put_dirent parent bs (dirent_new new_ino FILE_KIND_SYMLINK))) (\<lambda>_.
             bindM (eio journal_commit) (\<lambda>_.
             reply_entry new_ino inode)))))))"

definition fuse_link :: "u64 \<Rightarrow> u64 \<Rightarrow> u64 \<Rightarrow> bytes \<Rightarrow> reply fuse_st" where
  "fuse_link now ino newparent newname =
     bindM (valid newname) (\<lambda>bs.
     bindM (eio (get_inode ino)) (\<lambda>r.
     bindM (some_or ENOENT r) (\<lambda>inode.
     if i_mode inode AND S_IFMT = S_IFDIR then raise (Err EPERM)
     else bindM (ok_some (lookup_dirent newparent bs)) (\<lambda>exists.
          if exists then raise (Err EEXIST)
          else let inode' = inode\<lparr>i_nlink := i_nlink inode + 1, i_ctime := now\<rparr>;
                   kind = (if i_mode inode AND S_IFMT = S_IFLNK then FILE_KIND_SYMLINK else FILE_KIND_REGULAR)
               in bindM (eio (put_inode ino inode')) (\<lambda>_.
                  bindM (eio (put_dirent newparent bs (dirent_new ino kind))) (\<lambda>_.
                  bindM (eio journal_commit) (\<lambda>_.
                  reply_entry ino inode')))))))"

section \<open>Removing and renaming\<close>

definition fuse_unlink :: "u64 \<Rightarrow> bytes \<Rightarrow> reply fuse_st" where
  "fuse_unlink parent name =
     bindM (valid name) (\<lambda>bs.
     bindM (errno_of (unlink parent bs)) (\<lambda>_.
     bindM (eio journal_commit) (\<lambda>_. ret RepOk)))"

definition fuse_rmdir :: "u64 \<Rightarrow> bytes \<Rightarrow> reply fuse_st" where
  "fuse_rmdir parent name =
     bindM (valid name) (\<lambda>bs.
     bindM (errno_of (rmdir parent bs)) (\<lambda>_.
     bindM (eio journal_commit) (\<lambda>_. ret RepOk)))"

definition fuse_rename :: "u64 \<Rightarrow> bytes \<Rightarrow> u64 \<Rightarrow> bytes \<Rightarrow> reply fuse_st" where
  "fuse_rename parent name newparent newname =
     bindM (valid name) (\<lambda>bs.
     bindM (valid newname) (\<lambda>bs'.
     bindM (errno_of (rename parent bs newparent bs')) (\<lambda>_.
     bindM (eio journal_commit) (\<lambda>_. ret RepOk))))"

section \<open>Attributes\<close>

datatype time_or_now = SpecificTime int | Now

text \<open>Seconds since the epoch; a time before it counts as 0.\<close>

definition secs_since_epoch :: "int \<Rightarrow> u64" where
  "secs_since_epoch t = (if t < 0 then 0 else of_int t)"

definition set_time :: "u64 \<Rightarrow> time_or_now option \<Rightarrow> u64 \<Rightarrow> u64" where
  "set_time now t old = (case t of None \<Rightarrow> old | Some Now \<Rightarrow> now | Some (SpecificTime s) \<Rightarrow> secs_since_epoch s)"

definition fuse_setattr :: "u64 \<Rightarrow> u64 \<Rightarrow> u32 option \<Rightarrow> u32 option \<Rightarrow> u32 option \<Rightarrow> u64 option \<Rightarrow> time_or_now option \<Rightarrow> time_or_now option \<Rightarrow> reply fuse_st" where
  "fuse_setattr now ino mode uid gid sz atime mtime =
     bindM (eio (get_inode ino)) (\<lambda>r.
     bindM (some_or ENOENT r) (\<lambda>inode.
     let inode1 = (case mode of None \<Rightarrow> inode | Some m \<Rightarrow> inode\<lparr>i_mode := (i_mode inode AND S_IFMT) OR (m AND 0xFFF)\<rparr>);
         inode2 = (case uid of None \<Rightarrow> inode1 | Some u \<Rightarrow> inode1\<lparr>i_uid := u\<rparr>);
         inode3 = (case gid of None \<Rightarrow> inode2 | Some g \<Rightarrow> inode2\<lparr>i_gid := g\<rparr>)
     in bindM (case sz of
                 None \<Rightarrow> ret inode3
               | Some new_size \<Rightarrow>
                   bindM (if new_size < i_size inode3 then eio (truncate_extents ino new_size) else ret ()) (\<lambda>_.
                   ret (inode3\<lparr>i_size := new_size\<rparr>))) (\<lambda>inode4.
        let inode5 = inode4\<lparr>i_atime := set_time now atime (i_atime inode4), i_mtime := set_time now mtime (i_mtime inode4), i_ctime := now\<rparr>
        in bindM (eio (put_inode ino inode5)) (\<lambda>_.
           bindM (eio journal_commit) (\<lambda>_.
           reply_attr ino inode5)))))"

section \<open>The remaining handlers\<close>

definition fuse_statfs :: "reply fuse_st" where
  "fuse_statfs =
     bindM (gets (\<lambda>f. f)) (\<lambda>f.
     let total_blocks = store_next_block_nr f; free_blocks = free_block_count f
     in ret (RepStatfs total_blocks free_blocks free_blocks 0 0 (of_nat BLOCK_SIZE) (of_nat MAX_NAME_LEN) (of_nat BLOCK_SIZE)))"

definition fuse_fsync :: "reply fuse_st" where
  "fuse_fsync = bindM (eio journal_commit) (\<lambda>_. ret RepOk)"

definition fuse_open :: "reply fuse_st" where "fuse_open = ret (RepOpened 0 0)"
definition fuse_opendir :: "reply fuse_st" where "fuse_opendir = ret (RepOpened 0 0)"
definition fuse_release :: "reply fuse_st" where "fuse_release = ret RepOk"
definition fuse_releasedir :: "reply fuse_st" where "fuse_releasedir = ret RepOk"
definition fuse_flush :: "reply fuse_st" where "fuse_flush = ret RepOk"

text \<open>On unmount an error of the final checkpoint is only reported.\<close>

definition fuse_destroy :: "unit fuse_st" where
  "fuse_destroy f = (case fs_sync f of
      (Inl Panic, f') \<Rightarrow> (Inl Panic, f')
    | (Inl Diverge, f') \<Rightarrow> (Inl Diverge, f')
    | (_, f') \<Rightarrow> (Inr (), f'))"

end
