(* ===== verification/Fuse_View.thy ===== *)
theory Fuse_View
  imports Fs_Snap Fuse
begin

text \<open>
  What the handlers of the front end answer.  The rules for reads and writes of \<open>Fs\<close> are lifted to the error
  type of the replies; the handlers that commit are followed on a mount without journal and without
  deferred deletions, where \<open>journal_commit\<close> has nothing to do.
\<close>

section \<open>Lifting\<close>

lemma eio_Inr: "op f = (Inr r, f') \<Longrightarrow> eio op f = (Inr r, f')"
  by (simp add: eio_def map_err_def)

lemma eio_reads:
  assumes "reads op D f m n r"
  shows "\<exists>f'. eio op f = (Inr r, f') \<and> fsv D f' m n \<and> same f f'"
  using reads_result [OF assms] eio_Inr [of op f r] by auto

lemma some_or_simps [simp]: "some_or e (Some x) = ret x" "some_or e None = raise (Err e)"
  by (simp_all add: some_or_def)

lemma valid_name:
  assumes "validate_name name = Inr bs"
  shows "bs = name" "length name \<le> 19" "valid name = ret name"
  using assms by (auto simp: validate_name_def valid_def name_len split: if_splits)

section \<open>Commits without a journal\<close>

definition no_orphans :: "kvmap \<Rightarrow> bool" where
  "no_orphans m = (\<forall>i s. lookup_as deleted_of_bytes m (deleted_inode_key i s) [ROOT_SNAP] = None)"

lemma list_deleted_none:
  assumes "fsv D f m n" "no_orphans m"
  shows "reads list_deleted_inodes D f m n []"
proof -
  have "separated m (fst deleted_inode_range) (snd deleted_inode_range)"
    using assms by (intro orphans.fixed_separated [of m 13]) (auto simp: fsv_def deleted_inode_key_def)
  from orphans.scan_reads [OF assms(1) _ this, of "[ROOT_SNAP]"] obtain xs where
    xs: "\<forall>g. fsv D g m n \<longrightarrow> reads (bindM (on_btree (range_scan_visible (fst deleted_inode_range) (snd deleted_inode_range) [ROOT_SNAP]))
      (decode_rows deleted_inode_from_key deleted_of_bytes)) D g m n xs"
    and mem: "\<forall>x y. (x, y) \<in> set xs \<longleftrightarrow> lookup_as deleted_of_bytes m ((\<lambda>(i, s). deleted_inode_key i s) x) [ROOT_SNAP] = Some y"
    by auto
  have "xs = []"
    unfolding no_pairs [symmetric] using mem assms(2) by (auto simp: no_orphans_def)
  then have r: "reads (bindM (on_btree (range_scan_visible (fst deleted_inode_range) (snd deleted_inode_range) [ROOT_SNAP]))
      (decode_rows deleted_inode_from_key deleted_of_bytes)) D f m n []" using xs assms(1) by blast
  have eq: "list_deleted_inodes = bindM (bindM (on_btree (range_scan_visible (fst deleted_inode_range) (snd deleted_inode_range) [ROOT_SNAP]))
      (decode_rows deleted_inode_from_key deleted_of_bytes)) (\<lambda>items. ret (map (\<lambda>((ino, snap), progress). (ino, snap, del_next_offset progress)) items))"
    unfolding list_deleted_inodes_def bindM_assoc ..
  show ?thesis unfolding eq by (rule reads_bind [OF r]) simp
qed

lemma commit_reads:
  assumes "fsv D f m n" "no_orphans m" "\<not> has_journal f"
  shows "reads journal_commit D f m n ()"
  unfolding journal_commit_def reclaim_deleted_inodes_def
  using assms by (intro reads_bind [OF reads_gets]) (auto intro!: reads_bind [OF reads_bind [OF list_deleted_none]])

lemma no_orphans_put: "no_orphans m \<Longrightarrow> (\<And>i s. deleted_inode_key i s \<noteq> l) \<Longrightarrow> no_orphans (put_map l s kd v m)"
  by (simp add: no_orphans_def lookup_as_def del: visible.simps)

lemma no_orphans_write: "no_orphans m \<Longrightarrow> writes_file ino m D m' D' \<Longrightarrow> no_orphans m'"
proof -
  have "deleted_inode_key i s \<noteq> extent_key ino off" for i s off by (simp add: deleted_inode_key_def extent_key_def kind_defs)
  then show "no_orphans m \<Longrightarrow> writes_file ino m D m' D' \<Longrightarrow> no_orphans m'"
    by (simp add: no_orphans_def lookup_as_def writes_file_def del: visible.simps)
qed

lemma eio_runs: "runs op f P \<Longrightarrow> \<exists>r f'. eio op f = (Inr r, f') \<and> P r f'"
  by (drule runs_result) (auto dest: eio_Inr)

lemma put_inode_runs:
  assumes "fsv D f m (Suc n)"
  shows "runs (put_inode ino i) f (\<lambda>_ f'. fsv D f' (put_map (inode_key ino) (active f m) Live (inode_bytes i) m) n \<and> keeps f f')"
  using put_current_runs [OF assms, of "inode_key ino" "inode_bytes i"] inode_codec.length_enc [of i] by (simp add: put_inode_def)

lemma keeps_journal: "keeps f f' \<Longrightarrow> has_journal f' = has_journal f" "same f f' \<Longrightarrow> has_journal f' = has_journal f"
  by (auto simp: keeps_def same_def)

lemma fsv_ino: "fsv D (f\<lparr>next_ino := x\<rparr>) m n = fsv D f m n" "active (f\<lparr>next_ino := x\<rparr>) m = active f m"
  by (simp_all add: fsv_def active_def)

lemma same_next_ino: "same f f' \<Longrightarrow> next_ino f' = next_ino f"
  by (auto simp: same_def)

text \<open>The metadata writes that create an entry, with the commit after them.\<close>

lemma new_entry_runs:
  assumes f: "fsv D f m (Suc (Suc n))" "no_orphans m" "\<not> has_journal f" "length name \<le> 19" "wf_dirent d"
    and m'_def: "m' = put_map (KIND_DIRENT # u64_be p @ name) (active f m) Live (dirent_bytes d)
      (put_map (inode_key ino) (active f m) Live (inode_bytes i) m)"
  shows "\<exists>f1 f2 f3. eio (put_inode ino i) f = (Inr (), f1) \<and> eio (put_dirent p name d) f1 = (Inr (), f2)
     \<and> eio journal_commit f2 = (Inr (), f3) \<and> fsv D f3 m' n \<and> keeps f f3 \<and> active_chain f3 m' = active_chain f m \<and> no_orphans m'"
proof -
  let ?m1 = "put_map (inode_key ino) (active f m) Live (inode_bytes i) m"
  obtain f1 where f1: "eio (put_inode ino i) f = (Inr (), f1)" "fsv D f1 ?m1 (Suc n)" "keeps f f1"
    using eio_runs [OF put_inode_runs [OF f(1), of ino i]] by auto
  have me: "meta_eq m ?m1" "meta_eq ?m1 m'" unfolding m'_def using f(4) by (auto intro: meta_eq_file)
  have a1: "active f1 ?m1 = active f m" using meta_eq_active [OF me(1), of f1 f] keeps_fields [OF f1(3)] by simp
  obtain f2 where f2: "eio (put_dirent p name d) f1 = (Inr (), f2)" "fsv D f2 m' n" "keeps f1 f2"
    using eio_runs [OF put_dirent_runs [OF f1(2) f(4,5), of p]] unfolding a1 m'_def by auto
  have no: "no_orphans m'" unfolding m'_def using f(2) by (intro no_orphans_put) simp_all
  have "\<not> has_journal f2" using f(3) keeps_journal(1) [OF f1(3)] keeps_journal(1) [OF f2(3)] by simp
  from eio_reads [OF commit_reads [OF f2(2) no this]] obtain f3 where
    f3: "eio journal_commit f2 = (Inr (), f3)" "fsv D f3 m' n" "same f2 f3" by auto
  have k: "keeps f f3" using keeps_trans [OF keeps_trans [OF f1(3) f2(3)] same_keeps [OF f3(3)]] .
  have "active_chain f3 m' = active_chain f m"
    using meta_eq_active [OF meta_eq_trans [OF me], of f3 f] meta_eq_chain [OF meta_eq_trans [OF me]] keeps_fields [OF k] by simp
  then show ?thesis using f1(1) f2(1) f3(1,2) k no by blast
qed

lemma lookup_entry_replies:
  assumes "fsv D f m n" "validate_name name = Inr name" "dirent_at m (active_chain f m) p name = Some d"
    "inode_at m (active_chain f m) (d_target_ino d) = Some i" "to_attr (d_target_ino d) i = Some a"
  shows "\<exists>f'. fuse_lookup p name f = (Inr (RepEntry TTL a GENERATION), f') \<and> fsv D f' m n"
proof -
  note v = valid_name [OF assms(2)]
  obtain f1 where f1: "eio (lookup_dirent p name) f = (Inr (Some d), f1)" "fsv D f1 m n" "same f f1"
    using eio_reads [OF lookup_dirent_reads [OF assms(1) v(2), of p]] assms(3) by auto
  obtain f2 where f2: "eio (get_inode (d_target_ino d)) f1 = (Inr (Some i), f2)" "fsv D f2 m n"
    using eio_reads [OF get_inode_reads [OF f1(2), of "d_target_ino d"]] assms(4) by (auto simp: active_same [OF f1(3)])
  have "name \<noteq> [46] \<and> name \<noteq> [46, 46]" using assms(2) by (auto simp: validate_name_def split: if_splits)
  then show ?thesis using f1(1) f2 assms(5) by (simp add: fuse_lookup_def v(3) bindM_Inr reply_entry_def)
qed

lemma mode_kind:
  "attr_kind (S_IFREG OR (mode AND 0xFFF)) = RegularFile" "(S_IFREG OR (mode AND 0xFFF)) AND 0xFFF = mode AND 0xFFF"
proof -
  have "(S_IFREG OR (mode AND 0xFFF)) AND 0xF000 = (S_IFREG AND 0xF000) OR (mode AND (0xFFF AND 0xF000))"
    by (simp only: bit.conj_disj_distrib2 and.assoc)
  then show "attr_kind (S_IFREG OR (mode AND 0xFFF)) = RegularFile" by (simp add: attr_kind_def S_IFMT_def S_IFREG_def S_IFDIR_def S_IFLNK_def)
  have "(S_IFREG OR (mode AND 0xFFF)) AND 0xFFF = (S_IFREG AND 0xFFF) OR (mode AND (0xFFF AND 0xFFF))"
    by (simp only: bit.conj_disj_distrib2 and.assoc)
  then show "(S_IFREG OR (mode AND 0xFFF)) AND 0xFFF = mode AND 0xFFF" by (simp add: S_IFREG_def)
qed

lemma on_btree_journal: "has_journal (snd (on_btree op f)) = has_journal f"
  by (simp add: on_btree_def on_part_def split: prod.split)

lemma unwrap_state: "snd (unwrapM op f) = snd (op f)"
  by (simp add: unwrapM_def split: prod.split sum.split fault.split)

lemma fs_new_memory: "fs_new crc = Inr f \<Longrightarrow> \<not> has_journal f"
proof -
  assume new: "fs_new crc = Inr f"
  obtain t where t: "seed t = Inr f" using new by (auto simp: fs_new_def split: option.splits)
  define f0 where "f0 = \<lparr>tree = t, next_ino = ROOT_INO, next_snap_id = ROOT_SNAP - 1, next_subvol_id = ROOT_SUBVOL + 1,
         current_subvol = ROOT_SUBVOL, has_journal = False, next_journal_seq = 0, last_checkpoint_seq = 0\<rparr>"
  let ?op = "put_snapshot ROOT_SNAP seed_snapshot" and ?op' = "put_subvol ROOT_SUBVOL seed_subvol"
  have "fst (bindM (unwrapM ?op) (\<lambda>_. bindM (unwrapM ?op') (\<lambda>_. gets (\<lambda>f. f))) f0) = Inr f"
    using t by (simp add: seed_def f0_def seed_snapshot_def seed_subvol_def)
  then obtain u f1 u' where "unwrapM ?op f0 = (u, f1)" "unwrapM ?op' f1 = (u', f)"
    by (auto simp: bindM_def gets_def split: prod.splits sum.splits)
  then have "has_journal f1 = has_journal f0" "has_journal f = has_journal f1"
    unfolding put_snapshot_def put_subvol_def by (metis snd_conv unwrap_state on_btree_journal)+
  then show ?thesis by (simp add: f0_def)
qed

lemma seed_no_orphans: "no_orphans seed_map"
  by (simp add: no_orphans_def lookup_as_def seed_map_def put_map_def deleted_inode_key_def subvol_key_def snapshot_key_def kind_defs)

text \<open>A fresh mount with one inode, for the examples.\<close>

lemma sample_mount:
  assumes "n + 3 \<le> 2 ^ 44"
  shows "\<exists>f f' m. fs_new crc = Inr f \<and> put_inode ino i f = (Inr (), f') \<and> fsv Map.empty f' m n \<and> no_orphans m \<and> \<not> has_journal f' \<and> plain_names m
     \<and> file_ok m Map.empty (active_chain f' m) ino \<and> inode_at m (active_chain f' m) ino = Some i
     \<and> (\<forall>p name. dirent_at m (active_chain f' m) p name = None)"
proof -
  obtain f where f: "fs_new crc = Inr f" "fsv Map.empty f seed_map (Suc n)" "active f seed_map = ROOT_SNAP"
    using fs_new_ok [of "Suc n" crc] assms by auto
  let ?m = "put_map (inode_key ino) (active f seed_map) Live (inode_bytes i) seed_map"
  obtain f' where f': "put_inode ino i f = (Inr (), f')" "fsv Map.empty f' ?m n" "keeps f f'"
    using runs_result [OF put_inode_runs [OF f(2), of ino i]] by auto
  have me: "meta_eq seed_map ?m" by (rule meta_eq_file) simp
  have chain: "active_chain f' ?m = [ROOT_SNAP]"
    using meta_eq_active [OF me, of f' f] meta_eq_chain [OF me] keeps_fields [OF f'(3)] f(3) by (simp add: seed_chain)
  have "extent_at ?m [ROOT_SNAP] ino x = None" for x by (simp add: lookup_as_def seed_map_def put_map_def)
  then have "file_ok ?m Map.empty [ROOT_SNAP] ino" by (simp add: file_ok_def)
  moreover have "inode_at ?m [ROOT_SNAP] ino = Some i"
    unfolding f(3) by (rule lookup_as_put) (simp add: inode_codec.dec_stored)
  moreover have "no_orphans ?m" by (intro no_orphans_put seed_no_orphans) simp
  moreover have "\<not> has_journal f'" using fs_new_memory [OF f(1)] keeps_journal(1) [OF f'(3)] by simp
  moreover have "plain_names ?m" using plain_seed by (auto simp: plain_names_def put_map_def inode_key_def kind_defs)
  moreover have "dirent_at ?m [ROOT_SNAP] p name = None" for p name
    by (simp add: lookup_as_def seed_map_def put_map_def inode_key_def snapshot_key_def subvol_key_def kind_defs)
  ultimately show ?thesis using f(1) f'(1,2) chain by (intro exI [of _ f] exI [of _ f'] exI [of _ ?m]) simp
qed

section \<open>Properties\<close>

text \<open>C20. \<open>create\<close> followed by \<open>lookup\<close>: an existing name is answered with \<open>EEXIST\<close> and nothing changes; otherwise the
  reply describes an empty regular file with the requested permissions under the next inode number, and
  a lookup of the name answers with the same attributes.\<close>

theorem create_then_lookup:
  assumes f: "fsv D f m (Suc (Suc n))" "no_orphans m" "\<not> has_journal f"
    and name: "validate_name name = Inr name" and now: "unat now < 2 ^ 63"
  shows "if dirent_at m (active_chain f m) p name \<noteq> None
    then \<exists>f'. fuse_create now req p name mode f = (Inl (Err EEXIST), f') \<and> fsv D f' m (Suc (Suc n))
    else \<exists>a f' m' f''. fuse_create now req p name mode f = (Inr (RepCreated TTL a GENERATION 0 0), f')
      \<and> a_ino a = next_ino f \<and> a_kind a = RegularFile \<and> a_size a = 0 \<and> a_perm a = ucast (mode AND 0xFFF)
      \<and> a_uid a = req_uid req \<and> a_gid a = req_gid req \<and> next_ino f' = next_ino f + 1 \<and> fsv D f' m' n
      \<and> fuse_lookup p name f' = (Inr (RepEntry TTL a GENERATION), f'')"
proof -
  let ?c = "active_chain f m"
  note v = valid_name [OF name]
  obtain g where g: "eio (lookup_dirent p name) f = (Inr (dirent_at m ?c p name), g)" "fsv D g m (Suc (Suc n))" "same f g"
    using eio_reads [OF lookup_dirent_reads [OF f(1) v(2), of p]] by blast
  show ?thesis
  proof (cases "dirent_at m ?c p name")
    case (Some d)
    then show ?thesis using g(1,2) by (auto simp: fuse_create_def v(3) bindM_Inr)
  next
    case None
    let ?ino = "next_ino f" and ?i = "new_inode now req p (S_IFREG OR (mode AND 0xFFF)) 1 0"
    let ?d = "dirent_new ?ino FILE_KIND_REGULAR" and ?h = "g\<lparr>next_ino := next_ino f + 1\<rparr>"
    obtain a where a: "to_attr ?ino ?i = Some a" "a_ino a = ?ino" "a_kind a = RegularFile" "a_size a = 0" "a_perm a = ucast (mode AND 0xFFF)"
      "a_uid a = req_uid req" "a_gid a = req_gid req"
      using now by (simp add: to_attr_def to_st_def new_inode_def mode_kind)
    have al: "eio alloc_ino g = (Inr ?ino, ?h)" by (rule eio_Inr) (simp add: alloc_ino_def same_next_ino [OF g(3)])
    have h: "fsv D ?h m (Suc (Suc n))" "\<not> has_journal ?h" "active ?h m = active f m"
      using g(2) f(3) keeps_journal(2) [OF g(3)] by (simp_all add: fsv_ino active_same [OF g(3)])
    have wf: "wf_dirent ?d" by (simp add: wf_dirent_def dirent_new_def)
    define m' where "m' = put_map (dkey p name) (active ?h m) Live (dirent_bytes ?d) (put_map (inode_key ?ino) (active ?h m) Live (inode_bytes ?i) m)"
    obtain f1 f2 f3 where r: "eio (put_inode ?ino ?i) ?h = (Inr (), f1)" "eio (put_dirent p name ?d) f1 = (Inr (), f2)"
      "eio journal_commit f2 = (Inr (), f3)" "fsv D f3 m' n" "keeps ?h f3" "active_chain f3 m' = ?c"
      using new_entry_runs [OF h(1) f(2) h(2) v(2) wf m'_def] h(3) by auto
    have cr: "fuse_create now req p name mode f = (Inr (RepCreated TTL a GENERATION 0 0), f3)"
      using g(1) None al r(1-3) a(1) by (simp add: fuse_create_def v(3) bindM_Inr Let_def)
    obtain ss where ss: "?c = active f m # ss" using hd_chain by blast
    have "dirent_at m' (active_chain f3 m') p name = Some ?d"
      unfolding r(6) ss unfolding m'_def h(3) by (rule lookup_as_put) (rule dirent_codec.dec_stored [OF wf])
    moreover have "inode_at m' (active_chain f3 m') ?ino = inode_at (put_map (inode_key ?ino) (active f m) Live (inode_bytes ?i) m) ?c ?ino"
      unfolding r(6) unfolding m'_def h(3) by (intro lookup_as_cong visible_put_other) simp
    moreover have "inode_at (put_map (inode_key ?ino) (active f m) Live (inode_bytes ?i) m) ?c ?ino = Some ?i"
      unfolding ss by (rule lookup_as_put) (simp add: inode_codec.dec_stored)
    moreover have "d_target_ino ?d = ?ino" by (simp add: dirent_new_def)
    ultimately obtain f'' where "fuse_lookup p name f3 = (Inr (RepEntry TTL a GENERATION), f'')"
      using lookup_entry_replies [OF r(4) name, of p ?d ?i a] a(1) by auto
    moreover have "next_ino f3 = next_ino f + 1" using keeps_fields [OF r(5)] by simp
    ultimately show ?thesis using None cr a(2-) r(4) by auto
  qed
qed

theorem create_then_lookup_witness:
  "\<exists>f a f' f''. fs_new (\<lambda>_. 7) = Inr f \<and> fuse_create 5 \<lparr>req_uid = 8, req_gid = 9\<rparr> 1 [97] 420 f = (Inr (RepCreated TTL a GENERATION 0 0), f')
     \<and> a_uid a = 8 \<and> fuse_lookup 1 [97] f' = (Inr (RepEntry TTL a GENERATION), f'')"
proof -
  obtain f where f: "fs_new (\<lambda>_. 7) = Inr f" "fsv Map.empty f seed_map 2" "active f seed_map = ROOT_SNAP" using fs_new_ok [of 2] by auto
  have "dirent_at seed_map [ROOT_SNAP] 1 [97] = None"
    by (simp add: lookup_as_def seed_map_def put_map_def subvol_key_def snapshot_key_def kind_defs)
  then show ?thesis
    using create_then_lookup [OF f(2) [unfolded numeral_2_eq_2] seed_no_orphans fs_new_memory [OF f(1)], of "[97]" 5 1 "\<lparr>req_uid = 8, req_gid = 9\<rparr>" 420] f(1,3)
    by (auto simp: validate_name_def name_len seed_chain)
qed

lemma put_inode_extents:
  "extent_at (put_map (inode_key a) s Live v m) c ino x = extent_at m c ino x"
  by (intro lookup_as_cong visible_put_other) simp

lemma put_inode_file:
  "file_ok (put_map (inode_key a) s Live v m) D c ino = file_ok m D c ino"
  "byte_at (put_map (inode_key a) s Live v m) D c ino = byte_at m D c ino"
  by (simp_all add: file_ok_def byte_at_def block_of_def put_inode_extents fun_eq_iff)

lemma max_size:
  assumes "unat offset + len \<le> 2 ^ 63" "unat (sz :: u64) \<le> 2 ^ 63"
  shows "unat (max sz (offset + of_nat len)) = max (unat sz) (unat offset + len)"
proof -
  have "unat (offset + of_nat len) = unat offset + len" using assms(1) by (simp add: unat_word_ariths unat_of_nat)
  then show ?thesis by (simp add: max_def word_le_nat_alt)
qed

text \<open>C21. A \<open>write\<close> request stores the data, extends the size of the inode to cover it and stamps its times; a \<open>read\<close>
  request of the same range then answers with the data.\<close>

theorem fuse_write_then_read:
  assumes f: "fsv D f m (2 * length data + Suc n)" "no_orphans m" "\<not> has_journal f"
    and ok: "file_ok m D (active_chain f m) ino" and i: "inode_at m (active_chain f m) ino = Some i"
    and b: "unat offset + length data \<le> 2 ^ 63" "unat (i_size i) \<le> 2 ^ 63" "length data < 2 ^ 32"
  shows "\<exists>f' m' D' f''. fuse_write now ino offset data f = (Inr (RepWritten (of_nat (length data))), f') \<and> fsv D' f' m' n
     \<and> inode_at m' (active_chain f' m') ino =
         Some (i\<lparr>i_size := max (i_size i) (offset + of_nat (length data)), i_mtime := now, i_ctime := now\<rparr>)
     \<and> fuse_read ino offset (of_nat (length data)) f' = (Inr (RepData data), f'')"
proof -
  let ?c = "active_chain f m"
  let ?i = "i\<lparr>i_size := max (i_size i) (offset + of_nat (length data)), i_mtime := now, i_ctime := now\<rparr>"
  obtain g m1 D' where w: "fs_write_at ino offset data f = (Inr (length data), g)" "fsv D' g m1 (Suc n)" "keeps f g" "writes_file ino m D m1 D'"
    "active_chain g m1 = ?c" "file_ok m1 D' ?c ino"
    "\<forall>k < 2 ^ 64. byte_at m1 D' ?c ino k =
          (if unat offset \<le> k \<and> k < unat offset + length data then data ! (k - unat offset) else byte_at m D ?c ino k)"
    using write_at_runs [OF f(1) ok b(1)] by auto
  have i1: "inode_at m1 ?c ino = Some i" using writes_file_inode [OF w(4)] i by simp
  obtain g2 where g2: "eio (get_inode ino) g = (Inr (Some i), g2)" "fsv D' g2 m1 (Suc n)" "same g g2"
    using eio_reads [OF get_inode_reads [OF w(2), of ino]] i1 by (auto simp: w(5))
  define m' where "m' = put_map (inode_key ino) (active g2 m1) Live (inode_bytes ?i) m1"
  obtain g3 where g3: "eio (put_inode ino ?i) g2 = (Inr (), g3)" "fsv D' g3 m' n" "keeps g2 g3"
    using eio_runs [OF put_inode_runs [OF g2(2), of ino ?i]] unfolding m'_def by auto
  have no: "no_orphans m'" unfolding m'_def using no_orphans_write [OF f(2) w(4)] by (intro no_orphans_put) simp_all
  have "\<not> has_journal g3" using f(3) keeps_journal(1) [OF w(3)] keeps_journal(2) [OF g2(3)] keeps_journal(1) [OF g3(3)] by simp
  from eio_reads [OF commit_reads [OF g3(2) no this]] obtain f' where
    f': "eio journal_commit g3 = (Inr (), f')" "fsv D' f' m' n" "same g3 f'" by auto
  have wr: "fuse_write now ino offset data f = (Inr (RepWritten (of_nat (length data))), f')"
    using eio_Inr [of "fs_write_at ino offset data", OF w(1)] g2(1) g3(1) f'(1) by (simp add: fuse_write_def bindM_Inr)
  have me: "meta_eq m1 m'" unfolding m'_def by (rule meta_eq_file) simp
  have k: "keeps g f'" using keeps_trans [OF keeps_trans [OF same_keeps [OF g2(3)] g3(3)] same_keeps [OF f'(3)]] .
  have c: "active_chain f' m' = ?c"
    using meta_eq_active [OF me, of f' g] meta_eq_chain [OF me] keeps_fields [OF k] w(5) by simp
  obtain ss where ss: "?c = active g2 m1 # ss" using hd_chain [of m1 "active g m1"] w(5) active_same [OF g2(3)] by auto
  have ino: "inode_at m' ?c ino = Some ?i" unfolding ss m'_def by (rule lookup_as_put) (simp add: inode_codec.dec_stored)
  have sz: "unat (i_size ?i) = max (unat (i_size i)) (unat offset + length data)" using max_size [OF b(1,2)] by simp
  have len: "unat (of_nat (length data) :: u32) = length data" using b(3) by (simp add: unat_of_nat)
  have "map (byte_at m' D' ?c ino) [unat offset..<unat offset + length data] = data"
    using w(7) b(1) unfolding m'_def put_inode_file by (intro nth_equalityI) auto
  then have "reads (fs_read_at ino offset (of_nat (length data))) D' f' m' n data"
    using read_at_reads [OF f'(2), of ino ?i offset "of_nat (length data)"] w(6) ino b sz
    unfolding c by (simp add: len m'_def put_inode_file(1) min_def)
  from eio_reads [OF this] obtain f'' where "fuse_read ino offset (of_nat (length data)) f' = (Inr (RepData data), f'')"
    by (auto simp: fuse_read_def bindM_Inr)
  then show ?thesis using wr f'(2) ino c by auto
qed

theorem fuse_write_then_read_witness:
  "\<exists>f f1 f2 f3. fs_new (\<lambda>_. 7) = Inr f
     \<and> put_inode 5 \<lparr>i_mode = 0x81A4, i_uid = 2, i_gid = 3, i_nlink = 1, i_size = 0, i_atime = 0, i_mtime = 0, i_ctime = 0, i_parent_ino = 1\<rparr> f = (Inr (), f1)
     \<and> fuse_write 6 5 4095 [1, 2, 3] f1 = (Inr (RepWritten 3), f2) \<and> fuse_read 5 4095 3 f2 = (Inr (RepData [1, 2, 3]), f3)"
proof -
  let ?i = "\<lparr>i_mode = 0x81A4, i_uid = 2, i_gid = 3, i_nlink = 1, i_size = 0, i_atime = 0, i_mtime = 0, i_ctime = 0, i_parent_ino = 1\<rparr>"
  obtain f f1 m where f: "fs_new (\<lambda>_. 7) = Inr f" "put_inode 5 ?i f = (Inr (), f1)" "fsv Map.empty f1 m 7" "no_orphans m" "\<not> has_journal f1"
    "file_ok m Map.empty (active_chain f1 m) 5" "inode_at m (active_chain f1 m) 5 = Some ?i"
    using sample_mount [of 7 "\<lambda>_. 7" 5 ?i] by auto
  show ?thesis using fuse_write_then_read [of Map.empty f1 m "[1, 2, 3]" 0 5 ?i 4095 6] f by auto
qed

text \<open>C37. A \<open>write\<close> request to an inode number that does not exist is answered with \<open>ENOENT\<close>, but the data has already
  been stored by then: the bytes of that number are the data and its extents stay behind.\<close>

theorem write_to_missing_inode:
  assumes "fsv D f m (2 * length data + n)" "file_ok m D (active_chain f m) ino"
    "inode_at m (active_chain f m) ino = None" "unat offset + length data \<le> 2 ^ 63"
  shows "\<exists>f' m' D'. fuse_write now ino offset data f = (Inl (Err ENOENT), f') \<and> fsv D' f' m' n
     \<and> inode_at m' (active_chain f' m') ino = None
     \<and> (\<forall>k < length data. byte_at m' D' (active_chain f' m') ino (unat offset + k) = data ! k)"
proof -
  let ?c = "active_chain f m"
  obtain g m1 D' where w: "fs_write_at ino offset data f = (Inr (length data), g)" "fsv D' g m1 n" "writes_file ino m D m1 D'"
    "active_chain g m1 = ?c"
    "\<forall>k < 2 ^ 64. byte_at m1 D' ?c ino k =
          (if unat offset \<le> k \<and> k < unat offset + length data then data ! (k - unat offset) else byte_at m D ?c ino k)"
    using write_at_runs [OF assms(1,2,4)] by auto
  have i1: "inode_at m1 ?c ino = None" using writes_file_inode [OF w(3)] assms(3) by simp
  obtain g2 where g2: "eio (get_inode ino) g = (Inr None, g2)" "fsv D' g2 m1 n" "same g g2"
    using eio_reads [OF get_inode_reads [OF w(2), of ino]] i1 by (auto simp: w(4))
  have "fuse_write now ino offset data f = (Inl (Err ENOENT), g2)"
    using eio_Inr [of "fs_write_at ino offset data", OF w(1)] g2(1) by (simp add: fuse_write_def bindM_Inr)
  moreover have "active_chain g2 m1 = ?c" using active_same [OF g2(3)] w(4) by simp
  moreover have "byte_at m1 D' ?c ino (unat offset + k) = data ! k" if "k < length data" for k
    using w(5) assms(4) that by simp
  ultimately show ?thesis using g2(2) i1 by (intro exI [of _ g2] exI [of _ m1] exI [of _ D']) simp
qed

theorem write_to_missing_inode_witness:
  "\<exists>f f'. fs_new (\<lambda>_. 7) = Inr f \<and> fuse_write 6 5 0 [1, 2, 3] f = (Inl (Err ENOENT), f')"
proof -
  obtain f where f: "fs_new (\<lambda>_. 7) = Inr f" "fsv Map.empty f seed_map 6" "active f seed_map = ROOT_SNAP" using fs_new_ok [of 6] by auto
  have "inode_at seed_map [ROOT_SNAP] 5 = None" "extent_at seed_map [ROOT_SNAP] 5 x = None" for x
    by (simp_all add: lookup_as_def seed_map_def put_map_def) (simp_all add: inode_key_def extent_key_def subvol_key_def snapshot_key_def kind_defs)
  then show ?thesis
    using write_to_missing_inode [of Map.empty f seed_map "[1, 2, 3]" 0 5 0 6] f by (auto simp: seed_chain file_ok_def)
qed

section \<open>Directory replies\<close>

definition row_of :: "nat \<times> u64 \<times> file_type \<times> bytes \<Rightarrow> dir_row" where
  "row_of e = (case e of (i, c, k, name) \<Rightarrow> (c, of_nat (i + 1), k, name))"

definition rows_of :: "(u64 \<times> file_type \<times> bytes) list \<Rightarrow> dir_row list" where
  "rows_of es = map row_of (List.enumerate 0 es)"

lemma add_rows_prefix:
  "\<exists>j \<le> length es. add_rows full es acc = acc @ take j (map row_of es)
     \<and> (j < length es \<longrightarrow> full (acc @ take j (map row_of es)) (row_of (es ! j)))
     \<and> (\<forall>k < j. \<not> full (acc @ take k (map row_of es)) (row_of (es ! k)))"
proof (induction es arbitrary: acc)
  case (Cons e es)
  obtain i c k name where e: "e = (i, c, k, name)" by (cases e)
  have add: "add_rows full (e # es) acc = (if full acc (row_of e) then acc else add_rows full es (acc @ [row_of e]))"
    by (simp add: e row_of_def Let_def)
  show ?case
  proof (cases "full acc (row_of e)")
    case True
    then show ?thesis by (intro exI [of _ 0]) (simp add: add)
  next
    case False
    obtain j where j: "j \<le> length es" "add_rows full es (acc @ [row_of e]) = (acc @ [row_of e]) @ take j (map row_of es)"
      "j < length es \<longrightarrow> full ((acc @ [row_of e]) @ take j (map row_of es)) (row_of (es ! j))"
      "\<forall>k < j. \<not> full ((acc @ [row_of e]) @ take k (map row_of es)) (row_of (es ! k))" using Cons.IH [of "acc @ [row_of e]"] by blast
    have "\<not> full (acc @ take k (map row_of (e # es))) (row_of ((e # es) ! k))" if "k < Suc j" for k
      using that False j(4) by (cases k) simp_all
    then show ?thesis using False j(1-3) by (intro exI [of _ "Suc j"]) (simp add: add)
  qed
qed simp

text \<open>A client that lists a directory: it asks with one reply buffer after the other, going on at the offset of the last
  row it got, until a reply is empty.\<close>

fun list_pages :: "(dir_row list \<Rightarrow> dir_row \<Rightarrow> bool) list \<Rightarrow> u64 \<Rightarrow> u64 \<Rightarrow> dir_row list fuse_st" where
  "list_pages [] ino offset = ret []"
| "list_pages (full # fulls) ino offset =
     bindM (fuse_readdir full ino offset) (\<lambda>reply.
     case reply of
       RepDirectory rows \<Rightarrow>
         if rows = [] then ret []
         else bindM (list_pages fulls ino (fst (snd (last rows)))) (\<lambda>rest. ret (rows @ rest))
     | _ \<Rightarrow> raise Panic)"

text \<open>One request in any state that reads have led to.\<close>

lemma readdir_page:
  assumes f: "fsv D f m n" "plain_names m"
    and i: "inode_at m (active_chain f m) ino = Some i" "i_mode i AND S_IFMT = S_IFDIR"
  obtains xs where "distinct (map fst xs)" "\<And>name d. (name, d) \<in> set xs \<longleftrightarrow> ino \<noteq> - 1 \<and> dirent_at m (active_chain f m) ino name = Some d"
    "\<And>g full offset. fsv D g m n \<Longrightarrow> same f g \<Longrightarrow>
       let all = rows_of (dir_entries ino (i_parent_ino i) xs)
       in \<exists>j g'. fuse_readdir full ino offset g = (Inr (RepDirectory (take j (drop (unat offset) all))), g')
          \<and> fsv D g' m n \<and> same f g' \<and> j \<le> length all - unat offset
          \<and> (j < length all - unat offset \<longrightarrow> full (take j (drop (unat offset) all)) (all ! (unat offset + j)))
          \<and> (\<forall>k < j. \<not> full (take k (drop (unat offset) all)) (all ! (unat offset + k)))"
proof -
  obtain xs where xs: "\<And>g. fsv D g m n \<Longrightarrow> same f g \<Longrightarrow> reads (list_dirents ino) D g m n xs" "distinct (map fst xs)"
    "\<forall>name d. (name, d) \<in> set xs \<longleftrightarrow> ino \<noteq> - 1 \<and> dirent_at m (active_chain f m) ino name = Some d"
    using list_dirents_same [OF f, of ino] by blast
  let ?es = "List.enumerate 0 (dir_entries ino (i_parent_ino i) xs)"
  let ?all = "rows_of (dir_entries ino (i_parent_ino i) xs)"
  show thesis
  proof (rule that [OF xs(2)])
    show "(name, d) \<in> set xs \<longleftrightarrow> ino \<noteq> - 1 \<and> dirent_at m (active_chain f m) ino name = Some d" for name d using xs(3) by blast
    fix g full and offset :: u64 assume g: "fsv D g m n" "same f g"
    have "inode_at m (active_chain g m) ino = Some i" using i(1) active_same [OF g(2), of m] by simp
    then obtain g1 where g1: "eio (get_inode ino) g = (Inr (Some i), g1)" "fsv D g1 m n" "same g g1"
      using eio_reads [OF get_inode_reads [OF g(1), of ino]] by auto
    have s1: "same f g1" by (rule same_trans [OF g(2) g1(3)])
    obtain g2 where g2: "eio (list_dirents ino) g1 = (Inr xs, g2)" "fsv D g2 m n" "same g1 g2" using eio_reads [OF xs(1) [OF g1(2) s1]] by blast
    have s2: "same f g2" by (rule same_trans [OF s1 g2(3)])
    obtain j where j: "j \<le> length (drop (unat offset) ?es)" "add_rows full (drop (unat offset) ?es) [] = take j (map row_of (drop (unat offset) ?es))"
      "j < length (drop (unat offset) ?es) \<longrightarrow> full (take j (map row_of (drop (unat offset) ?es))) (row_of (drop (unat offset) ?es ! j))"
      "\<forall>k < j. \<not> full (take k (map row_of (drop (unat offset) ?es))) (row_of (drop (unat offset) ?es ! k))"
      using add_rows_prefix [of "drop (unat offset) ?es" full "[]"] unfolding append_Nil by blast
    have all: "map row_of (drop (unat offset) ?es) = drop (unat offset) ?all" "length ?all = length ?es" by (simp_all add: rows_of_def drop_map)
    have "fuse_readdir full ino offset g = (Inr (RepDirectory (take j (drop (unat offset) ?all))), g2)"
      using g1(1) g2(1) i(2) j(2) by (simp add: fuse_readdir_def bindM_Inr all(1))
    moreover have "row_of (drop (unat offset) ?es ! k) = ?all ! (unat offset + k)" if "k < length ?all - unat offset" for k
      using that by (simp add: rows_of_def)
    ultimately show "let all = ?all in \<exists>j g'. fuse_readdir full ino offset g = (Inr (RepDirectory (take j (drop (unat offset) all))), g')
          \<and> fsv D g' m n \<and> same f g' \<and> j \<le> length all - unat offset
          \<and> (j < length all - unat offset \<longrightarrow> full (take j (drop (unat offset) all)) (all ! (unat offset + j)))
          \<and> (\<forall>k < j. \<not> full (take k (drop (unat offset) all)) (all ! (unat offset + k)))"
      unfolding Let_def using j(1,3,4) g2(2) s2 by (intro exI [of _ j] exI [of _ g2]) (simp add: all)
  qed
qed

lemma rows_cookie: "k < length (rows_of es) \<Longrightarrow> fst (snd (rows_of es ! k)) = of_nat (k + 1)"
  by (simp add: rows_of_def row_of_def nth_enumerate_eq split: prod.split)

lemma last_cookie:
  assumes "0 < j" "j \<le> length (rows_of es) - x" "length (rows_of es) < 2 ^ 64"
  shows "unat (fst (snd (last (take j (drop x (rows_of es)))))) = x + j"
proof -
  let ?all = "rows_of es"
  have "last (take j (drop x ?all)) = ?all ! (x + j - 1)" using assms(1,2) by (subst last_conv_nth) (auto simp: min_def)
  then have "fst (snd (last (take j (drop x ?all)))) = of_nat (x + j)" using assms(1,2) rows_cookie [of "x + j - 1" es] by simp
  moreover have "unat (of_nat (x + j) :: u64) = x + j" using assms by (simp add: unat_of_nat del: of_nat_add)
  ultimately show ?thesis by (simp only:)
qed

text \<open>The pages of successive requests, each in the state the request before left.\<close>

lemma list_pages_ok:
  assumes page: "\<And>g full offset. fsv D g m n \<Longrightarrow> same f g \<Longrightarrow>
       \<exists>j g'. fuse_readdir full ino offset g = (Inr (RepDirectory (take j (drop (unat offset) all))), g')
          \<and> fsv D g' m n \<and> same f g' \<and> j \<le> length all - unat offset
          \<and> (j < length all - unat offset \<longrightarrow> full (take j (drop (unat offset) all)) (all ! (unat offset + j)))
          \<and> (\<forall>k < j. \<not> full (take k (drop (unat offset) all)) (all ! (unat offset + k)))"
    and all: "all = rows_of es" "length all < 2 ^ 64"
    and g: "fsv D g m n" "same f g" and room: "\<forall>full \<in> set fulls. \<forall>row. \<not> full [] row" "length all - unat offset < length fulls"
  shows "\<exists>g'. list_pages fulls ino offset g = (Inr (drop (unat offset) all), g') \<and> fsv D g' m n \<and> same f g'"
  using g room
proof (induction fulls arbitrary: offset g)
  case (Cons full fulls)
  obtain j g1 where j: "fuse_readdir full ino offset g = (Inr (RepDirectory (take j (drop (unat offset) all))), g1)" "fsv D g1 m n" "same f g1"
    "j \<le> length all - unat offset" "j < length all - unat offset \<Longrightarrow> full (take j (drop (unat offset) all)) (all ! (unat offset + j))"
    using page [OF Cons.prems(1,2), of full offset] by blast
  show ?case
  proof (cases "j = 0")
    case True
    moreover have "\<not> full [] (all ! unat offset)" using Cons.prems(3) by (simp del: split_paired_All)
    ultimately have "\<not> 0 < length all - unat offset" using j(5) by auto
    then show ?thesis using j(1-3) True by (simp add: bindM_Inr)
  next
    case False
    let ?o = "fst (snd (last (take j (drop (unat offset) all))))"
    have o: "unat ?o = unat offset + j" unfolding all(1) using False j(4) all by (intro last_cookie) simp_all
    have rest: "length all - unat ?o < length fulls" using o Cons.prems(4) False j(4) by simp
    have fit: "\<forall>full \<in> set fulls. \<forall>row. \<not> full [] row" using Cons.prems(3) by auto
    obtain g' where g': "list_pages fulls ino ?o g1 = (Inr (drop (unat offset + j) all), g')" "fsv D g' m n" "same f g'"
      using Cons.IH [of g1 ?o, OF j(2,3) fit rest] unfolding o by blast
    have "take j (drop (unat offset) all) \<noteq> []" using False j(4) by auto
    moreover have "take j (drop (unat offset) all) @ drop (unat offset + j) all = drop (unat offset) all"
      using append_take_drop_id [of j "drop (unat offset) all"] by (simp add: add.commute)
    ultimately show ?thesis using g'(2,3)
      by (simp add: bindM_def j(1) g'(1))
  qed
qed simp

text \<open>C22. Directory replies.  The listing of a directory is the two dot entries followed by every visible entry once, row
  \<open>i\<close> carrying the offset \<open>i + 1\<close>, and it is the same in every state that reads of the file system lead to.
  A request at any offset in any such state answers with a run of the listing that starts at that offset and ends where the
  buffer has no room.  A client that asks with buffers that have room for a row, one request after the other, each at
  the offset of the last row it got and each in the state the request before left, ends after at most one more request
  than there are rows and has collected exactly the listing.\<close>

theorem readdir_pages:
  assumes f: "fsv D f m n" "plain_names m"
    and i: "inode_at m (active_chain f m) ino = Some i" "i_mode i AND S_IFMT = S_IFDIR"
  shows "\<exists>xs. distinct (map fst xs) \<and> (\<forall>name d. (name, d) \<in> set xs \<longleftrightarrow> ino \<noteq> - 1 \<and> dirent_at m (active_chain f m) ino name = Some d)
     \<and> (let all = rows_of (dir_entries ino (i_parent_ino i) xs)
        in (\<forall>k < length all. fst (snd (all ! k)) = of_nat (k + 1))
         \<and> (\<forall>g full offset. fsv D g m n \<longrightarrow> same f g \<longrightarrow>
             (\<exists>j g'. fuse_readdir full ino offset g = (Inr (RepDirectory (take j (drop (unat offset) all))), g')
              \<and> fsv D g' m n \<and> same f g' \<and> j \<le> length all - unat offset
              \<and> (j < length all - unat offset \<longrightarrow> full (take j (drop (unat offset) all)) (all ! (unat offset + j)))
              \<and> (\<forall>k < j. \<not> full (take k (drop (unat offset) all)) (all ! (unat offset + k)))))
         \<and> (\<forall>fulls. length all < length fulls \<longrightarrow> length all < 2 ^ 64 \<longrightarrow> (\<forall>full \<in> set fulls. \<forall>row. \<not> full [] row) \<longrightarrow>
             (\<exists>f'. list_pages fulls ino 0 f = (Inr all, f') \<and> fsv D f' m n \<and> same f f')))"
proof (rule readdir_page [OF f i])
  fix xs assume xs: "distinct (map fst xs)" "\<And>name d. (name, d) \<in> set xs \<longleftrightarrow> ino \<noteq> - 1 \<and> dirent_at m (active_chain f m) ino name = Some d"
    and page: "\<And>g full offset. fsv D g m n \<Longrightarrow> same f g \<Longrightarrow>
       let all = rows_of (dir_entries ino (i_parent_ino i) xs)
       in \<exists>j g'. fuse_readdir full ino offset g = (Inr (RepDirectory (take j (drop (unat offset) all))), g')
          \<and> fsv D g' m n \<and> same f g' \<and> j \<le> length all - unat offset
          \<and> (j < length all - unat offset \<longrightarrow> full (take j (drop (unat offset) all)) (all ! (unat offset + j)))
          \<and> (\<forall>k < j. \<not> full (take k (drop (unat offset) all)) (all ! (unat offset + k)))"
  let ?all = "rows_of (dir_entries ino (i_parent_ino i) xs)"
  have "\<exists>f'. list_pages fulls ino 0 f = (Inr (drop (unat (0 :: u64)) ?all), f') \<and> fsv D f' m n \<and> same f f'"
    if "length ?all < length fulls" "length ?all < 2 ^ 64" "\<forall>full \<in> set fulls. \<forall>row. \<not> full [] row" for fulls
  proof (rule list_pages_ok [OF page [unfolded Let_def] refl that(2) f(1) same_refl that(3)])
    show "length ?all - unat (0 :: u64) < length fulls" using that(1) by simp
  qed
  then show ?thesis
    unfolding Let_def unat_0 drop_0 by (intro exI [of _ xs] conjI allI impI xs page [unfolded Let_def] rows_cookie) assumption+
qed

theorem readdir_pages_witness:
  "\<exists>f f1 f2 f3. fs_new (\<lambda>_. 7) = Inr f
     \<and> put_inode 5 \<lparr>i_mode = 0x41ED, i_uid = 2, i_gid = 3, i_nlink = 2, i_size = 0, i_atime = 0, i_mtime = 0, i_ctime = 0, i_parent_ino = 1\<rparr> f = (Inr (), f1)
     \<and> list_pages (replicate 3 (\<lambda>rows _. length rows = 1)) 5 0 f1 = (Inr [(5, 1, Directory, [46]), (1, 2, Directory, [46, 46])], f2)
     \<and> fuse_readdir (\<lambda>_ _. False) 5 0 f1 = (Inr (RepDirectory [(5, 1, Directory, [46]), (1, 2, Directory, [46, 46])]), f3)"
proof -
  let ?i = "\<lparr>i_mode = 0x41ED, i_uid = 2, i_gid = 3, i_nlink = 2, i_size = 0, i_atime = 0, i_mtime = 0, i_ctime = 0, i_parent_ino = 1\<rparr>"
  let ?rows = "[(5, 1, Directory, [46]), (1, 2, Directory, [46, 46])] :: dir_row list"
  obtain f f1 m where f: "fs_new (\<lambda>_. 7) = Inr f" "put_inode 5 ?i f = (Inr (), f1)" "fsv Map.empty f1 m 0" "plain_names m"
    "inode_at m (active_chain f1 m) 5 = Some ?i" "\<And>p name. dirent_at m (active_chain f1 m) p name = None"
    using sample_mount [of 0 "\<lambda>_. 7" 5 ?i] by auto
  have "i_mode ?i AND S_IFMT = S_IFDIR" by (simp add: S_IFMT_def S_IFDIR_def)
  from readdir_pages [OF f(3-5) this] obtain xs :: "(bytes \<times> dirent_v1) list" where "\<forall>name d. (name, d) \<notin> set xs"
    and r: "\<forall>g full offset. fsv Map.empty g m 0 \<longrightarrow> same f1 g \<longrightarrow>
             (\<exists>j g'. fuse_readdir full 5 offset g = (Inr (RepDirectory (take j (drop (unat offset) (rows_of (dir_entries 5 1 xs))))), g')
              \<and> fsv Map.empty g' m 0 \<and> same f1 g' \<and> j \<le> length (rows_of (dir_entries 5 1 xs)) - unat offset
              \<and> (j < length (rows_of (dir_entries 5 1 xs)) - unat offset \<longrightarrow>
                   full (take j (drop (unat offset) (rows_of (dir_entries 5 1 xs)))) (rows_of (dir_entries 5 1 xs) ! (unat offset + j)))
              \<and> (\<forall>k < j. \<not> full (take k (drop (unat offset) (rows_of (dir_entries 5 1 xs)))) (rows_of (dir_entries 5 1 xs) ! (unat offset + k))))"
    and l: "\<forall>fulls. length (rows_of (dir_entries 5 1 xs)) < length fulls \<longrightarrow> length (rows_of (dir_entries 5 1 xs)) < 2 ^ 64
             \<longrightarrow> (\<forall>full \<in> set fulls. \<forall>row. \<not> full [] row) \<longrightarrow>
             (\<exists>f'. list_pages fulls 5 0 f1 = (Inr (rows_of (dir_entries 5 1 xs)), f') \<and> fsv Map.empty f' m 0 \<and> same f1 f')"
    using f(6) by (simp add: Let_def) blast
  have "xs = []" using \<open>\<forall>name d. (name, d) \<notin> set xs\<close> by (cases xs) auto
  then have rows: "rows_of (dir_entries 5 1 xs) = ?rows" by (simp add: rows_of_def row_of_def dir_entries_def)
  obtain f2 where f2: "list_pages (replicate 3 (\<lambda>rows _. length rows = 1)) 5 0 f1 = (Inr ?rows, f2)"
    using l [rule_format, of "replicate 3 (\<lambda>rows _. length rows = 1)"] unfolding rows by auto
  obtain f3 where "fuse_readdir (\<lambda>_ _. False) 5 0 f1 = (Inr (RepDirectory ?rows), f3)"
    using r [rule_format, OF f(3) same_refl, of "\<lambda>_ _. False" 0] unfolding rows by auto
  then show ?thesis using f(1,2) f2 by (intro exI [of _ f] exI [of _ f1] exI [of _ f2] exI [of _ f3]) simp
qed

end
