(* ===== verification/Cli.thy ===== *)
theory Cli
  imports Fuse
begin

text \<open>
  The command line of \<open>main.rs\<close>: the argument loop, the choice between a memory mount and an image, and the
  exit codes.  Which files exist, their contents, the clock, the ids of the process and whether mounting
  succeeds come from outside and are arguments.
\<close>

datatype message = ImageRequiresPath | UnknownArg string | Usage string | ImageFailed | MountFailed

datatype outcome = Finished nat "message list" | Crashed

text \<open>The loop over the arguments after the program name; \<open>Inl\<close> is an early exit.\<close>

fun parse_args :: "string \<Rightarrow> string list \<Rightarrow> string option \<Rightarrow> string option \<Rightarrow> (nat \<times> message list) + (string option \<times> string option)" where
  "parse_args prog [] img mountpoint = Inr (img, mountpoint)"
| "parse_args prog (arg # args) img mountpoint =
     (if arg = ''--image''
      then (case args of [] \<Rightarrow> Inl (2, [ImageRequiresPath]) | p # args' \<Rightarrow> parse_args prog args' (Some p) mountpoint)
      else if arg = ''-h'' \<or> arg = ''--help'' then Inl (0, [Usage prog])
      else if take 1 arg \<noteq> ''-'' \<and> mountpoint = None then parse_args prog args img (Some arg)
      else Inl (2, [UnknownArg arg, Usage prog]))"

record world =
  w_exists :: "string \<Rightarrow> bool"
  w_content :: "string \<Rightarrow> bytes"
  w_crc :: "bytes \<Rightarrow> u32"
  w_now :: u64
  w_uid :: u32
  w_gid :: u32
  w_mount :: "fs \<Rightarrow> string \<Rightarrow> bool"

definition open_fs :: "world \<Rightarrow> string option \<Rightarrow> error fault + fs" where
  "open_fs w img = (case img of
      None \<Rightarrow> fuse_new (w_crc w) (w_now w) (w_uid w) (w_gid w)
    | Some p \<Rightarrow> if w_exists w p then fuse_open_image (w_crc w) (w_content w p)
                else fuse_create_image (w_crc w) (w_now w) (w_uid w) (w_gid w))"

text \<open>\<open>args[0]\<close> is read only when the usage is printed; without it that is a panic.\<close>

definition main :: "world \<Rightarrow> string list \<Rightarrow> outcome" where
  "main w args =
     (case args of
        [] \<Rightarrow> Crashed
      | prog # rest \<Rightarrow>
          (case parse_args prog rest None None of
             Inl (code, msgs) \<Rightarrow> Finished code msgs
           | Inr (img, None) \<Rightarrow> Finished 2 [Usage prog]
           | Inr (img, Some mountpoint) \<Rightarrow>
               (case open_fs w img of
                  Inr f \<Rightarrow> if w_mount w f mountpoint then Finished 0 [] else Finished 1 [MountFailed]
                | Inl (Err e) \<Rightarrow> if img = None then Crashed else Finished 1 [ImageFailed]
                | Inl _ \<Rightarrow> Crashed)))"

end
