(* ===== verification/Cli_View.thy ===== *)
theory Cli_View
  imports Cli
begin

text \<open>
  Which command lines lead to a mount: the argument loop against the grammar it accepts, and the exit code
  of the program.
\<close>

section \<open>The command lines that mount\<close>

text \<open>The grammar the argument loop accepts: images, of which the last counts, and one mount point.\<close>

datatype token = TImage string | TMount string

fun spelled :: "token \<Rightarrow> string list" where
  "spelled (TImage p) = [''--image'', p]"
| "spelled (TMount s) = [s]"

fun token_ok :: "token \<Rightarrow> bool" where
  "token_ok (TImage p) = True"
| "token_ok (TMount s) = (take 1 s \<noteq> ''-'')"

fun image_of :: "string option \<Rightarrow> token list \<Rightarrow> string option" where
  "image_of img [] = img"
| "image_of img (TImage p # ts) = image_of (Some p) ts"
| "image_of img (TMount s # ts) = image_of img ts"

fun mounts_of :: "token list \<Rightarrow> string list" where
  "mounts_of [] = []"
| "mounts_of (TImage p # ts) = mounts_of ts"
| "mounts_of (TMount s # ts) = s # mounts_of ts"

definition names_mount :: "token list \<Rightarrow> string option \<Rightarrow> string option \<Rightarrow> bool" where
  "names_mount ts mp mp' \<longleftrightarrow> (case mp of None \<Rightarrow> mounts_of ts = (case mp' of None \<Rightarrow> [] | Some s \<Rightarrow> [s])
                                       | Some _ \<Rightarrow> mounts_of ts = [] \<and> mp' = mp)"

lemma parse_args_tokens:
  "list_all token_ok ts \<Longrightarrow> names_mount ts mp mp' \<Longrightarrow>
   parse_args prog (concat (map spelled ts)) img mp = Inr (image_of img ts, mp')"
proof (induction ts arbitrary: img mp)
  case Nil
  then show ?case by (auto simp: names_mount_def split: option.splits)
next
  case (Cons t ts)
  show ?case
  proof (cases t)
    case (TImage p)
    then have "names_mount ts mp mp'" using Cons.prems(2) by (cases mp) (simp_all add: names_mount_def)
    then show ?thesis using Cons TImage by simp
  next
    case (TMount s)
    then have s: "take 1 s \<noteq> ''-''" using Cons.prems(1) by simp
    then have "s \<noteq> ''--image'' \<and> s \<noteq> ''-h'' \<and> s \<noteq> ''--help''" by auto
    moreover have "mp = None" "mp' = Some s" "names_mount ts (Some s) mp'"
      using Cons.prems(2) TMount by (auto simp: names_mount_def split: option.splits)
    ultimately show ?thesis using Cons TMount s by simp
  qed
qed

lemma tokens_of_parse_args:
  "parse_args prog args img mp = Inr (img', mp') \<Longrightarrow>
   \<exists>ts. args = concat (map spelled ts) \<and> list_all token_ok ts \<and> names_mount ts mp mp' \<and> img' = image_of img ts"
proof (induction prog args img mp rule: parse_args.induct)
  case (1 prog img mp)
  then show ?case by (intro exI [of _ "[]"]) (auto simp: names_mount_def split: option.splits)
next
  case (2 prog arg args img mp)
  show ?case
  proof (cases "arg = ''--image''")
    case True
    then obtain p args' where a: "args = p # args'" using "2.prems" by (auto split: list.splits)
    then obtain ts where "args' = concat (map spelled ts)" "list_all token_ok ts" "names_mount ts mp mp'" "img' = image_of (Some p) ts"
      using "2.IH"(1) [OF True a] "2.prems" True by auto
    then show ?thesis using True a by (intro exI [of _ "TImage p # ts"]) (auto simp: names_mount_def split: option.splits)
  next
    case False
    then have o: "\<not> (arg = ''-h'' \<or> arg = ''--help'')" "take 1 arg \<noteq> ''-'' \<and> mp = None"
      using "2.prems" by (auto split: if_splits)
    then obtain ts where "args = concat (map spelled ts)" "list_all token_ok ts" "names_mount ts (Some arg) mp'" "img' = image_of img ts"
      using "2.IH"(2) [OF False o] "2.prems" False by auto
    then show ?thesis using o by (intro exI [of _ "TMount arg # ts"]) (auto simp: names_mount_def)
  qed
qed

text \<open>C39. The program ends with exit code 0 and no message exactly for the command lines that spell any number of
  images and one mount point, when the image named last (or a fresh memory file system) opens and mounts.\<close>

theorem main_mounts:
  "main w (prog # args) = Finished 0 [] \<longleftrightarrow>
     (\<exists>ts s f. args = concat (map spelled ts) \<and> list_all token_ok ts \<and> mounts_of ts = [s]
        \<and> open_fs w (image_of None ts) = Inr f \<and> w_mount w f s)"
proof -
  have quiet: "parse_args prog as img mp \<noteq> Inl (0, [])" for as img mp
    by (induction prog as img mp rule: parse_args.induct) (auto split: list.splits)
  have "main w (prog # args) = Finished 0 [] \<longleftrightarrow>
      (\<exists>img s f. parse_args prog args None None = Inr (img, Some s) \<and> open_fs w img = Inr f \<and> w_mount w f s)"
    using quiet [of args None None] by (auto simp: main_def split: sum.splits option.splits if_splits fault.splits)
  moreover have "parse_args prog args None None = Inr (img, Some s) \<longleftrightarrow>
      (\<exists>ts. args = concat (map spelled ts) \<and> list_all token_ok ts \<and> mounts_of ts = [s] \<and> img = image_of None ts)" for img s
    using tokens_of_parse_args [of prog args None None img "Some s"] parse_args_tokens [of _ None "Some s" prog None]
    by (auto simp: names_mount_def)
  ultimately show ?thesis by auto
qed

end
