(* ===== verification/Fuzz_Oracle.thy ===== *)
theory Fuzz_Oracle
  imports Fuse
begin

text \<open>
  The differential harness of \<open>fuzz/fuzz_targets/fs_ops.rs\<close>: operations run on a file system and, in
  parallel, on shadow maps; after each of them the file system is compared with the shadow of the active
  subvolume and with the frozen shadow of every tracked snapshot.  A failed comparison and an unexpected
  error are panics.  Closing and reopening the image is \<open>fs_open\<close> on the bytes of the device.
\<close>

section \<open>The shadow\<close>

definition N_FILES :: u64 where "N_FILES = 5"
definition N_OFFSETS :: u64 where "N_OFFSETS = 4"
definition MAX_OPS :: nat where "MAX_OPS = 256"
definition MAX_SNAPS :: nat where "MAX_SNAPS = 4"

record cell =
  c_fill :: u8
  c_len :: nat

type_synonym shadow = "u64 \<times> u64 \<rightharpoonup> cell"

record snap =
  sn_subvol :: subvol_id
  sn_content :: shadow

datatype fop =
    OpWrite u8 u8 u8 u16
  | OpRead u8 u16 u16
  | OpUnlink u8
  | OpSync
  | OpGc
  | OpReclaim
  | OpSnapshot
  | OpDeleteSnap u8
  | OpReopen

definition ino_of :: "u8 \<Rightarrow> u64" where
  "ino_of file = 2 + ucast file mod N_FILES"

definition name_of :: "u8 \<Rightarrow> bytes" where
  "name_of file = [97 + file mod 5]"

definition offset_of :: "u8 \<Rightarrow> u64" where
  "offset_of off = (ucast off mod N_OFFSETS) * of_nat BLOCK_SIZE"

definition slot_of :: "u8 \<Rightarrow> nat" where
  "slot_of file = unat (file mod 5)"

section \<open>Expected results\<close>

definition expected_byte :: "shadow \<Rightarrow> u64 \<Rightarrow> u64 \<Rightarrow> u8" where
  "expected_byte shadow ino pos =
     (let block_off = block_start pos
      in case shadow (ino, block_off) of
           None \<Rightarrow> 0
         | Some cell \<Rightarrow> if unat (pos - block_off) < c_len cell then c_fill cell else 0)"

definition expected_read :: "shadow \<Rightarrow> u64 \<Rightarrow> u64 \<Rightarrow> u64 \<Rightarrow> u32 \<Rightarrow> bytes" where
  "expected_read shadow ino sz off len =
     (if sz \<le> off then []
      else let en = min (off + ucast len) sz
           in map (\<lambda>i. expected_byte shadow ino (off + of_nat i)) [0..<unat (en - off)])"

text \<open>One cell of \<open>check_view\<close>: same length, fill bytes up to the length, zeros after it; neither side may have an
  extent the other lacks.\<close>

definition check_cell :: "shadow \<Rightarrow> u64 \<Rightarrow> u64 \<Rightarrow> unit fs_st" where
  "check_cell shadow ino off =
     bindM (unwrapM (get_extent ino off)) (\<lambda>got.
     case (shadow (ino, off), got) of
       (Some cell, Some ext) \<Rightarrow>
         if unat (x_len ext) \<noteq> c_len cell then raise Panic
         else bindM (unwrapM (read_data_block (x_data_block ext))) (\<lambda>block.
              if block = map (\<lambda>i. if i < c_len cell then c_fill cell else 0) [0..<length block] then ret () else raise Panic)
     | (None, None) \<Rightarrow> ret ()
     | _ \<Rightarrow> raise Panic)"

definition check_view :: "shadow \<Rightarrow> unit fs_st" where
  "check_view shadow =
     forM [0..<unat N_FILES] (\<lambda>file. forM [0..<unat N_OFFSETS] (\<lambda>off_idx.
       check_cell shadow (ino_of (of_nat file)) (offset_of (of_nat off_idx))))"

definition drop_err :: "'a fsx_st \<Rightarrow> 'a fs_st" where
  "drop_err m f = (case m f of
      (Inr x, f') \<Rightarrow> (Inr x, f')
    | (Inl Diverge, f') \<Rightarrow> (Inl Diverge, f')
    | (Inl _, f') \<Rightarrow> (Inl Panic, f'))"

definition check_snapshots :: "snap list \<Rightarrow> unit fs_st" where
  "check_snapshots snaps =
     bindM (forM snaps (\<lambda>sn.
       bindM (drop_err (switch_subvol (sn_subvol sn))) (\<lambda>_. check_view (sn_content sn)))) (\<lambda>_.
     drop_err (switch_subvol ROOT_SUBVOL))"

section \<open>The harness\<close>

record harness =
  h_fs :: fs
  h_active :: shadow
  h_sizes :: "u64 list"
  h_live :: "bool list"
  h_snaps :: "snap list"

type_synonym 'a h_st = "(harness, error, 'a) st"

definition on_fs :: "'a fs_st \<Rightarrow> 'a h_st" where
  "on_fs m = on_part h_fs (\<lambda>f h. h\<lparr>h_fs := f\<rparr>) m"

text \<open>A result whose error the harness tolerates.\<close>

definition tolerate :: "('s, 'e, 'a) st \<Rightarrow> ('s, 'f, 'a option) st" where
  "tolerate m s = (case m s of
      (Inr x, s') \<Rightarrow> (Inr (Some x), s')
    | (Inl (Err _), s') \<Rightarrow> (Inr None, s')
    | (Inl Panic, s') \<Rightarrow> (Inl Panic, s')
    | (Inl Diverge, s') \<Rightarrow> (Inl Diverge, s'))"

definition fresh_fs :: "unit fs_st" where
  "fresh_fs =
     bindM (unwrapM (put_inode ROOT_INO \<lparr>i_mode = 0x41ED, i_uid = 0, i_gid = 0, i_nlink = 2, i_size = 0,
              i_atime = 0, i_mtime = 0, i_ctime = 0, i_parent_ino = ROOT_INO\<rparr>)) (\<lambda>_.
     bindM (forM [0..<unat N_FILES] (\<lambda>file.
       let ino = ino_of (of_nat file)
       in bindM (unwrapM (put_inode ino \<lparr>i_mode = 0x81A4, i_uid = 0, i_gid = 0, i_nlink = 1, i_size = 0,
                   i_atime = 0, i_mtime = 0, i_ctime = 0, i_parent_ino = ROOT_INO\<rparr>)) (\<lambda>_.
          unwrapM (put_dirent ROOT_INO (name_of (of_nat file)) (dirent_new ino FILE_KIND_REGULAR))))) (\<lambda>_.
     unwrapM journal_commit))"

text \<open>An operation returns whether the comparison follows it: \<open>continue\<close> skips it.\<close>

definition run_write :: "u8 \<Rightarrow> u8 \<Rightarrow> u8 \<Rightarrow> u16 \<Rightarrow> bool h_st" where
  "run_write file off fill len =
     bindM (gets h_live) (\<lambda>live.
     if \<not> live ! slot_of file then ret False
     else let ino = ino_of file; offset = offset_of off; n = unat len mod BLOCK_SIZE + 1; en = offset + of_nat n
          in bindM (on_fs (unwrapM (put_extent ino offset (replicate n fill)))) (\<lambda>_.
             bindM (on_fs (unwrapM (get_inode ino))) (\<lambda>r.
             bindM (expect r) (\<lambda>inode.
             bindM (on_fs (unwrapM (put_inode ino (inode\<lparr>i_size := max (i_size inode) en\<rparr>)))) (\<lambda>_.
             bindM (on_fs (unwrapM journal_commit)) (\<lambda>_.
             bindM (modify (\<lambda>h. h\<lparr>h_active := (h_active h)((ino, offset) \<mapsto> \<lparr>c_fill = fill, c_len = n\<rparr>),
                           h_sizes := (h_sizes h)[slot_of file := max (h_sizes h ! slot_of file) en]\<rparr>)) (\<lambda>_.
             ret True)))))))"

definition run_read :: "u8 \<Rightarrow> u16 \<Rightarrow> u16 \<Rightarrow> bool h_st" where
  "run_read file off len =
     (let span = N_OFFSETS * of_nat BLOCK_SIZE; off' = ucast off mod (span + 1); len' = ucast len mod (ucast span + 1)
      in bindM (on_fs (unwrapM (fs_read_at (ino_of file) off' len'))) (\<lambda>got.
         bindM (gets (\<lambda>h. expected_read (h_active h) (ino_of file) (h_sizes h ! slot_of file) off' len')) (\<lambda>want.
         if got = want then ret True else raise Panic)))"

definition run_unlink :: "u8 \<Rightarrow> bool h_st" where
  "run_unlink file =
     bindM (gets h_live) (\<lambda>live.
     if \<not> live ! slot_of file then ret False
     else bindM (on_fs (tolerate (unlink ROOT_INO (name_of file)))) (\<lambda>r.
          if r = None then ret True
          else bindM (on_fs (unwrapM journal_commit)) (\<lambda>_.
               bindM (on_fs (tolerate (reclaim_deleted_inodes (2 ^ 64 - 1)))) (\<lambda>_.
               bindM (on_fs (unwrapM journal_commit)) (\<lambda>_.
               bindM (modify (\<lambda>h. h\<lparr>h_active := (\<lambda>(i, x). if i = ino_of file then None else h_active h (i, x)),
                             h_sizes := (h_sizes h)[slot_of file := 0], h_live := (h_live h)[slot_of file := False]\<rparr>)) (\<lambda>_.
               ret True))))))"

definition run_snapshot :: "bool h_st" where
  "run_snapshot =
     bindM (on_fs (tolerate (snapshot_subvol ROOT_SUBVOL))) (\<lambda>r.
     case r of None \<Rightarrow> ret True
     | Some sub \<Rightarrow>
         bindM (on_fs (unwrapM journal_commit)) (\<lambda>_.
         bindM (modify (\<lambda>h. if length (h_snaps h) < MAX_SNAPS
                      then h\<lparr>h_snaps := h_snaps h @ [\<lparr>sn_subvol = sub, sn_content = h_active h\<rparr>]\<rparr> else h)) (\<lambda>_. ret True)))"

definition run_delete_snap :: "u8 \<Rightarrow> bool h_st" where
  "run_delete_snap which =
     bindM (gets h_snaps) (\<lambda>snaps.
     if snaps = [] then ret False
     else let idx = unat which mod length snaps
          in bindM (on_fs (tolerate (delete_snapshot (sn_subvol (snaps ! idx))))) (\<lambda>r.
             if r = None then ret True
             else bindM (on_fs (unwrapM journal_commit)) (\<lambda>_.
                  bindM (modify (\<lambda>h. h\<lparr>h_snaps := take idx snaps @ drop (idx + 1) snaps\<rparr>)) (\<lambda>_. ret True))))"

definition reopen_fs :: "fs \<Rightarrow> error fault + fs" where
  "reopen_fs f = (let st = store (ctx (tree f)) in fs_open (crc32 st) (dev_data (device st)))"

definition run_reopen :: "unit h_st" where
  "run_reopen =
     bindM (on_fs (unwrapM fs_sync)) (\<lambda>_. (\<lambda>h. case reopen_fs (h_fs h) of
        Inr f \<Rightarrow> (Inr (), h\<lparr>h_fs := f\<rparr>)
      | Inl Diverge \<Rightarrow> (Inl Diverge, h)
      | Inl _ \<Rightarrow> (Inl Panic, h)))"

fun run_op :: "fop \<Rightarrow> bool h_st" where
  "run_op (OpWrite file off fill len) = run_write file off fill len"
| "run_op (OpRead file off len) = run_read file off len"
| "run_op (OpUnlink file) = run_unlink file"
| "run_op OpSync = bindM (on_fs (unwrapM fs_sync)) (\<lambda>_. ret True)"
| "run_op OpGc = bindM (on_fs (unwrapM fs_gc)) (\<lambda>_. ret True)"
| "run_op OpReclaim = bindM (on_fs (tolerate (reclaim_deleted_inodes (2 ^ 64 - 1)))) (\<lambda>_.
     bindM (on_fs (unwrapM journal_commit)) (\<lambda>_. ret True))"
| "run_op OpSnapshot = run_snapshot"
| "run_op (OpDeleteSnap which) = run_delete_snap which"
| "run_op OpReopen = bindM run_reopen (\<lambda>_. ret True)"

definition check_all :: "unit h_st" where
  "check_all = bindM (gets (\<lambda>h. h)) (\<lambda>h. on_fs (bindM (check_view (h_active h)) (\<lambda>_. check_snapshots (h_snaps h))))"

text \<open>The target on the operations that the input decodes to.\<close>

definition fuzz_run :: "fop list \<Rightarrow> unit h_st" where
  "fuzz_run ops =
     bindM (forM (take MAX_OPS ops) (\<lambda>op. bindM (run_op op) (\<lambda>c. if c then check_all else ret ()))) (\<lambda>_.
     bindM (on_fs (unwrapM fs_gc)) (\<lambda>_.
     bindM check_all (\<lambda>_.
     bindM run_reopen (\<lambda>_.
     check_all))))"

definition fuzz_target :: "(bytes \<Rightarrow> u32) \<Rightarrow> fop list \<Rightarrow> error fault + unit" where
  "fuzz_target crc ops =
     (case fs_create crc of
        Inl _ \<Rightarrow> Inl Panic
      | Inr f0 \<Rightarrow>
          (case fresh_fs f0 of
             (Inl e, _) \<Rightarrow> Inl e
           | (Inr _, f) \<Rightarrow> fst (fuzz_run ops \<lparr>h_fs = f, h_active = Map.empty, h_sizes = replicate (unat N_FILES) 0,
                                  h_live = replicate (unat N_FILES) True, h_snaps = []\<rparr>)))"

end
