(* ===== verification/Oracle_View.thy ===== *)
theory Oracle_View
  imports Fs_Read Fuzz_Oracle
begin

text \<open>
  The shadow of the differential harness against the file system: what a passing comparison of one cell
  says about the stored extent, and that the reads the harness expects are the reads of the file system.
\<close>

definition cell_agrees :: "shadow \<Rightarrow> kvmap \<Rightarrow> (u64 \<rightharpoonup> bytes) \<Rightarrow> snap_id list \<Rightarrow> u64 \<Rightarrow> u64 \<Rightarrow> bool" where
  "cell_agrees sh m D chain ino boff =
     (case sh (ino, boff) of
        None \<Rightarrow> extent_at m chain ino boff = None
      | Some c \<Rightarrow> (\<exists>e b. extent_at m chain ino boff = Some e \<and> unat (x_len e) = c_len c \<and> D (x_data_block e) = Some b
          \<and> b = map (\<lambda>i. if i < c_len c then c_fill c else 0) [0..<length b]))"

lemma check_cell_agrees:
  assumes "fsv D f m n" "file_ok m D (active_chain f m) ino"
  shows "fst (check_cell sh ino boff f) = Inr () \<longleftrightarrow> cell_agrees sh m D (active_chain f m) ino boff"
proof -
  obtain f1 where f1: "unwrapM (get_extent ino boff) f = (Inr (extent_at m (active_chain f m) ino boff), f1)" "fsv D f1 m n"
    using reads_result [OF unwrap_reads [OF get_extent_reads [OF assms(1), of ino boff]]] by blast
  show ?thesis
  proof (cases "extent_at m (active_chain f m) ino boff")
    case None
    then show ?thesis using f1(1) by (cases "sh (ino, boff)") (simp_all add: check_cell_def bindM_Inr cell_agrees_def)
  next
    case (Some e)
    then obtain b where b: "D (x_data_block e) = Some b" using file_okD [OF assms(2)] by blast
    obtain f2 where "unwrapM (read_data_block (x_data_block e)) f1 = (Inr b, f2)"
      using reads_result [OF unwrap_reads [OF read_data_reads [OF f1(2) b]]] by blast
    then show ?thesis using f1(1) Some b by (cases "sh (ino, boff)") (simp_all add: check_cell_def bindM_Inr cell_agrees_def)
  qed
qed

lemma expected_byte_at:
  assumes "file_ok m D chain ino" "cell_agrees sh m D chain ino (block_start pos)"
  shows "expected_byte sh ino pos = byte_at m D chain ino (unat pos)"
proof -
  let ?b = "block_start pos"
  have i: "unat (pos - ?b) = unat pos mod 4096" by (rule in_block)
  have "unat pos < 2 ^ 64" using unsigned_less [of pos, where ?'a = nat] by simp
  then have "of_nat (unat pos div 4096 * 4096) = ?b"
    using block_index [of "unat pos"] by (simp add: word_unat_eq_iff unat_block_start)
  then have byte: "byte_at m D chain ino (unat pos) = block_of m D chain ino ?b ! (unat pos mod 4096)" unfolding byte_at_def by argo
  show ?thesis
  proof (cases "sh (ino, ?b)")
    case None
    then have "extent_at m chain ino ?b = None" using assms(2) by (simp add: cell_agrees_def)
    then show ?thesis by (simp add: expected_byte_def None byte block_of_def)
  next
    case (Some c)
    then obtain e b where e: "extent_at m chain ino ?b = Some e" "unat (x_len e) = c_len c" "D (x_data_block e) = Some b"
      "b = map (\<lambda>i. if i < c_len c then c_fill c else 0) [0..<length b]" using assms(2) by (auto simp: cell_agrees_def)
    have len: "length b = 4096" "c_len c \<le> 4096" using file_okD [OF assms(1) e(1)] e(2,3) by auto
    have "b ! k = c_fill c" if "k < c_len c" for k
      using that len by (subst e(4)) simp
    then show ?thesis using e(2,3) len by (simp add: expected_byte_def Some i byte block_of_def e(1) nth_append)
  qed
qed

text \<open>C38. The oracle of the differential harness is the read of the file system: when the comparison of every block
  of a file passes, \<open>read_at\<close> returns exactly what \<open>expected_read\<close> computes from the shadow, for every offset,
  length and size.\<close>

theorem read_matches_oracle:
  assumes f: "fsv D f m n" and ok: "file_ok m D (active_chain f m) ino"
    and i: "inode_at m (active_chain f m) ino = Some i" "unat (i_size i) \<le> 2 ^ 63"
    and pass: "\<And>pos. fst (check_cell sh ino (block_start pos) f) = Inr ()"
    and range: "unat off + unat len < 2 ^ 64"
  shows "\<exists>f'. fs_read_at ino off len f = (Inr (expected_read sh ino (i_size i) off len), f') \<and> fsv D f' m n"
proof -
  let ?c = "active_chain f m"
  have "unat (off + ucast len) = unat off + unat len" using range unat_u32_u64 [of len] by (simp add: unat_word_ariths)
  then have en: "unat (min (off + ucast len) (i_size i)) = min (unat off + unat len) (unat (i_size i))" by (simp add: min_def word_le_nat_alt)
  have "expected_read sh ino (i_size i) off len = map (byte_at m D ?c ino) [unat off..<min (unat off + unat len) (unat (i_size i))]"
  proof (cases "i_size i \<le> off")
    case True
    then show ?thesis by (simp add: expected_read_def word_le_nat_alt min_def)
  next
    case False
    let ?e = "min (unat off + unat len) (unat (i_size i))"
    have out: "unat (min (off + ucast len) (i_size i) - off) = ?e - unat off"
      using en False by (simp add: unat_sub_if' word_le_nat_alt)
    have "expected_byte sh ino (off + of_nat k) = byte_at m D ?c ino (unat off + k)" if "k < ?e - unat off" for k
    proof -
      have "unat (off + of_nat k) = unat off + k" using that i(2) by (simp add: unat_word_ariths unat_of_nat)
      then show ?thesis using expected_byte_at [OF ok] pass check_cell_agrees [OF f ok] by metis
    qed
    then show ?thesis using False out
      by (auto simp: expected_read_def Let_def nth_upt less_diff_conv add.commute simp del: min_less_iff_conj intro!: nth_equalityI)
  qed
  then show ?thesis using reads_result [OF read_at_reads [OF f ok i(1,2) range]] by auto
qed

theorem read_matches_oracle_witness:
  "\<exists>f f' f''. fs_new (\<lambda>_. 7) = Inr f
     \<and> put_inode 5 \<lparr>i_mode = 1, i_uid = 2, i_gid = 3, i_nlink = 1, i_size = 3, i_atime = 0, i_mtime = 0, i_ctime = 0, i_parent_ino = 1\<rparr> f = (Inr (), f')
     \<and> fs_read_at 5 1 100 f' = (Inr (expected_read Map.empty 5 3 1 100), f'')"
proof -
  let ?i = "\<lparr>i_mode = 1, i_uid = 2, i_gid = 3, i_nlink = 1, i_size = 3, i_atime = 0, i_mtime = 0, i_ctime = 0, i_parent_ino = 1\<rparr>"
  obtain f f' m where f: "fs_new (\<lambda>_. 7) = Inr f" "put_inode 5 ?i f = (Inr (), f')" "fsv Map.empty f' m 0"
    "file_ok m Map.empty (active_chain f' m) 5" "inode_at m (active_chain f' m) 5 = Some ?i"
    using sample_file [of 0 "\<lambda>_. 7" 5 ?i] by auto
  have "extent_at m (active_chain f' m) 5 x = None" for x
    using file_okD [OF f(4), of x] by (cases "extent_at m (active_chain f' m) 5 x") auto
  then have "fst (check_cell Map.empty 5 (block_start pos) f') = Inr ()" for pos
    using check_cell_agrees [OF f(3,4)] by (simp add: cell_agrees_def)
  from read_matches_oracle [OF f(3-5) _ this, of 1 100] show ?thesis using f(1,2) by auto
qed

end
