(* ===== verification/Spec2Isabelle.thy ===== *)
theory Spec2Isabelle
  imports Store_Coherence Tree_Depth Fs_Sync Fs_Truncate Fuse_View Cli_View Oracle_View
begin

text \<open>
  Verification of rfs, a copy-on-write B-tree file system with snapshots that is mounted through FUSE.

  \<^bold>\<open>The program.\<close>  A block device (\<open>src/device.rs\<close>) carries a superblock, a journal ring and 4096-byte blocks.  The block
  store (\<open>src/storage.rs\<close>) caches nodes and data blocks over it and allocates block numbers.  A B-tree
  (\<open>src/btree.rs\<close>) of byte-level nodes (\<open>src/block_btree.rs\<close>) maps sortable keys, a logical key followed by a
  big-endian snapshot id, to an entry kind (live, deleted, whiteout) and a value.  The file system (\<open>src/fs.rs\<close>) keeps
  inodes, directory entries, extents, snapshots, subvolumes and deferred deletions in that one tree, file data in
  blocks of the same store, and logs tree writes in the journal (\<open>src/journal.rs\<close>).  The FUSE handlers
  (\<open>src/fuse.rs\<close>) answer the kernel's requests from it, \<open>src/main.rs\<close> mounts it, and
  \<open>fuzz/fuzz_targets/fs_ops.rs\<close> runs it against shadow maps.

  \<^bold>\<open>Conventions.\<close>  Every stateful operation is a function of the monad \<open>('s, 'e, 'a) st\<close> of \<open>Rfs_Prelude\<close>: it takes the
  state and returns a result or a fault together with the state.  A fault is \<open>Err e\<close> (the code returns \<open>Err\<close>), \<open>Panic\<close>
  (an assertion, \<open>unwrap\<close>, index or slice out of range) or \<open>Diverge\<close> (the fuel of a walk ran out).  \<open>runs m s P\<close> says that
  \<open>m\<close> returns normally with a result that satisfies \<open>P\<close>, so the theorems stated with it also say that the code
  does not fail.  Machine integers are words and wrap as in a release build; \<open>usize\<close> is \<open>nat\<close>.

  \<^bold>\<open>Models, theory by source file.\<close>
  \<^item> \<open>Device\<close> is \<open>device.rs\<close>: \<open>read_at\<close>, \<open>write_at\<close>, \<open>set_len\<close>, \<open>dev_sync\<close> on both kinds of device, and the error type.
  \<^item> \<open>Block_Btree\<close> is \<open>block_btree.rs\<close>: the node as header and body bytes, its bsets and entries, every accessor and
    mutation, \<open>merged_find\<close> and the merged iterator.
  \<^item> \<open>Storage\<close> is \<open>storage.rs\<close>: superblock and journal-frame formats, caches, \<open>alloc\<close>, \<open>free\<close>, node and data reads and writes,
    flushing, and the free-list chain.  \<open>Journal\<close> is \<open>journal.rs\<close>.
  \<^item> \<open>Btree\<close> is \<open>btree.rs\<close>: search, insertion with splits in both write modes, scans, kind flips, compaction, checkpoint
    flush, transactions, logging and replay.
  \<^item> \<open>Fs_Format\<close> (keys and values) and \<open>Fs\<close> (every method) are \<open>fs.rs\<close>; \<open>Fuse\<close> is \<open>fuse.rs\<close> (every handler), \<open>Cli\<close> is \<open>main.rs\<close>,
    \<open>Fuzz_Oracle\<close> is the harness.

  \<^bold>\<open>What the lemmas show.\<close>
  \<^item> Nodes.  \<open>Node_Layout\<close>: every byte-level operation is an update of a list of bsets.  \<open>Merged_View\<close>: search and iteration
    over the bsets read the map in which later bsets override earlier ones.
  \<^item> Store.  \<open>Store_View\<close>: formats round trip, a written node is read back from the cache and from the device.  \<open>Free_List\<close>: the
    allocator never hands out an allocated block and its chain survives a reload.  \<open>Journal\<close>: the recovery scan returns exactly the
    complete groups.  \<open>Store_Coherence\<close>: a step relation with one rule per operation of the store, and the invariant that what is
    cached and clean is what the device holds.
  \<^item> Tree.  \<open>Tree_Leaf\<close>, \<open>Tree_Node\<close>, \<open>Tree_View\<close>, \<open>Tree_Steps\<close>, \<open>Tree_Shape\<close>, \<open>Leaf_Insert\<close>, \<open>Tree_Insert\<close>, \<open>Tree_Read\<close>, \<open>Tree_Flip\<close>
    and \<open>Btree_Map\<close> lead from bset lists to \<open>holds c r B m\<close>, the tree at root \<open>r\<close> stores the map \<open>m\<close> in the blocks \<open>B\<close>, and give
    insertion, lookup, scan and deletion in these terms.
  \<^item> Snapshots and transactions.  \<open>Snap_View\<close>: lookups and scans through a chain of snapshots equal the walk along the
    chain.  The locale \<open>snap_kv\<close> of \<open>Snap_Kv\<close> is the contract of the tree's key-value interface; \<open>Btree_Api\<close> interprets it on the
    direct methods (\<open>direct\<close>) and on a transaction (\<open>scoped\<close>).  \<open>Transactions\<close>: commits are complete, aborts leave no
    trace, the log replays.  \<open>Tree_Depth\<close>: the walks return the same for every bound on their depth from 54 on.
  \<^item> File system.  The locale \<open>fixed_codec\<close> is interpreted on the six value structs.  \<open>Fs_View\<close> gives each method a rule on the
    abstract map (\<open>fsv\<close>).  The locale \<open>scan_family\<close> of \<open>Fs_Scans\<close> is interpreted on the listings.  \<open>Fs_Data\<close> and \<open>Fs_Read\<close>: files are
    byte arrays.  \<open>Fs_Truncate\<close>: truncation cuts them.  \<open>Fs_Dirs\<close>: directory operations on every branch.  \<open>Fs_Snap\<close>: a snapshot shares the view of its source
    and is isolated from later writes.
  \<^item> Checkpoints.  \<open>Checkpoint\<close>: the flush walk leaves a tree with the same contents that the device holds without any cache.
    \<open>Fs_Sync\<close>: after \<open>sync\<close>, \<open>open\<close> on the bytes of the device returns the same file system.  The hypothesis \<open>backed_volume\<close> says that every
    node edited in place can be reached through cached nodes, which is what the walk of the code relies on, and that data blocks
    have been written through; a new tree and every opened image satisfy it.
  \<^item> Front ends.  \<open>Fuse_View\<close>: create, lookup, write, read and readdir requests compose.  \<open>Cli_View\<close>: the command lines that
    mount.  \<open>Oracle_View\<close>: the expected reads of the harness are the reads of the file system.

  \<^bold>\<open>Bounds and fuel.\<close>  Walks down the tree get \<open>TREE_FUEL = 512\<close> levels; a stored tree of level \<open>L\<close> uses at least \<open>2 ^ L\<close> distinct blocks,
  and the blocks of a volume are numbered below \<open>2 ^ 52\<close> (a block offset is a \<open>u64\<close>), so the level is at most 52 and the fuel
  is never used up: every bound from 54 on gives the same result (\<open>Tree_Depth\<close>).
  One tree write allocates at most \<open>OP_COST = 214\<close> blocks and sequence numbers; \<open>room n\<close> says that the two counters leave space for \<open>n\<close>
  writes.  The ancestor walk gets \<open>CHAIN_FUEL = 2 ^ 32\<close> steps, enough because each step of the code goes to a
  larger snapshot id.  Loading a free-list chain gets \<open>LOAD_FUEL = 2 ^ 52\<close> steps, one for each block; a cyclic chain is \<open>Diverge\<close>.

  \<^bold>\<open>Reach of the theorems.\<close>  Listings of directories assume \<open>plain_names\<close>, under which the versions of one name are adjacent in key order.
  The handlers that commit are followed on a mount without journal and without deferred deletions.  \<open>sync_then_open\<close> opens an image without
  journal frames after the checkpoint; that complete groups are found (\<open>Journal\<close>), that records decode (\<open>Fs_Format\<close>) and that
  replaying a log reproduces the tree (\<open>Transactions\<close>) is shown separately.  Compaction, garbage collection, deferred reclaim and the deletion of
  snapshots are modelled and used by the harness, without theorems of their own.

  \<^bold>\<open>Parameters.\<close>  The checksum \<open>crc32fast::hash\<close>, the clock, the caller's ids, the contents and existence of image files, the
  room in a directory reply, the outcome of \<open>fuser::mount2\<close> and the iteration order of hash maps are arguments.

  \<^bold>\<open>Not modelled.\<close>  Failures of the operating system below the device, the crates \<open>fuser\<close> and \<open>arbitrary\<close> (mounting, the wire
  protocol, decoding of fuzz input), the texts of messages, the unit tests, benchmarks and shell
  scripts, and concurrency: every handler of the front end
  takes one mutex for its whole run, so handlers are atomic steps.  \<open>lib.rs\<close> only declares the modules.
\<close>

end
